(* ===== verification/Prelude.thy ===== *)
theory Prelude
  imports Main "HOL-Library.Word"
begin

unbundle bit_operations_syntax

text \<open>
  Shared vocabulary of the development: the C integer types at their width, the
  outcome of a kernel operation (normal return, \<^verbatim>\<open>panic()\<close>, or going to sleep on a
  channel), the collections of facts the component theories extend, and generic
  lemmas on lists and words.
\<close>

section \<open>C integers\<close>

text \<open>
  \<^verbatim>\<open>kernel/types.h\<close>: \<^verbatim>\<open>uchar/uint8\<close>, \<^verbatim>\<open>ushort/uint16\<close>, \<^verbatim>\<open>uint/uint32\<close> and
  \<^verbatim>\<open>uint64\<close> are words. A signed C \<^verbatim>\<open>int\<close> is a HOL \<^typ>\<open>int\<close>; where the code can leave the
  32-bit range the model wraps with \<open>wrap32\<close>, which is what the 32-bit
  instructions of the RISC-V target do.
\<close>

type_synonym u8 = "8 word"
type_synonym u16 = "16 word"
type_synonym u32 = "32 word"
type_synonym u64 = "64 word"

definition wrap32 :: "int \<Rightarrow> int" where
  "wrap32 x = sint (word_of_int x :: u32)"

lemma wrap32_id: "- (2 ^ 31) \<le> x \<Longrightarrow> x < 2 ^ 31 \<Longrightarrow> wrap32 x = x"
  by (simp add: wrap32_def sint_sbintrunc' signed_take_bit_int_eq_self)

lemma wrap32_range: "- (2 ^ 31) \<le> wrap32 x" "wrap32 x < 2 ^ 31"
  unfolding wrap32_def
  using sint_greater_eq [of "word_of_int x :: u32"] sint_less [of "word_of_int x :: u32"]
  by simp_all

section \<open>Outcomes of kernel operations\<close>

text \<open>
  The channels processes sleep on are addresses of kernel objects; distinct
  constructors and arguments stand for distinct addresses: a process (\<^verbatim>\<open>wait\<close>), the
  tick counter, the log, the read and write counters of a pipe, the sleep lock of a
  buffer or of an inode, a buffer in flight, the descriptor table, the console's read
  index and the UART's transmit channel. \<open>ChNone\<close> is no channel: a process that gives up the CPU by
  \<^verbatim>\<open>yield\<close> or for good by \<^verbatim>\<open>exit\<close> waits for nothing.
\<close>

datatype chan = ChProc nat | ChTicks | ChLog | ChPipeRead u64 | ChPipeWrite u64
  | ChBufLock nat | ChInodeLock nat | ChBuf nat | ChDiskFree | ChCons | ChUart | ChNone

text \<open>
  An operation runs in a state and either returns a value and a new state, stops the
  machine in \<^verbatim>\<open>panic(msg)\<close>, or gives up the CPU in \<^verbatim>\<open>sleep(chan, lk)\<close> in a state where the
  process is marked asleep. \<open>obind\<close> is C's sequencing of two statements.
\<close>

datatype ('a, 's) outcome = Done 'a 's | Panic string | Asleep chan 's

primrec obind :: "('a, 's) outcome \<Rightarrow> ('a \<Rightarrow> 's \<Rightarrow> ('b, 's) outcome) \<Rightarrow> ('b, 's) outcome" where
  "obind (Done a s) f = f a s"
| "obind (Panic msg) f = Panic msg"
| "obind (Asleep c s) f = Asleep c s"

named_theorems outcome_simps "rewrite rules for outcomes of composed operations"

lemma obind_Done_iff [outcome_simps]:
  "obind m f = Done b s' \<longleftrightarrow> (\<exists>a s. m = Done a s \<and> f a s = Done b s')"
  by (cases m) auto

lemma obind_Panic_iff [outcome_simps]:
  "obind m f = Panic e \<longleftrightarrow> m = Panic e \<or> (\<exists>a s. m = Done a s \<and> f a s = Panic e)"
  by (cases m) auto

lemma obind_Asleep_iff [outcome_simps]:
  "obind m f = Asleep c s' \<longleftrightarrow> m = Asleep c s' \<or> (\<exists>a s. m = Done a s \<and> f a s = Asleep c s')"
  by (cases m) auto

lemma obind_assoc: "obind (obind m f) g = obind m (\<lambda>a s. obind (f a s) g)"
  by (cases m) auto

lemma obind_cong [fundef_cong]:
  "m = m' \<Longrightarrow> (\<And>a s. m' = Done a s \<Longrightarrow> f a s = f' a s) \<Longrightarrow> obind m f = obind m' f'"
  by (cases m') auto

text \<open>An access through a kernel pointer: page 0 is not mapped in the kernel, so a null pointer faults.\<close>

definition deref :: "'p option \<Rightarrow> ('p \<Rightarrow> ('a, 's) outcome) \<Rightarrow> ('a, 's) outcome" where
  "deref p f = (case p of None \<Rightarrow> Panic ''kerneltrap'' | Some i \<Rightarrow> f i)"

lemma deref_simps [simp]: "deref None f = Panic ''kerneltrap''" "deref (Some i) f = f i"
  by (simp_all add: deref_def)

lemma deref_cong [fundef_cong]: "p = p' \<Longrightarrow> (\<And>i. p' = Some i \<Longrightarrow> f i = f' i) \<Longrightarrow> deref p f = deref p' f'"
  by (cases p') auto

text \<open>
  \<open>opost P m\<close>: if \<open>m\<close> returns, its value and state satisfy \<open>P\<close>. \<open>ostate I m\<close>: whenever \<open>m\<close>
  leaves a state behind, by returning or by going to sleep, that state satisfies \<open>I\<close>.
\<close>

primrec opost :: "('a \<Rightarrow> 's \<Rightarrow> bool) \<Rightarrow> ('a, 's) outcome \<Rightarrow> bool" where
  "opost P (Done a s) = P a s"
| "opost P (Panic e) = True"
| "opost P (Asleep c s) = True"

primrec ostate :: "('s \<Rightarrow> bool) \<Rightarrow> ('a, 's) outcome \<Rightarrow> bool" where
  "ostate I (Done a s) = I s"
| "ostate I (Panic e) = True"
| "ostate I (Asleep c s) = I s"

lemma ostate_obind:
  "ostate I m \<Longrightarrow> (\<And>a s. m = Done a s \<Longrightarrow> I s \<Longrightarrow> ostate I (f a s)) \<Longrightarrow> ostate I (obind m f)"
  by (cases m) auto

lemma ostate_DoneD: "ostate I m \<Longrightarrow> m = Done a s \<Longrightarrow> I s"
  by simp

section \<open>Lists\<close>

lemma nth_list_update_if:
  "i < length xs \<Longrightarrow> (xs[i := v]) ! j = (if i = j then v else xs ! j)"
  by (simp add: nth_list_update)

lemma find_upt_Some:
  "List.find P [a..<b] = Some i \<longleftrightarrow> a \<le> i \<and> i < b \<and> P i \<and> (\<forall>j. a \<le> j \<and> j < i \<longrightarrow> \<not> P j)"
proof
  assume "List.find P [a..<b] = Some i"
  then obtain k where k: "k < length [a..<b]" "P ([a..<b] ! k)" "i = [a..<b] ! k"
    "\<forall>j<k. \<not> P ([a..<b] ! j)"
    by (auto simp: find_Some_iff)
  have "\<not> P j" if "a \<le> j" "j < i" for j
    using k(4)[rule_format, of "j - a"] k(1,3) that by auto
  with k show "a \<le> i \<and> i < b \<and> P i \<and> (\<forall>j. a \<le> j \<and> j < i \<longrightarrow> \<not> P j)" by auto
next
  assume "a \<le> i \<and> i < b \<and> P i \<and> (\<forall>j. a \<le> j \<and> j < i \<longrightarrow> \<not> P j)"
  then show "List.find P [a..<b] = Some i"
    by (auto simp: find_Some_iff intro!: exI [of _ "i - a"])
qed

lemma find_upt_None: "List.find P [a..<b] = None \<longleftrightarrow> (\<forall>j. a \<le> j \<and> j < b \<longrightarrow> \<not> P j)"
  by (auto simp: find_None_iff)

end
