(* ===== verification/Kalloc.thy ===== *)
theory Kalloc
  imports Prelude
begin

text \<open>
  Physical memory and the page allocator, \<^verbatim>\<open>kernel/kalloc.c\<close>. Physical memory is
  byte-addressed and organised by pages: \<open>mem s pa\<close> is the page at the page-aligned
  address \<open>pa\<close>, a function from offsets to bytes. \<open>ld64\<close> and \<open>st64\<close> are the 8-byte
  little-endian accesses at index \<open>i\<close> of a page, as in \<^verbatim>\<open>((uint64*)pa)[i]\<close>. The free list is
  the linked list of the source: each free page holds the pointer to the next one in its
  first eight bytes.
\<close>

section \<open>Pages\<close>

type_synonym page = "nat \<Rightarrow> u8"

abbreviation PGSIZE :: u64 where "PGSIZE \<equiv> 4096"
abbreviation KERNBASE :: u64 where "KERNBASE \<equiv> 0x80000000"
abbreviation PHYSTOP :: u64 where "PHYSTOP \<equiv> 0x88000000"

definition PGROUNDUP :: "u64 \<Rightarrow> u64" where
  "PGROUNDUP sz = (sz + PGSIZE - 1) AND NOT (PGSIZE - 1)"

definition PGROUNDDOWN :: "u64 \<Rightarrow> u64" where
  "PGROUNDDOWN a = a AND NOT (PGSIZE - 1)"

definition ld64 :: "page \<Rightarrow> nat \<Rightarrow> u64" where
  "ld64 pg i = foldr (\<lambda>k w. push_bit (8 * k) (ucast (pg (8 * i + k))) OR w) [0..<8] 0"

definition st64 :: "page \<Rightarrow> nat \<Rightarrow> u64 \<Rightarrow> page" where
  "st64 pg i v = (\<lambda>off. if off div 8 = i then ucast (drop_bit (8 * (off mod 8)) v) else pg off)"

lemma bit_foldr_or:
  "bit (foldr (\<lambda>k w. f k OR w) ks 0) n \<longleftrightarrow> (\<exists>k \<in> set ks. bit (f k :: u64) n)"
  by (induction ks) (auto simp: bit_or_iff)

lemma bit_ld64: "bit (ld64 pg i) n \<longleftrightarrow> n < 64 \<and> bit (pg (8 * i + n div 8)) (n mod 8)"
proof
  assume "bit (ld64 pg i) n"
  then obtain k where k: "k < 8" "bit (push_bit (8 * k) (ucast (pg (8 * i + k))) :: u64) n"
    unfolding ld64_def bit_foldr_or by auto
  then have n: "8 * k \<le> n" "n < 64" "bit (pg (8 * i + k)) (n - 8 * k)"
    by (auto simp: bit_push_bit_iff bit_ucast_iff dest: bit_imp_le_length)
  then have "n - 8 * k < 8" by (auto dest: bit_imp_le_length)
  then obtain r where "n = 8 * k + r" "r < 8" using n(1) by (metis le_add_diff_inverse)
  then have "n div 8 = k" "n mod 8 = n - 8 * k" by simp_all
  with n show "n < 64 \<and> bit (pg (8 * i + n div 8)) (n mod 8)" by simp
next
  assume n: "n < 64 \<and> bit (pg (8 * i + n div 8)) (n mod 8)"
  let ?k = "n div 8"
  have "?k < 8" using n by auto
  moreover have "bit (push_bit (8 * ?k) (ucast (pg (8 * i + ?k))) :: u64) n"
    using n by (auto simp: bit_push_bit_iff bit_ucast_iff minus_mult_div_eq_mod)
  ultimately show "bit (ld64 pg i) n"
    unfolding ld64_def bit_foldr_or by auto
qed

lemma ld64_st64: "ld64 (st64 pg i v) j = (if i = j then v else ld64 pg j)"
proof (rule bit_word_eqI)
  fix n assume n: "n < LENGTH(64)"
  have idx: "(8 * j + n div 8) div 8 = j" "(8 * j + n div 8) mod 8 = n div 8"
    using n by auto
  show "bit (ld64 (st64 pg i v) j) n \<longleftrightarrow> bit (if i = j then v else ld64 pg j) n"
    using n by (auto simp: bit_ld64 st64_def idx bit_ucast_iff bit_drop_bit_eq)
qed

lemma ld64_cong: "(\<And>k. k < 8 \<Longrightarrow> pg (8 * i + k) = pg' (8 * i + k)) \<Longrightarrow> ld64 pg i = ld64 pg' i"
  unfolding ld64_def by (intro foldr_cong) auto

lemma ld64_zero [simp]: "ld64 (\<lambda>_. 0) i = 0"
  by (rule bit_word_eqI) (simp add: bit_ld64)

section \<open>Allocator state and operations\<close>

text \<open>\<open>kend\<close>, \<open>etext\<close> and \<open>trampoline\<close> are the addresses of the linker symbols the kernel uses
  (\<^verbatim>\<open>end\<close>, \<^verbatim>\<open>etext\<close>, \<^verbatim>\<open>trampoline\<close>): parameters no operation changes.\<close>

record kmem_state =
  kend :: u64
  etext :: u64
  trampoline :: u64
  freelist :: u64
  mem :: "u64 \<Rightarrow> page"

text \<open>The whole-page \<^verbatim>\<open>memset(pa, c, PGSIZE)\<close>.\<close>

definition memset_page :: "u64 \<Rightarrow> u8 \<Rightarrow> 'a kmem_state_scheme \<Rightarrow> 'a kmem_state_scheme" where
  "memset_page pa c s = s\<lparr>mem := (mem s)(pa := (\<lambda>_. c))\<rparr>"

definition kfree :: "u64 \<Rightarrow> 'a kmem_state_scheme \<Rightarrow> (unit, 'a kmem_state_scheme) outcome" where
  "kfree pa s =
     (if pa mod PGSIZE \<noteq> 0 \<or> pa < kend s \<or> pa \<ge> PHYSTOP then Panic ''kfree''
      else
        let s = memset_page pa 1 s;
            s = s\<lparr>mem := (mem s)(pa := st64 (mem s pa) 0 (freelist s))\<rparr>
        in Done () (s\<lparr>freelist := pa\<rparr>))"

definition kalloc :: "'a kmem_state_scheme \<Rightarrow> u64 \<times> 'a kmem_state_scheme" where
  "kalloc s =
     (let r = freelist s in
      if r \<noteq> 0 then (r, memset_page r 5 (s\<lparr>freelist := ld64 (mem s r) 0\<rparr>))
      else (0, s))"

text \<open>\<open>freerange_loop n p\<close> frees \<open>n\<close> consecutive pages; \<open>n\<close> is the number of times the
  guard \<^verbatim>\<open>p + PGSIZE <= pa_end\<close> holds.\<close>

fun freerange_loop :: "nat \<Rightarrow> u64 \<Rightarrow> 'a kmem_state_scheme \<Rightarrow> (unit, 'a kmem_state_scheme) outcome" where
  "freerange_loop 0 p s = Done () s"
| "freerange_loop (Suc n) p s = obind (kfree p s) (\<lambda>_ s. freerange_loop n (p + PGSIZE) s)"

definition freerange :: "u64 \<Rightarrow> u64 \<Rightarrow> 'a kmem_state_scheme \<Rightarrow> (unit, 'a kmem_state_scheme) outcome" where
  "freerange pa_start pa_end s =
     (let p = PGROUNDUP pa_start
      in freerange_loop ((unat pa_end - unat p) div 4096) p s)"

definition kinit :: "'a kmem_state_scheme \<Rightarrow> (unit, 'a kmem_state_scheme) outcome" where
  "kinit s = freerange (kend s) PHYSTOP s"

section \<open>The free list as a list of pages\<close>

definition page_ok :: "'a kmem_state_scheme \<Rightarrow> u64 \<Rightarrow> bool" where
  "page_ok s pa \<longleftrightarrow> pa mod PGSIZE = 0 \<and> kend s \<le> pa \<and> pa < PHYSTOP"

fun chain :: "(u64 \<Rightarrow> page) \<Rightarrow> u64 \<Rightarrow> u64 list \<Rightarrow> bool" where
  "chain m p [] = (p = 0)"
| "chain m p (x # xs) = (p = x \<and> x \<noteq> 0 \<and> chain m (ld64 (m x) 0) xs)"

definition kmem_inv :: "'a kmem_state_scheme \<Rightarrow> u64 list \<Rightarrow> bool" where
  "kmem_inv s xs \<longleftrightarrow> KERNBASE \<le> kend s \<and> chain (mem s) (freelist s) xs \<and> distinct xs \<and>
     (\<forall>x \<in> set xs. page_ok s x)"

lemma chain_upd: "x \<notin> set xs \<Longrightarrow> chain (m(x := v)) p xs = chain m p xs"
  by (induction xs arbitrary: p) auto

lemma chain_unique: "chain m p xs \<Longrightarrow> chain m p ys \<Longrightarrow> xs = ys"
proof (induction xs arbitrary: p ys)
  case Nil
  then show ?case by (cases ys) auto
next
  case (Cons x xs)
  then show ?case by (cases ys) auto
qed

lemma page_ok_nonzero: "KERNBASE \<le> kend s \<Longrightarrow> page_ok s pa \<Longrightarrow> pa \<noteq> 0"
  by (auto simp: page_ok_def)

lemma kmem_inv_mem_upd:
  "x \<notin> set xs \<Longrightarrow> kmem_inv (s\<lparr>mem := (mem s)(x := v)\<rparr>) xs = kmem_inv s xs"
  by (simp add: kmem_inv_def chain_upd page_ok_def)

lemma kalloc_empty: "kmem_inv s [] \<Longrightarrow> kalloc s = (0, s)"
  by (simp add: kmem_inv_def kalloc_def)

lemma kalloc_Cons:
  assumes "kmem_inv s (x # xs)"
  shows "kalloc s = (x, memset_page x 5 (s\<lparr>freelist := ld64 (mem s x) 0\<rparr>))"
    and "kmem_inv (memset_page x 5 (s\<lparr>freelist := ld64 (mem s x) 0\<rparr>)) xs"
    and "x \<noteq> 0" and "page_ok s x" and "x \<notin> set xs"
  using assms by (auto simp: kmem_inv_def kalloc_def memset_page_def chain_upd page_ok_def)

lemma kfree_Done:
  assumes "kmem_inv s xs" and "page_ok s pa" and "pa \<notin> set xs"
  shows "\<exists>s'. kfree pa s = Done () s' \<and> kmem_inv s' (pa # xs) \<and>
    s' = s\<lparr>mem := (mem s)(pa := st64 (\<lambda>_. 1) 0 (freelist s)), freelist := pa\<rparr>"
  using assms page_ok_nonzero [of s pa]
  by (auto simp: kfree_def kmem_inv_def page_ok_def memset_page_def Let_def chain_upd ld64_st64)

lemma kfree_Panic: "kfree pa s = Panic e \<longleftrightarrow> \<not> page_ok s pa \<and> e = ''kfree''"
  by (auto simp: kfree_def page_ok_def Let_def)

section \<open>Rounding to page boundaries\<close>

lemma PGROUNDDOWN_shift: "PGROUNDDOWN a = push_bit 12 (drop_bit 12 a)"
proof -
  have m: "NOT (PGSIZE - 1) = NOT (mask 12)" by (simp add: mask_eq_exp_minus_1)
  show ?thesis
    unfolding PGROUNDDOWN_def m
    by (intro bit_word_eqI) (auto simp: bit_and_iff bit_not_iff bit_mask_iff bit_push_bit_iff bit_drop_bit_eq)
qed

lemma unat_PGROUNDDOWN: "unat (PGROUNDDOWN a) = unat a div 4096 * 4096"
proof -
  have "unat a div 4096 * 4096 < 2 ^ 64"
    using div_times_less_eq_dividend [of "unat a" 4096] unsigned_less [of a, where ?'a = nat] by simp
  then have "take_bit 64 (push_bit 12 (drop_bit 12 (unat a))) = unat a div 4096 * 4096"
    by (simp add: push_bit_eq_mult drop_bit_eq_div take_bit_nat_eq_self)
  moreover have "take_bit 64 (unat a) = unat a"
    using unsigned_less [of a, where ?'a = nat] by (simp add: take_bit_nat_eq_self)
  ultimately show ?thesis
    unfolding PGROUNDDOWN_shift by (simp add: unsigned_push_bit_eq unsigned_drop_bit_eq)
qed

lemma PGROUNDUP_down: "PGROUNDUP a = PGROUNDDOWN (a + 4095)"
  by (simp add: PGROUNDUP_def PGROUNDDOWN_def add.commute)

lemma unat_PGROUNDUP:
  "unat a + 4095 < 2 ^ 64 \<Longrightarrow> unat (PGROUNDUP a) = (unat a + 4095) div 4096 * 4096"
  by (simp add: PGROUNDUP_down unat_PGROUNDDOWN unat_word_ariths)

lemma word_mod_unat: "(x :: u64) mod 4096 = 0 \<longleftrightarrow> unat x mod 4096 = 0"
  by (simp add: word_unat_eq_iff unat_mod_distrib)

lemma round_up_le_iff: "(k + 4095) div 4096 \<le> m \<longleftrightarrow> k \<le> m * (4096 :: nat)"
  using div_less_iff_less_mult [of 4096 "k + 4095" "Suc m"] by auto

lemma round_up_ge: "k \<le> (k + 4095) div 4096 * (4096 :: nat)"
  using round_up_le_iff [of k "(k + 4095) div 4096"] by simp

section \<open>Initialisation\<close>

lemma freerange_loop_Done:
  assumes "kmem_inv s xs" and "\<forall>x \<in> set xs. x < p"
    and "unat p mod 4096 = 0" and "kend s \<le> p" and "unat p + n * 4096 \<le> unat PHYSTOP"
  shows "\<exists>s' ys. freerange_loop n p s = Done () s' \<and> kmem_inv s' (ys @ xs) \<and>
    set ys = {q. unat q mod 4096 = 0 \<and> p \<le> q \<and> unat q < unat p + n * 4096} \<and> kend s' = kend s"
  using assms
proof (induction n arbitrary: s xs p)
  case 0
  then show ?case
    by (auto simp: word_le_nat_alt intro!: exI [of _ s] exI [of _ "[]"])
next
  case (Suc n)
  have lt: "unat p < unat PHYSTOP" using Suc.prems(5) by simp
  have ok: "page_ok s p"
    using Suc.prems(3,4) lt by (simp add: page_ok_def word_mod_unat word_less_nat_alt)
  obtain s1 where s1: "kfree p s = Done () s1" "kmem_inv s1 (p # xs)" "kend s1 = kend s"
    using kfree_Done [OF Suc.prems(1) ok] Suc.prems(2) by fastforce
  have up: "unat (p + 4096) = unat p + 4096"
    using lt by (simp add: unat_word_ariths)
  have next_lt: "\<forall>x \<in> set (p # xs). x < p + 4096"
    using Suc.prems(2) up by (auto simp: word_less_nat_alt)
  have "kend s1 \<le> p + 4096"
    using Suc.prems(4) up s1(3) by (simp add: word_le_nat_alt)
  moreover have "unat (p + 4096) mod 4096 = 0" using up Suc.prems(3) by simp
  moreover have "unat (p + 4096) + n * 4096 \<le> unat PHYSTOP" using up Suc.prems(5) by simp
  ultimately have "\<exists>s' ys. freerange_loop n (p + 4096) s1 = Done () s' \<and> kmem_inv s' (ys @ p # xs) \<and>
    set ys = {q. unat q mod 4096 = 0 \<and> p + 4096 \<le> q \<and> unat q < unat (p + 4096) + n * 4096} \<and>
    kend s' = kend s1"
    by (intro Suc.IH [OF s1(2) next_lt])
  then obtain s' ys where
    s': "freerange_loop n (p + 4096) s1 = Done () s'" "kmem_inv s' (ys @ p # xs)" "kend s' = kend s1" and
    ys: "set ys = {q. unat q mod 4096 = 0 \<and> p + 4096 \<le> q \<and> unat q < unat (p + 4096) + n * 4096}"
    by (elim exE conjE)
  have "set (ys @ [p]) = {q. unat q mod 4096 = 0 \<and> p \<le> q \<and> unat q < unat p + Suc n * 4096}"
  proof -
    have step: "unat q mod 4096 = 0 \<Longrightarrow> unat p \<le> unat q \<Longrightarrow> q \<noteq> p \<Longrightarrow> unat p + 4096 \<le> unat q" for q :: u64
      using Suc.prems(3) by (auto simp: word_unat_eq_iff elim!: dvdE simp flip: dvd_eq_mod_eq_0)
    have "x \<in> set (ys @ [p]) \<longleftrightarrow> unat x mod 4096 = 0 \<and> p \<le> x \<and> unat x < unat p + Suc n * 4096" for x
    proof (cases "x = p")
      case True
      then show ?thesis using Suc.prems(3) by simp
    next
      case False
      have a: "unat p + 4096 \<le> unat x \<Longrightarrow> p \<le> x" by (simp add: word_le_nat_alt)
      have b: "unat x mod 4096 = 0 \<Longrightarrow> p \<le> x \<Longrightarrow> unat p + 4096 \<le> unat x"
        using step False by (simp add: word_le_nat_alt)
      have sz: "unat p + 4096 + n * 4096 = unat p + Suc n * 4096" by simp
      from False have "x \<in> set (ys @ [p]) \<longleftrightarrow> x \<in> set ys" by simp
      also have "\<dots> \<longleftrightarrow> unat x mod 4096 = 0 \<and> unat p + 4096 \<le> unat x \<and> unat x < unat p + Suc n * 4096"
        by (simp only: ys mem_Collect_eq word_le_nat_alt up sz)
      also have "\<dots> \<longleftrightarrow> unat x mod 4096 = 0 \<and> p \<le> x \<and> unat x < unat p + Suc n * 4096"
        by (metis a b)
      finally show ?thesis .
    qed
    then show ?thesis by (intro set_eqI) (simp only: mem_Collect_eq)
  qed
  moreover have "freerange_loop (Suc n) p s = Done () s'" using s1(1) s'(1) by simp
  moreover have "kmem_inv s' ((ys @ [p]) @ xs)" "kend s' = kend s" using s1(3) s'(2,3) by simp_all
  ultimately show ?case by (intro exI [of _ s'] exI [of _ "ys @ [p]"] conjI)
qed

section \<open>Clients of the allocator\<close>

text \<open>
  A client asks for pages and gives back pages it holds. \<open>run_reqs\<close> runs a list of
  requests, keeping the set of pages the client holds; a request to free a page that is
  not held is not issued. The result is \<open>None\<close> only if the allocator panics.
\<close>

datatype areq = Alloc | Free u64

fun run_reqs :: "('s \<Rightarrow> u64 \<times> 's) \<Rightarrow> (u64 \<Rightarrow> 's \<Rightarrow> (unit, 's) outcome) \<Rightarrow>
    areq list \<Rightarrow> 's \<Rightarrow> u64 set \<Rightarrow> ('s \<times> u64 set) option" where
  "run_reqs alloc free [] s live = Some (s, live)"
| "run_reqs alloc free (Alloc # rs) s live =
     (case alloc s of (p, s') \<Rightarrow>
        run_reqs alloc free rs s' (if p = 0 then live else insert p live))"
| "run_reqs alloc free (Free p # rs) s live =
     (if p \<in> live then
        (case free p s of Done _ s' \<Rightarrow> run_reqs alloc free rs s' (live - {p}) | _ \<Rightarrow> None)
      else run_reqs alloc free rs s live)"

locale page_allocator =
  fixes alloc :: "'s \<Rightarrow> u64 \<times> 's"
    and free :: "u64 \<Rightarrow> 's \<Rightarrow> (unit, 's) outcome"
    and avail :: "'s \<Rightarrow> u64 set \<Rightarrow> bool"
    and valid :: "'s \<Rightarrow> u64 \<Rightarrow> bool"
  assumes alloc_none: "avail s {} \<Longrightarrow> alloc s = (0, s)"
    and alloc_some: "avail s A \<Longrightarrow> A \<noteq> {} \<Longrightarrow>
      \<exists>p s'. alloc s = (p, s') \<and> p \<in> A \<and> p \<noteq> 0 \<and> avail s' (A - {p}) \<and> valid s' = valid s"
    and avail_valid: "avail s A \<Longrightarrow> p \<in> A \<Longrightarrow> valid s p"
    and free_ok: "avail s A \<Longrightarrow> valid s p \<Longrightarrow> p \<notin> A \<Longrightarrow>
      \<exists>s'. free p s = Done () s' \<and> avail s' (insert p A) \<and> valid s' = valid s"
begin

lemma run_reqs_partition:
  "avail s A \<Longrightarrow> A \<inter> live = {} \<Longrightarrow> (\<forall>p \<in> live. valid s p) \<Longrightarrow>
   \<exists>s' A' live'. run_reqs alloc free rs s live = Some (s', live') \<and>
     avail s' A' \<and> A' \<inter> live' = {} \<and> A' \<union> live' = A \<union> live"
proof (induction rs arbitrary: s A live)
  case (Cons r rs)
  show ?case
  proof (cases r)
    case Alloc
    show ?thesis
    proof (cases "A = {}")
      case True
      then have "run_reqs alloc free (r # rs) s live = run_reqs alloc free rs s live"
        using Alloc alloc_none [of s] Cons.prems(1) by simp
      with Cons.IH [OF Cons.prems] show ?thesis by simp
    next
      case False
      then obtain p s1 where p: "alloc s = (p, s1)" "p \<in> A" "p \<noteq> 0" "avail s1 (A - {p})" "valid s1 = valid s"
        using alloc_some [OF Cons.prems(1)] by blast
      moreover have "valid s p" using avail_valid [OF Cons.prems(1) p(2)] .
      ultimately have "\<exists>s' A' live'. run_reqs alloc free rs s1 (insert p live) = Some (s', live') \<and>
          avail s' A' \<and> A' \<inter> live' = {} \<and> A' \<union> live' = (A - {p}) \<union> insert p live"
        using Cons.prems by (intro Cons.IH) auto
      moreover have "(A - {p}) \<union> insert p live = A \<union> live" using p(2) by blast
      ultimately show ?thesis using Alloc p by auto
    qed
  next
    case (Free p)
    show ?thesis
    proof (cases "p \<in> live")
      case True
      then obtain s1 where s1: "free p s = Done () s1" "avail s1 (insert p A)" "valid s1 = valid s"
        using free_ok [OF Cons.prems(1), of p] Cons.prems by blast
      then have "\<exists>s' A' live'. run_reqs alloc free rs s1 (live - {p}) = Some (s', live') \<and>
          avail s' A' \<and> A' \<inter> live' = {} \<and> A' \<union> live' = insert p A \<union> (live - {p})"
        using Cons.prems by (intro Cons.IH) auto
      moreover have "insert p A \<union> (live - {p}) = A \<union> live" using True by blast
      ultimately show ?thesis using Free True s1 by auto
    next
      case False
      with Cons Free show ?thesis by auto
    qed
  qed
qed auto

end

definition avail_pages :: "'a kmem_state_scheme \<Rightarrow> u64 set \<Rightarrow> bool" where
  "avail_pages s A \<longleftrightarrow> (\<exists>xs. kmem_inv s xs \<and> set xs = A)"

lemma avail_alloc_none: "avail_pages s {} \<Longrightarrow> kalloc s = (0, s)"
  by (auto simp: avail_pages_def kalloc_empty)

lemma avail_alloc_some:
  assumes "avail_pages s A" "A \<noteq> {}"
  shows "\<exists>p s'. kalloc s = (p, s') \<and> p \<in> A \<and> p \<noteq> 0 \<and> avail_pages s' (A - {p}) \<and> page_ok s' = page_ok s"
proof -
  obtain xs where xs: "kmem_inv s xs" "set xs = A" using assms(1) by (auto simp: avail_pages_def)
  then obtain x ys where "xs = x # ys" using assms(2) by (cases xs) auto
  with xs have inv: "kmem_inv s (x # ys)" and A: "A = set (x # ys)" by simp_all
  let ?s' = "memset_page x 5 (s\<lparr>freelist := ld64 (mem s x) 0\<rparr>)"
  have "A - {x} = set ys" using kalloc_Cons(5) [OF inv] A by auto
  then have "avail_pages ?s' (A - {x})"
    using kalloc_Cons(2) [OF inv] by (auto simp: avail_pages_def)
  moreover have "page_ok ?s' = page_ok s" by (simp add: fun_eq_iff page_ok_def memset_page_def)
  ultimately show ?thesis using kalloc_Cons(1,3) [OF inv] A by (intro exI [of _ x] exI [of _ ?s']) simp
qed

lemma avail_page_ok: "avail_pages s A \<Longrightarrow> p \<in> A \<Longrightarrow> page_ok s p"
  by (auto simp: avail_pages_def kmem_inv_def)

lemma avail_free:
  assumes "avail_pages s A" "page_ok s p" "p \<notin> A"
  shows "\<exists>s'. kfree p s = Done () s' \<and> avail_pages s' (insert p A) \<and> page_ok s' = page_ok s"
proof -
  obtain xs where xs: "kmem_inv s xs" "set xs = A" using assms(1) by (auto simp: avail_pages_def)
  then obtain s' where s': "kfree p s = Done () s'" "kmem_inv s' (p # xs)"
    "s' = s\<lparr>mem := (mem s)(p := st64 (\<lambda>_. 1) 0 (freelist s)), freelist := p\<rparr>"
    using kfree_Done [of s xs p] assms by blast
  have "avail_pages s' (insert p A)"
    unfolding avail_pages_def using s'(2) xs(2) by (intro exI [of _ "p # xs"]) simp
  moreover have "page_ok s' = page_ok s" by (simp add: fun_eq_iff page_ok_def s'(3))
  ultimately show ?thesis using s'(1) by blast
qed

interpretation km: page_allocator kalloc kfree avail_pages page_ok
  by unfold_locales (rule avail_alloc_none avail_alloc_some avail_page_ok avail_free; assumption)+

section \<open>Properties\<close>

text \<open>C12: whatever sequence of allocations and frees a client of \<^verbatim>\<open>kalloc\<close>/\<^verbatim>\<open>kfree\<close> issues for pages
  it holds, the allocator never panics, the pages on the free list and the pages the client
  holds stay disjoint (no page is handed out twice), and together they are the pages there
  were at the start (no page is lost).\<close>

theorem kalloc_kfree_partition:
  assumes "kmem_inv s xs" and "set xs \<inter> live = {}" and "\<forall>p \<in> live. page_ok s p"
  shows "\<exists>s' ys live'. run_reqs kalloc kfree rs s live = Some (s', live') \<and>
    kmem_inv s' ys \<and> set ys \<inter> live' = {} \<and> set ys \<union> live' = set xs \<union> live"
proof -
  have "avail_pages s (set xs)" using assms(1) by (auto simp: avail_pages_def)
  from km.run_reqs_partition [OF this assms(2,3), of rs] show ?thesis
    unfolding avail_pages_def by blast
qed

text \<open>C25: \<^verbatim>\<open>kinit\<close> returns normally and leaves a free list that holds exactly the whole pages
  between the end of the kernel image and \<^verbatim>\<open>PHYSTOP\<close>, each once.\<close>

theorem kinit_frees_all:
  assumes "KERNBASE \<le> kend s" and "kend s \<le> PHYSTOP" and "freelist s = 0"
  shows "\<exists>s' xs. kinit s = Done () s' \<and> kmem_inv s' xs \<and>
    set xs = {p. p mod PGSIZE = 0 \<and> kend s \<le> p \<and> p < PHYSTOP}"
proof -
  let ?p = "PGROUNDUP (kend s)"
  have small: "unat (kend s) \<le> 0x88000000" using assms(2) by (simp add: word_le_nat_alt)
  then have p: "unat ?p = (unat (kend s) + 4095) div 4096 * 4096"
    by (intro unat_PGROUNDUP) simp
  define q where "q = (unat (kend s) + 4095) div 4096"
  have q: "unat ?p = q * 4096" "q \<le> 0x88000" "unat (kend s) \<le> q * 4096"
    using p small round_up_le_iff [of "unat (kend s)" "0x88000"] round_up_ge [of "unat (kend s)"]
    by (simp_all add: q_def)
  define n where "n = (unat PHYSTOP - unat ?p) div 4096"
  have n: "unat ?p + n * 4096 = 0x88000000"
  proof -
    obtain d where "0x88000 = q + d" using q(2) le_Suc_ex by blast
    then have "unat PHYSTOP - unat ?p = d * 4096" using q(1) by simp
    then show ?thesis using \<open>0x88000 = q + d\<close> q(1) by (simp add: n_def)
  qed
  have "kmem_inv s []" using assms by (simp add: kmem_inv_def)
  moreover have "unat ?p mod 4096 = 0" using p by simp
  moreover have "kend s \<le> ?p" using q by (simp add: word_le_nat_alt)
  moreover have "unat ?p + n * 4096 \<le> unat PHYSTOP" using n by simp
  ultimately have "\<exists>s' ys. freerange_loop n ?p s = Done () s' \<and> kmem_inv s' (ys @ []) \<and>
    set ys = {q. unat q mod 4096 = 0 \<and> ?p \<le> q \<and> unat q < unat ?p + n * 4096} \<and> kend s' = kend s"
    by (intro freerange_loop_Done) simp_all
  then obtain s' ys where
    s': "freerange_loop n ?p s = Done () s'" "kmem_inv s' (ys @ [])"
    and ys: "set ys = {q. unat q mod 4096 = 0 \<and> ?p \<le> q \<and> unat q < unat ?p + n * 4096}"
    by (elim exE conjE)
  have "unat w mod 4096 = 0 \<Longrightarrow> unat (kend s) \<le> unat w \<longleftrightarrow> unat ?p \<le> unat w" for w :: u64
    using round_up_le_iff [of "unat (kend s)"]
    by (auto simp: q(1) q_def elim!: dvdE simp flip: dvd_eq_mod_eq_0)
  with ys have "set ys = {p. p mod PGSIZE = 0 \<and> kend s \<le> p \<and> p < PHYSTOP}"
    by (auto simp: n word_mod_unat word_le_nat_alt word_less_nat_alt)
  with s' show ?thesis
    by (auto simp: kinit_def freerange_def Let_def n_def)
qed

theorem kinit_frees_all_witness:
  "\<exists>s' xs. kinit \<lparr>kend = 0x80021000, etext = 0x80008000, trampoline = 0x80007000, freelist = 0, mem = (\<lambda>_ _. 0)\<rparr> = Done () s' \<and>
     kmem_inv s' xs \<and> (0x80021000 :: u64) \<in> set xs"
proof -
  let ?s = "\<lparr>kend = 0x80021000, etext = 0x80008000, trampoline = 0x80007000, freelist = 0, mem = (\<lambda>_ _. 0)\<rparr>"
  obtain s' xs where "kinit ?s = Done () s'" "kmem_inv s' xs"
    "set xs = {p. p mod PGSIZE = 0 \<and> kend ?s \<le> p \<and> p < PHYSTOP}"
    using kinit_frees_all [of ?s] by auto
  moreover have "(0x80021000 :: u64) mod 4096 = 0" by simp
  ultimately show ?thesis by auto
qed

theorem kalloc_kfree_partition_witness:
  "\<exists>s' ys live'. run_reqs kalloc kfree
      [Free 0x80022000, Alloc, Alloc] \<lparr>kend = 0x80021000, etext = 0x80008000, trampoline = 0x80007000, freelist = 0, mem = (\<lambda>_ _. 0)\<rparr> {0x80022000}
      = Some (s', live') \<and> kmem_inv s' ys \<and> set ys \<inter> live' = {} \<and> set ys \<union> live' = {0x80022000}"
proof -
  let ?s = "\<lparr>kend = 0x80021000, etext = 0x80008000, trampoline = 0x80007000, freelist = 0, mem = (\<lambda>_ _. 0)\<rparr>"
  have "kmem_inv ?s []" by (simp add: kmem_inv_def)
  moreover have "\<forall>p \<in> {0x80022000}. page_ok ?s p" by (simp add: page_ok_def)
  ultimately show ?thesis
    using kalloc_kfree_partition [of ?s "[]" "{0x80022000}" "[Free 0x80022000, Alloc, Alloc]"]
    by (simp del: run_reqs.simps)
qed

end
