(* ===== verification/Vm.thy ===== *)
theory Vm
  imports Kalloc
begin

text \<open>
  Sv39 page tables, \<^verbatim>\<open>kernel/vm.c\<close> up to \<^verbatim>\<open>uvmclear\<close>, on the physical memory of
  \<open>Kalloc\<close>. A \<^verbatim>\<open>pte_t *\<close> is a pair of a page-table page and an index below 512. A C loop
  that steps an address by \<^verbatim>\<open>PGSIZE\<close> is a recursion on the number of its iterations.
\<close>

section \<open>Page-table entries and address arithmetic\<close>

abbreviation PTE_V :: u64 where "PTE_V \<equiv> 1"
abbreviation PTE_R :: u64 where "PTE_R \<equiv> 2"
abbreviation PTE_W :: u64 where "PTE_W \<equiv> 4"
abbreviation PTE_X :: u64 where "PTE_X \<equiv> 8"
abbreviation PTE_U :: u64 where "PTE_U \<equiv> 16"

definition PA2PTE :: "u64 \<Rightarrow> u64" where
  "PA2PTE pa = push_bit 10 (drop_bit 12 pa)"

definition PTE2PA :: "u64 \<Rightarrow> u64" where
  "PTE2PA pte = push_bit 12 (drop_bit 10 pte)"

definition PTE_FLAGS :: "u64 \<Rightarrow> u64" where
  "PTE_FLAGS pte = pte AND 0x3FF"

definition PX :: "nat \<Rightarrow> u64 \<Rightarrow> nat" where
  "PX level va = unat (drop_bit (12 + 9 * level) va AND 0x1FF)"

abbreviation MAXVA :: u64 where "MAXVA \<equiv> 0x4000000000"
abbreviation TRAMPOLINE :: u64 where "TRAMPOLINE \<equiv> MAXVA - PGSIZE"
abbreviation TRAPFRAME :: u64 where "TRAPFRAME \<equiv> TRAMPOLINE - PGSIZE"

definition KSTACK :: "nat \<Rightarrow> u64" where
  "KSTACK p = TRAMPOLINE - (of_nat p + 1) * 2 * PGSIZE"

abbreviation UART0 :: u64 where "UART0 \<equiv> 0x10000000"
abbreviation VIRTIO0 :: u64 where "VIRTIO0 \<equiv> 0x10001000"
abbreviation PLIC :: u64 where "PLIC \<equiv> 0x0c000000"

type_synonym pteptr = "u64 \<times> nat"

definition pte_get :: "pteptr \<Rightarrow> 'a kmem_state_scheme \<Rightarrow> u64" where
  "pte_get p s = ld64 (mem s (fst p)) (snd p)"

definition pte_set :: "pteptr \<Rightarrow> u64 \<Rightarrow> 'a kmem_state_scheme \<Rightarrow> 'a kmem_state_scheme" where
  "pte_set p v s = s\<lparr>mem := (mem s)(fst p := st64 (mem s (fst p)) (snd p) v)\<rparr>"

section \<open>Walking and mapping\<close>

fun walk_loop :: "nat \<Rightarrow> u64 \<Rightarrow> u64 \<Rightarrow> bool \<Rightarrow> 'a kmem_state_scheme \<Rightarrow>
    pteptr option \<times> 'a kmem_state_scheme" where
  "walk_loop 0 pagetable va alloc s = (Some (pagetable, PX 0 va), s)"
| "walk_loop (Suc l) pagetable va alloc s =
     (let pte = (pagetable, PX (Suc l) va) in
      if pte_get pte s AND PTE_V \<noteq> 0 then walk_loop l (PTE2PA (pte_get pte s)) va alloc s
      else if \<not> alloc then (None, s)
      else case kalloc s of (pt, s) \<Rightarrow>
        if pt = 0 then (None, s)
        else walk_loop l pt va alloc (pte_set pte (PA2PTE pt OR PTE_V) (memset_page pt 0 s)))"

definition walk :: "u64 \<Rightarrow> u64 \<Rightarrow> bool \<Rightarrow> 'a kmem_state_scheme \<Rightarrow>
    (pteptr option, 'a kmem_state_scheme) outcome" where
  "walk pagetable va alloc s =
     (if va \<ge> MAXVA then Panic ''walk''
      else case walk_loop 2 pagetable va alloc s of (r, s) \<Rightarrow> Done r s)"

definition walkaddr :: "u64 \<Rightarrow> u64 \<Rightarrow> 'a kmem_state_scheme \<Rightarrow> (u64, 'a kmem_state_scheme) outcome" where
  "walkaddr pagetable va s =
     (if va \<ge> MAXVA then Done 0 s
      else obind (walk pagetable va False s) (\<lambda>r s.
        case r of
          None \<Rightarrow> Done 0 s
        | Some pte \<Rightarrow>
            if pte_get pte s AND PTE_V = 0 then Done 0 s
            else if pte_get pte s AND PTE_U = 0 then Done 0 s
            else Done (PTE2PA (pte_get pte s)) s))"

text \<open>The loop of \<^verbatim>\<open>mappages\<close> stops at \<^verbatim>\<open>a == last\<close>, after \<^verbatim>\<open>size/PGSIZE\<close> iterations.\<close>

fun mappages_loop :: "nat \<Rightarrow> u64 \<Rightarrow> u64 \<Rightarrow> u64 \<Rightarrow> u64 \<Rightarrow> 'a kmem_state_scheme \<Rightarrow>
    (int, 'a kmem_state_scheme) outcome" where
  "mappages_loop 0 pagetable a pa perm s = Done 0 s"
| "mappages_loop (Suc n) pagetable a pa perm s =
     obind (walk pagetable a True s) (\<lambda>r s.
       case r of
         None \<Rightarrow> Done (-1) s
       | Some pte \<Rightarrow>
           if pte_get pte s AND PTE_V \<noteq> 0 then Panic ''mappages: remap''
           else mappages_loop n pagetable (a + PGSIZE) (pa + PGSIZE) perm
                  (pte_set pte (PA2PTE pa OR perm OR PTE_V) s))"

definition mappages :: "u64 \<Rightarrow> u64 \<Rightarrow> u64 \<Rightarrow> u64 \<Rightarrow> u64 \<Rightarrow> 'a kmem_state_scheme \<Rightarrow>
    (int, 'a kmem_state_scheme) outcome" where
  "mappages pagetable va sz pa perm s =
     (if va mod PGSIZE \<noteq> 0 then Panic ''mappages: va not aligned''
      else if sz mod PGSIZE \<noteq> 0 then Panic ''mappages: size not aligned''
      else if sz = 0 then Panic ''mappages: size''
      else mappages_loop (unat (sz div PGSIZE)) pagetable va pa perm s)"

definition kvmmap :: "u64 \<Rightarrow> u64 \<Rightarrow> u64 \<Rightarrow> u64 \<Rightarrow> u64 \<Rightarrow> 'a kmem_state_scheme \<Rightarrow>
    (unit, 'a kmem_state_scheme) outcome" where
  "kvmmap kpgtbl va pa sz perm s =
     obind (mappages kpgtbl va sz pa perm s) (\<lambda>r s.
       if r \<noteq> 0 then Panic ''kvmmap'' else Done () s)"

definition uvmcreate :: "'a kmem_state_scheme \<Rightarrow> u64 \<times> 'a kmem_state_scheme" where
  "uvmcreate s =
     (case kalloc s of (pagetable, s) \<Rightarrow>
        if pagetable = 0 then (0, s) else (pagetable, memset_page pagetable 0 s))"

section \<open>Unmapping, growing and shrinking\<close>

text \<open>One iteration of the loop of \<^verbatim>\<open>uvmunmap\<close>.\<close>

definition uvmunmap_page :: "u64 \<Rightarrow> u64 \<Rightarrow> bool \<Rightarrow> 'a kmem_state_scheme \<Rightarrow>
    (unit, 'a kmem_state_scheme) outcome" where
  "uvmunmap_page pagetable a do_free s =
     obind (walk pagetable a False s) (\<lambda>r s.
       case r of
         None \<Rightarrow> Done () s
       | Some pte \<Rightarrow>
           if pte_get pte s AND PTE_V = 0 then Done () s
           else obind (if do_free then kfree (PTE2PA (pte_get pte s)) s else Done () s) (\<lambda>_ s.
             Done () (pte_set pte 0 s)))"

fun uvmunmap_loop :: "nat \<Rightarrow> u64 \<Rightarrow> u64 \<Rightarrow> bool \<Rightarrow> 'a kmem_state_scheme \<Rightarrow>
    (unit, 'a kmem_state_scheme) outcome" where
  "uvmunmap_loop 0 pagetable a do_free s = Done () s"
| "uvmunmap_loop (Suc n) pagetable a do_free s =
     obind (uvmunmap_page pagetable a do_free s) (\<lambda>_ s.
       uvmunmap_loop n pagetable (a + PGSIZE) do_free s)"

text \<open>The guard \<^verbatim>\<open>a < va + npages*PGSIZE\<close> is evaluated in 64 bits.\<close>

definition uvmunmap :: "u64 \<Rightarrow> u64 \<Rightarrow> u64 \<Rightarrow> bool \<Rightarrow> 'a kmem_state_scheme \<Rightarrow>
    (unit, 'a kmem_state_scheme) outcome" where
  "uvmunmap pagetable va npages do_free s =
     (if va mod PGSIZE \<noteq> 0 then Panic ''uvmunmap: not aligned''
      else let last = va + npages * PGSIZE in
        uvmunmap_loop (if va < last then unat (last - va) div 4096 else 0) pagetable va do_free s)"

text \<open>\<^verbatim>\<open>int npages\<close>: the page count is truncated to 32 bits and sign-extended at the call.\<close>

definition uvmdealloc :: "u64 \<Rightarrow> u64 \<Rightarrow> u64 \<Rightarrow> 'a kmem_state_scheme \<Rightarrow>
    (u64, 'a kmem_state_scheme) outcome" where
  "uvmdealloc pagetable oldsz newsz s =
     (if newsz \<ge> oldsz then Done oldsz s
      else if PGROUNDUP newsz < PGROUNDUP oldsz then
        let npages = (ucast ((PGROUNDUP oldsz - PGROUNDUP newsz) div PGSIZE) :: u32) in
        obind (uvmunmap pagetable (PGROUNDUP newsz) (scast npages) True s) (\<lambda>_ s. Done newsz s)
      else Done newsz s)"

fun uvmalloc_loop :: "nat \<Rightarrow> u64 \<Rightarrow> u64 \<Rightarrow> u64 \<Rightarrow> u64 \<Rightarrow> u64 \<Rightarrow> 'a kmem_state_scheme \<Rightarrow>
    (u64, 'a kmem_state_scheme) outcome" where
  "uvmalloc_loop 0 pagetable a oldsz newsz xperm s = Done newsz s"
| "uvmalloc_loop (Suc n) pagetable a oldsz newsz xperm s =
     (case kalloc s of (m, s) \<Rightarrow>
        if m = 0 then obind (uvmdealloc pagetable a oldsz s) (\<lambda>_ s. Done 0 s)
        else
          obind (mappages pagetable a PGSIZE m (PTE_R OR PTE_U OR xperm) (memset_page m 0 s)) (\<lambda>r s.
            if r \<noteq> 0 then
              obind (kfree m s) (\<lambda>_ s. obind (uvmdealloc pagetable a oldsz s) (\<lambda>_ s. Done 0 s))
            else uvmalloc_loop n pagetable (a + PGSIZE) oldsz newsz xperm s))"

definition uvmalloc :: "u64 \<Rightarrow> u64 \<Rightarrow> u64 \<Rightarrow> u64 \<Rightarrow> 'a kmem_state_scheme \<Rightarrow>
    (u64, 'a kmem_state_scheme) outcome" where
  "uvmalloc pagetable oldsz newsz xperm s =
     (if newsz < oldsz then Done oldsz s
      else let oldsz = PGROUNDUP oldsz in
        uvmalloc_loop (if oldsz < newsz then (unat (newsz - oldsz) + 4095) div 4096 else 0)
          pagetable oldsz oldsz newsz xperm s)"

section \<open>Freeing and copying whole tables\<close>

text \<open>
  \<^verbatim>\<open>freewalk\<close> recurses along the tree; the first argument bounds the depth of the
  recursion. A table of three levels needs depth 3; exhausting it stands for running off
  the kernel stack.
\<close>

function freewalk :: "nat \<Rightarrow> u64 \<Rightarrow> 'a kmem_state_scheme \<Rightarrow> (unit, 'a kmem_state_scheme) outcome"
  and freewalk_loop :: "nat \<Rightarrow> u64 \<Rightarrow> nat list \<Rightarrow> 'a kmem_state_scheme \<Rightarrow> (unit, 'a kmem_state_scheme) outcome" where
  "freewalk 0 pagetable s = Panic ''freewalk: recursion too deep''"
| "freewalk (Suc d) pagetable s =
     obind (freewalk_loop d pagetable [0..<512] s) (\<lambda>_ s. kfree pagetable s)"
| "freewalk_loop d pagetable [] s = Done () s"
| "freewalk_loop d pagetable (i # is) s =
     (let pte = pte_get (pagetable, i) s in
      if pte AND PTE_V \<noteq> 0 \<and> pte AND (PTE_R OR PTE_W OR PTE_X) = 0 then
        obind (freewalk d (PTE2PA pte) s) (\<lambda>_ s.
          freewalk_loop d pagetable is (pte_set (pagetable, i) 0 s))
      else if pte AND PTE_V \<noteq> 0 then Panic ''freewalk: leaf''
      else freewalk_loop d pagetable is s)"
  by pat_completeness auto
termination
  by (relation "measures [(\<lambda>x. case x of Inl (d, pt, s) \<Rightarrow> d | Inr (d, pt, is, s) \<Rightarrow> d),
        (\<lambda>x. case x of Inl _ \<Rightarrow> 0 | Inr (d, pt, is, s) \<Rightarrow> Suc (length is))]") auto

definition uvmfree :: "u64 \<Rightarrow> u64 \<Rightarrow> 'a kmem_state_scheme \<Rightarrow> (unit, 'a kmem_state_scheme) outcome" where
  "uvmfree pagetable sz s =
     obind (if sz > 0 then uvmunmap pagetable 0 (PGROUNDUP sz div PGSIZE) True s else Done () s) (\<lambda>_ s.
       freewalk 3 pagetable s)"

fun uvmcopy_loop :: "nat \<Rightarrow> u64 \<Rightarrow> u64 \<Rightarrow> u64 \<Rightarrow> 'a kmem_state_scheme \<Rightarrow>
    (int, 'a kmem_state_scheme) outcome" where
  "uvmcopy_loop 0 old new i s = Done 0 s"
| "uvmcopy_loop (Suc n) old new i s =
     obind (walk old i False s) (\<lambda>r s.
       case r of
         None \<Rightarrow> uvmcopy_loop n old new (i + PGSIZE) s
       | Some pte \<Rightarrow>
           if pte_get pte s AND PTE_V = 0 then uvmcopy_loop n old new (i + PGSIZE) s
           else
             let pa = PTE2PA (pte_get pte s); flags = PTE_FLAGS (pte_get pte s) in
             (case kalloc s of (m, s) \<Rightarrow>
                if m = 0 then
                  obind (uvmunmap new 0 (i div PGSIZE) True s) (\<lambda>_ s. Done (-1) s)
                else
                  obind (mappages new i PGSIZE m flags (s\<lparr>mem := (mem s)(m := mem s pa)\<rparr>)) (\<lambda>r s.
                    if r \<noteq> 0 then
                      obind (kfree m s) (\<lambda>_ s.
                        obind (uvmunmap new 0 (i div PGSIZE) True s) (\<lambda>_ s. Done (-1) s))
                    else uvmcopy_loop n old new (i + PGSIZE) s)))"

text \<open>The loop starts at \<^verbatim>\<open>i = PGSIZE\<close>: page 0 is intentionally unmapped.\<close>

definition uvmcopy :: "u64 \<Rightarrow> u64 \<Rightarrow> u64 \<Rightarrow> 'a kmem_state_scheme \<Rightarrow>
    (int, 'a kmem_state_scheme) outcome" where
  "uvmcopy old new sz s = uvmcopy_loop ((unat sz - 1) div 4096) old new PGSIZE s"

definition uvmclear :: "u64 \<Rightarrow> u64 \<Rightarrow> 'a kmem_state_scheme \<Rightarrow> (unit, 'a kmem_state_scheme) outcome" where
  "uvmclear pagetable va s =
     obind (walk pagetable va False s) (\<lambda>r s.
       case r of
         None \<Rightarrow> Panic ''uvmclear''
       | Some pte \<Rightarrow> Done () (pte_set pte (pte_get pte s AND NOT PTE_U) s))"

definition ismapped :: "u64 \<Rightarrow> u64 \<Rightarrow> 'a kmem_state_scheme \<Rightarrow> (bool, 'a kmem_state_scheme) outcome" where
  "ismapped pagetable va s =
     obind (walk pagetable va False s) (\<lambda>r s.
       case r of None \<Rightarrow> Done False s | Some pte \<Rightarrow> Done (pte_get pte s AND PTE_V \<noteq> 0) s)"

end
