(* ===== verification/Rand.thy ===== *)
theory Rand
  imports Prelude
begin

text \<open>
  The linear congruential generator of the lottery scheduler (\<^verbatim>\<open>rand_next\<close> in
  \<^verbatim>\<open>kernel/proc.c\<close>) on 32-bit words. The main lemma is its full period: since the
  multiplier is 1 modulo 4 and the increment is odd, the orbit of every state visits
  all \<open>2 ^ 32\<close> states.
\<close>

definition rand_next :: "u32 \<Rightarrow> u32" where
  "rand_next st = st * 1664525 + 1013904223"

section \<open>Divisibility of geometric sums by powers of two\<close>

definition geom :: "int \<Rightarrow> nat \<Rightarrow> int" where
  "geom a n = (\<Sum>i<n. a ^ i)"

lemma geom_Suc: "geom a (Suc n) = 1 + a * geom a n"
  unfolding geom_def by (subst sum.lessThan_Suc_shift) (simp add: sum_distrib_left)

lemma geom_double: "geom a (2 * m) = geom a m * (1 + a ^ m)"
proof -
  have "geom a (m + m) = geom a m + (\<Sum>i<m. a ^ (m + i))"
    unfolding geom_def by (simp add: lessThan_atLeast0 sum.nat_group [symmetric] sum.atLeastLessThan_concat [of 0 m "m + m", symmetric] sum.shift_bounds_nat_ivl [of _ 0 m m, simplified] add.commute)
  also have "(\<Sum>i<m. a ^ (m + i)) = a ^ m * geom a m"
    unfolding geom_def by (simp add: power_add sum_distrib_left)
  finally show ?thesis by (simp only: mult_2 distrib_left mult_1_right) (simp add: mult.commute)
qed

lemma geom_odd: "odd a \<Longrightarrow> odd (geom a n) \<longleftrightarrow> odd n"
  by (induction n) (auto simp: geom_Suc, simp add: geom_def)

lemma one_plus_power: "a mod 4 = 1 \<Longrightarrow> \<exists>q. 1 + a ^ m = 2 * q \<and> odd (q :: int)"
proof -
  assume a: "a mod 4 = 1"
  have "a ^ m mod 4 = 1"
    by (subst power_mod [symmetric]) (simp add: a)
  then obtain r where "a ^ m = 4 * r + 1" by (metis div_mult_mod_eq mult.commute)
  then show ?thesis by (intro exI [of _ "2 * r + 1"]) simp
qed

lemma geom_dvd:
  assumes a: "a mod 4 = 1"
  shows "2 ^ k dvd geom a n \<longleftrightarrow> 2 ^ k dvd n"
proof (induction k arbitrary: n)
  case (Suc k)
  have odd_a: "odd a" using a by presburger
  show ?case
  proof (cases "even n")
    case False
    then have "odd (geom a n)" using geom_odd [OF odd_a] by blast
    with False show ?thesis by (meson dvd_power dvd_trans zero_less_Suc dvd_triv_left power_Suc)
  next
    case True
    then obtain m where n: "n = 2 * m" by (elim evenE)
    obtain q where q: "1 + a ^ m = 2 * q" "odd q" using one_plus_power [OF a] by blast
    have "2 ^ Suc k dvd geom a n \<longleftrightarrow> 2 * 2 ^ k dvd 2 * (geom a m * q)"
      by (simp add: n geom_double q(1) mult.left_commute)
    also have "\<dots> \<longleftrightarrow> 2 ^ k dvd geom a m * q"
      by simp
    also have "\<dots> \<longleftrightarrow> 2 ^ k dvd geom a m"
      using q(2) by (simp add: coprime_dvd_mult_left_iff coprime_power_left_iff coprime_left_2_iff_odd)
    also have "\<dots> \<longleftrightarrow> 2 ^ k dvd m" by (rule Suc.IH)
    also have "\<dots> \<longleftrightarrow> 2 ^ Suc k dvd n" by (simp add: n)
    finally show ?thesis .
  qed
qed simp

section \<open>The orbit of the generator\<close>

lemma rand_next_funpow:
  "(rand_next ^^ n) x = 1664525 ^ n * x + 1013904223 * word_of_int (geom 1664525 n)"
proof (induction n)
  case 0
  then show ?case by (simp add: geom_def)
next
  case (Suc n)
  then show ?case by (simp add: rand_next_def geom_Suc algebra_simps)
qed

lemma geom_mult: "(a - 1) * geom a n = a ^ n - 1"
  by (induction n) (auto simp: geom_Suc algebra_simps, simp add: geom_def)

lemma word_of_int_pow: "word_of_int (a ^ n) = (word_of_int a :: 'a::len word) ^ n"
  by (induction n) simp_all

lemma rand_next_funpow_diff:
  "(rand_next ^^ n) x - x = word_of_int (geom 1664525 n) * (1664524 * x + 1013904223)"
proof -
  have "(word_of_int (1664525 ^ n - 1) :: u32) = word_of_int ((1664525 - 1) * geom 1664525 n)"
    by (simp only: geom_mult)
  then have "(1664525 ^ n - 1 :: u32) = 1664524 * word_of_int (geom 1664525 n)"
    by (simp add: word_of_int_pow)
  then have "(1664525 ^ n :: u32) = 1664524 * word_of_int (geom 1664525 n) + 1"
    by (simp add: algebra_simps)
  then show ?thesis by (simp add: rand_next_funpow algebra_simps)
qed

lemma odd_word_mult_zero: "odd y \<Longrightarrow> (x :: u32) * y = 0 \<Longrightarrow> x = 0"
proof -
  assume y: "odd y" and z: "x * y = 0"
  have "odd (uint y)" using y by (metis bit_0 bit_uint_iff len_gt_0)
  moreover have "uint (x * y) = 0" by (simp add: z)
  then have "2 ^ 32 dvd uint x * uint y"
    unfolding uint_word_ariths by (simp add: dvd_eq_mod_eq_0)
  moreover have "coprime (2 ^ 32) (uint y)"
    using \<open>odd (uint y)\<close> by (simp only: coprime_power_left_iff coprime_left_2_iff_odd) simp
  ultimately have "2 ^ 32 dvd uint x"
    by (simp only: coprime_dvd_mult_left_iff)
  then show "x = 0"
    using zdvd_not_zless [of "uint x" "2 ^ 32"] uint_lt2p [of x] uint_ge_0 [of x]
    by (auto simp: uint_0_iff less_le)
qed

lemma rand_next_cycle: "(rand_next ^^ n) x = x \<longleftrightarrow> 2 ^ 32 dvd n"
proof -
  have odd: "odd (1664524 * x + 1013904223 :: u32)" by simp
  have "(rand_next ^^ n) x = x \<longleftrightarrow> (rand_next ^^ n) x - x = 0" by simp
  also have "\<dots> \<longleftrightarrow> (word_of_int (geom 1664525 n) :: u32) = 0"
    unfolding rand_next_funpow_diff using odd_word_mult_zero [OF odd] by auto
  also have "\<dots> \<longleftrightarrow> 2 ^ 32 dvd geom 1664525 n"
    by (simp add: word_of_int_eq_0_iff)
  also have "\<dots> \<longleftrightarrow> 2 ^ 32 dvd n" by (rule geom_dvd) simp
  finally show ?thesis .
qed

lemma rand_orbit_inj: "inj_on (\<lambda>n. (rand_next ^^ n) x) {..<2 ^ 32}"
proof (rule linorder_inj_onI)
  fix i j :: nat
  assume ij: "i < j" "j \<in> {..<2 ^ 32}"
  show "(rand_next ^^ i) x \<noteq> (rand_next ^^ j) x"
  proof
    assume "(rand_next ^^ i) x = (rand_next ^^ j) x"
    moreover have "(rand_next ^^ j) x = (rand_next ^^ (j - i)) ((rand_next ^^ i) x)"
      using ij(1) by (simp add: funpow_add [symmetric, THEN fun_cong, simplified comp_def])
    ultimately have "2 ^ 32 dvd j - i" by (metis rand_next_cycle)
    with ij show False by (auto dest: dvd_imp_le)
  qed
qed auto

lemma rand_orbit_surj: "\<exists>n<2 ^ 32. (rand_next ^^ n) x = y"
proof -
  have "card ((\<lambda>n. (rand_next ^^ n) x) ` {..<2 ^ 32}) = 2 ^ 32"
    by (subst card_image [OF rand_orbit_inj]) simp
  moreover have "card (UNIV :: u32 set) = 2 ^ 32" by (simp add: card_word)
  ultimately have "(\<lambda>n. (rand_next ^^ n) x) ` {..<2 ^ 32} = UNIV"
    by (metis card_eq_UNIV_imp_eq_UNIV finite)
  then show ?thesis by (metis (no_types, lifting) UNIV_I image_iff lessThan_iff)
qed

text \<open>The lowest bit of the state flips at every draw.\<close>

lemma rand_next_parity: "odd (rand_next x) \<longleftrightarrow> even x"
  by (simp add: rand_next_def)

end
