(* ===== verification/Proc.thy ===== *)
theory Proc
  imports Vm Rand
begin

text \<open>
  The process table, \<^verbatim>\<open>kernel/proc.h\<close> and the part of \<^verbatim>\<open>kernel/proc.c\<close> that does not touch the
  file system: allocation and release of table slots, the lottery scheduler, sleep and
  wakeup, kill, ticket and accounting calls. A \<^verbatim>\<open>struct proc *\<close> is an index into the table;
  \<^verbatim>\<open>myproc()\<close> is the process of the hart whose number is in \<open>tp\<close>. The code between
  \<^verbatim>\<open>acquire\<close> and \<^verbatim>\<open>release\<close> of a spin lock is one step.
\<close>

section \<open>Data\<close>

abbreviation NPROC :: nat where "NPROC \<equiv> 64"
abbreviation NCPU :: nat where "NCPU \<equiv> 8"
abbreviation NOFILE :: nat where "NOFILE \<equiv> 16"

datatype procstate = UNUSED | USED | SLEEPING | RUNNABLE | RUNNING | ZOMBIE

text \<open>\<^verbatim>\<open>struct context\<close>: return address, stack pointer and the callee-saved registers s0 to s11.\<close>

record kcontext =
  c_ra :: u64
  c_sp :: u64
  c_s :: "u64 list"

record cpu =
  c_proc :: "nat option"
  c_noff :: int
  c_intena :: bool

record proc =
  p_state :: procstate
  p_chan :: "chan option"
  p_killed :: int
  p_xstate :: int
  p_pid :: int
  p_parent :: "nat option"
  p_kstack :: u64
  p_sz :: u64
  p_pagetable :: u64
  p_trapframe :: u64
  p_context :: kcontext
  p_ofile :: "nat option list"
  p_cwd :: "nat option"
  p_name :: "nat \<Rightarrow> u8"
  p_tickets :: int
  p_ticks :: int

text \<open>\<open>forkret_pc\<close> is the address of \<^verbatim>\<open>forkret\<close>, a linker symbol like those of \<open>Kalloc\<close>.\<close>

record proc_state = kmem_state +
  forkret_pc :: u64
  procs :: "proc list"
  nextpid :: int
  initproc :: "nat option"
  rand_state :: u32
  cpus :: "nat \<Rightarrow> cpu"
  tp :: nat

record pstat =
  inuse :: "int list"
  st_tickets :: "int list"
  st_pid :: "int list"
  st_ticks :: "int list"

abbreviation proc_at :: "'a proc_state_scheme \<Rightarrow> nat \<Rightarrow> proc" where
  "proc_at s i \<equiv> procs s ! i"

definition set_proc :: "nat \<Rightarrow> (proc \<Rightarrow> proc) \<Rightarrow> 'a proc_state_scheme \<Rightarrow> 'a proc_state_scheme" where
  "set_proc i f s = s\<lparr>procs := (procs s)[i := f (proc_at s i)]\<rparr>"

definition cpuid :: "'a proc_state_scheme \<Rightarrow> nat" where
  "cpuid s = tp s"

definition mycpu :: "'a proc_state_scheme \<Rightarrow> cpu" where
  "mycpu s = cpus s (cpuid s)"

definition myproc :: "'a proc_state_scheme \<Rightarrow> nat option" where
  "myproc s = c_proc (mycpu s)"

text \<open>The kernel calls \<^verbatim>\<open>myproc()->field\<close> only where there is a current process.\<close>

abbreviation cur :: "'a proc_state_scheme \<Rightarrow> nat" where
  "cur s \<equiv> the (myproc s)"

definition set_cpu_proc :: "nat option \<Rightarrow> 'a proc_state_scheme \<Rightarrow> 'a proc_state_scheme" where
  "set_cpu_proc p s = s\<lparr>cpus := (cpus s)(tp s := (cpus s (tp s))\<lparr>c_proc := p\<rparr>)\<rparr>"

section \<open>Start-up\<close>

definition procinit :: "'a proc_state_scheme \<Rightarrow> 'a proc_state_scheme" where
  "procinit s = s\<lparr>procs := map (\<lambda>i. (proc_at s i)\<lparr>p_state := UNUSED, p_kstack := KSTACK i\<rparr>) [0..<NPROC]\<rparr>"

fun proc_mapstacks_loop :: "nat list \<Rightarrow> u64 \<Rightarrow> 'a kmem_state_scheme \<Rightarrow> (unit, 'a kmem_state_scheme) outcome" where
  "proc_mapstacks_loop [] kpgtbl s = Done () s"
| "proc_mapstacks_loop (p # ps) kpgtbl s =
     (case kalloc s of (pa, s) \<Rightarrow>
        if pa = 0 then Panic ''kalloc''
        else obind (kvmmap kpgtbl (KSTACK p) pa PGSIZE (PTE_R OR PTE_W) s) (\<lambda>_ s.
          proc_mapstacks_loop ps kpgtbl s))"

definition proc_mapstacks :: "u64 \<Rightarrow> 'a kmem_state_scheme \<Rightarrow> (unit, 'a kmem_state_scheme) outcome" where
  "proc_mapstacks kpgtbl s = proc_mapstacks_loop [0..<NPROC] kpgtbl s"

text \<open>\<^verbatim>\<open>kvmmake\<close> writes to the page \<^verbatim>\<open>kalloc\<close> returns without checking it for 0.\<close>

definition kvmmake :: "'a kmem_state_scheme \<Rightarrow> (u64, 'a kmem_state_scheme) outcome" where
  "kvmmake s =
     (case kalloc s of (kpgtbl, s) \<Rightarrow>
        let s = memset_page kpgtbl 0 s in
        obind (kvmmap kpgtbl UART0 UART0 PGSIZE (PTE_R OR PTE_W) s) (\<lambda>_ s.
        obind (kvmmap kpgtbl VIRTIO0 VIRTIO0 PGSIZE (PTE_R OR PTE_W) s) (\<lambda>_ s.
        obind (kvmmap kpgtbl PLIC PLIC 0x4000000 (PTE_R OR PTE_W) s) (\<lambda>_ s.
        obind (kvmmap kpgtbl KERNBASE KERNBASE (etext s - KERNBASE) (PTE_R OR PTE_X) s) (\<lambda>_ s.
        obind (kvmmap kpgtbl (etext s) (etext s) (PHYSTOP - etext s) (PTE_R OR PTE_W) s) (\<lambda>_ s.
        obind (kvmmap kpgtbl TRAMPOLINE (trampoline s) PGSIZE (PTE_R OR PTE_X) s) (\<lambda>_ s.
        obind (proc_mapstacks kpgtbl s) (\<lambda>_ s. Done kpgtbl s))))))))"

section \<open>Slots of the table\<close>

definition allocpid :: "'a proc_state_scheme \<Rightarrow> int \<times> 'a proc_state_scheme" where
  "allocpid s = (nextpid s, s\<lparr>nextpid := wrap32 (nextpid s + 1)\<rparr>)"

definition proc_pagetable :: "nat \<Rightarrow> 'a proc_state_scheme \<Rightarrow> (u64, 'a proc_state_scheme) outcome" where
  "proc_pagetable p s =
     (case uvmcreate s of (pagetable, s) \<Rightarrow>
        if pagetable = 0 then Done 0 s
        else obind (mappages pagetable TRAMPOLINE PGSIZE (trampoline s) (PTE_R OR PTE_X) s) (\<lambda>r s.
          if r < 0 then obind (uvmfree pagetable 0 s) (\<lambda>_ s. Done 0 s)
          else obind (mappages pagetable TRAPFRAME PGSIZE (p_trapframe (proc_at s p)) (PTE_R OR PTE_W) s) (\<lambda>r s.
            if r < 0 then
              obind (uvmunmap pagetable TRAMPOLINE 1 False s) (\<lambda>_ s.
              obind (uvmfree pagetable 0 s) (\<lambda>_ s. Done 0 s))
            else Done pagetable s)))"

definition proc_freepagetable :: "u64 \<Rightarrow> u64 \<Rightarrow> 'a kmem_state_scheme \<Rightarrow> (unit, 'a kmem_state_scheme) outcome" where
  "proc_freepagetable pagetable sz s =
     obind (uvmunmap pagetable TRAMPOLINE 1 False s) (\<lambda>_ s.
     obind (uvmunmap pagetable TRAPFRAME 1 False s) (\<lambda>_ s.
     uvmfree pagetable sz s))"

definition freeproc :: "nat \<Rightarrow> 'a proc_state_scheme \<Rightarrow> (unit, 'a proc_state_scheme) outcome" where
  "freeproc p s =
     obind (if p_trapframe (proc_at s p) \<noteq> 0 then kfree (p_trapframe (proc_at s p)) s else Done () s) (\<lambda>_ s.
     let s = set_proc p (p_trapframe_update (\<lambda>_. 0)) s in
     obind (if p_pagetable (proc_at s p) \<noteq> 0
            then proc_freepagetable (p_pagetable (proc_at s p)) (p_sz (proc_at s p)) s else Done () s) (\<lambda>_ s.
     Done () (set_proc p (\<lambda>q. q\<lparr>p_pagetable := 0, p_sz := 0, p_pid := 0, p_parent := None,
       p_name := (p_name q)(0 := 0), p_chan := None, p_killed := 0, p_xstate := 0, p_state := UNUSED\<rparr>) s)))"

definition zero_context :: kcontext where
  "zero_context = \<lparr>c_ra = 0, c_sp = 0, c_s = replicate 12 0\<rparr>"

definition allocproc :: "'a proc_state_scheme \<Rightarrow> (nat option, 'a proc_state_scheme) outcome" where
  "allocproc s =
     (case List.find (\<lambda>i. p_state (proc_at s i) = UNUSED) [0..<NPROC] of
        None \<Rightarrow> Done None s
      | Some p \<Rightarrow>
          (case allocpid s of (pid, s) \<Rightarrow>
           let s = set_proc p (\<lambda>q. q\<lparr>p_pid := pid, p_state := USED\<rparr>) s in
           (case kalloc s of (tf, s) \<Rightarrow>
            let s = set_proc p (p_trapframe_update (\<lambda>_. tf)) s in
            if tf = 0 then obind (freeproc p s) (\<lambda>_ s. Done None s)
            else obind (proc_pagetable p s) (\<lambda>pt s.
              let s = set_proc p (p_pagetable_update (\<lambda>_. pt)) s in
              if pt = 0 then obind (freeproc p s) (\<lambda>_ s. Done None s)
              else Done (Some p) (set_proc p (\<lambda>q. q\<lparr>
                p_context := zero_context\<lparr>c_ra := forkret_pc s, c_sp := p_kstack q + PGSIZE\<rparr>,
                p_tickets := 1, p_ticks := 0\<rparr>) s)))))"

section \<open>The lottery scheduler\<close>

text \<open>
  One round of the endless loop of \<^verbatim>\<open>scheduler\<close>. The first pass adds up tickets in a C
  \<^verbatim>\<open>int\<close>. \<^verbatim>\<open>rand_next() % tot\<close> is an unsigned remainder, because \<^verbatim>\<open>rand_next\<close> returns \<^verbatim>\<open>uint\<close>,
  converted back to \<^verbatim>\<open>int\<close>. Each pass takes one process lock at a time, so the second pass
  may see a later state than the first: \<open>between\<close> is what the other harts do in the meantime. If it then finds no process, it
  idles as in the branch \<^verbatim>\<open>!found\<close>.
\<close>

fun count_tickets :: "proc list \<Rightarrow> int \<Rightarrow> int" where
  "count_tickets [] tot = tot"
| "count_tickets (p # ps) tot =
     count_tickets ps (if p_state p = RUNNABLE then wrap32 (tot + p_tickets p) else tot)"

definition draw :: "u32 \<Rightarrow> int \<Rightarrow> int" where
  "draw r tot = sint (r mod word_of_int tot)"

fun find_winner :: "proc list \<Rightarrow> nat \<Rightarrow> int \<Rightarrow> int \<Rightarrow> nat option" where
  "find_winner [] i counter winner = None"
| "find_winner (p # ps) i counter winner =
     (if p_state p = RUNNABLE then
        let counter = wrap32 (counter + p_tickets p) in
        if counter > winner then Some i else find_winner ps (Suc i) counter winner
      else find_winner ps (Suc i) counter winner)"

text \<open>The switch to the winner: the scheduler's thread is suspended in \<^verbatim>\<open>swtch\<close> and the
  process runs on this hart until it calls \<^verbatim>\<open>sched\<close>.\<close>

definition dispatch :: "nat \<Rightarrow> 'a proc_state_scheme \<Rightarrow> 'a proc_state_scheme" where
  "dispatch i s = set_cpu_proc (Some i)
     (set_proc i (\<lambda>p. p\<lparr>p_state := RUNNING, p_ticks := wrap32 (p_ticks p + 1)\<rparr>) s)"

definition scheduler_round :: "('a proc_state_scheme \<Rightarrow> 'a proc_state_scheme) \<Rightarrow> 'a proc_state_scheme \<Rightarrow> nat option \<times> 'a proc_state_scheme" where
  "scheduler_round between s =
     (let s = set_cpu_proc None s; tot = count_tickets (procs s) 0 in
      if tot = 0 then (None, s)
      else
        let s = s\<lparr>rand_state := rand_next (rand_state s)\<rparr>;
            winner = draw (rand_state s) tot;
            s = between s
        in case find_winner (procs s) 0 0 winner of
             None \<Rightarrow> (None, s)
           | Some i \<Rightarrow> (Some i, dispatch i s))"

text \<open>A round in which the table stays as it is.\<close>

definition scheduler :: "'a proc_state_scheme \<Rightarrow> nat option \<times> 'a proc_state_scheme" where
  "scheduler s = scheduler_round (\<lambda>s. s) s"

section \<open>Giving up the CPU\<close>

text \<open>\<^verbatim>\<open>sched\<close>: back to the scheduler's thread, which clears \<^verbatim>\<open>c->proc\<close>. The guards on the held
  locks and on interrupts belong to the lock discipline (theory \<open>Spinlock\<close>).\<close>

definition sched :: "'a proc_state_scheme \<Rightarrow> (unit, 'a proc_state_scheme) outcome" where
  "sched s =
     (if p_state (proc_at s (cur s)) = RUNNING then Panic ''sched RUNNING''
      else Done () (set_cpu_proc None s))"

definition yield :: "'a proc_state_scheme \<Rightarrow> (unit, 'a proc_state_scheme) outcome" where
  "yield s = sched (set_proc (cur s) (p_state_update (\<lambda>_. RUNNABLE)) s)"

text \<open>\<^verbatim>\<open>sleep\<close> up to the point where it loses the CPU, and what it does when it gets it back.\<close>

definition sleep :: "chan \<Rightarrow> 'a proc_state_scheme \<Rightarrow> ('b, 'a proc_state_scheme) outcome" where
  "sleep c s =
     (case sched (set_proc (cur s) (\<lambda>p. p\<lparr>p_chan := Some c, p_state := SLEEPING\<rparr>) s) of
        Done _ s \<Rightarrow> Asleep c s | Panic e \<Rightarrow> Panic e | Asleep c s \<Rightarrow> Asleep c s)"

definition sleep_return :: "'a proc_state_scheme \<Rightarrow> 'a proc_state_scheme" where
  "sleep_return s = set_proc (cur s) (p_chan_update (\<lambda>_. None)) s"

definition wakeup :: "chan \<Rightarrow> 'a proc_state_scheme \<Rightarrow> 'a proc_state_scheme" where
  "wakeup c s = s\<lparr>procs := map (\<lambda>i. let p = proc_at s i in
     if myproc s \<noteq> Some i \<and> p_state p = SLEEPING \<and> p_chan p = Some c
     then p\<lparr>p_state := RUNNABLE\<rparr> else p) [0..<length (procs s)]\<rparr>"

section \<open>Kill, tickets, accounting\<close>

definition kkill :: "int \<Rightarrow> 'a proc_state_scheme \<Rightarrow> int \<times> 'a proc_state_scheme" where
  "kkill pid s =
     (case List.find (\<lambda>i. p_pid (proc_at s i) = pid) [0..<NPROC] of
        None \<Rightarrow> (-1, s)
      | Some i \<Rightarrow> (0, set_proc i (\<lambda>p. p\<lparr>p_killed := 1,
          p_state := (if p_state p = SLEEPING then RUNNABLE else p_state p)\<rparr>) s))"

definition setkilled :: "nat \<Rightarrow> 'a proc_state_scheme \<Rightarrow> 'a proc_state_scheme" where
  "setkilled p s = set_proc p (p_killed_update (\<lambda>_. 1)) s"

definition killed :: "nat \<Rightarrow> 'a proc_state_scheme \<Rightarrow> int" where
  "killed p s = p_killed (proc_at s p)"

text \<open>The argument is the address of the \<^verbatim>\<open>struct pstat\<close>; the second result is what is stored there.\<close>

definition kgetpinfo :: "u64 \<Rightarrow> 'a proc_state_scheme \<Rightarrow> int \<times> pstat option" where
  "kgetpinfo st s =
     (if st = 0 then (-1, None)
      else (0, Some \<lparr>inuse = map (\<lambda>p. if p_state p \<noteq> UNUSED then 1 else 0) (procs s),
                     st_tickets = map p_tickets (procs s),
                     st_pid = map p_pid (procs s),
                     st_ticks = map p_ticks (procs s)\<rparr>))"

definition ksettickets :: "int \<Rightarrow> 'a proc_state_scheme \<Rightarrow> int \<times> 'a proc_state_scheme" where
  "ksettickets number s =
     (if number < 1 then (-1, s) else (0, set_proc (cur s) (p_tickets_update (\<lambda>_. number)) s))"

definition growproc :: "int \<Rightarrow> 'a proc_state_scheme \<Rightarrow> (int, 'a proc_state_scheme) outcome" where
  "growproc n s =
     (let p = cur s; sz = p_sz (proc_at s p); pagetable = p_pagetable (proc_at s p) in
      if n > 0 then
        if sz + word_of_int n > TRAPFRAME then Done (-1) s
        else obind (uvmalloc pagetable sz (sz + word_of_int n) PTE_W s) (\<lambda>sz s.
          if sz = 0 then Done (-1) s else Done 0 (set_proc p (p_sz_update (\<lambda>_. sz)) s))
      else if n < 0 then
        obind (uvmdealloc pagetable sz (sz + word_of_int n) s) (\<lambda>sz s.
          Done 0 (set_proc p (p_sz_update (\<lambda>_. sz)) s))
      else Done 0 (set_proc p (p_sz_update (\<lambda>_. sz)) s))"

text \<open>The listing of \<^verbatim>\<open>procdump\<close>: one line per used slot, with pid, state and name.\<close>

fun state_name :: "procstate \<Rightarrow> string" where
  "state_name UNUSED = ''unused''"
| "state_name USED = ''used''"
| "state_name SLEEPING = ''sleep ''"
| "state_name RUNNABLE = ''runble''"
| "state_name RUNNING = ''run   ''"
| "state_name ZOMBIE = ''zombie''"

definition procdump :: "'a proc_state_scheme \<Rightarrow> (int \<times> string \<times> (nat \<Rightarrow> u8)) list" where
  "procdump s = map (\<lambda>p. (p_pid p, state_name (p_state p), p_name p))
     (filter (\<lambda>p. p_state p \<noteq> UNUSED) (procs s))"

end
