(* ===== verification/Lottery.thy ===== *)
theory Lottery
  imports Proc
begin

text \<open>
  The lottery of \<^verbatim>\<open>scheduler\<close> in \<^verbatim>\<open>kernel/proc.c\<close>: which process a draw selects, that shares
  are exactly proportional to tickets, that a runnable process is always found, and the
  fairness of a whole period of the generator.
\<close>

section \<open>Tickets as intervals\<close>

definition tk :: "proc \<Rightarrow> int" where
  "tk p = (if p_state p = RUNNABLE then p_tickets p else 0)"

definition before :: "proc list \<Rightarrow> nat \<Rightarrow> int" where
  "before ps k = sum_list (map tk (take k ps))"

definition all_tickets :: "proc list \<Rightarrow> int" where
  "all_tickets ps = sum_list (map tk ps)"

text \<open>The configurations the scheduler is meant for: every runnable process has at least
  one ticket and the sum fits a C \<^verbatim>\<open>int\<close>.\<close>

definition tickets_ok :: "proc list \<Rightarrow> bool" where
  "tickets_ok ps \<longleftrightarrow> (\<forall>p \<in> set ps. p_state p = RUNNABLE \<longrightarrow> 1 \<le> p_tickets p) \<and> all_tickets ps < 2 ^ 31"

lemma tk_nonneg: "tickets_ok ps \<Longrightarrow> p \<in> set ps \<Longrightarrow> 0 \<le> tk p"
  by (force simp: tickets_ok_def tk_def)

lemma all_tickets_nonneg: "(\<forall>p \<in> set ps. 0 \<le> tk p) \<Longrightarrow> 0 \<le> all_tickets ps"
  by (induction ps) (auto simp: all_tickets_def)

lemma count_tickets_sum:
  "(\<forall>p \<in> set ps. 0 \<le> tk p) \<Longrightarrow> 0 \<le> t \<Longrightarrow> t + all_tickets ps < 2 ^ 31 \<Longrightarrow> count_tickets ps t = t + all_tickets ps"
proof (induction ps arbitrary: t)
  case (Cons p ps)
  have nn: "0 \<le> all_tickets ps" using Cons.prems(1) by (intro all_tickets_nonneg) simp
  have al: "all_tickets (p # ps) = tk p + all_tickets ps" by (simp add: all_tickets_def)
  have tp: "0 \<le> tk p" using Cons.prems(1) by simp
  have w: "(if p_state p = RUNNABLE then wrap32 (t + p_tickets p) else t) = t + tk p"
  proof (cases "p_state p = RUNNABLE")
    case True
    then have "wrap32 (t + p_tickets p) = t + p_tickets p"
      using Cons.prems tp nn al by (intro wrap32_id) (simp_all add: tk_def)
    then show ?thesis using True by (simp add: tk_def)
  qed (simp add: tk_def)
  show ?case using Cons.IH [of "t + tk p"] Cons.prems tp al by (simp add: w add.assoc)
qed (simp add: all_tickets_def)

lemma before_0 [simp]: "before ps 0 = 0"
  by (simp add: before_def)

lemma before_Suc: "k < length ps \<Longrightarrow> before ps (Suc k) = before ps k + tk (ps ! k)"
  by (simp add: before_def take_Suc_conv_app_nth)

lemma before_Cons: "before (p # ps) (Suc k) = tk p + before ps k"
  by (simp add: before_def)

lemma before_mono:
  assumes "\<forall>p \<in> set ps. 0 \<le> tk p" "j \<le> k" "k \<le> length ps"
  shows "before ps j \<le> before ps k"
  using assms(2,3)
proof (induction k)
  case (Suc k)
  show ?case
  proof (cases "j = Suc k")
    case False
    then have "before ps j \<le> before ps k" using Suc by simp
    moreover have "0 \<le> tk (ps ! k)" using assms(1) Suc.prems by simp
    ultimately show ?thesis using Suc.prems by (simp add: before_Suc)
  qed simp
qed simp

lemma before_length: "before ps (length ps) = all_tickets ps"
  by (simp add: before_def all_tickets_def)

text \<open>\<open>wins ps w k\<close>: ticket number \<open>w\<close> belongs to process \<open>k\<close>.\<close>

definition wins :: "proc list \<Rightarrow> int \<Rightarrow> nat \<Rightarrow> bool" where
  "wins ps w k \<longleftrightarrow> k < length ps \<and> p_state (ps ! k) = RUNNABLE \<and> before ps k \<le> w \<and> w < before ps k + p_tickets (ps ! k)"

lemma wins_Cons_Suc: "wins (p # ps) w (Suc k) \<longleftrightarrow> wins ps (w - tk p) k"
  by (auto simp: wins_def before_Cons)

lemma find_winner_wins:
  assumes "\<forall>p \<in> set ps. 0 \<le> tk p" "0 \<le> c" "c + all_tickets ps < 2 ^ 31" "c \<le> w"
  shows "find_winner ps i c w = Some k \<longleftrightarrow> i \<le> k \<and> wins ps (w - c) (k - i)"
  using assms
proof (induction ps arbitrary: i c)
  case Nil
  then show ?case by (simp add: wins_def)
next
  case (Cons p ps)
  have nn: "0 \<le> all_tickets ps" using Cons.prems(1) by (intro all_tickets_nonneg) simp
  have al: "all_tickets (p # ps) = tk p + all_tickets ps" by (simp add: all_tickets_def)
  have tp: "0 \<le> tk p" using Cons.prems(1) by simp
  have beyond: "\<not> wins ps x j" if "x < 0" for x j
  proof
    assume "wins ps x j"
    then have "before ps 0 \<le> before ps j" "before ps j \<le> x"
      using before_mono [of ps 0 j] Cons.prems(1) by (simp_all add: wins_def)
    then show False using that by simp
  qed
  show ?case
  proof (cases "p_state p = RUNNABLE \<and> c + tk p > w")
    case True
    then have "wrap32 (c + p_tickets p) = c + p_tickets p"
      using Cons.prems tp nn al by (intro wrap32_id) (simp_all add: tk_def)
    then have "find_winner (p # ps) i c w = Some i" using True by (auto simp: tk_def Let_def)
    moreover have "i \<le> k \<and> wins (p # ps) (w - c) (k - i) \<longleftrightarrow> k = i"
    proof (cases "k - i")
      case 0
      then show ?thesis using True Cons.prems(4) by (auto simp: wins_def tk_def)
    next
      case (Suc j)
      then show ?thesis using beyond [of "w - c - tk p" j] True by (auto simp: wins_Cons_Suc)
    qed
    ultimately show ?thesis by auto
  next
    case False
    have step: "find_winner (p # ps) i c w = find_winner ps (Suc i) (c + tk p) w"
    proof (cases "p_state p = RUNNABLE")
      case True
      then have "wrap32 (c + p_tickets p) = c + p_tickets p"
        using Cons.prems tp nn al by (intro wrap32_id) (simp_all add: tk_def)
      then show ?thesis using True False by (simp add: tk_def Let_def)
    qed (simp add: tk_def)
    have le: "c + tk p \<le> w" using False Cons.prems(4) by (auto simp: tk_def)
    have "find_winner ps (Suc i) (c + tk p) w = Some k \<longleftrightarrow> Suc i \<le> k \<and> wins ps (w - (c + tk p)) (k - Suc i)"
      using Cons.prems tp al le by (intro Cons.IH) auto
    moreover have "i \<le> k \<and> wins (p # ps) (w - c) (k - i) \<longleftrightarrow> Suc i \<le> k \<and> wins ps (w - (c + tk p)) (k - Suc i)"
    proof (cases "k - i")
      case 0
      have "\<not> wins (p # ps) (w - c) 0" using le by (auto simp: wins_def tk_def)
      then show ?thesis using 0 by auto
    next
      case (Suc j)
      then have "k - Suc i = j" "Suc i \<le> k" by auto
      then show ?thesis using Suc by (simp add: wins_Cons_Suc diff_diff_eq)
    qed
    ultimately show ?thesis using step by simp
  qed
qed

lemma find_winner_iff:
  assumes "tickets_ok ps" "0 \<le> w"
  shows "find_winner ps 0 0 w = Some k \<longleftrightarrow> wins ps w k"
proof -
  have "\<forall>p \<in> set ps. 0 \<le> tk p" using assms(1) tk_nonneg by blast
  then show ?thesis
    using find_winner_wins [of ps 0 w 0 k] assms by (simp add: tickets_ok_def)
qed

lemma wins_exists:
  assumes "tickets_ok ps" "0 \<le> w" "w < all_tickets ps"
  shows "\<exists>k. wins ps w k"
proof -
  have nn: "\<forall>p \<in> set ps. 0 \<le> tk p" using assms(1) tk_nonneg by blast
  let ?P = "\<lambda>k. k \<le> length ps \<and> w < before ps k"
  have "?P (length ps)" using assms(3) by (simp add: before_length)
  then have P: "?P (LEAST k. ?P k)" by (rule LeastI)
  obtain j where j: "(LEAST k. ?P k) = Suc j"
    using P assms(2) by (cases "LEAST k. ?P k") simp_all
  then have "\<not> ?P j" using not_less_Least [of j ?P] by simp
  then have "before ps j \<le> w" "j < length ps" "w < before ps j + tk (ps ! j)"
    using P j by (simp_all add: before_Suc [symmetric])
  then have "wins ps w j" using nn by (auto simp: wins_def tk_def split: if_splits)
  then show ?thesis by blast
qed

lemma wins_unique:
  assumes "tickets_ok ps" "0 \<le> w" "wins ps w j" "wins ps w k"
  shows "j = k"
proof -
  have "Some j = Some k" using find_winner_iff [OF assms(1,2)] assms(3,4) by metis
  then show ?thesis by simp
qed

lemma wins_range: "tickets_ok ps \<Longrightarrow> wins ps w k \<Longrightarrow> 0 \<le> w \<and> w < all_tickets ps"
proof -
  assume a: "tickets_ok ps" "wins ps w k"
  have nn: "\<forall>p \<in> set ps. 0 \<le> tk p" using a(1) tk_nonneg by blast
  have k: "k < length ps" "before ps k \<le> w" "w < before ps (Suc k)"
    using a(2) by (auto simp: wins_def before_Suc tk_def)
  then show ?thesis
    using before_mono [OF nn, of 0 k] before_mono [OF nn, of "Suc k" "length ps"] by (simp add: before_length)
qed

lemma draw_mod:
  assumes "0 < t" "t < 2 ^ 31"
  shows "draw r t = uint r mod t"
proof -
  have u: "uint (word_of_int t :: u32) = t" using assms by (simp add: uint_word_of_int)
  then have "uint (r mod word_of_int t) = uint r mod t" by (simp add: uint_mod_distrib)
  moreover have "0 \<le> uint r mod t" using assms by simp
  moreover have "uint r mod t < 2 ^ 31" using less_trans [OF pos_mod_bound [OF assms(1)] assms(2)] .
  ultimately show ?thesis unfolding draw_def by (simp add: sint_uint signed_take_bit_int_eq_self)
qed

lemma draw_range:
  assumes "0 < t" "t < 2 ^ 31"
  shows "0 \<le> draw r t" "draw r t < t"
  using assms by (simp_all add: draw_mod)

section \<open>Counting draws\<close>

lemma card_residue:
  fixes N T w :: nat
  assumes "w < T"
  shows "N div T \<le> card {u. u < N \<and> u mod T = w}" and "card {u. u < N \<and> u mod T = w} \<le> Suc (N div T)"
proof -
  let ?U = "{u. u < N \<and> u mod T = w}"
  have T: "0 < T" using assms by simp
  have inj: "inj_on (\<lambda>j. w + j * T) A" for A using T by (simp add: inj_on_def)
  have fin: "finite ?U" by (rule finite_subset [of _ "{..<N}"]) auto
  have "(\<lambda>j. w + j * T) ` {..<N div T} \<subseteq> ?U"
  proof
    fix u assume "u \<in> (\<lambda>j. w + j * T) ` {..<N div T}"
    then obtain j where j: "j < N div T" "u = w + j * T" by auto
    then have "Suc j * T \<le> N div T * T" by (intro mult_le_mono1) simp
    also have "\<dots> \<le> N" by (rule div_times_less_eq_dividend)
    finally have "u < N" using j(2) assms by simp
    then show "u \<in> ?U" using j(2) assms by simp
  qed
  from card_mono [OF fin this] show "N div T \<le> card ?U" by (simp add: card_image [OF inj])
  have "?U \<subseteq> (\<lambda>j. w + j * T) ` {..<Suc (N div T)}"
  proof
    fix u assume u: "u \<in> ?U"
    then have "u = w + u div T * T" using mod_div_mult_eq [of u T] by simp
    moreover have "u div T < Suc (N div T)" using u by (simp add: div_le_mono less_Suc_eq_le)
    ultimately show "u \<in> (\<lambda>j. w + j * T) ` {..<Suc (N div T)}" by blast
  qed
  from card_mono [OF _ this] show "card ?U \<le> Suc (N div T)" by (simp add: card_image [OF inj])
qed

lemma card_residue_range:
  fixes N T b t :: nat
  assumes "b + t \<le> T"
  shows "t * (N div T) \<le> card {u. u < N \<and> b \<le> u mod T \<and> u mod T < b + t}"
    and "card {u. u < N \<and> b \<le> u mod T \<and> u mod T < b + t} \<le> t * Suc (N div T)"
proof -
  let ?V = "\<lambda>w. {u. u < N \<and> u mod T = w}"
  have eq: "{u. u < N \<and> b \<le> u mod T \<and> u mod T < b + t} = (\<Union>w \<in> {b..<b + t}. ?V w)" by auto
  have fin: "finite (?V w)" for w by (rule finite_subset [of _ "{..<N}"]) auto
  have c: "card (\<Union>w \<in> {b..<b + t}. ?V w) = (\<Sum>w \<in> {b..<b + t}. card (?V w))"
    by (rule card_UN_disjoint) (use fin in auto)
  have w: "w \<in> {b..<b + t} \<Longrightarrow> w < T" for w using assms by simp
  have "(\<Sum>w \<in> {b..<b + t}. N div T) \<le> (\<Sum>w \<in> {b..<b + t}. card (?V w))"
    by (rule sum_mono) (rule card_residue(1) [OF w])
  then show "t * (N div T) \<le> card {u. u < N \<and> b \<le> u mod T \<and> u mod T < b + t}" unfolding eq c by simp
  have "(\<Sum>w \<in> {b..<b + t}. card (?V w)) \<le> (\<Sum>w \<in> {b..<b + t}. Suc (N div T))"
    by (rule sum_mono) (rule card_residue(2) [OF w])
  then show "card {u. u < N \<and> b \<le> u mod T \<and> u mod T < b + t} \<le> t * Suc (N div T)" unfolding eq c by simp
qed

text \<open>Over one period the generator takes every 32-bit value once.\<close>

lemma bij_betw_filter:
  assumes "bij_betw f A B"
  shows "bij_betw f {a \<in> A. P (f a)} {b \<in> B. P b}"
proof -
  have inj: "inj_on f A" and im: "f ` A = B" using assms by (simp_all add: bij_betw_def)
  have "f ` {a \<in> A. P (f a)} = {b \<in> B. P b}" using im by blast
  moreover have "inj_on f {a \<in> A. P (f a)}" by (rule inj_on_subset [OF inj]) blast
  ultimately show ?thesis by (simp add: bij_betw_def)
qed

lemma card_period:
  "card {n. n < 2 ^ 32 \<and> P (unat ((rand_next ^^ n) x))} = card {u :: nat. u < 2 ^ 32 \<and> P u}"
proof -
  let ?f = "\<lambda>n. unat ((rand_next ^^ n) x)"
  have "bij_betw ?f {..<2 ^ 32} {..<2 ^ 32}"
    unfolding bij_betw_def
  proof
    show "inj_on ?f {..<2 ^ 32}"
      using rand_orbit_inj [of x] by (auto simp: inj_on_def word_unat_eq_iff)
    show "?f ` {..<2 ^ 32} = {..<2 ^ 32}"
    proof (intro set_eqI iffI)
      fix u :: nat assume "u \<in> ?f ` {..<2 ^ 32}"
      then show "u \<in> {..<2 ^ 32}" using unsigned_less [where ?'a = nat and ?'b = 32] by auto
    next
      fix u :: nat assume u: "u \<in> {..<2 ^ 32}"
      obtain n where n: "n < 2 ^ 32" "(rand_next ^^ n) x = of_nat u" using rand_orbit_surj by blast
      have "unat (of_nat u :: u32) = u" using u by (simp add: unat_of_nat)
      then show "u \<in> ?f ` {..<2 ^ 32}" using n by force
    qed
  qed
  then have "bij_betw ?f {n \<in> {..<2 ^ 32}. P (?f n)} {u \<in> {..<2 ^ 32}. P u}" by (rule bij_betw_filter)
  then show ?thesis by (simp add: bij_betw_same_card)
qed

section \<open>An example table\<close>

definition ex_proc :: "procstate \<Rightarrow> int \<Rightarrow> proc" where
  "ex_proc st t = \<lparr>p_state = st, p_chan = None, p_killed = 0, p_xstate = 0, p_pid = 0, p_parent = None,
     p_kstack = 0, p_sz = 0, p_pagetable = 0, p_trapframe = 0, p_context = zero_context,
     p_ofile = replicate NOFILE None, p_cwd = None, p_name = (\<lambda>_. 0), p_tickets = t, p_ticks = 0\<rparr>"

definition ex_procs :: "proc list" where
  "ex_procs = [ex_proc RUNNABLE 3, ex_proc SLEEPING 5, ex_proc RUNNABLE 1] @ replicate 61 (ex_proc UNUSED 0)"

definition ex_pstate :: "proc list \<Rightarrow> proc_state" where
  "ex_pstate ps = \<lparr>kend = 0x80100000, etext = 0x80008000, trampoline = 0x80007000, freelist = 0,
     mem = (\<lambda>_ _. 0), forkret_pc = 0, procs = ps, nextpid = 1, initproc = None, rand_state = 1,
     cpus = (\<lambda>_. \<lparr>c_proc = None, c_noff = 0, c_intena = False\<rparr>), tp = 0\<rparr>"

lemma ex_all_tickets: "all_tickets ex_procs = 4"
  by (simp add: all_tickets_def ex_procs_def tk_def ex_proc_def sum_list_replicate)

lemma ex_tickets_ok: "tickets_ok ex_procs"
  unfolding tickets_ok_def ex_all_tickets by (auto simp: ex_procs_def ex_proc_def)

section \<open>Properties\<close>

text \<open>C8: in a well-formed configuration with at least one runnable process the scheduler
  always dispatches: it draws ticket \<open>w\<close>, the next value of the generator modulo the number of
  tickets of all runnable processes, and runs exactly the process whose tickets contain
  \<open>w\<close>, which becomes the current process of the hart, running, with one more tick; no
  other process changes.\<close>

theorem scheduler_lottery:
  assumes "tickets_ok (procs s)" and "p \<in> set (procs s)" and "p_state p = RUNNABLE"
    and "\<forall>q \<in> set (procs s). 0 \<le> p_ticks q \<and> p_ticks q < 2 ^ 31 - 1"
  shows "\<exists>k s'. scheduler s = (Some k, s') \<and>
    wins (procs s) (uint (rand_next (rand_state s)) mod all_tickets (procs s)) k \<and>
    myproc s' = Some k \<and> rand_state s' = rand_next (rand_state s) \<and>
    procs s' = (procs s)[k := (procs s ! k)\<lparr>p_state := RUNNING, p_ticks := p_ticks (procs s ! k) + 1\<rparr>]"
proof -
  let ?T = "all_tickets (procs s)" and ?r = "rand_next (rand_state s)"
  have nn: "\<forall>p \<in> set (procs s). 0 \<le> tk p" using assms(1) tk_nonneg by blast
  have lt: "?T < 2 ^ 31" using assms(1) by (simp add: tickets_ok_def)
  have "1 \<le> tk p" using assms(1-3) by (simp add: tickets_ok_def tk_def)
  moreover have "tk p \<le> ?T"
    unfolding all_tickets_def using nn assms(2) by (intro member_le_sum_list) auto
  ultimately have pos: "0 < ?T" by simp
  have ct: "count_tickets (procs s) 0 = ?T" using count_tickets_sum [OF nn, of 0] lt by simp
  let ?w = "uint ?r mod ?T"
  have w: "0 \<le> ?w" "?w < ?T" using pos by simp_all
  obtain k where k: "wins (procs s) ?w k" using wins_exists [OF assms(1) w] by blast
  then have fw: "find_winner (procs s) 0 0 ?w = Some k" using find_winner_iff [OF assms(1) w(1)] by simp
  have kl: "k < length (procs s)" using k by (simp add: wins_def)
  then have "wrap32 (p_ticks (procs s ! k) + 1) = p_ticks (procs s ! k) + 1"
    using assms(4) nth_mem [OF kl] by (intro wrap32_id) force+
  then show ?thesis
    using ct pos fw k draw_mod [OF pos lt, of ?r]
    by (simp add: scheduler_def scheduler_round_def Let_def set_cpu_proc_def dispatch_def set_proc_def myproc_def mycpu_def cpuid_def)
qed

lemma scheduler_lottery_witness:
  "\<exists>k s'. scheduler (ex_pstate ex_procs) = (Some k, s') \<and>
    wins ex_procs (uint (rand_next 1) mod all_tickets ex_procs) k \<and>
    myproc s' = Some k \<and> rand_state s' = rand_next 1 \<and>
    procs s' = ex_procs[k := (ex_procs ! k)\<lparr>p_state := RUNNING, p_ticks := p_ticks (ex_procs ! k) + 1\<rparr>]"
proof -
  have "p_state (ex_proc RUNNABLE 3) = RUNNABLE" by (simp add: ex_proc_def)
  moreover have "ex_proc RUNNABLE 3 \<in> set (procs (ex_pstate ex_procs))" by (simp add: ex_pstate_def ex_procs_def)
  moreover have "\<forall>q \<in> set (procs (ex_pstate ex_procs)). 0 \<le> p_ticks q \<and> p_ticks q < 2 ^ 31 - 1"
    by (auto simp: ex_pstate_def ex_procs_def ex_proc_def)
  moreover have "tickets_ok (procs (ex_pstate ex_procs))" using ex_tickets_ok by (simp add: ex_pstate_def)
  ultimately show ?thesis
    using scheduler_lottery [of "ex_pstate ex_procs" "ex_proc RUNNABLE 3"] by (simp add: ex_pstate_def)
qed

text \<open>C29: shares are exact: of the \<open>T\<close> tickets that can be drawn, exactly as many select
  process \<open>k\<close> as \<open>k\<close> holds, and none if it is not runnable.\<close>

theorem lottery_share:
  assumes "tickets_ok ps" and "k < length ps"
  shows "card {w. 0 \<le> w \<and> w < all_tickets ps \<and> find_winner ps 0 0 w = Some k} =
    (if p_state (ps ! k) = RUNNABLE then nat (p_tickets (ps ! k)) else 0)"
proof -
  have "{w. 0 \<le> w \<and> w < all_tickets ps \<and> find_winner ps 0 0 w = Some k} = {w. wins ps w k}"
    using find_winner_iff [OF assms(1)] wins_range [OF assms(1)] by blast
  also have "\<dots> = (if p_state (ps ! k) = RUNNABLE then {before ps k..<before ps k + p_tickets (ps ! k)} else {})"
    using assms(2) by (auto simp: wins_def)
  finally show ?thesis by simp
qed

lemma lottery_share_witness:
  "card {w. 0 \<le> w \<and> w < all_tickets ex_procs \<and> find_winner ex_procs 0 0 w = Some 0} = 3"
proof -
  have "card {w. 0 \<le> w \<and> w < all_tickets ex_procs \<and> find_winner ex_procs 0 0 w = Some 0} =
      (if p_state (ex_procs ! 0) = RUNNABLE then nat (p_tickets (ex_procs ! 0)) else 0)"
    by (rule lottery_share [OF ex_tickets_ok]) (simp add: ex_procs_def)
  then show ?thesis by (simp add: ex_procs_def ex_proc_def)
qed

text \<open>C9: no runnable process starves: over one period of the generator (\<open>2^32\<close> rounds with the
  same runnable processes) process \<open>k\<close> with \<open>t\<close> of \<open>T\<close> tickets is selected between
  \<open>t * (2^32 div T)\<close> and \<open>t * (2^32 div T + 1)\<close> times, whatever the seed.\<close>

theorem lottery_period_fair:
  assumes "tickets_ok ps" and "k < length ps" and "p_state (ps ! k) = RUNNABLE"
  shows "let T = all_tickets ps; t = nat (p_tickets (ps ! k));
      won = card {n. n < 2 ^ 32 \<and> find_winner ps 0 0 (draw ((rand_next ^^ n) seed) T) = Some k}
    in t * (2 ^ 32 div nat T) \<le> won \<and> won \<le> t * Suc (2 ^ 32 div nat T) \<and> 0 < won"
proof -
  define T where "T = all_tickets ps"
  define t where "t = nat (p_tickets (ps ! k))"
  define won where "won = card {n. n < 2 ^ 32 \<and> find_winner ps 0 0 (draw ((rand_next ^^ n) seed) T) = Some k}"
  have nn: "\<forall>p \<in> set ps. 0 \<le> tk p" using assms(1) tk_nonneg by blast
  have t1: "1 \<le> p_tickets (ps ! k)" using assms(1-3) nth_mem by (auto simp: tickets_ok_def)
  have b0: "0 \<le> before ps k" using before_mono [OF nn, of 0 k] assms(2) by simp
  have bt: "before ps k + p_tickets (ps ! k) \<le> T"
    using before_mono [OF nn, of "Suc k" "length ps"] assms(2,3) by (simp add: before_Suc tk_def before_length T_def)
  have pos: "0 < T" and lt: "T < 2 ^ 31" using b0 bt t1 assms(1) by (simp_all add: T_def tickets_ok_def)
  have "find_winner ps 0 0 (draw r T) = Some k \<longleftrightarrow>
      nat (before ps k) \<le> unat r mod nat T \<and> unat r mod nat T < nat (before ps k) + t" for r
  proof -
    have "draw r T = int (unat r mod nat T)"
      using pos by (simp add: draw_mod [OF pos lt] zmod_int)
    then show ?thesis
      using find_winner_iff [OF assms(1), of "draw r T" k] assms(2,3) b0 t1 by (auto simp: wins_def t_def)
  qed
  then have "won = card {u. u < 2 ^ 32 \<and> nat (before ps k) \<le> u mod nat T \<and> u mod nat T < nat (before ps k) + t}"
    unfolding won_def by (simp only: card_period [of "\<lambda>u. nat (before ps k) \<le> u mod nat T \<and> u mod nat T < nat (before ps k) + t"])
  moreover have "nat (before ps k) + t \<le> nat T" using b0 bt t1 by (simp add: t_def)
  ultimately have lo: "t * (2 ^ 32 div nat T) \<le> won" and hi: "won \<le> t * Suc (2 ^ 32 div nat T)"
    using card_residue_range [of "nat (before ps k)" t "nat T" "2 ^ 32"] by simp_all
  have "nat T \<le> 2 ^ 32" using lt by simp
  then have "0 < 2 ^ 32 div nat T" using pos by (simp add: div_greater_zero_iff)
  moreover have "0 < t" using t1 by (simp add: t_def)
  ultimately have "0 < t * (2 ^ 32 div nat T)" by (simp only: nat_0_less_mult_iff simp_thms)
  then have "0 < won" using lo by (rule less_le_trans)
  then show ?thesis using lo hi by (simp only: Let_def T_def [symmetric] t_def [symmetric] won_def [symmetric] simp_thms)
qed

lemma lottery_period_fair_witness:
  "let won = card {n. n < 2 ^ 32 \<and> find_winner ex_procs 0 0 (draw ((rand_next ^^ n) 1) 4) = Some 2}
   in 2 ^ 30 \<le> won \<and> won \<le> Suc (2 ^ 30)"
proof -
  have "2 < length ex_procs" "p_state (ex_procs ! 2) = RUNNABLE" "nat (p_tickets (ex_procs ! 2)) = 1"
    by (simp_all add: ex_procs_def ex_proc_def)
  then show ?thesis
    using lottery_period_fair [OF ex_tickets_ok, of 2 1] by (simp add: Let_def ex_all_tickets)
qed

text \<open>The sum of the first pass is the sum of the tickets modulo \<open>2^32\<close>, as a C \<^verbatim>\<open>int\<close>.\<close>

lemma wrap32_add: "wrap32 (wrap32 t + n) = wrap32 (t + n)"
  by (simp add: wrap32_def)

lemma wrap32_zero: "wrap32 x = 0 \<longleftrightarrow> 2 ^ 32 dvd x"
  using word_of_int_eq_0_iff [of x, where 'a = 32] by (simp add: wrap32_def signed_eq_0_iff)

lemma count_tickets_wrap: "count_tickets ps (wrap32 t) = wrap32 (t + all_tickets ps)"
  by (induction ps arbitrary: t) (simp_all add: all_tickets_def tk_def wrap32_add add.assoc)

lemma count_tickets_zero: "count_tickets ps 0 = 0 \<longleftrightarrow> 2 ^ 32 dvd all_tickets ps"
proof -
  have "count_tickets ps 0 = wrap32 (all_tickets ps)" using count_tickets_wrap [of ps 0] by (simp add: wrap32_def)
  then show ?thesis by (simp only: wrap32_zero)
qed

text \<open>Whatever happens to the table between the passes, a round runs only a process that the second pass finds runnable.\<close>

lemma find_winner_runnable: "find_winner ps i c w = Some k \<Longrightarrow> i \<le> k \<and> k < i + length ps \<and> p_state (ps ! (k - i)) = RUNNABLE"
proof (induction ps arbitrary: i c)
  case (Cons p ps)
  show ?case
  proof (cases "p_state p = RUNNABLE \<and> wrap32 (c + p_tickets p) > w")
    case True
    then show ?thesis using Cons.prems by (simp add: Let_def)
  next
    case False
    then obtain c' where f: "find_winner ps (Suc i) c' w = Some k" using Cons.prems by (auto simp: Let_def split: if_splits)
    from Cons.IH [OF f] have "Suc i \<le> k" "k < Suc i + length ps" "p_state (ps ! (k - Suc i)) = RUNNABLE" by auto
    moreover from this have "k - i = Suc (k - Suc i)" by simp
    ultimately show ?thesis by simp
  qed
qed simp

lemma scheduler_round_runnable:
  assumes "scheduler_round between s = (Some k, s')"
  shows "\<exists>t. between ((set_cpu_proc None s)\<lparr>rand_state := rand_next (rand_state s)\<rparr>) = t \<and> s' = dispatch k t \<and>
    k < length (procs t) \<and> p_state (proc_at t k) = RUNNABLE"
  using assms find_winner_runnable [of _ 0 0 _ k]
  by (fastforce simp: scheduler_round_def Let_def set_cpu_proc_def split: if_splits option.splits)

text \<open>
  C30: the sum of the tickets is a C \<^verbatim>\<open>int\<close> and \<^verbatim>\<open>settickets\<close> accepts any positive number. The scheduler takes the machine to be idle
  exactly when the sum of the tickets of the runnable processes is a multiple of \<open>2^32\<close>, and then it runs none of them, however many
  there are, and leaves everything as it is, so that the next round idles as well.
\<close>

theorem scheduler_overflow_idle:
  "(count_tickets (procs s) 0 = 0 \<longleftrightarrow> 2 ^ 32 dvd all_tickets (procs s)) \<and>
   (2 ^ 32 dvd all_tickets (procs s) \<longrightarrow> scheduler_round between s = (None, set_cpu_proc None s) \<and>
     scheduler_round between (set_cpu_proc None s) = (None, set_cpu_proc None s))"
proof -
  have p: "procs (set_cpu_proc None s) = procs s" "set_cpu_proc None (set_cpu_proc None s) = set_cpu_proc None s"
    by (simp_all add: set_cpu_proc_def)
  show ?thesis by (simp add: count_tickets_zero scheduler_round_def Let_def p)
qed

text \<open>Four runnable processes with \<open>2^30\<close> tickets each.\<close>

lemma scheduler_overflow_idle_witness:
  "fst (scheduler (ex_pstate (replicate 4 (ex_proc RUNNABLE (2 ^ 30)) @ replicate 60 (ex_proc UNUSED 0)))) = None"
proof -
  let ?s = "ex_pstate (replicate 4 (ex_proc RUNNABLE (2 ^ 30)) @ replicate 60 (ex_proc UNUSED 0))"
  have "all_tickets (procs ?s) = 2 ^ 32"
    by (simp add: all_tickets_def tk_def ex_pstate_def ex_proc_def sum_list_replicate)
  then have "2 ^ 32 dvd all_tickets (procs ?s)" by simp
  then show ?thesis using scheduler_overflow_idle [of ?s "\<lambda>s. s"] by (simp only: scheduler_def fst_conv)
qed

end
