(* ===== verification/Spinlock.thy ===== *)
theory Spinlock
  imports Prelude
begin

text \<open>
  \<^verbatim>\<open>kernel/spinlock.c\<close> on a machine with several CPUs. The other theories run the critical sections
  of the kernel as atomic steps; here is why they may. \<^verbatim>\<open>acquire\<close> and \<^verbatim>\<open>release\<close> are split at the
  points where another CPU can observe them: the atomic swap on \<^verbatim>\<open>locked\<close> and the two stores around
  it. \<^verbatim>\<open>myproc\<close> and \<^verbatim>\<open>uartputc_sync\<close> call \<^verbatim>\<open>push_off\<close> and \<^verbatim>\<open>pop_off\<close> without a lock. A lock and a CPU are numbers.
\<close>

section \<open>Model\<close>

record spinlock =
  locked :: u32
  lk_cpu :: "nat option"

record hart =
  noff :: int
  intena :: bool
  sie :: bool

text \<open>
  Where a CPU is in the lock code: outside it, spinning in \<^verbatim>\<open>acquire\<close>, about to set or having just
  cleared \<^verbatim>\<open>lk->cpu\<close> while \<^verbatim>\<open>locked\<close> is 1.
\<close>

datatype lock_pc = Run | Spin nat | SetCpu nat | ClearedCpu nat

record machine =
  locks :: "nat \<Rightarrow> spinlock"
  harts :: "nat \<Rightarrow> hart"
  pcs :: "nat \<Rightarrow> lock_pc"
  offs :: "nat \<Rightarrow> nat"

text \<open>\<open>offs m c\<close> is how many calls of \<^verbatim>\<open>push_off\<close> outside the lock code CPU \<open>c\<close> has not yet undone; the code has no such variable.\<close>

definition set_lock :: "nat \<Rightarrow> (spinlock \<Rightarrow> spinlock) \<Rightarrow> machine \<Rightarrow> machine" where
  "set_lock lk f m = m\<lparr>locks := (locks m)(lk := f (locks m lk))\<rparr>"

definition set_hart :: "nat \<Rightarrow> (hart \<Rightarrow> hart) \<Rightarrow> machine \<Rightarrow> machine" where
  "set_hart c f m = m\<lparr>harts := (harts m)(c := f (harts m c))\<rparr>"

definition goto :: "nat \<Rightarrow> lock_pc \<Rightarrow> machine \<Rightarrow> machine" where
  "goto c l m = m\<lparr>pcs := (pcs m)(c := l)\<rparr>"

definition initlock :: "nat \<Rightarrow> machine \<Rightarrow> machine" where
  "initlock lk m = set_lock lk (\<lambda>_. \<lparr>locked = 0, lk_cpu = None\<rparr>) m"

definition holding :: "nat \<Rightarrow> nat \<Rightarrow> machine \<Rightarrow> bool" where
  "holding c lk m \<longleftrightarrow> locked (locks m lk) \<noteq> 0 \<and> lk_cpu (locks m lk) = Some c"

definition push_off :: "nat \<Rightarrow> machine \<Rightarrow> machine" where
  "push_off c m = set_hart c (\<lambda>h. h\<lparr>sie := False, intena := (if noff h = 0 then sie h else intena h), noff := noff h + 1\<rparr>) m"

definition pop_off :: "nat \<Rightarrow> machine \<Rightarrow> (unit, machine) outcome" where
  "pop_off c m =
     (let h = harts m c in
      if sie h then Panic ''pop_off - interruptible''
      else if noff h < 1 then Panic ''pop_off''
      else Done () (set_hart c (\<lambda>h. h\<lparr>noff := noff h - 1, sie := (if noff h - 1 = 0 \<and> intena h then True else sie h)\<rparr>) m))"

text \<open>\<^verbatim>\<open>acquire\<close>: up to the loop, one turn of the loop, and after it.\<close>

definition acquire_enter :: "nat \<Rightarrow> nat \<Rightarrow> machine \<Rightarrow> (unit, machine) outcome" where
  "acquire_enter c lk m =
     (let m = push_off c m in if holding c lk m then Panic ''acquire'' else Done () (goto c (Spin lk) m))"

definition acquire_swap :: "nat \<Rightarrow> nat \<Rightarrow> machine \<Rightarrow> machine" where
  "acquire_swap c lk m =
     (let old = locked (locks m lk); m = set_lock lk (locked_update (\<lambda>_. 1)) m
      in if old \<noteq> 0 then m else goto c (SetCpu lk) m)"

definition acquire_exit :: "nat \<Rightarrow> nat \<Rightarrow> machine \<Rightarrow> machine" where
  "acquire_exit c lk m = goto c Run (set_lock lk (lk_cpu_update (\<lambda>_. Some c)) m)"

text \<open>\<^verbatim>\<open>release\<close>: up to the fence, and after it.\<close>

definition release_enter :: "nat \<Rightarrow> nat \<Rightarrow> machine \<Rightarrow> (unit, machine) outcome" where
  "release_enter c lk m =
     (if \<not> holding c lk m then Panic ''release''
      else Done () (goto c (ClearedCpu lk) (set_lock lk (lk_cpu_update (\<lambda>_. None)) m)))"

definition release_exit :: "nat \<Rightarrow> nat \<Rightarrow> machine \<Rightarrow> (unit, machine) outcome" where
  "release_exit c lk m = pop_off c (goto c Run (set_lock lk (locked_update (\<lambda>_. 0)) m))"

text \<open>\<^verbatim>\<open>push_off\<close> and \<^verbatim>\<open>pop_off\<close> around code that must stay on its CPU.\<close>

definition off_enter :: "nat \<Rightarrow> machine \<Rightarrow> machine" where
  "off_enter c m = push_off c (m\<lparr>offs := (offs m)(c := offs m c + 1)\<rparr>)"

definition off_exit :: "nat \<Rightarrow> machine \<Rightarrow> (unit, machine) outcome" where
  "off_exit c m = pop_off c (m\<lparr>offs := (offs m)(c := offs m c - 1)\<rparr>)"

text \<open>
  The interleavings of any number of CPUs. Outside the lock code a CPU with no lock may turn its interrupts on and off, it may
  enter and leave sections of \<^verbatim>\<open>push_off\<close>, nested with locks in any way, and \<^verbatim>\<open>sched\<close>, which runs with one lock, gives it the
  \<^verbatim>\<open>intena\<close> of another kernel thread.
\<close>

inductive lock_step :: "machine \<Rightarrow> machine \<Rightarrow> bool" where
  enter: "pcs m c = Run \<Longrightarrow> acquire_enter c lk m = Done () m' \<Longrightarrow> lock_step m m'"
| swap: "pcs m c = Spin lk \<Longrightarrow> lock_step m (acquire_swap c lk m)"
| got: "pcs m c = SetCpu lk \<Longrightarrow> lock_step m (acquire_exit c lk m)"
| release: "pcs m c = Run \<Longrightarrow> release_enter c lk m = Done () m' \<Longrightarrow> lock_step m m'"
| released: "pcs m c = ClearedCpu lk \<Longrightarrow> release_exit c lk m = Done () m' \<Longrightarrow> lock_step m m'"
| intr: "pcs m c = Run \<Longrightarrow> noff (harts m c) = 0 \<Longrightarrow> lock_step m (set_hart c (sie_update (\<lambda>_. b)) m)"
| off: "pcs m c = Run \<Longrightarrow> lock_step m (off_enter c m)"
| on: "pcs m c = Run \<Longrightarrow> 0 < offs m c \<Longrightarrow> off_exit c m = Done () m' \<Longrightarrow> lock_step m m'"
| switch: "pcs m c = Run \<Longrightarrow> noff (harts m c) = 1 \<Longrightarrow> lock_step m (set_hart c (intena_update (\<lambda>_. b)) m)"

inductive lock_reach :: "machine \<Rightarrow> bool" where
  start: "(\<And>lk. locks m lk = \<lparr>locked = 0, lk_cpu = None\<rparr>) \<Longrightarrow> (\<And>c. pcs m c = Run) \<Longrightarrow>
    (\<And>c. noff (harts m c) = 0) \<Longrightarrow> (\<And>c. offs m c = 0) \<Longrightarrow> lock_reach m"
| step: "lock_reach m \<Longrightarrow> lock_step m m' \<Longrightarrow> lock_reach m'"

inductive_cases lock_stepE: "lock_step m m'"

section \<open>Ownership\<close>

text \<open>\<open>owns c lk m\<close>: CPU \<open>c\<close> is past the swap of \<^verbatim>\<open>acquire\<close> and before the store of \<^verbatim>\<open>release\<close>.\<close>

definition owns :: "nat \<Rightarrow> nat \<Rightarrow> machine \<Rightarrow> bool" where
  "owns c lk m \<longleftrightarrow> pcs m c = SetCpu lk \<or> pcs m c = ClearedCpu lk \<or> holding c lk m"

text \<open>
  A free lock has no owner and no recorded CPU; an owner in the middle of the lock code is not
  recorded; and no two CPUs own the same lock.
\<close>

definition lock_inv :: "nat \<Rightarrow> machine \<Rightarrow> bool" where
  "lock_inv lk m \<longleftrightarrow>
     (locked (locks m lk) = 0 \<longrightarrow> lk_cpu (locks m lk) = None \<and> (\<forall>c. \<not> owns c lk m)) \<and>
     (\<forall>c. pcs m c = SetCpu lk \<or> pcs m c = ClearedCpu lk \<longrightarrow> lk_cpu (locks m lk) = None) \<and>
     (\<forall>c d. owns c lk m \<longrightarrow> owns d lk m \<longrightarrow> c = d)"

text \<open>
  \<^verbatim>\<open>noff\<close> counts the locks a CPU owns or waits for and its other calls of \<^verbatim>\<open>push_off\<close>, and interrupts are off while it is positive.
\<close>

definition waiting :: "nat \<Rightarrow> machine \<Rightarrow> int" where
  "waiting c m = (case pcs m c of Spin _ \<Rightarrow> 1 | _ \<Rightarrow> 0)"

definition owned_by :: "nat \<Rightarrow> machine \<Rightarrow> nat set" where
  "owned_by c m = {lk. owns c lk m}"

definition hart_inv :: "nat \<Rightarrow> machine \<Rightarrow> bool" where
  "hart_inv c m \<longleftrightarrow> finite (owned_by c m) \<and> noff (harts m c) = int (card (owned_by c m)) + waiting c m + int (offs m c) \<and>
     (0 < noff (harts m c) \<longrightarrow> \<not> sie (harts m c))"

definition mach_inv :: "machine \<Rightarrow> bool" where
  "mach_inv m \<longleftrightarrow> (\<forall>lk. lock_inv lk m) \<and> (\<forall>c. hart_inv c m)"

named_theorems lock_defs "the steps of the lock code"

declare acquire_enter_def [lock_defs] acquire_swap_def [lock_defs] acquire_exit_def [lock_defs]
  release_enter_def [lock_defs] release_exit_def [lock_defs] off_enter_def [lock_defs] off_exit_def [lock_defs] push_off_def [lock_defs] pop_off_def [lock_defs]
  set_lock_def [lock_defs] set_hart_def [lock_defs] goto_def [lock_defs] holding_def [lock_defs] Let_def [lock_defs]

lemma lock_inv_free: "lock_inv lk m \<Longrightarrow> locked (locks m lk) = 0 \<Longrightarrow> \<not> owns c lk m \<and> lk_cpu (locks m lk) = None"
  by (simp add: lock_inv_def)

lemma lock_inv_unique: "lock_inv lk m \<Longrightarrow> owns c lk m \<Longrightarrow> owns d lk m \<Longrightarrow> c = d"
  unfolding lock_inv_def by blast

lemma lock_inv_middle: "lock_inv lk m \<Longrightarrow> pcs m c = SetCpu lk \<or> pcs m c = ClearedCpu lk \<Longrightarrow>
    lk_cpu (locks m lk) = None \<and> locked (locks m lk) \<noteq> 0 \<and> (owns d lk m \<longleftrightarrow> d = c)"
  unfolding lock_inv_def by (metis owns_def)

text \<open>What each step does to ownership.\<close>

lemma owns_enter:
  assumes "pcs m c = Run" "acquire_enter c lk m = Done () m'"
  shows "owns d l m' = owns d l m"
  using assms by (auto simp: owns_def lock_defs split: if_splits)

lemma owns_swap:
  assumes "pcs m c = Spin lk" "\<And>l. lock_inv l m"
  shows "owns d l (acquire_swap c lk m) = (owns d l m \<or> d = c \<and> l = lk \<and> locked (locks m lk) = 0)"
  using assms(1) lock_inv_free [OF assms(2)] by (auto simp: owns_def lock_defs)

lemma owns_got:
  assumes "pcs m c = SetCpu lk" "\<And>l. lock_inv l m"
  shows "owns d l (acquire_exit c lk m) = owns d l m"
  using assms(1) lock_inv_middle [OF assms(2), of c lk d] by (auto simp: owns_def lock_defs)

lemma owns_release:
  assumes "pcs m c = Run" "release_enter c lk m = Done () m'"
  shows "owns d l m' = owns d l m"
  using assms by (auto simp: owns_def lock_defs split: if_splits)

lemma owns_released:
  assumes "pcs m c = ClearedCpu lk" "\<And>l. lock_inv l m" "release_exit c lk m = Done () m'"
  shows "owns d l m' = (owns d l m \<and> l \<noteq> lk)"
proof -
  have "pcs m d \<noteq> SetCpu lk" "d \<noteq> c \<Longrightarrow> pcs m d \<noteq> ClearedCpu lk"
    using assms(1) lock_inv_middle [OF assms(2), of c lk d] by (auto simp: owns_def)
  then show ?thesis using assms(1,3) by (auto simp: owns_def lock_defs split: if_splits)
qed

lemma owns_intr: "owns d l (set_hart c f m) = owns d l m"
  by (simp add: owns_def lock_defs)

text \<open>The steps outside the lock code change one CPU and the count of its sections.\<close>

lemma off_enter_eq:
  "off_enter c m = m\<lparr>offs := (offs m)(c := offs m c + 1), harts := (harts m)(c := (harts m c)\<lparr>sie := False,
     intena := (if noff (harts m c) = 0 then sie (harts m c) else intena (harts m c)), noff := noff (harts m c) + 1\<rparr>)\<rparr>"
  by (simp add: lock_defs)

lemma off_exit_eq:
  "off_exit c m = Done () m' \<Longrightarrow> \<not> sie (harts m c) \<and> 1 \<le> noff (harts m c) \<and>
     m' = m\<lparr>offs := (offs m)(c := offs m c - 1), harts := (harts m)(c := (harts m c)\<lparr>noff := noff (harts m c) - 1,
       sie := (noff (harts m c) - 1 = 0 \<and> intena (harts m c))\<rparr>)\<rparr>"
  by (auto simp: lock_defs split: if_splits)

lemma lock_inv_cong: "locks m' = locks m \<Longrightarrow> pcs m' = pcs m \<Longrightarrow> lock_inv l m \<Longrightarrow> lock_inv l m'"
  by (simp add: lock_inv_def owns_def holding_def)

lemma owned_by_cong: "locks m' = locks m \<Longrightarrow> pcs m' = pcs m \<Longrightarrow> owned_by c m' = owned_by c m \<and> waiting c m' = waiting c m"
  by (simp add: owned_by_def owns_def holding_def waiting_def)

lemma lock_inv_step:
  assumes "lock_step m m'" "\<And>l. lock_inv l m"
  shows "lock_inv l m'"
  using assms(1)
proof (cases rule: lock_step.cases)
  case (enter c lk)
  have "locks m' = locks m" "\<And>d. pcs m' d = SetCpu l \<or> pcs m' d = ClearedCpu l \<Longrightarrow> pcs m d = SetCpu l \<or> pcs m d = ClearedCpu l"
    using enter by (auto simp: lock_defs split: if_splits)
  then show ?thesis using assms(2) [of l] owns_enter [OF enter] unfolding lock_inv_def by metis
next
  case (swap c lk)
  note o = owns_swap [OF swap(2) assms(2)]
  note i = assms(2) [of l]
  show ?thesis unfolding lock_inv_def swap(1) o
  proof (intro conjI impI allI)
    assume z: "locked (locks (acquire_swap c lk m) l) = 0"
    then have "l \<noteq> lk" "locked (locks m l) = 0" by (auto simp: lock_defs split: if_splits)
    then show "lk_cpu (locks (acquire_swap c lk m) l) = None" "\<not> (owns d l m \<or> d = c \<and> l = lk \<and> locked (locks m lk) = 0)" for d
      using lock_inv_free [OF i] by (auto simp: lock_defs)
  next
    fix d assume "pcs (acquire_swap c lk m) d = SetCpu l \<or> pcs (acquire_swap c lk m) d = ClearedCpu l"
    then have "pcs m d = SetCpu l \<or> pcs m d = ClearedCpu l \<or> l = lk \<and> locked (locks m lk) = 0"
      by (auto simp: lock_defs split: if_splits)
    then show "lk_cpu (locks (acquire_swap c lk m) l) = None"
      using lock_inv_middle [OF i] lock_inv_free [OF i] by (auto simp: lock_defs)
  next
    fix d e assume "owns d l m \<or> d = c \<and> l = lk \<and> locked (locks m lk) = 0"
      "owns e l m \<or> e = c \<and> l = lk \<and> locked (locks m lk) = 0"
    then show "d = e" using lock_inv_unique [OF i] lock_inv_free [OF i] by blast
  qed
next
  case (got c lk)
  note o = owns_got [OF got(2) assms(2)]
  have "locked (locks m' l) = locked (locks m l)" "l \<noteq> lk \<Longrightarrow> lk_cpu (locks m' l) = lk_cpu (locks m l)"
    "\<And>d. pcs m' d = SetCpu l \<or> pcs m' d = ClearedCpu l \<Longrightarrow> d \<noteq> c \<and> (pcs m d = SetCpu l \<or> pcs m d = ClearedCpu l)"
    using got by (auto simp: lock_defs split: if_splits)
  moreover have "pcs m d \<noteq> SetCpu lk \<and> pcs m d \<noteq> ClearedCpu lk" if "d \<noteq> c" for d
    using lock_inv_middle [OF assms(2) [of lk], of c d] got(2) that by (auto simp: owns_def)
  moreover have "locked (locks m lk) \<noteq> 0" using lock_inv_middle [OF assms(2) [of lk], of c] got(2) by blast
  ultimately show ?thesis using assms(2) [of l] unfolding lock_inv_def got(1) o by metis
next
  case (release c lk)
  note o = owns_release [OF release]
  have h: "holding c lk m" and m': "m' = goto c (ClearedCpu lk) (set_lock lk (lk_cpu_update (\<lambda>_. None)) m)"
    using release(2) by (auto simp: release_enter_def split: if_splits)
  have "locked (locks m' l) = locked (locks m l)" "lk_cpu (locks m' l) = (if l = lk then None else lk_cpu (locks m l))"
    "\<And>d. pcs m' d = SetCpu l \<or> pcs m' d = ClearedCpu l \<Longrightarrow> l = lk \<or> pcs m d = SetCpu l \<or> pcs m d = ClearedCpu l"
    by (auto simp: m' goto_def set_lock_def split: if_splits)
  then show ?thesis using assms(2) [of l] unfolding lock_inv_def o by metis
next
  case (released c lk)
  note o = owns_released [OF released(1) assms(2) released(2)]
  note mid = lock_inv_middle [OF assms(2) [of lk], of c]
  have "locked (locks m' l) = (if l = lk then 0 else locked (locks m l))" "lk_cpu (locks m' l) = lk_cpu (locks m l)"
    "\<And>d. pcs m' d = SetCpu l \<or> pcs m' d = ClearedCpu l \<Longrightarrow> d \<noteq> c \<and> (pcs m d = SetCpu l \<or> pcs m d = ClearedCpu l)"
    using released by (auto simp: lock_defs split: if_splits)
  moreover have "lk_cpu (locks m lk) = None" using mid released(1) by blast
  ultimately show ?thesis using assms(2) [of l] unfolding lock_inv_def o by metis
next
  case (intr c b)
  show ?thesis by (rule lock_inv_cong [OF _ _ assms(2)]) (simp_all add: intr(1) set_hart_def)
next
  case (off c)
  show ?thesis by (rule lock_inv_cong [OF _ _ assms(2)]) (simp_all add: off(1) off_enter_eq)
next
  case (on c)
  show ?thesis by (rule lock_inv_cong [OF _ _ assms(2)]) (use off_exit_eq [OF on(3)] in simp_all)
next
  case (switch c b)
  show ?thesis by (rule lock_inv_cong [OF _ _ assms(2)]) (simp_all add: switch(1) set_hart_def)
qed

text \<open>A step of one CPU leaves the others alone.\<close>

lemma hart_inv_other:
  assumes "hart_inv d m" "\<And>l. owns d l m' = owns d l m" "pcs m' d = pcs m d" "harts m' d = harts m d" "offs m' d = offs m d"
  shows "hart_inv d m'"
  using assms by (simp add: hart_inv_def owned_by_def waiting_def)

lemma hart_inv_step:
  assumes "lock_step m m'" "\<And>l. lock_inv l m" "\<And>c. hart_inv c m"
  shows "hart_inv d m'"
  using assms(1)
proof (cases rule: lock_step.cases)
  case (enter c lk)
  note o = owns_enter [OF enter]
  have p: "pcs m' = (pcs m)(c := Spin lk)" and h: "harts m' = (harts m)(c := (harts m c)\<lparr>sie := False,
      intena := (if noff (harts m c) = 0 then sie (harts m c) else intena (harts m c)), noff := noff (harts m c) + 1\<rparr>)"
    and f: "offs m' = offs m"
    using enter by (auto simp: lock_defs split: if_splits)
  show ?thesis
  proof (cases "d = c")
    case True
    then show ?thesis using assms(3) [of c] enter(1) o by (simp add: hart_inv_def owned_by_def waiting_def p h f)
  next
    case False
    then show ?thesis by (intro hart_inv_other [OF assms(3) o]) (simp_all add: p h f)
  qed
next
  case (swap c lk)
  note o = owns_swap [OF swap(2) assms(2)]
  have h: "harts m' = harts m" "offs m' = offs m" by (simp_all add: swap(1) lock_defs)
  show ?thesis
  proof (cases "d = c \<and> locked (locks m lk) = 0")
    case True
    have "owned_by c m' = insert lk (owned_by c m)" "lk \<notin> owned_by c m"
      using True o [of c] lock_inv_free [OF assms(2), of lk c] by (auto simp: owned_by_def swap(1))
    moreover have "waiting c m = 1" "waiting c m' = 0" using True swap by (simp_all add: waiting_def lock_defs)
    ultimately show ?thesis using True assms(3) [of c] by (simp add: hart_inv_def h)
  next
    case False
    have "pcs m' d = pcs m d" using False by (auto simp: swap(1) lock_defs)
    then show ?thesis using False by (intro hart_inv_other [OF assms(3)]) (auto simp: o swap(1) h [unfolded swap(1)])
  qed
next
  case (got c lk)
  note o = owns_got [OF got(2) assms(2), folded got(1)]
  have h: "harts m' = harts m" "offs m' = offs m" and "pcs m' = (pcs m)(c := Run)" by (simp_all add: got(1) lock_defs)
  then have w: "waiting d m' = waiting d m" using got(2) by (simp add: waiting_def)
  show ?thesis using assms(3) [of d] by (simp add: hart_inv_def owned_by_def w h o)
next
  case (release c lk)
  note o = owns_release [OF release]
  have h: "harts m' = harts m" "offs m' = offs m" and "pcs m' = (pcs m)(c := ClearedCpu lk)"
    using release by (auto simp: lock_defs split: if_splits)
  then have w: "waiting d m' = waiting d m" using release(1) by (simp add: waiting_def)
  show ?thesis using assms(3) [of d] by (simp add: hart_inv_def owned_by_def w h o)
next
  case (released c lk)
  note o = owns_released [OF released(1) assms(2) released(2)]
  have p: "pcs m' = (pcs m)(c := Run)" and h: "harts m' = (harts m)(c := (harts m c)\<lparr>noff := noff (harts m c) - 1,
      sie := (if noff (harts m c) - 1 = 0 \<and> intena (harts m c) then True else sie (harts m c))\<rparr>)"
    and e: "offs m' = offs m"
    using released(2) by (auto simp: lock_defs split: if_splits)
  show ?thesis
  proof (cases "d = c")
    case True
    have i: "lk \<in> owned_by c m" using released(1) by (simp add: owned_by_def owns_def)
    have f: "finite (owned_by c m)" using assms(3) [of c] by (simp add: hart_inv_def)
    have o': "owned_by c m' = owned_by c m - {lk}" by (auto simp: owned_by_def o)
    have w: "waiting c m = 0" "waiting c m' = 0" using released(1) by (simp_all add: waiting_def p)
    have "card (owned_by c m) = Suc (card (owned_by c m'))" unfolding o' using card_Suc_Diff1 [OF f i] by simp
    then show ?thesis using True assms(3) [of c] w f by (auto simp: hart_inv_def h e o')
  next
    case False
    have "\<not> owns d lk m" using False released(1) lock_inv_middle [OF assms(2), of c lk d] by auto
    then show ?thesis using False by (intro hart_inv_other [OF assms(3)]) (auto simp: o p h e)
  qed
next
  case (intr c b)
  have e: "locks m' = locks m" "pcs m' = pcs m" "offs m' = offs m" by (simp_all add: intr(1) set_hart_def)
  have "noff (harts m' d) = noff (harts m d)" "noff (harts m d) = 0 \<or> sie (harts m' d) = sie (harts m d)"
    using intr(3) by (auto simp: intr(1) set_hart_def)
  then show ?thesis using assms(3) [of d] owned_by_cong [OF e(1,2), of d] unfolding hart_inv_def e(3) by auto
next
  case (off c)
  have e: "locks m' = locks m" "pcs m' = pcs m" by (simp_all add: off(1) off_enter_eq)
  show ?thesis using assms(3) [of d] owned_by_cong [OF e, of d] by (auto simp: hart_inv_def off(1) off_enter_eq)
next
  case (on c)
  note m' = off_exit_eq [OF on(3)]
  have e: "locks m' = locks m" "pcs m' = pcs m" using m' by simp_all
  show ?thesis using assms(3) [of d] owned_by_cong [OF e, of d] m' on(2) by (auto simp: hart_inv_def)
next
  case (switch c b)
  have e: "locks m' = locks m" "pcs m' = pcs m" "offs m' = offs m" by (simp_all add: switch(1) set_hart_def)
  have "noff (harts m' d) = noff (harts m d)" "sie (harts m' d) = sie (harts m d)" by (auto simp: switch(1) set_hart_def)
  then show ?thesis using assms(3) [of d] owned_by_cong [OF e(1,2), of d] unfolding hart_inv_def e(3) by auto
qed

lemma lock_reach_inv: "lock_reach m \<Longrightarrow> mach_inv m"
proof (induction rule: lock_reach.induct)
  case (start m)
  have "\<not> owns c lk m" for c lk using start by (simp add: owns_def holding_def)
  then show ?case using start by (simp add: mach_inv_def lock_inv_def hart_inv_def owned_by_def waiting_def)
next
  case (step m m')
  then show ?case using lock_inv_step [OF step(2)] hart_inv_step [OF step(2)] by (simp add: mach_inv_def)
qed

section \<open>Properties\<close>


definition ex_machine :: machine where
  "ex_machine = \<lparr>locks = (\<lambda>_. \<lparr>locked = 0, lk_cpu = None\<rparr>), harts = (\<lambda>_. \<lparr>noff = 0, intena = False, sie = True\<rparr>),
     pcs = (\<lambda>_. Run), offs = (\<lambda>_. 0)\<rparr>"

text \<open>CPU 0 has won the race for lock 7 while CPU 1 spins on it.\<close>

definition ex_race :: machine where
  "ex_race = acquire_swap 1 7 (acquire_swap 0 7 (goto 1 (Spin 7) (push_off 1 (goto 0 (Spin 7) (push_off 0 ex_machine)))))"

lemma ex_race_reach: "lock_reach ex_race"
proof -
  have s0: "lock_reach ex_machine" by (rule lock_reach.start) (simp_all add: ex_machine_def)
  have s1: "lock_reach (goto 0 (Spin 7) (push_off 0 ex_machine))"
    by (rule lock_reach.step [OF s0], rule lock_step.enter [where c = 0 and lk = 7]) (simp_all add: ex_machine_def lock_defs)
  have s2: "lock_reach (goto 1 (Spin 7) (push_off 1 (goto 0 (Spin 7) (push_off 0 ex_machine))))"
    by (rule lock_reach.step [OF s1], rule lock_step.enter [where c = 1 and lk = 7]) (simp_all add: ex_machine_def lock_defs)
  have s3: "lock_reach (acquire_swap 0 7 (goto 1 (Spin 7) (push_off 1 (goto 0 (Spin 7) (push_off 0 ex_machine)))))"
    by (rule lock_reach.step [OF s2], rule lock_step.swap) (simp add: ex_machine_def lock_defs)
  show ?thesis unfolding ex_race_def
    by (rule lock_reach.step [OF s3], rule lock_step.swap) (simp add: ex_machine_def lock_defs)
qed


text \<open>
  C23: While a CPU owns a lock, spins for one or is between \<^verbatim>\<open>push_off\<close> and \<^verbatim>\<open>pop_off\<close> elsewhere, its interrupts are off, so that an
  interrupt handler never spins on a lock of the code it interrupted; and neither \<^verbatim>\<open>release\<close> of a lock the CPU holds nor the
  end of such a section panics in \<^verbatim>\<open>pop_off\<close>. \<^verbatim>\<open>noff\<close> counts exactly these locks and sections.
\<close>

theorem interrupts_off_while_locked:
  assumes "lock_reach m"
  shows "noff (harts m c) = int (card (owned_by c m)) + waiting c m + int (offs m c) \<and>
    (owns c lk m \<or> waiting c m = 1 \<or> 0 < offs m c \<longrightarrow> \<not> sie (harts m c)) \<and>
    (pcs m c = ClearedCpu lk \<longrightarrow> (\<exists>m'. release_exit c lk m = Done () m')) \<and>
    (0 < offs m c \<longrightarrow> (\<exists>m'. off_exit c m = Done () m'))"
proof -
  have h: "hart_inv c m" using lock_reach_inv [OF assms] by (simp add: mach_inv_def)
  have w: "0 \<le> waiting c m" by (simp add: waiting_def split: lock_pc.split)
  have pos: "0 < noff (harts m c)" if "owns c lk m \<or> waiting c m = 1 \<or> 0 < offs m c"
  proof -
    have "0 < card (owned_by c m)" if "owns c lk m"
      using that h by (auto simp: hart_inv_def owned_by_def card_gt_0_iff)
    then show ?thesis using that h w by (auto simp: hart_inv_def)
  qed
  have "\<exists>m'. release_exit c lk m = Done () m'" if "pcs m c = ClearedCpu lk"
    using pos that h by (auto simp: owns_def hart_inv_def lock_defs)
  moreover have "\<exists>m'. off_exit c m = Done () m'" if "0 < offs m c"
    using pos that h by (auto simp: hart_inv_def lock_defs)
  ultimately show ?thesis using h pos by (auto simp: hart_inv_def)
qed

text \<open>CPU 0 owns lock 7 after the race and calls \<^verbatim>\<open>myproc\<close> while CPU 1 spins.\<close>

definition ex_nested :: machine where
  "ex_nested = off_enter 0 (acquire_exit 0 7 ex_race)"

lemma ex_nested_reach: "lock_reach ex_nested"
proof -
  have "lock_reach (acquire_exit 0 7 ex_race)"
    by (rule lock_reach.step [OF ex_race_reach], rule lock_step.got) (simp add: ex_race_def ex_machine_def lock_defs)
  then show ?thesis unfolding ex_nested_def
    by (rule lock_reach.step, intro lock_step.off) (simp add: ex_race_def ex_machine_def lock_defs)
qed

theorem interrupts_off_while_locked_witness:
  "lock_reach ex_nested \<and> owns 0 7 ex_nested \<and> waiting 1 ex_nested = 1 \<and> offs ex_nested 0 = 1 \<and> \<not> sie (harts ex_nested 0) \<and>
   \<not> sie (harts ex_nested 1) \<and> noff (harts ex_nested 0) = int (card (owned_by 0 ex_nested)) + 1 \<and> (\<exists>m'. off_exit 0 ex_nested = Done () m')"
proof -
  have "owns 0 7 ex_nested" "waiting 1 ex_nested = 1" "waiting 0 ex_nested = 0" "offs ex_nested 0 = 1"
    by (simp_all add: owns_def waiting_def ex_nested_def ex_race_def ex_machine_def lock_defs)
  then show ?thesis
    using ex_nested_reach interrupts_off_while_locked [OF ex_nested_reach, of 0 7]
      interrupts_off_while_locked [OF ex_nested_reach, of 1 7] by simp
qed

end
