(* ===== verification/Copy.thy ===== *)
theory Copy
  imports Proc
begin

text \<open>
  Moving bytes between the kernel and user memory: \<^verbatim>\<open>vmfault\<close>, \<^verbatim>\<open>copyout\<close>, \<^verbatim>\<open>copyin\<close> and
  \<^verbatim>\<open>copyinstr\<close> of \<^verbatim>\<open>kernel/vm.c\<close>, \<^verbatim>\<open>either_copyout\<close> and \<^verbatim>\<open>either_copyin\<close> of \<^verbatim>\<open>kernel/proc.c\<close>. A
  kernel buffer is the list of bytes it holds; the functions that fill one return the
  bytes they stored, also when they fail half way.
\<close>

definition page_write :: "page \<Rightarrow> nat \<Rightarrow> u8 list \<Rightarrow> page" where
  "page_write pg off bs = (\<lambda>i. if off \<le> i \<and> i < off + length bs then bs ! (i - off) else pg i)"

definition page_read :: "page \<Rightarrow> nat \<Rightarrow> nat \<Rightarrow> u8 list" where
  "page_read pg off n = map (\<lambda>i. pg (off + i)) [0..<n]"

definition vmfault :: "u64 \<Rightarrow> u64 \<Rightarrow> 'a proc_state_scheme \<Rightarrow> (u64, 'a proc_state_scheme) outcome" where
  "vmfault pagetable va s =
     (if va < PGSIZE then Done 0 s
      else if va \<ge> p_sz (proc_at s (cur s)) then Done 0 s
      else
        let va = PGROUNDDOWN va in
        obind (ismapped pagetable va s) (\<lambda>m s.
          if m then Done 0 s
          else case kalloc s of (pa, s) \<Rightarrow>
            if pa = 0 then Done 0 s
            else obind (mappages (p_pagetable (proc_at s (cur s))) va PGSIZE pa (PTE_W OR PTE_U OR PTE_R)
                          (memset_page pa 0 s)) (\<lambda>r s.
              if r \<noteq> 0 then obind (kfree pa s) (\<lambda>_ s. Done 0 s)
              else Done pa s)))"

text \<open>The translation every iteration of the copy loops starts with.\<close>

definition user_page :: "u64 \<Rightarrow> u64 \<Rightarrow> 'a proc_state_scheme \<Rightarrow> (u64, 'a proc_state_scheme) outcome" where
  "user_page pagetable va0 s =
     obind (walkaddr pagetable va0 s) (\<lambda>pa0 s.
       if pa0 = 0 then vmfault pagetable va0 s else Done pa0 s)"

text \<open>\<open>chunk va len\<close> is \<^verbatim>\<open>n\<close>: the bytes from \<open>va\<close> to the end of its page, at most \<open>len\<close>.\<close>

definition chunk :: "u64 \<Rightarrow> nat \<Rightarrow> nat" where
  "chunk va len = min (4096 - unat (va - PGROUNDDOWN va)) len"

lemma page_offset: "unat (va - PGROUNDDOWN va) = unat va mod 4096"
proof -
  have "PGROUNDDOWN va \<le> va" by (simp add: word_le_nat_alt unat_PGROUNDDOWN)
  then show ?thesis by (simp add: unat_sub unat_PGROUNDDOWN minus_div_mult_eq_mod)
qed

lemma chunk_pos: "0 < len \<Longrightarrow> 0 < chunk va len"
  by (simp add: chunk_def page_offset)

function copyout :: "u64 \<Rightarrow> u64 \<Rightarrow> u8 list \<Rightarrow> 'a proc_state_scheme \<Rightarrow> (int, 'a proc_state_scheme) outcome" where
  "copyout pagetable dstva src s =
     (if src = [] then Done 0 s
      else
        let va0 = PGROUNDDOWN dstva in
        if va0 \<ge> MAXVA then Done (-1) s
        else obind (user_page pagetable va0 s) (\<lambda>pa0 s.
          if pa0 = 0 then Done (-1) s
          else obind (walk pagetable va0 False s) (\<lambda>pte s.
            case pte of
              None \<Rightarrow> Panic ''kerneltrap''
            | Some pte \<Rightarrow>
                if pte_get pte s AND PTE_W = 0 then Done (-1) s
                else
                  let n = chunk dstva (length src);
                      s = s\<lparr>mem := (mem s)(pa0 := page_write (mem s pa0) (unat (dstva - va0)) (take n src))\<rparr>
                  in copyout pagetable (va0 + PGSIZE) (drop n src) s)))"
  by pat_completeness auto
termination
  by (relation "measure (\<lambda>(pt, va, src, s). length src)") (auto simp: chunk_pos)

text \<open>The result is the return value and the bytes stored at \<^verbatim>\<open>dst\<close>.\<close>

function copyin :: "u64 \<Rightarrow> u64 \<Rightarrow> nat \<Rightarrow> 'a proc_state_scheme \<Rightarrow> (int \<times> u8 list, 'a proc_state_scheme) outcome" where
  "copyin pagetable srcva len s =
     (if len = 0 then Done (0, []) s
      else
        let va0 = PGROUNDDOWN srcva in
        obind (user_page pagetable va0 s) (\<lambda>pa0 s.
          if pa0 = 0 then Done (-1, []) s
          else
            let n = chunk srcva len;
                bs = page_read (mem s pa0) (unat (srcva - va0)) n
            in obind (copyin pagetable (va0 + PGSIZE) (len - n) s) (\<lambda>(r, rest) s. Done (r, bs @ rest) s)))"
  by pat_completeness auto
termination
  by (relation "measure (\<lambda>(pt, va, len, s). len)") (auto simp: chunk_pos)

text \<open>The inner loop of \<^verbatim>\<open>copyinstr\<close>: the bytes before the first NUL among the next \<open>n\<close>, and
  whether there was one.\<close>

fun scan_nul :: "page \<Rightarrow> nat \<Rightarrow> nat \<Rightarrow> bool \<times> u8 list" where
  "scan_nul pg off 0 = (False, [])"
| "scan_nul pg off (Suc n) =
     (if pg off = 0 then (True, []) else case scan_nul pg (Suc off) n of (g, bs) \<Rightarrow> (g, pg off # bs))"

text \<open>The second result is the bytes stored at \<^verbatim>\<open>dst\<close>, without the final NUL.\<close>

function copyinstr :: "u64 \<Rightarrow> u64 \<Rightarrow> nat \<Rightarrow> 'a proc_state_scheme \<Rightarrow> (int \<times> u8 list, 'a proc_state_scheme) outcome" where
  "copyinstr pagetable srcva mx s =
     (if mx = 0 then Done (-1, []) s
      else
        let va0 = PGROUNDDOWN srcva in
        obind (walkaddr pagetable va0 s) (\<lambda>pa0 s.
          if pa0 = 0 then Done (-1, []) s
          else
            let n = chunk srcva mx in
            case scan_nul (mem s pa0) (unat (srcva - va0)) n of (got_null, bs) \<Rightarrow>
              if got_null then Done (0, bs) s
              else obind (copyinstr pagetable (va0 + PGSIZE) (mx - n) s) (\<lambda>(r, rest) s. Done (r, bs @ rest) s)))"
  by pat_completeness auto
termination
  by (relation "measure (\<lambda>(pt, va, mx, s). mx)") (auto simp: chunk_pos)

declare copyout.simps [simp del] copyin.simps [simp del] copyinstr.simps [simp del]

text \<open>
  The destination and source of \<^verbatim>\<open>either_copyout\<close>/\<^verbatim>\<open>either_copyin\<close>: a user address, a page of
  physical memory (as in \<^verbatim>\<open>loadseg\<close>), or a variable of the caller, whose bytes the caller
  keeps itself.
\<close>

datatype place = User u64 | Phys u64 | Var

definition place_add :: "place \<Rightarrow> nat \<Rightarrow> place" where
  "place_add d n = (case d of User a \<Rightarrow> User (a + of_nat n) | Phys a \<Rightarrow> Phys (a + of_nat n) | Var \<Rightarrow> Var)"

definition phys_write :: "u64 \<Rightarrow> u8 list \<Rightarrow> 'a kmem_state_scheme \<Rightarrow> 'a kmem_state_scheme" where
  "phys_write pa bs s = s\<lparr>mem := (mem s)(PGROUNDDOWN pa :=
     page_write (mem s (PGROUNDDOWN pa)) (unat (pa - PGROUNDDOWN pa)) bs)\<rparr>"

definition either_copyout :: "place \<Rightarrow> u8 list \<Rightarrow> 'a proc_state_scheme \<Rightarrow> (int, 'a proc_state_scheme) outcome" where
  "either_copyout dst src s =
     (case dst of
        User a \<Rightarrow> copyout (p_pagetable (proc_at s (cur s))) a src s
      | Phys a \<Rightarrow> Done 0 (phys_write a src s)
      | Var \<Rightarrow> Done 0 s)"

text \<open>For a kernel source the bytes \<open>kbytes\<close> of the caller's variable are what is copied.\<close>

definition either_copyin :: "place \<Rightarrow> u8 list \<Rightarrow> nat \<Rightarrow> 'a proc_state_scheme \<Rightarrow> (int \<times> u8 list, 'a proc_state_scheme) outcome" where
  "either_copyin src kbytes len s =
     (case src of
        User a \<Rightarrow> copyin (p_pagetable (proc_at s (cur s))) a len s
      | _ \<Rightarrow> Done (0, take len kbytes) s)"

end
