(* ===== verification/Pagetable.thy ===== *)
theory Pagetable
  imports Vm
begin

text \<open>
  What the page-table operations of \<open>Vm\<close> do to the address space a table describes.
  \<open>node\<close> follows a path of indices through the tree of page-table pages, \<open>lookup\<close> is the
  leaf entry of a virtual address, \<open>as_inv\<close> is the invariant of an address space: the pages
  of the tree are distinct, tree pages and mapped user pages are allocated, disjoint and
  not on the free list, and no two user pages share a physical page.
\<close>

section \<open>Bits of addresses and entries\<close>

lemma PX_less [simp]: "PX l va < 512"
proof -
  have "drop_bit (12 + 9 * l) va AND 0x1FF \<le> 0x1FF" by (rule word_and_le1)
  then have "unat (drop_bit (12 + 9 * l) va AND 0x1FF) \<le> unat (0x1FF :: u64)"
    by (simp only: word_le_nat_alt)
  then show ?thesis by (simp add: PX_def)
qed

lemma mask9: "(0x1FF :: u64) = mask 9"
  by (simp add: mask_eq_exp_minus_1)

lemma bit_PX: "bit (PX l va) n \<longleftrightarrow> n < 9 \<and> bit va (12 + 9 * l + n)"
  unfolding PX_def mask9 by (auto simp: bit_unsigned_iff bit_and_iff bit_mask_iff bit_drop_bit_eq
      dest: bit_imp_le_length)

definition vpn :: "u64 \<Rightarrow> u64" where
  "vpn va = drop_bit 12 va"

lemma below_MAXVA_bit: "va < MAXVA \<Longrightarrow> bit va n \<Longrightarrow> n < 38"
proof (rule ccontr)
  assume va: "va < MAXVA" "bit va n" "\<not> n < 38"
  have "unat va < 2 ^ 38" using va(1) by (simp add: word_less_nat_alt)
  then have "unat va < 2 ^ n" using va(3) by (meson less_le_trans not_less one_le_numeral power_increasing)
  moreover have "bit (unat va) n" using va(2) by (simp add: bit_unsigned_iff bit_imp_le_length)
  ultimately show False by (simp add: bit_iff_odd)
qed

lemma PX_vpn: "vpn va = vpn va' \<Longrightarrow> PX l va = PX l va'"
proof (rule bit_eqI)
  fix n assume eq: "vpn va = vpn va'"
  have "bit (vpn va) (9 * l + n) = bit (vpn va') (9 * l + n)" using eq by simp
  then show "bit (PX l va) n = bit (PX l va') n"
    by (simp add: bit_PX vpn_def bit_drop_bit_eq add.assoc)
qed

lemma PX_inj:
  assumes "va < MAXVA" "va' < MAXVA"
    and eq: "PX 2 va = PX 2 va'" "PX 1 va = PX 1 va'" "PX 0 va = PX 0 va'"
  shows "vpn va = vpn va'"
proof (rule bit_word_eqI)
  fix n
  have half: "bit v (12 + n) \<longleftrightarrow> n < 27 \<and> bit (PX (n div 9) v) (n mod 9)" if "v < MAXVA" for v
  proof -
    have "bit v (12 + n) \<Longrightarrow> n < 27" using below_MAXVA_bit [OF that] by fastforce
    moreover have "12 + 9 * (n div 9) + n mod 9 = 12 + n" by simp
    moreover have "bit (PX (n div 9) v) (n mod 9) = bit v (12 + 9 * (n div 9) + n mod 9)"
      by (simp add: bit_PX)
    ultimately show ?thesis by metis
  qed
  have "n < 27 \<Longrightarrow> n div 9 = 0 \<or> n div 9 = 1 \<or> n div 9 = 2" by auto
  then have "n < 27 \<Longrightarrow> PX (n div 9) va = PX (n div 9) va'" using eq by metis
  then have "bit va (12 + n) = bit va' (12 + n)" using half assms(1,2) by metis
  then show "bit (vpn va) n = bit (vpn va') n"
    by (simp add: vpn_def bit_drop_bit_eq)
qed

lemma PTE2PA_PA2PTE:
  assumes "pa mod 4096 = 0" "pa < 0x1000000000000" "f AND 0x3FF = f"
  shows "PTE2PA (PA2PTE pa OR f) = pa"
proof (rule bit_word_eqI)
  fix n assume n: "n < LENGTH(64)"
  have f: "bit f k \<Longrightarrow> k < 10" for k
  proof -
    have m: "(0x3FF :: u64) = mask 10" by (simp add: mask_eq_exp_minus_1)
    assume "bit f k"
    then have "bit (f AND mask 10) k" using assms(3) by (simp add: m)
    then show ?thesis by (simp add: bit_and_iff bit_mask_iff)
  qed
  have "take_bit 12 pa = 0" using assms(1) by (simp add: take_bit_eq_mod)
  then have lo: "bit pa k \<Longrightarrow> 12 \<le> k" for k
    by (metis bit_0_eq bit_take_bit_iff bot_apply bot_bool_def not_le)
  have hi: "bit pa k \<Longrightarrow> k < 48" for k
  proof (rule ccontr)
    assume k: "bit pa k" "\<not> k < 48"
    have "unat pa < 2 ^ 48" using assms(2) by (simp add: word_less_nat_alt)
    then have "unat pa < 2 ^ k" using k(2) by (meson less_le_trans not_less one_le_numeral power_increasing)
    moreover have "bit (unat pa) k" using k(1) by (simp add: bit_unsigned_iff bit_imp_le_length)
    ultimately show False by (simp add: bit_iff_odd)
  qed
  show "bit (PTE2PA (PA2PTE pa OR f)) n = bit pa n"
    using n lo hi f by (auto simp: PTE2PA_def PA2PTE_def bit_push_bit_iff bit_drop_bit_eq bit_or_iff
        dest: bit_imp_le_length)
qed

lemma PTE_V_set: "(e OR PTE_V) AND PTE_V \<noteq> 0"
  by (simp add: and_one_eq or_one_eq mod_2_eq_odd)

lemma page_ok_bounds: "page_ok s pa \<Longrightarrow> pa mod 4096 = 0 \<and> pa < 0x1000000000000"
  by (auto simp: page_ok_def word_less_nat_alt)


section \<open>The tree of page-table pages\<close>

definition child :: "(u64 \<Rightarrow> page) \<Rightarrow> u64 \<Rightarrow> nat \<Rightarrow> u64 option" where
  "child m pt i = (let e = ld64 (m pt) i in if e AND PTE_V \<noteq> 0 then Some (PTE2PA e) else None)"

fun node :: "(u64 \<Rightarrow> page) \<Rightarrow> u64 \<Rightarrow> nat list \<Rightarrow> u64 option" where
  "node m a [] = Some a"
| "node m a (i # is) = (case child m a i of None \<Rightarrow> None | Some b \<Rightarrow> node m b is)"

definition vpath :: "nat list \<Rightarrow> bool" where
  "vpath p \<longleftrightarrow> length p \<le> 2 \<and> (\<forall>i \<in> set p. i < 512)"

definition nodes :: "(u64 \<Rightarrow> page) \<Rightarrow> u64 \<Rightarrow> u64 set" where
  "nodes m root = {a. \<exists>p. vpath p \<and> node m root p = Some a}"

definition pt_tree :: "(u64 \<Rightarrow> page) \<Rightarrow> u64 \<Rightarrow> bool" where
  "pt_tree m root \<longleftrightarrow> (\<forall>p q a. vpath p \<longrightarrow> vpath q \<longrightarrow>
     node m root p = Some a \<longrightarrow> node m root q = Some a \<longrightarrow> p = q)"

text \<open>The leaf entry \<^verbatim>\<open>walk\<close> finds for an address, when it is valid.\<close>

definition lookup :: "(u64 \<Rightarrow> page) \<Rightarrow> u64 \<Rightarrow> u64 \<Rightarrow> u64 option" where
  "lookup m root va = (case node m root [PX 2 va, PX 1 va] of
     None \<Rightarrow> None
   | Some p \<Rightarrow> let e = ld64 (m p) (PX 0 va) in if e AND PTE_V \<noteq> 0 then Some e else None)"

lemma pt_treeD:
  "pt_tree m root \<Longrightarrow> vpath p \<Longrightarrow> vpath q \<Longrightarrow> node m root p = Some a \<Longrightarrow> node m root q = Some a \<Longrightarrow> p = q"
  by (simp add: pt_tree_def)

lemma vpath_simps [simp]:
  "vpath []" "vpath [i] \<longleftrightarrow> i < 512" "vpath [i, j] \<longleftrightarrow> i < 512 \<and> j < 512" "\<not> vpath (i # j # k # p)"
  by (auto simp: vpath_def)

lemma vpath_cases:
  assumes "vpath p"
  obtains "p = []" | i where "p = [i]" "i < 512" | i j where "p = [i, j]" "i < 512" "j < 512"
  using assms by (cases p; cases "tl p"; cases "tl (tl p)") (auto simp: vpath_def)

lemma nodesI: "vpath p \<Longrightarrow> node m root p = Some a \<Longrightarrow> a \<in> nodes m root"
  by (auto simp: nodes_def)

lemma root_in_nodes [simp]: "root \<in> nodes m root"
  by (rule nodesI [of "[]"]) simp_all

lemma node_snoc: "node m a (p @ [i]) = (case node m a p of None \<Rightarrow> None | Some b \<Rightarrow> child m b i)"
  by (induction p arbitrary: a) (auto split: option.splits)

lemma child_cong: "m pt = m' pt \<Longrightarrow> child m pt i = child m' pt i"
  by (simp add: child_def)

text \<open>A path is unaffected by changes to pages that are not tree pages.\<close>

lemma node_frame:
  assumes "\<And>a. a \<in> nodes m root \<Longrightarrow> m' a = m a" "vpath p"
  shows "node m' root p = node m root p"
proof -
  have r: "m' root = m root" by (rule assms(1)) simp
  have c: "child m' b j = child m b j" if "child m root i = Some b" "i < 512" for i j b
  proof (rule child_cong, rule assms(1), rule nodesI [of "[i]"])
  qed (use that in simp_all)
  from assms(2) show ?thesis
    by (cases rule: vpath_cases) (auto simp: child_cong [of m' root m, OF r] c split: option.split)
qed

lemma nodes_frame:
  assumes "\<And>a. a \<in> nodes m root \<Longrightarrow> m' a = m a"
  shows "nodes m' root = nodes m root"
proof -
  have "vpath p \<and> node m' root p = Some a \<longleftrightarrow> vpath p \<and> node m root p = Some a" for p a
    by (auto simp only: node_frame [OF assms])
  then show ?thesis by (simp only: nodes_def)
qed

lemma pt_tree_frame:
  assumes "\<And>a. a \<in> nodes m root \<Longrightarrow> m' a = m a"
  shows "pt_tree m' root = pt_tree m root"
proof -
  have "vpath p \<Longrightarrow> node m' root p = node m root p" for p by (rule node_frame [OF assms])
  then show ?thesis by (simp add: pt_tree_def)
qed

lemma lookup_frame:
  assumes "\<And>a. a \<in> nodes m root \<Longrightarrow> m' a = m a"
  shows "lookup m' root va = lookup m root va"
proof -
  have n: "node m' root [PX 2 va, PX 1 va] = node m root [PX 2 va, PX 1 va]"
    by (rule node_frame [OF assms]) simp_all
  have "m' p = m p" if "node m root [PX 2 va, PX 1 va] = Some p" for p
    by (rule assms, rule nodesI [OF _ that]) simp
  then show ?thesis by (simp only: lookup_def n cong: option.case_cong)
qed

lemma lookup_vpn:
  assumes "vpn va = vpn va'"
  shows "lookup m root va = lookup m root va'"
  by (simp only: lookup_def PX_vpn [OF assms])

section \<open>Adding a page to the tree\<close>

text \<open>
  The effect of one allocating step of \<^verbatim>\<open>walk\<close>: page \<open>b\<close>, zeroed, becomes the child of \<open>a\<close> at
  index \<open>i\<close>. Every other path is as before and no leaf entry changes.
\<close>

definition tree_add :: "(u64 \<Rightarrow> page) \<Rightarrow> u64 \<Rightarrow> nat \<Rightarrow> u64 \<Rightarrow> u64 \<Rightarrow> page" where
  "tree_add m a i b = (m(b := (\<lambda>_. 0)))(a := st64 (m a) i (PA2PTE b OR PTE_V))"

lemma child_tree_add:
  assumes "a \<noteq> b" "b mod 4096 = 0" "b < 0x1000000000000"
  shows "child (tree_add m a i b) pt j =
    (if pt = a then if j = i then Some b else child m a j else if pt = b then None else child m pt j)"
proof -
  have "PTE2PA (PA2PTE b OR PTE_V) = b" by (rule PTE2PA_PA2PTE [OF assms(2,3)]) simp
  then show ?thesis
    using assms(1) by (auto simp: child_def tree_add_def ld64_st64 PTE_V_set Let_def)
qed

lemma node_child_upd:
  assumes tree: "pt_tree m root"
    and path: "vpath (p @ [i])" "node m root p = Some a"
    and free: "child m a i = None" and fresh: "b \<notin> nodes m root"
    and cm: "\<And>pt j. child m' pt j =
      (if pt = a then if j = i then Some b else child m a j else if pt = b then None else child m pt j)"
    and q: "vpath q"
  shows "node m' root q = (if q = p @ [i] then Some b else node m root q)"
proof -
  note inj = pt_treeD [OF tree]
  have notb: "c \<noteq> b" if "vpath r" "node m root r = Some c" for r c
    using fresh nodesI [OF that] by auto
  have rb: "root \<noteq> b" using notb [of "[]"] by simp
  have "p = [] \<or> (\<exists>k. p = [k] \<and> k < 512)"
    using path(1) by (cases p; cases "tl p"; auto simp: vpath_def)
  then show ?thesis
  proof
    assume p: "p = []"
    then have a: "a = root" using path(2) by simp
    have c: "c \<noteq> root \<and> c \<noteq> b" if "child m root j = Some c" "j < 512" for c j
      using inj [of "[]" "[j]" root] notb [of "[j]" c] that by auto
    have c1: "child m' x l = child m x l" if "child m root j = Some x" "j < 512" for j x l
      using c [OF that] a by (simp add: cm)
    have c2: "child m' root j = (if j = i then Some b else child m root j)" for j
      using a by (simp add: cm)
    have c3: "child m' b j = None" for j using rb a by (simp add: cm)
    from q show ?thesis
    proof (cases rule: vpath_cases)
      case (3 j l)
      then show ?thesis using c1 free a p by (cases "child m root j") (auto simp: c2 c3 split: option.split)
    qed (use p a in \<open>simp_all add: c2 split: option.split\<close>)
  next
    assume "\<exists>k. p = [k] \<and> k < 512"
    then obtain k where p: "p = [k]" "k < 512" by auto
    then have k: "child m root k = Some a" using path(2) by (simp split: option.splits)
    have ra: "root \<noteq> a" using inj [of "[]" "[k]" root] p k by auto
    have c: "c \<noteq> b \<and> (c = a \<longrightarrow> j = k)" if "child m root j = Some c" "j < 512" for c j
      using inj [of "[k]" "[j]" a] notb [of "[j]" c] that p k by auto
    have c1: "child m' x l = (if j = k \<and> l = i then Some b else child m x l)"
      if "child m root j = Some x" "j < 512" for j x l
      using c [OF that] k that by (auto simp: cm)
    have c2: "child m' root j = child m root j" for j using ra rb by (simp add: cm)
    from q show ?thesis
    proof (cases rule: vpath_cases)
      case (3 j l)
      then show ?thesis using c1 k p by (cases "child m root j") (auto simp: c2 split: option.split)
    qed (use p k in \<open>simp_all add: c2 split: option.split\<close>)
  qed
qed

lemma tree_add:
  assumes tree: "pt_tree m root"
    and path: "vpath (p @ [i])" "node m root p = Some a"
    and free: "child m a i = None"
    and fresh: "b \<notin> nodes m root" "b mod 4096 = 0" "b < 0x1000000000000"
  defines "m' \<equiv> tree_add m a i b"
  shows "vpath q \<Longrightarrow> node m' root q = (if q = p @ [i] then Some b else node m root q)"
    and "nodes m' root = insert b (nodes m root)"
    and "pt_tree m' root"
    and "lookup m' root va = lookup m root va"
proof -
  have pp: "vpath p" using path(1) by (auto simp: vpath_def)
  have ab: "a \<noteq> b" using fresh(1) nodesI [OF pp path(2)] by auto
  have node: "node m' root q = (if q = p @ [i] then Some b else node m root q)" if "vpath q" for q
    by (rule node_child_upd [OF tree path free fresh(1) _ that])
      (simp only: m'_def child_tree_add [OF ab fresh(2,3)])
  show "vpath q \<Longrightarrow> node m' root q = (if q = p @ [i] then Some b else node m root q)" by (rule node)
  have old: "node m root (p @ [i]) = None" using free path(2) by (simp add: node_snoc)
  show "nodes m' root = insert b (nodes m root)"
  proof (intro set_eqI iffI)
    fix c assume "c \<in> nodes m' root"
    then obtain q where "vpath q" "node m' root q = Some c" by (auto simp: nodes_def)
    then show "c \<in> insert b (nodes m root)" using nodesI [of q m root c] by (auto simp: node split: if_splits)
  next
    fix c assume "c \<in> insert b (nodes m root)"
    then consider "c = b" | q where "vpath q" "node m root q = Some c" by (auto simp: nodes_def)
    then show "c \<in> nodes m' root"
    proof cases
      case 1
      then show ?thesis using node [OF path(1)] nodesI [OF path(1)] by simp
    next
      case 2
      then have "q \<noteq> p @ [i]" using old by auto
      then have "node m' root q = Some c" using 2 node by simp
      then show ?thesis by (rule nodesI [OF 2(1)])
    qed
  qed
  show "pt_tree m' root"
    unfolding pt_tree_def
  proof (intro allI impI)
    fix q r c assume *: "vpath q" "vpath r" "node m' root q = Some c" "node m' root r = Some c"
    show "q = r"
      using * pt_treeD [OF tree, of q r c] fresh(1) nodesI [of q m root b] nodesI [of r m root b]
      by (auto simp: node split: if_splits)
  qed
  let ?q = "[PX 2 va, PX 1 va]"
  have q: "vpath ?q" by simp
  show "lookup m' root va = lookup m root va"
  proof (cases "?q = p @ [i]")
    case True
    then have "node m' root ?q = Some b" "node m root ?q = None"
      using node [OF q] old by (simp_all only: True if_True)
    then show ?thesis using ab by (simp only: lookup_def) (simp add: m'_def tree_add_def)
  next
    case False
    have "m' c = m c" if c: "node m root ?q = Some c" for c
    proof -
      have "c \<noteq> b" using fresh(1) nodesI [OF q c] by auto
      moreover have "p \<noteq> ?q" using path(1) by (auto simp: vpath_def)
      then have "c \<noteq> a" using pt_treeD [OF tree pp q path(2)] c by auto
      ultimately show ?thesis by (simp add: m'_def tree_add_def)
    qed
    then show ?thesis using False by (simp only: lookup_def node [OF q] if_False cong: option.case_cong)
  qed
qed

section \<open>Changing a leaf entry\<close>

lemma leaf_page_upd:
  assumes tree: "pt_tree m root" and jk: "vpath [j, k]" and p: "node m root [j, k] = Some p"
    and q: "vpath q"
  shows "node (m(p := pg)) root q = node m root q"
proof -
  have r: "root \<noteq> p" using pt_treeD [OF tree _ jk _ p, of "[]"] by auto
  have c1: "child (m(p := pg)) x l = child m x l" if "child m root i = Some x" "i < 512" for x i l
  proof -
    have "x \<noteq> p" using pt_treeD [OF tree _ jk _ p, of "[i]"] that by auto
    then show ?thesis by (simp add: child_def)
  qed
  have c2: "child (m(p := pg)) root l = child m root l" for l using r by (simp add: child_def)
  from q show ?thesis
    by (cases rule: vpath_cases) (auto simp: c1 c2 simp del: fun_upd_apply split: option.split)
qed

lemma leaf_set:
  fixes e :: u64
  assumes tree: "pt_tree m root" and p: "node m root [PX 2 va, PX 1 va] = Some p"
  defines "m' \<equiv> m(p := st64 (m p) (PX 0 va) e)"
  shows "nodes m' root = nodes m root" and "pt_tree m' root"
    and "va < MAXVA \<Longrightarrow> va' < MAXVA \<Longrightarrow> lookup m' root va' =
      (if vpn va' = vpn va then if e AND PTE_V \<noteq> 0 then Some e else None else lookup m root va')"
proof -
  let ?q = "[PX 2 va, PX 1 va]"
  have q: "vpath ?q" by simp
  have node: "vpath r \<Longrightarrow> node m' root r = node m root r" for r
    unfolding m'_def by (rule leaf_page_upd [OF tree q p])
  have "vpath r \<and> node m' root r = Some a \<longleftrightarrow> vpath r \<and> node m root r = Some a" for r a
    by (auto simp only: node)
  then show "nodes m' root = nodes m root" by (simp only: nodes_def)
  show "pt_tree m' root" using tree node by (simp add: pt_tree_def)
  assume va: "va < MAXVA" "va' < MAXVA"
  let ?r = "[PX 2 va', PX 1 va']"
  have r: "vpath ?r" by simp
  show "lookup m' root va' =
      (if vpn va' = vpn va then if e AND PTE_V \<noteq> 0 then Some e else None else lookup m root va')"
  proof (cases "vpn va' = vpn va")
    case True
    then have "lookup m' root va' = lookup m' root va" by (rule lookup_vpn)
    also have "\<dots> = (if e AND PTE_V \<noteq> 0 then Some e else None)"
      by (simp only: lookup_def node [OF q] p option.case) (simp add: m'_def ld64_st64)
    finally show ?thesis using True by simp
  next
    case False
    have "ld64 (m' c) (PX 0 va') = ld64 (m c) (PX 0 va')" if c: "node m root ?r = Some c" for c
    proof (cases "c = p")
      case True
      then have "?r = ?q" using pt_treeD [OF tree r q c] p by simp
      then have "PX 0 va' \<noteq> PX 0 va" using PX_inj [OF va(2,1)] False by auto
      then show ?thesis using True by (simp add: m'_def ld64_st64)
    qed (simp add: m'_def)
    then show ?thesis using False by (simp only: lookup_def node [OF r] if_False cong: option.case_cong)
  qed
qed

section \<open>Address spaces\<close>

definition mapped :: "(u64 \<Rightarrow> page) \<Rightarrow> u64 \<Rightarrow> u64 set" where
  "mapped m root = {PTE2PA e | e. \<exists>va. va < MAXVA \<and> lookup m root va = Some e}"

definition leaves :: "(u64 \<Rightarrow> page) \<Rightarrow> u64 \<Rightarrow> u64 set" where
  "leaves m root = {PTE2PA e | e. \<exists>va. va < TRAPFRAME \<and> lookup m root va = Some e}"

definition owned :: "(u64 \<Rightarrow> page) \<Rightarrow> u64 \<Rightarrow> u64 set" where
  "owned m root = nodes m root \<union> leaves m root"

definition leaf_inj :: "(u64 \<Rightarrow> page) \<Rightarrow> u64 \<Rightarrow> bool" where
  "leaf_inj m root \<longleftrightarrow> (\<forall>va va' e e'. va < TRAPFRAME \<longrightarrow> va' < MAXVA \<longrightarrow>
     lookup m root va = Some e \<longrightarrow> lookup m root va' = Some e' \<longrightarrow> PTE2PA e = PTE2PA e' \<longrightarrow> vpn va = vpn va')"

definition as_inv :: "'a kmem_state_scheme \<Rightarrow> u64 list \<Rightarrow> u64 \<Rightarrow> bool" where
  "as_inv s xs root \<longleftrightarrow> kmem_inv s xs \<and> pt_tree (mem s) root \<and>
     (\<forall>a \<in> owned (mem s) root. page_ok s a \<and> a \<notin> set xs) \<and>
     nodes (mem s) root \<inter> leaves (mem s) root = {} \<and> leaf_inj (mem s) root"

text \<open>
  \<open>same_rest\<close>: only memory and the free list differ. \<open>as_step\<close>: an operation on the address
  space \<open>root\<close> moves pages between the address space and the free list, and writes to no
  other page.
\<close>

definition same_rest :: "'a kmem_state_scheme \<Rightarrow> 'a kmem_state_scheme \<Rightarrow> bool" where
  "same_rest s s' \<longleftrightarrow> (\<exists>m f. s' = s\<lparr>mem := m, freelist := f\<rparr>)"

definition as_step :: "'a kmem_state_scheme \<Rightarrow> u64 list \<Rightarrow> u64 \<Rightarrow> 'a kmem_state_scheme \<Rightarrow> u64 list \<Rightarrow> bool" where
  "as_step s xs root s' ys \<longleftrightarrow> as_inv s' ys root \<and> same_rest s s' \<and>
     set ys \<union> owned (mem s') root = set xs \<union> owned (mem s) root \<and>
     (\<forall>a. a \<notin> set xs \<union> owned (mem s) root \<longrightarrow> mem s' a = mem s a)"

text \<open>\<open>keep\<close>: the user pages mapped before and after have the same contents.\<close>

definition keep :: "(u64 \<Rightarrow> page) \<Rightarrow> (u64 \<Rightarrow> page) \<Rightarrow> u64 \<Rightarrow> bool" where
  "keep m m' root \<longleftrightarrow> (\<forall>a \<in> leaves m root \<inter> leaves m' root. m' a = m a)"

lemma keep_refl [simp]: "keep m m root"
  by (simp add: keep_def)

lemma keep_trans:
  assumes "keep m m' root" "keep m' m'' root" "leaves m root \<inter> leaves m'' root \<subseteq> leaves m' root"
  shows "keep m m'' root"
  unfolding keep_def
proof
  fix a assume a: "a \<in> leaves m root \<inter> leaves m'' root"
  then have "a \<in> leaves m' root" using assms(3) by blast
  then show "m'' a = m a" using a assms(1,2) by (simp add: keep_def)
qed

lemma same_rest_refl [simp]: "same_rest s s"
  unfolding same_rest_def by (intro exI [of _ "mem s"] exI [of _ "freelist s"]) simp

lemma same_rest_trans: "same_rest s s' \<Longrightarrow> same_rest s' s'' \<Longrightarrow> same_rest s s''"
  unfolding same_rest_def by (elim exE, intro exI) simp

lemma same_rest_kend: "same_rest s s' \<Longrightarrow> kend s' = kend s"
  by (auto simp: same_rest_def)

lemma same_rest_page_ok: "same_rest s s' \<Longrightarrow> page_ok s' a = page_ok s a"
  unfolding same_rest_def page_ok_def by (elim exE) simp

lemma same_rest_upd [simp]: "same_rest s (s\<lparr>mem := m\<rparr>)" "same_rest s (s\<lparr>freelist := f\<rparr>)"
  "same_rest s (s\<lparr>freelist := f, mem := m\<rparr>)" "same_rest s (memset_page a c (s\<lparr>freelist := f\<rparr>))"
  "same_rest s (memset_page a c s)" "same_rest s (pte_set p e s)"
proof -
  show "same_rest s (s\<lparr>mem := m\<rparr>)" for m :: "u64 \<Rightarrow> page"
    unfolding same_rest_def by (intro exI [of _ m] exI [of _ "freelist s"]) simp
  then show "same_rest s (memset_page a c s)" "same_rest s (pte_set p e s)"
    by (simp_all only: memset_page_def pte_set_def)
  show "same_rest s (s\<lparr>freelist := f\<rparr>)"
    unfolding same_rest_def by (intro exI [of _ "mem s"] exI [of _ f]) simp
  show "same_rest s (s\<lparr>freelist := f, mem := m\<rparr>)" for m
    unfolding same_rest_def by (intro exI [of _ m] exI [of _ f]) simp
  then show "same_rest s (memset_page a c (s\<lparr>freelist := f\<rparr>))" by (simp add: memset_page_def)
qed

lemma as_step_refl: "as_inv s xs root \<Longrightarrow> as_step s xs root s xs"
  by (simp add: as_step_def)

lemma as_step_trans:
  assumes "as_step s xs root s' ys" "as_step s' ys root s'' zs"
  shows "as_step s xs root s'' zs"
proof -
  have "mem s'' a = mem s a" if "a \<notin> set xs \<union> owned (mem s) root" for a
  proof -
    have "a \<notin> set ys \<union> owned (mem s') root" using assms(1) that by (metis as_step_def)
    then show ?thesis using assms that by (metis as_step_def)
  qed
  moreover have "same_rest s s''" using assms by (metis as_step_def same_rest_trans)
  ultimately show ?thesis using assms by (simp only: as_step_def) blast
qed

lemma leaves_mapped: "leaves m root \<subseteq> mapped m root"
proof -
  have "va < TRAPFRAME \<Longrightarrow> va < MAXVA" for va :: u64 by (simp add: word_less_nat_alt)
  then show ?thesis by (auto simp only: leaves_def mapped_def)
qed

text \<open>An address space is unaffected by a step of another one it shares no page with.\<close>

lemma leaves_frame:
  "(\<And>a. a \<in> nodes m root \<Longrightarrow> m' a = m a) \<Longrightarrow> leaves m' root = leaves m root"
  by (simp only: leaves_def lookup_frame [of m root m'])

lemma owned_frame:
  "(\<And>a. a \<in> nodes m root \<Longrightarrow> m' a = m a) \<Longrightarrow> owned m' root = owned m root"
  by (simp only: owned_def nodes_frame [of m root m'] leaves_frame [of m root m'])

lemma as_step_other:
  assumes step: "as_step s xs root s' ys" and other: "as_inv s xs root'"
    and disj: "owned (mem s) root' \<inter> owned (mem s) root = {}"
  shows "as_inv s' ys root'"
    and "lookup (mem s') root' va = lookup (mem s) root' va"
    and "owned (mem s') root' = owned (mem s) root'"
    and "a \<in> owned (mem s) root' \<Longrightarrow> mem s' a = mem s a"
proof -
  have eq: "mem s' a = mem s a" if "a \<in> owned (mem s) root'" for a
  proof -
    have "a \<notin> set xs" using other that by (simp add: as_inv_def)
    moreover have "a \<notin> owned (mem s) root" using disj that by blast
    ultimately show ?thesis using step by (simp add: as_step_def)
  qed
  then show "a \<in> owned (mem s) root' \<Longrightarrow> mem s' a = mem s a" .
  have nd: "mem s' a = mem s a" if "a \<in> nodes (mem s) root'" for a
    using eq that by (simp add: owned_def)
  note fr = lookup_frame [of "mem s" root' "mem s'", OF nd] nodes_frame [of "mem s" root' "mem s'", OF nd]
    leaves_frame [of "mem s" root' "mem s'", OF nd] owned_frame [of "mem s" root' "mem s'", OF nd]
    pt_tree_frame [of "mem s" root' "mem s'", OF nd]
  show "lookup (mem s') root' va = lookup (mem s) root' va" by (simp only: fr)
  show "owned (mem s') root' = owned (mem s) root'" by (simp only: fr)
  have ys: "a \<notin> set ys" if "a \<in> owned (mem s) root'" for a
    using step disj other that by (auto simp: as_step_def as_inv_def)
  have "kmem_inv s' ys" using step by (simp add: as_step_def as_inv_def)
  moreover have "\<forall>a \<in> owned (mem s) root'. page_ok s' a \<and> a \<notin> set ys"
    using step other ys same_rest_page_ok [of s s'] by (auto simp: as_step_def as_inv_def)
  ultimately show "as_inv s' ys root'"
    using other by (simp only: as_inv_def fr leaf_inj_def) blast
qed

end
