(* ===== verification/Walk.thy ===== *)
theory Walk
  imports Pagetable
begin

text \<open>The effect of \<^verbatim>\<open>walk\<close>, \<^verbatim>\<open>mappages\<close>, \<^verbatim>\<open>walkaddr\<close> and \<^verbatim>\<open>uvmunmap\<close> on an address space.\<close>

section \<open>walk\<close>

fun rest_path :: "nat \<Rightarrow> u64 \<Rightarrow> nat list" where
  "rest_path 0 va = []"
| "rest_path (Suc l) va = PX (Suc l) va # rest_path l va"

lemma rest_path_2 [simp]: "rest_path 2 va = [PX 2 va, PX 1 va]"
  by (simp add: numeral_2_eq_2)

lemma pte_get_mem: "pte_get (p, i) s = ld64 (mem s p) i"
  by (simp add: pte_get_def)

lemma walk_loop_lookup:
  "walk_loop l pt va False s = (map_option (\<lambda>p. (p, PX 0 va)) (node (mem s) pt (rest_path l va)), s)"
proof (induction l arbitrary: pt)
  case (Suc l)
  show ?case
  proof (cases "ld64 (mem s pt) (PX (Suc l) va) AND PTE_V = 0")
    case True
    then show ?thesis by (simp add: pte_get_mem child_def)
  next
    case False
    then show ?thesis using Suc [of "PTE2PA (ld64 (mem s pt) (PX (Suc l) va))"]
      by (simp add: pte_get_mem child_def Let_def)
  qed
qed simp

lemma walk_lookup:
  "va < MAXVA \<Longrightarrow> walk root va False s =
     Done (map_option (\<lambda>p. (p, PX 0 va)) (node (mem s) root [PX 2 va, PX 1 va])) s"
  by (simp add: walk_def walk_loop_lookup del: node.simps)

definition walk_rel :: "'a kmem_state_scheme \<Rightarrow> u64 list \<Rightarrow> u64 \<Rightarrow> 'a kmem_state_scheme \<Rightarrow> u64 list \<Rightarrow> bool" where
  "walk_rel s xs root s' ys \<longleftrightarrow> kmem_inv s' ys \<and> pt_tree (mem s') root \<and> same_rest s s' \<and>
     (\<exists>zs. xs = zs @ ys \<and> nodes (mem s') root = nodes (mem s) root \<union> set zs) \<and>
     (\<forall>a. a \<notin> set xs \<union> nodes (mem s) root \<longrightarrow> mem s' a = mem s a)"

definition pt_ready :: "'a kmem_state_scheme \<Rightarrow> u64 list \<Rightarrow> u64 \<Rightarrow> bool" where
  "pt_ready s xs root \<longleftrightarrow> kmem_inv s xs \<and> pt_tree (mem s) root \<and> nodes (mem s) root \<inter> set xs = {}"

lemma as_inv_ready: "as_inv s xs root \<Longrightarrow> pt_ready s xs root"
  by (auto simp: as_inv_def pt_ready_def owned_def)

lemma walk_rel_refl: "pt_ready s xs root \<Longrightarrow> walk_rel s xs root s xs"
  by (simp add: walk_rel_def pt_ready_def)

lemma walk_rel_trans:
  assumes "walk_rel s xs root s' ys" "walk_rel s' ys root s'' zs"
  shows "walk_rel s xs root s'' zs"
proof -
  obtain us vs where us: "xs = us @ ys" "nodes (mem s') root = nodes (mem s) root \<union> set us"
    and vs: "ys = vs @ zs" "nodes (mem s'') root = nodes (mem s') root \<union> set vs"
    using assms unfolding walk_rel_def by blast
  have "mem s'' a = mem s a" if "a \<notin> set xs \<union> nodes (mem s) root" for a
  proof -
    have "a \<notin> set ys \<union> nodes (mem s') root" using that us by auto
    then show ?thesis using assms that unfolding walk_rel_def by metis
  qed
  moreover have "same_rest s s''" using assms by (metis walk_rel_def same_rest_trans)
  moreover have "xs = (us @ vs) @ zs" "nodes (mem s'') root = nodes (mem s) root \<union> set (us @ vs)"
    using us vs by auto
  ultimately show ?thesis using assms(2) unfolding walk_rel_def by blast
qed

lemma walk_rel_ready:
  assumes "walk_rel s xs root s' ys" "pt_ready s xs root"
  shows "pt_ready s' ys root"
proof -
  obtain us where us: "xs = us @ ys" "nodes (mem s') root = nodes (mem s) root \<union> set us"
    using assms unfolding walk_rel_def by blast
  have "distinct xs" using assms(2) by (simp add: pt_ready_def kmem_inv_def)
  then show ?thesis using assms us by (auto simp: walk_rel_def pt_ready_def)
qed

text \<open>One level of the descent that allocates a page-table page.\<close>

lemma walk_alloc_step:
  assumes ready: "pt_ready s (b # ys) root"
    and path: "vpath (p @ [i])" "node (mem s) root p = Some a" and free: "child (mem s) a i = None"
  defines "s' \<equiv> pte_set (a, i) (PA2PTE b OR PTE_V)
    (memset_page b 0 (memset_page b 5 (s\<lparr>freelist := ld64 (mem s b) 0\<rparr>)))"
  shows "walk_rel s (b # ys) root s' ys" and "node (mem s') root (p @ [i]) = Some b"
    and "lookup (mem s') root va = lookup (mem s) root va"
proof -
  let ?s1 = "memset_page b 5 (s\<lparr>freelist := ld64 (mem s b) 0\<rparr>)"
  have inv: "kmem_inv s (b # ys)" and tree: "pt_tree (mem s) root" and b: "b \<notin> nodes (mem s) root"
    and disj: "nodes (mem s) root \<inter> set ys = {}"
    using ready by (auto simp: pt_ready_def)
  have "vpath p" using path(1) by (auto simp: vpath_def)
  from nodesI [OF this path(2)] have a: "a \<in> nodes (mem s) root" .
  then have ab: "a \<noteq> b" "a \<notin> set ys" using b disj by auto
  have m: "mem s' = tree_add (mem s) a i b"
    using ab(1) by (auto simp: s'_def pte_set_def memset_page_def tree_add_def fun_eq_iff)
  note ka = kalloc_Cons [OF inv]
  note add = tree_add [OF tree path free b conjunct1 [OF page_ok_bounds [OF ka(4)]]
      conjunct2 [OF page_ok_bounds [OF ka(4)]]]
  show "node (mem s') root (p @ [i]) = Some b" using add(1) [OF path(1)] by (simp add: m)
  show "lookup (mem s') root va = lookup (mem s) root va" by (simp only: m add(4))
  have "s' = s\<lparr>mem := tree_add (mem s) a i b, freelist := ld64 (mem s b) 0\<rparr>"
    using m by (simp add: s'_def pte_set_def memset_page_def)
  then have rest: "same_rest s s'" unfolding same_rest_def by blast
  have "s' = ?s1\<lparr>mem := (mem ?s1)(b := (\<lambda>_. 0), a := mem s' a)\<rparr>"
    by (simp add: s'_def pte_set_def memset_page_def)
  moreover have "kmem_inv (?s1\<lparr>mem := (mem ?s1)(b := (\<lambda>_. 0), a := pg)\<rparr>) ys" for pg
    using kmem_inv_mem_upd [of a ys "?s1\<lparr>mem := (mem ?s1)(b := (\<lambda>_. 0))\<rparr>" pg]
      kmem_inv_mem_upd [of b ys ?s1 "\<lambda>_. 0"] ka(2,5) ab(2) by simp
  ultimately have "kmem_inv s' ys" by metis
  moreover have "b # ys = [b] @ ys" "nodes (mem s') root = nodes (mem s) root \<union> set [b]"
    by (simp_all add: m add(2))
  moreover have "mem s' x = mem s x" if "x \<notin> set (b # ys) \<union> nodes (mem s) root" for x
    using that a by (auto simp: m tree_add_def)
  ultimately show "walk_rel s (b # ys) root s' ys"
    using add(3) rest unfolding walk_rel_def m by blast
qed

lemma walk_loop_alloc:
  assumes "pt_ready s xs root" "node (mem s) root p = Some pt" "vpath (p @ rest_path l va)"
  shows "\<exists>r s' ys. walk_loop l pt va True s = (r, s') \<and> walk_rel s xs root s' ys \<and>
    (\<forall>v. lookup (mem s') root v = lookup (mem s) root v) \<and>
    (r = None \<and> ys = [] \<or>
     (\<exists>q. r = Some (q, PX 0 va) \<and> node (mem s') root (p @ rest_path l va) = Some q))"
  using assms
proof (induction l arbitrary: s xs p pt)
  case 0
  then show ?case using walk_rel_refl [OF 0(1)] by auto
next
  case (Suc l)
  let ?i = "PX (Suc l) va"
  have vp: "vpath (p @ [?i])" "vpath ((p @ [?i]) @ rest_path l va)"
    using Suc.prems(3) by (auto simp: vpath_def)
  show ?case
  proof (cases "child (mem s) pt ?i")
    case (Some c)
    then have "node (mem s) root (p @ [?i]) = Some c" using Suc.prems(2) by (simp add: node_snoc)
    moreover have "walk_loop (Suc l) pt va True s = walk_loop l c va True s"
      using Some by (auto simp: child_def pte_get_mem Let_def split: if_splits)
    ultimately show ?thesis
      using Suc.IH [OF Suc.prems(1) _ vp(2)] by (simp only: append.simps append_assoc rest_path.simps)
  next
    case None
    then have invalid: "ld64 (mem s pt) ?i AND PTE_V = 0" by (simp add: child_def Let_def split: if_splits)
    show ?thesis
    proof (cases xs)
      case Nil
      then have "kalloc s = (0, s)" using Suc.prems(1) by (simp add: pt_ready_def kalloc_empty)
      then have "walk_loop (Suc l) pt va True s = (None, s)"
        using invalid by (simp add: pte_get_mem)
      then show ?thesis using walk_rel_refl [OF Suc.prems(1)] Nil by auto
    next
      case (Cons b ys)
      let ?s1 = "memset_page b 5 (s\<lparr>freelist := ld64 (mem s b) 0\<rparr>)"
      let ?s2 = "pte_set (pt, ?i) (PA2PTE b OR PTE_V) (memset_page b 0 ?s1)"
      have ready: "pt_ready s (b # ys) root" using Suc.prems(1) Cons by simp
      then have inv: "kmem_inv s (b # ys)" by (simp add: pt_ready_def)
      have unf: "walk_loop (Suc l) pt va True s = walk_loop l b va True ?s2"
        using invalid kalloc_Cons(1,3) [OF inv] by (simp add: pte_get_mem)
      note st = walk_alloc_step [OF ready vp(1) Suc.prems(2) None]
      from Suc.IH [OF walk_rel_ready [OF st(1) ready] st(2) vp(2)]
      obtain r s' zs where r: "walk_loop l b va True ?s2 = (r, s')" "walk_rel ?s2 ys root s' zs"
        "\<forall>v. lookup (mem s') root v = lookup (mem ?s2) root v"
        "r = None \<and> zs = [] \<or>
         (\<exists>q. r = Some (q, PX 0 va) \<and> node (mem s') root ((p @ [?i]) @ rest_path l va) = Some q)"
        by (elim exE conjE) 
      have "walk_rel s xs root s' zs" using walk_rel_trans [OF st(1) r(2)] Cons by simp
      moreover have "\<forall>v. lookup (mem s') root v = lookup (mem s) root v" using r(3) st(3) by metis
      ultimately show ?thesis using r(1,4) unf
        by (intro exI [of _ r] exI [of _ s'] exI [of _ zs]) (simp only: append.simps append_assoc rest_path.simps simp_thms)
    qed
  qed
qed

lemma walk_alloc:
  assumes "pt_ready s xs root" "va < MAXVA"
  obtains r s' ys where "walk root va True s = Done r s'" "walk_rel s xs root s' ys"
    "\<And>v. lookup (mem s') root v = lookup (mem s) root v"
    "r = None \<and> ys = [] \<or>
     (\<exists>q. r = Some (q, PX 0 va) \<and> node (mem s') root [PX 2 va, PX 1 va] = Some q)"
proof -
  have "\<exists>r s' ys. walk_loop 2 root va True s = (r, s') \<and> walk_rel s xs root s' ys \<and>
    (\<forall>v. lookup (mem s') root v = lookup (mem s) root v) \<and>
    (r = None \<and> ys = [] \<or>
     (\<exists>q. r = Some (q, PX 0 va) \<and> node (mem s') root ([] @ rest_path 2 va) = Some q))"
    by (rule walk_loop_alloc [OF assms(1)]) simp_all
  then obtain r s' ys where r: "walk_loop 2 root va True s = (r, s')" "walk_rel s xs root s' ys"
    "\<forall>v. lookup (mem s') root v = lookup (mem s) root v"
    "r = None \<and> ys = [] \<or>
     (\<exists>q. r = Some (q, PX 0 va) \<and> node (mem s') root ([] @ rest_path 2 va) = Some q)"
    by (elim exE conjE)
  have "walk root va True s = Done r s'" using r(1) assms(2) by (simp add: walk_def not_le [symmetric])
  then show ?thesis using that [of r s' ys] r(2,3,4) by (simp only: append.simps rest_path_2)
qed

section \<open>mappages\<close>

text \<open>What one iteration needs of the physical page it maps.\<close>

definition map_ok :: "'a kmem_state_scheme \<Rightarrow> u64 list \<Rightarrow> u64 \<Rightarrow> u64 \<Rightarrow> u64 \<Rightarrow> u64 \<Rightarrow> bool" where
  "map_ok s xs root va pa perm \<longleftrightarrow> va < MAXVA \<and> pa mod 4096 = 0 \<and> pa < 0x1000000000000 \<and> perm AND 0x3FF = perm \<and>
     (if va < TRAPFRAME
      then page_ok s pa \<and> pa \<notin> set xs \<and> pa \<notin> nodes (mem s) root \<and> pa \<notin> mapped (mem s) root
      else pa \<notin> leaves (mem s) root)"

lemma PTE_bits:
  assumes "pa mod 4096 = 0" "pa < 0x1000000000000" "perm AND 0x3FF = perm"
  shows "PTE2PA (PA2PTE pa OR perm OR PTE_V) = pa" "(PA2PTE pa OR perm OR PTE_V) AND PTE_V \<noteq> 0"
proof -
  have "(perm OR PTE_V) AND 0x3FF = (perm AND 0x3FF) OR (PTE_V AND 0x3FF)" by (rule bit.conj_disj_distrib2)
  then have "(perm OR PTE_V) AND 0x3FF = perm OR PTE_V" using assms(3) by simp
  from PTE2PA_PA2PTE [OF assms(1,2) this] show "PTE2PA (PA2PTE pa OR perm OR PTE_V) = pa"
    by (simp add: or.assoc)
  show "(PA2PTE pa OR perm OR PTE_V) AND PTE_V \<noteq> 0"
    by (simp only: or.assoc [symmetric] PTE_V_set not_False_eq_True)
qed

lemma mappages_page:
  assumes ready: "pt_ready s xs root" and va: "va < MAXVA" "va mod 4096 = 0"
    and unmapped: "lookup (mem s) root va = None"
    and pa: "pa mod 4096 = 0" "pa < 0x1000000000000" and perm: "perm AND 0x3FF = perm"
  obtains r s' ys where "mappages root va PGSIZE pa perm s = Done r s'" "walk_rel s xs root s' ys"
    "r = 0 \<or> r = -1 \<and> ys = []"
    "\<And>v. v < MAXVA \<Longrightarrow> lookup (mem s') root v =
       (if r = 0 \<and> vpn v = vpn va then Some (PA2PTE pa OR perm OR PTE_V) else lookup (mem s) root v)"
proof -
  let ?e = "PA2PTE pa OR perm OR PTE_V"
  have unf: "mappages root va PGSIZE pa perm s = mappages_loop (Suc 0) root va pa perm s"
    using va(2) by (simp add: mappages_def)
  obtain r s1 ys where w: "walk root va True s = Done r s1" "walk_rel s xs root s1 ys"
    "\<And>v. lookup (mem s1) root v = lookup (mem s) root v"
    "r = None \<and> ys = [] \<or>
     (\<exists>q. r = Some (q, PX 0 va) \<and> node (mem s1) root [PX 2 va, PX 1 va] = Some q)"
    by (rule walk_alloc [OF ready va(1)]) (rule that)
  from w(4) show ?thesis
  proof
    assume "r = None \<and> ys = []"
    then show ?thesis using that [of "-1" s1 ys] w(1,2,3) by (simp add: unf)
  next
    assume "\<exists>q. r = Some (q, PX 0 va) \<and> node (mem s1) root [PX 2 va, PX 1 va] = Some q"
    then obtain q where r: "r = Some (q, PX 0 va)" and q: "node (mem s1) root [PX 2 va, PX 1 va] = Some q"
      by blast
    have "lookup (mem s1) root va = None" using unmapped w(3) by simp
    then have inv: "ld64 (mem s1 q) (PX 0 va) AND PTE_V = 0"
      by (simp only: lookup_def q option.case Let_def option.distinct split: if_splits)
    let ?s2 = "pte_set (q, PX 0 va) ?e s1"
    have m2: "mem ?s2 = (mem s1)(q := st64 (mem s1 q) (PX 0 va) ?e)" by (simp add: pte_set_def)
    have run: "mappages root va PGSIZE pa perm s = Done 0 ?s2"
      using w(1) r inv by (simp add: unf pte_get_mem)
    have ready1: "pt_ready s1 ys root" by (rule walk_rel_ready [OF w(2) ready])
    have tree1: "pt_tree (mem s1) root" using ready1 by (simp add: pt_ready_def)
    have qn: "q \<in> nodes (mem s1) root" by (rule nodesI [OF _ q]) simp
    then have qy: "q \<notin> set ys" using ready1 by (auto simp: pt_ready_def)
    note ls = leaf_set [OF tree1 q, where e = ?e, folded m2]
    have "walk_rel s1 ys root ?s2 ys"
      unfolding walk_rel_def
    proof (intro conjI)
      show "kmem_inv ?s2 ys"
        using ready1 qy by (simp add: pte_set_def pt_ready_def kmem_inv_mem_upd)
      show "pt_tree (mem ?s2) root" by (rule ls(2))
      show "\<exists>zs. ys = zs @ ys \<and> nodes (mem ?s2) root = nodes (mem s1) root \<union> set zs"
        by (intro exI [of _ "[]"]) (simp add: ls(1))
      show "\<forall>a. a \<notin> set ys \<union> nodes (mem s1) root \<longrightarrow> mem ?s2 a = mem s1 a"
        using qn by (auto simp: m2)
    qed simp
    from walk_rel_trans [OF w(2) this] have "walk_rel s xs root ?s2 ys" .
    moreover have "lookup (mem ?s2) root v = (if vpn v = vpn va then Some ?e else lookup (mem s) root v)"
      if "v < MAXVA" for v
      using ls(3) [OF va(1) that] PTE_bits(2) [OF pa perm] w(3) by (simp only: simp_thms if_True)
    ultimately show ?thesis using that [of 0 ?s2 ys] run by simp
  qed
qed

lemma TRAPFRAME_MAXVA: "(va :: u64) < TRAPFRAME \<Longrightarrow> va < MAXVA"
  by (simp add: word_less_nat_alt)

lemma leavesI: "va < TRAPFRAME \<Longrightarrow> lookup m root va = Some e \<Longrightarrow> PTE2PA e \<in> leaves m root"
  by (auto simp only: leaves_def)

lemma leavesE:
  assumes "a \<in> leaves m root"
  obtains va e where "va < TRAPFRAME" "lookup m root va = Some e" "a = PTE2PA e"
  using assms by (auto simp only: leaves_def)

lemma mappedI: "va < MAXVA \<Longrightarrow> lookup m root va = Some e \<Longrightarrow> PTE2PA e \<in> mapped m root"
  by (auto simp only: mapped_def)

lemma leaves_map:
  assumes new: "\<And>v. v < MAXVA \<Longrightarrow> lookup m' root v = (if vpn v = vpn va then Some e else lookup m root v)"
    and va: "va < MAXVA" "lookup m root va = None" and below: "\<And>v. vpn v = vpn va \<Longrightarrow> v < TRAPFRAME \<longleftrightarrow> va < TRAPFRAME"
  shows "leaves m' root = (if va < TRAPFRAME then insert (PTE2PA e) (leaves m root) else leaves m root)"
proof (intro set_eqI iffI)
  fix a assume "a \<in> leaves m' root"
  then obtain v f where v: "v < TRAPFRAME" "lookup m' root v = Some f" "a = PTE2PA f" by (rule leavesE)
  show "a \<in> (if va < TRAPFRAME then insert (PTE2PA e) (leaves m root) else leaves m root)"
  proof (cases "vpn v = vpn va")
    case True
    then show ?thesis using v new [OF TRAPFRAME_MAXVA [OF v(1)]] below [OF True] by simp
  next
    case False
    then have "lookup m root v = Some f" using v new [OF TRAPFRAME_MAXVA [OF v(1)]] by simp
    then show ?thesis using leavesI [OF v(1)] v(3) by simp
  qed
next
  fix a assume a: "a \<in> (if va < TRAPFRAME then insert (PTE2PA e) (leaves m root) else leaves m root)"
  show "a \<in> leaves m' root"
  proof (cases "va < TRAPFRAME \<and> a = PTE2PA e")
    case True
    then show ?thesis using leavesI [of va m' root e] new [OF va(1)] by simp
  next
    case False
    then have "a \<in> leaves m root" using a by (simp split: if_splits)
    then obtain v f where v: "v < TRAPFRAME" "lookup m root v = Some f" "a = PTE2PA f" by (rule leavesE)
    have "vpn v \<noteq> vpn va" using lookup_vpn [of v va m root] v(2) va(2) by auto
    then have "lookup m' root v = Some f" using v new [OF TRAPFRAME_MAXVA [OF v(1)]] by simp
    then show ?thesis using leavesI [OF v(1)] v(3) by simp
  qed
qed

lemma vpn_unat: "unat (vpn va) = unat va div 4096"
  by (simp add: vpn_def drop_bit_eq_div unat_div_distrib)

lemma vpn_less:
  assumes "vpn v = vpn va" and c: "unat c mod 4096 = 0"
  shows "v < c \<longleftrightarrow> va < c"
proof -
  have "unat v div 4096 = unat va div 4096" using vpn_unat assms(1) by metis
  moreover have "x < unat c \<longleftrightarrow> x div 4096 < unat c div 4096" for x
    using c by (metis div_less_iff_less_mult mod_0_imp_dvd dvd_div_mult_self zero_less_numeral)
  ultimately show ?thesis by (simp add: word_less_nat_alt)
qed

lemma leaf_inj_map:
  assumes inj: "leaf_inj m root"
    and new: "\<And>v. v < MAXVA \<Longrightarrow> lookup m' root v = (if vpn v = vpn va then Some e else lookup m root v)"
    and va: "va < MAXVA"
    and fresh: "va < TRAPFRAME \<Longrightarrow> PTE2PA e \<notin> mapped m root" "\<not> va < TRAPFRAME \<Longrightarrow> PTE2PA e \<notin> leaves m root"
    and below: "\<And>v. vpn v = vpn va \<Longrightarrow> v < TRAPFRAME \<longleftrightarrow> va < TRAPFRAME"
  shows "leaf_inj m' root"
  unfolding leaf_inj_def
proof (intro allI impI)
  fix v v' f f' assume *: "v < TRAPFRAME" "v' < MAXVA" "lookup m' root v = Some f" "lookup m' root v' = Some f'"
    "PTE2PA f = PTE2PA f'"
  note l = new [OF TRAPFRAME_MAXVA [OF *(1)]] new [OF *(2)]
  consider "vpn v = vpn va" "vpn v' = vpn va" | "vpn v = vpn va" "vpn v' \<noteq> vpn va"
    | "vpn v \<noteq> vpn va" "vpn v' = vpn va" | "vpn v \<noteq> vpn va" "vpn v' \<noteq> vpn va" by blast
  then show "vpn v = vpn v'"
  proof cases
    case 2
    then have "va < TRAPFRAME" "f = e" "lookup m root v' = Some f'" using below [of v] * l by auto
    then show ?thesis using fresh(1) mappedI [OF *(2)] *(5) by simp
  next
    case 3
    then have f: "f' = e" "lookup m root v = Some f" using * l by auto
    then have "PTE2PA e \<in> leaves m root" using leavesI [OF *(1) f(2)] *(5) by simp
    then show ?thesis using fresh leaves_mapped by blast
  next
    case 4
    then show ?thesis using inj * l unfolding leaf_inj_def by auto
  qed simp
qed

lemma as_inv_walk_rel:
  assumes inv: "as_inv s xs root" and w: "walk_rel s xs root s' ys"
    and lv: "leaves (mem s') root \<subseteq> insert pa (leaves (mem s) root)"
    and pa: "pa \<in> leaves (mem s') root \<Longrightarrow> pa \<notin> leaves (mem s) root \<Longrightarrow>
      page_ok s pa \<and> pa \<notin> set xs \<and> pa \<notin> nodes (mem s) root"
    and inj: "leaf_inj (mem s') root"
  shows "as_inv s' ys root"
proof -
  obtain zs where zs: "xs = zs @ ys" "nodes (mem s') root = nodes (mem s) root \<union> set zs"
    using w unfolding walk_rel_def by blast
  have ki: "distinct xs" "\<forall>x \<in> set xs. page_ok s x" using inv by (auto simp: as_inv_def kmem_inv_def)
  have ok: "page_ok s' a = page_ok s a" for a using w by (simp add: walk_rel_def same_rest_page_ok)
  have own: "page_ok s a \<and> a \<notin> set xs" if "a \<in> owned (mem s) root" for a
    using inv that by (simp add: as_inv_def)
  have new: "page_ok s a \<and> a \<notin> set xs \<and> a \<notin> nodes (mem s) root" if "a \<in> leaves (mem s') root" for a
  proof (cases "a \<in> leaves (mem s) root")
    case True
    then show ?thesis using own inv by (auto simp: owned_def as_inv_def)
  next
    case False
    then have "a = pa" using lv that by blast
    then show ?thesis using pa that False by simp
  qed
  have "page_ok s' a \<and> a \<notin> set ys" if "a \<in> owned (mem s') root" for a
  proof -
    have "a \<in> (nodes (mem s) root \<union> set zs) \<union> leaves (mem s') root"
      using that by (simp only: owned_def zs(2))
    then consider "a \<in> nodes (mem s) root" | "a \<in> set zs" | "a \<in> leaves (mem s') root" by blast
    then show ?thesis
    proof cases
      case 1
      then show ?thesis using own [of a] zs(1) by (simp add: owned_def ok)
    next
      case 2
      then show ?thesis using ki zs(1) by (auto simp: ok)
    next
      case 3
      then show ?thesis using new [OF 3] zs(1) by (simp add: ok)
    qed
  qed
  moreover have "nodes (mem s') root \<inter> leaves (mem s') root = {}"
    using new zs by auto
  ultimately show ?thesis using w inj by (simp add: as_inv_def walk_rel_def)
qed

lemma TRAPFRAME_below: "vpn v = vpn va \<Longrightarrow> v < TRAPFRAME \<longleftrightarrow> va < TRAPFRAME"
  by (rule vpn_less) simp_all

lemma leaf_inj_subset:
  assumes "leaf_inj m root" "\<And>v e. v < MAXVA \<Longrightarrow> lookup m' root v = Some e \<Longrightarrow> lookup m root v = Some e"
  shows "leaf_inj m' root"
  unfolding leaf_inj_def
proof (intro allI impI)
  fix v v' f f' assume *: "v < TRAPFRAME" "v' < MAXVA" "lookup m' root v = Some f" "lookup m' root v' = Some f'"
    "PTE2PA f = PTE2PA f'"
  have "lookup m root v = Some f" "lookup m root v' = Some f'"
    using assms(2) * TRAPFRAME_MAXVA by blast+
  then show "vpn v = vpn v'" using assms(1) * unfolding leaf_inj_def by blast
qed

text \<open>\<^verbatim>\<open>mappages\<close> of one page, on an address space.\<close>

lemma mappages_as:
  assumes inv: "as_inv s xs root" and va: "va mod 4096 = 0" "lookup (mem s) root va = None"
    and ok: "map_ok s xs root va pa perm"
  obtains r s' ys where "mappages root va PGSIZE pa perm s = Done r s'" "r = 0 \<or> r = -1"
    "as_inv s' ys root" "walk_rel s xs root s' ys"
    "\<And>v. v < MAXVA \<Longrightarrow> lookup (mem s') root v =
       (if r = 0 \<and> vpn v = vpn va then Some (PA2PTE pa OR perm OR PTE_V) else lookup (mem s) root v)"
    "leaves (mem s') root = (if r = 0 \<and> va < TRAPFRAME then insert pa (leaves (mem s) root)
       else leaves (mem s) root)"
proof -
  have o: "va < MAXVA" "pa mod 4096 = 0" "pa < 0x1000000000000" "perm AND 0x3FF = perm"
    using ok by (simp_all only: map_ok_def)
  have user: "va < TRAPFRAME \<Longrightarrow> page_ok s pa \<and> pa \<notin> set xs \<and> pa \<notin> nodes (mem s) root \<and> pa \<notin> mapped (mem s) root"
    and sys: "\<not> va < TRAPFRAME \<Longrightarrow> pa \<notin> leaves (mem s) root"
    using ok by (simp_all only: map_ok_def if_True if_False simp_thms)
  let ?e = "PA2PTE pa OR perm OR PTE_V"
  have pte: "PTE2PA ?e = pa" by (rule PTE_bits(1) [OF o(2-4)])
  obtain r s' ys where run: "mappages root va PGSIZE pa perm s = Done r s'"
    and w: "walk_rel s xs root s' ys" and r: "r = 0 \<or> r = -1 \<and> ys = []"
    and lk: "\<And>v. v < MAXVA \<Longrightarrow> lookup (mem s') root v =
       (if r = 0 \<and> vpn v = vpn va then Some ?e else lookup (mem s) root v)"
    by (rule mappages_page [OF as_inv_ready [OF inv] o(1) va o(2-4)]) (rule that)
  have inj: "leaf_inj (mem s) root" using inv by (simp add: as_inv_def)
  show ?thesis
  proof (cases "r = 0")
    case True
    then have lk': "v < MAXVA \<Longrightarrow> lookup (mem s') root v = (if vpn v = vpn va then Some ?e else lookup (mem s) root v)" for v
      using lk by simp
    have lv: "leaves (mem s') root = (if va < TRAPFRAME then insert pa (leaves (mem s) root) else leaves (mem s) root)"
      using leaves_map [OF lk' o(1) va(2) TRAPFRAME_below] by (simp only: pte)
    have "leaf_inj (mem s') root"
      by (rule leaf_inj_map [OF inj lk' o(1) _ _ TRAPFRAME_below]) (use user sys in \<open>simp_all only: pte simp_thms\<close>)
    moreover have "leaves (mem s') root \<subseteq> insert pa (leaves (mem s) root)" using lv by auto
    moreover have "page_ok s pa \<and> pa \<notin> set xs \<and> pa \<notin> nodes (mem s) root"
      if "pa \<in> leaves (mem s') root" "pa \<notin> leaves (mem s) root"
      using that lv user by (simp split: if_splits)
    ultimately have "as_inv s' ys root" using as_inv_walk_rel [OF inv w] by blast
    then show ?thesis using that [OF run _ _ w lk] lv True by simp
  next
    case False
    then have lk': "v < MAXVA \<Longrightarrow> lookup (mem s') root v = lookup (mem s) root v" for v using lk by simp
    have lv: "leaves (mem s') root = leaves (mem s) root"
      by (simp only: leaves_def lk' [OF TRAPFRAME_MAXVA] cong: conj_cong)
    have "leaf_inj (mem s') root"
      by (rule leaf_inj_subset [OF inj]) (simp only: lk')
    then have "as_inv s' ys root" using as_inv_walk_rel [OF inv w, of pa] lv by blast
    then show ?thesis using that [OF run _ _ w lk] lv False r by simp
  qed
qed

section \<open>walkaddr\<close>

lemma walkaddr_lookup:
  assumes "va < MAXVA"
  shows "walkaddr root va s = Done (case lookup (mem s) root va of
    None \<Rightarrow> 0 | Some e \<Rightarrow> if e AND PTE_U = 0 then 0 else PTE2PA e) s"
proof -
  have "\<not> MAXVA \<le> va" using assms by (simp add: not_le)
  then show ?thesis
    by (cases "node (mem s) root [PX 2 va, PX 1 va]")
      (simp_all add: walkaddr_def walk_lookup [OF assms] lookup_def pte_get_mem Let_def del: node.simps)
qed

section \<open>uvmunmap\<close>

lemma uvmunmap_page_None:
  "va < MAXVA \<Longrightarrow> lookup (mem s) root va = None \<Longrightarrow> uvmunmap_page root va do_free s = Done () s"
  by (cases "node (mem s) root [PX 2 va, PX 1 va]")
    (auto simp: uvmunmap_page_def walk_lookup lookup_def pte_get_mem Let_def simp del: node.simps split: if_splits)

lemma lookup_SomeE:
  assumes "lookup m root va = Some e"
  obtains q where "node m root [PX 2 va, PX 1 va] = Some q" "ld64 (m q) (PX 0 va) = e" "e AND PTE_V \<noteq> 0"
  using assms by (auto simp: lookup_def Let_def simp del: node.simps split: option.splits if_splits)

lemma leaves_unmap:
  assumes inj: "leaf_inj m root" and va: "va < TRAPFRAME" "lookup m root va = Some e"
    and lk: "\<And>v. v < MAXVA \<Longrightarrow> lookup m' root v = (if vpn v = vpn va then None else lookup m root v)"
  shows "leaves m root = insert (PTE2PA e) (leaves m' root)" and "PTE2PA e \<notin> leaves m' root"
proof -
  note mx = TRAPFRAME_MAXVA
  show notin: "PTE2PA e \<notin> leaves m' root"
  proof
    assume "PTE2PA e \<in> leaves m' root"
    then obtain v f where v: "v < TRAPFRAME" "lookup m' root v = Some f" "PTE2PA e = PTE2PA f" by (rule leavesE)
    then have "lookup m root v = Some f" "vpn v \<noteq> vpn va" using lk [OF mx [OF v(1)]] by (auto split: if_splits)
    then show False using inj va v mx [OF v(1)] unfolding leaf_inj_def by metis
  qed
  show "leaves m root = insert (PTE2PA e) (leaves m' root)"
  proof (intro set_eqI iffI)
    fix a assume "a \<in> leaves m root"
    then obtain v f where v: "v < TRAPFRAME" "lookup m root v = Some f" "a = PTE2PA f" by (rule leavesE)
    show "a \<in> insert (PTE2PA e) (leaves m' root)"
    proof (cases "vpn v = vpn va")
      case True
      then have "f = e" using lookup_vpn [OF True, of m root] v(2) va(2) by simp
      then show ?thesis using v(3) by simp
    next
      case False
      then show ?thesis using leavesI [OF v(1), of m' root f] lk [OF mx [OF v(1)]] v by simp
    qed
  next
    fix a assume "a \<in> insert (PTE2PA e) (leaves m' root)"
    then consider "a = PTE2PA e" | "a \<in> leaves m' root" by blast
    then show "a \<in> leaves m root"
    proof cases
      case 1
      then show ?thesis using leavesI [OF va] by simp
    next
      case 2
      then obtain v f where v: "v < TRAPFRAME" "lookup m' root v = Some f" "a = PTE2PA f" by (rule leavesE)
      then have "lookup m root v = Some f" using lk [OF mx [OF v(1)]] by (simp split: if_splits)
      then show ?thesis using leavesI [OF v(1)] v(3) by simp
    qed
  qed
qed

text \<open>Unmapping a user page gives its physical page back to the free list.\<close>

lemma uvmunmap_page_free:
  assumes inv: "as_inv s xs root" and va: "va < TRAPFRAME" and e: "lookup (mem s) root va = Some e"
  obtains s' where "uvmunmap_page root va True s = Done () s'" "as_step s xs root s' (PTE2PA e # xs)"
    "\<And>v. v < MAXVA \<Longrightarrow> lookup (mem s') root v = (if vpn v = vpn va then None else lookup (mem s) root v)"
    "nodes (mem s') root = nodes (mem s) root"
    "keep (mem s) (mem s') root" "leaves (mem s') root \<subseteq> leaves (mem s) root"
proof -
  have vm: "va < MAXVA" by (rule TRAPFRAME_MAXVA [OF va])
  obtain q where q: "node (mem s) root [PX 2 va, PX 1 va] = Some q" "ld64 (mem s q) (PX 0 va) = e" "e AND PTE_V \<noteq> 0"
    using e by (rule lookup_SomeE)
  let ?pa = "PTE2PA e"
  have pa: "?pa \<in> leaves (mem s) root" by (rule leavesI [OF va e])
  have qn: "q \<in> nodes (mem s) root" by (rule nodesI [OF _ q(1)]) simp
  have ok: "page_ok s ?pa" "?pa \<notin> set xs" "?pa \<notin> nodes (mem s) root"
    using inv pa by (auto simp: as_inv_def owned_def)
  have tree: "pt_tree (mem s) root" and kinv: "kmem_inv s xs" using inv by (simp_all add: as_inv_def)
  obtain s1 where s1: "kfree ?pa s = Done () s1" "kmem_inv s1 (?pa # xs)"
    "s1 = s\<lparr>mem := (mem s)(?pa := st64 (\<lambda>_. 1) 0 (freelist s)), freelist := ?pa\<rparr>"
    using kfree_Done [OF kinv ok(1,2)] by blast
  let ?s2 = "pte_set (q, PX 0 va) 0 s1"
  have run: "uvmunmap_page root va True s = Done () ?s2"
    using q s1(1) by (simp add: uvmunmap_page_def walk_lookup [OF vm] pte_get_mem del: node.simps)
  have fr: "mem s1 a = mem s a" if "a \<in> nodes (mem s) root" for a using ok(3) that s1(3) by auto
  have q1: "node (mem s1) root [PX 2 va, PX 1 va] = Some q"
    using q(1) by (subst node_frame [OF fr]) simp_all
  have tree1: "pt_tree (mem s1) root" using tree pt_tree_frame [of "mem s" root "mem s1", OF fr] by simp
  have m2: "mem ?s2 = (mem s1)(q := st64 (mem s1 q) (PX 0 va) 0)" by (simp add: pte_set_def)
  note ls = leaf_set [OF tree1 q1, where e = 0, folded m2]
  have lk: "lookup (mem ?s2) root v = (if vpn v = vpn va then None else lookup (mem s) root v)" if "v < MAXVA" for v
    using ls(3) [OF vm that] lookup_frame [of "mem s" root "mem s1", OF fr] by simp
  have nd: "nodes (mem ?s2) root = nodes (mem s) root"
    using ls(1) nodes_frame [of "mem s" root "mem s1", OF fr] by simp
  have lv: "leaves (mem s) root = insert ?pa (leaves (mem ?s2) root)" "?pa \<notin> leaves (mem ?s2) root"
    using leaves_unmap [OF _ va e lk] inv by (simp_all add: as_inv_def)
  have "q \<noteq> ?pa" "q \<notin> set xs" using qn ok(3) inv by (auto simp: as_inv_def owned_def)
  then have k2: "kmem_inv ?s2 (?pa # xs)" using s1(2) kmem_inv_mem_upd [of q "?pa # xs" s1] by (simp add: pte_set_def)
  have rest: "same_rest s ?s2"
    unfolding same_rest_def s1(3) pte_set_def
    by (intro exI [of _ "mem ?s2"] exI [of _ ?pa]) (simp add: s1(3) pte_set_def)
  have own: "owned (mem s) root = insert ?pa (owned (mem ?s2) root)" "?pa \<notin> owned (mem ?s2) root"
    using lv nd ok(3) by (auto simp: owned_def)
  have "as_inv ?s2 (?pa # xs) root"
    unfolding as_inv_def
  proof (intro conjI)
    show "\<forall>a \<in> owned (mem ?s2) root. page_ok ?s2 a \<and> a \<notin> set (?pa # xs)"
      using inv own rest by (auto simp: as_inv_def same_rest_page_ok)
    show "nodes (mem ?s2) root \<inter> leaves (mem ?s2) root = {}"
      using inv lv(1) nd by (auto simp: as_inv_def)
    show "leaf_inj (mem ?s2) root"
      by (rule leaf_inj_subset [of "mem s"]) (use inv lk in \<open>auto simp: as_inv_def split: if_splits\<close>)
  qed (use k2 ls(2) in simp_all)
  moreover have "mem ?s2 a = mem s a" if "a \<notin> set xs \<union> owned (mem s) root" for a
  proof -
    have "a \<noteq> ?pa" "a \<noteq> q" using that qn own(1) by (auto simp: owned_def)
    then show ?thesis unfolding m2 by (simp add: s1(3))
  qed
  moreover have "set (?pa # xs) \<union> owned (mem ?s2) root = set xs \<union> owned (mem s) root"
    unfolding own(1) by simp
  ultimately have "as_step s xs root ?s2 (?pa # xs)" unfolding as_step_def using rest by blast
  moreover have "keep (mem s) (mem ?s2) root"
    unfolding keep_def
  proof
    fix a assume "a \<in> leaves (mem s) root \<inter> leaves (mem ?s2) root"
    then have "a \<noteq> ?pa" "a \<noteq> q" using lv(2) qn inv by (auto simp: as_inv_def)
    then show "mem ?s2 a = mem s a" unfolding m2 by (simp add: s1(3))
  qed
  moreover have "leaves (mem ?s2) root \<subseteq> leaves (mem s) root" using lv(1) by blast
  ultimately show ?thesis by (intro that [OF run _ lk nd])
qed

end
