(* ===== verification/Uvm.thy ===== *)
theory Uvm
  imports Walk
begin

text \<open>
  The operations on whole ranges of user memory: \<^verbatim>\<open>uvmunmap\<close>, \<^verbatim>\<open>uvmdealloc\<close>, \<^verbatim>\<open>uvmalloc\<close> and
  \<^verbatim>\<open>uvmcopy\<close> on address spaces. Pages are counted by their number \<open>vp\<close>; \<open>TFP\<close> is the number
  of the trapframe page, the first page above user memory.
\<close>

section \<open>Page numbers\<close>

definition vp :: "u64 \<Rightarrow> nat" where
  "vp v = unat v div 4096"

definition up :: "u64 \<Rightarrow> nat" where
  "up v = (unat v + 4095) div 4096"

abbreviation TFP :: nat where "TFP \<equiv> 67108862"

lemma vpn_vp: "vpn v = vpn w \<longleftrightarrow> vp v = vp w"
  by (metis vp_def vpn_unat word_unat_eq_iff)

lemma vp_TRAPFRAME: "v < TRAPFRAME \<longleftrightarrow> vp v < TFP"
  using div_less_iff_less_mult [of 4096 "unat v" TFP] by (simp add: vp_def word_less_nat_alt)

lemma vp_MAXVA: "v < MAXVA \<longleftrightarrow> vp v < 67108864"
  using div_less_iff_less_mult [of 4096 "unat v" 67108864] by (simp add: vp_def word_less_nat_alt)

lemma vp_user: "vp v < TFP \<Longrightarrow> v < MAXVA"
  by (simp add: vp_MAXVA)

lemma vp_aligned: "v mod 4096 = 0 \<Longrightarrow> unat v = vp v * 4096"
  by (simp add: word_mod_unat vp_def) (metis dvd_div_mult_self mod_0_imp_dvd)

lemma vp_step:
  assumes "a mod 4096 = 0" "vp a < TFP"
  shows "vp (a + PGSIZE) = Suc (vp a)" and "(a + PGSIZE) mod 4096 = 0"
proof -
  have a: "unat a = vp a * 4096" by (rule vp_aligned [OF assms(1)])
  then have u: "unat (a + PGSIZE) = vp a * 4096 + 4096" using assms(2) by (simp add: unat_word_ariths)
  then show "vp (a + PGSIZE) = Suc (vp a)" by (simp add: vp_def)
  show "(a + PGSIZE) mod 4096 = 0" unfolding word_mod_unat u by simp
qed

lemma up_PGROUNDUP:
  assumes "a \<le> TRAPFRAME"
  shows "unat (PGROUNDUP a) = up a * 4096" "vp (PGROUNDUP a) = up a" "up a \<le> TFP"
    "PGROUNDUP a mod 4096 = 0"
proof -
  have a: "unat a \<le> TFP * 4096" using assms by (simp add: word_le_nat_alt)
  then show u: "unat (PGROUNDUP a) = up a * 4096" by (simp add: unat_PGROUNDUP up_def)
  then show "vp (PGROUNDUP a) = up a" by (simp add: vp_def)
  show "up a \<le> TFP" unfolding up_def round_up_le_iff by (rule a)
  show "PGROUNDUP a mod 4096 = 0" unfolding word_mod_unat u by simp
qed

lemma unat_bit_less: "unat (x :: u64) < 2 ^ k \<Longrightarrow> bit x n \<Longrightarrow> n < k"
proof (rule ccontr)
  assume x: "unat x < 2 ^ k" "bit x n" "\<not> n < k"
  have "(2 :: nat) ^ k \<le> 2 ^ n" using x(3) by (intro power_increasing) simp_all
  with x(1) have "unat x < 2 ^ n" by (rule less_le_trans)
  moreover have "bit (unat x) n" using x(2) by (simp add: bit_unsigned_iff bit_imp_le_length)
  ultimately show False by (simp add: bit_iff_odd)
qed

lemma scast_ucast_small:
  assumes "unat (x :: u64) < 2 ^ 31"
  shows "scast (ucast x :: u32) = x"
proof (rule bit_word_eqI)
  fix n assume "n < LENGTH(64)"
  moreover have "\<not> bit x 31" "31 \<le> n \<Longrightarrow> \<not> bit x n" using unat_bit_less [OF assms] by fastforce+
  ultimately show "bit (scast (ucast x :: u32) :: u64) n = bit x n"
    by (auto simp: bit_signed_iff bit_ucast_iff min_def)
qed

section \<open>uvmunmap and uvmdealloc\<close>

lemma uvmunmap_loop_spec:
  assumes "as_inv s xs root" "a mod 4096 = 0" "vp a + n \<le> TFP"
  shows "\<exists>s' ys. uvmunmap_loop n root a True s = Done () s' \<and> as_step s xs root s' ys \<and>
    nodes (mem s') root = nodes (mem s) root \<and>
    keep (mem s) (mem s') root \<and> leaves (mem s') root \<subseteq> leaves (mem s) root \<and>
    (\<forall>v < MAXVA. lookup (mem s') root v =
       (if vp a \<le> vp v \<and> vp v < vp a + n then None else lookup (mem s) root v))"
  using assms
proof (induction n arbitrary: s xs a)
  case 0
  have "\<not> (vp a \<le> k \<and> k < vp a + 0)" for k by simp
  then show ?case using as_step_refl [OF 0(1)]
    by (intro exI [of _ s] exI [of _ xs]) (simp only: uvmunmap_loop.simps if_False simp_thms keep_refl subset_refl)
next
  case (Suc n)
  have a: "vp a < TFP" using Suc.prems(3) by simp
  then have tf: "a < TRAPFRAME" and mx: "a < MAXVA" by (simp_all only: vp_TRAPFRAME vp_user)
  note st = vp_step [OF Suc.prems(2) a]
  have "\<exists>s1 ys. uvmunmap_page root a True s = Done () s1 \<and> as_step s xs root s1 ys \<and>
      nodes (mem s1) root = nodes (mem s) root \<and>
      keep (mem s) (mem s1) root \<and> leaves (mem s1) root \<subseteq> leaves (mem s) root \<and>
      (\<forall>v < MAXVA. lookup (mem s1) root v = (if vp v = vp a then None else lookup (mem s) root v))"
  proof (cases "lookup (mem s) root a")
    case None
    have "lookup (mem s) root v = None" if "vp v = vp a" for v
      using lookup_vpn [of v a "mem s" root] that None by (simp only: vpn_vp)
    then have "\<forall>v. lookup (mem s) root v = (if vp v = vp a then None else lookup (mem s) root v)"
      by simp
    then show ?thesis
      using uvmunmap_page_None [OF mx None] as_step_refl [OF Suc.prems(1)]
      by (intro exI [of _ s] exI [of _ xs] conjI) simp_all
  next
    case (Some e)
    obtain s1 where s1: "uvmunmap_page root a True s = Done () s1" "as_step s xs root s1 (PTE2PA e # xs)"
      "\<And>v. v < MAXVA \<Longrightarrow> lookup (mem s1) root v = (if vpn v = vpn a then None else lookup (mem s) root v)"
      "nodes (mem s1) root = nodes (mem s) root"
      "keep (mem s) (mem s1) root" "leaves (mem s1) root \<subseteq> leaves (mem s) root"
      by (rule uvmunmap_page_free [OF Suc.prems(1) tf Some]) (rule that)
    then show ?thesis
      by (intro exI [of _ s1] exI [of _ "PTE2PA e # xs"] conjI) (simp_all add: vpn_vp)
  qed
  then obtain s1 ys where s1: "uvmunmap_page root a True s = Done () s1" "as_step s xs root s1 ys"
    "nodes (mem s1) root = nodes (mem s) root"
    "keep (mem s) (mem s1) root" "leaves (mem s1) root \<subseteq> leaves (mem s) root"
    "\<forall>v < MAXVA. lookup (mem s1) root v = (if vp v = vp a then None else lookup (mem s) root v)"
    by (elim exE conjE)
  have i1: "as_inv s1 ys root" using s1(2) by (simp add: as_step_def)
  have "vp (a + PGSIZE) + n \<le> TFP" using Suc.prems(3) by (simp add: st)
  note IH = Suc.IH [OF i1 st(2) this]
  obtain s' zs where s': "uvmunmap_loop n root (a + PGSIZE) True s1 = Done () s'"
    "as_step s1 ys root s' zs" "nodes (mem s') root = nodes (mem s1) root"
    "keep (mem s1) (mem s') root" "leaves (mem s') root \<subseteq> leaves (mem s1) root"
    "\<forall>v < MAXVA. lookup (mem s') root v =
       (if vp (a + PGSIZE) \<le> vp v \<and> vp v < vp (a + PGSIZE) + n then None else lookup (mem s1) root v)"
    using IH by (elim exE conjE)
  have "lookup (mem s') root v =
       (if vp a \<le> vp v \<and> vp v < vp a + Suc n then None else lookup (mem s) root v)" if "v < MAXVA" for v
    using s1(6) [rule_format, OF that] s'(6) [rule_format, OF that] by (simp add: st)
  moreover have "keep (mem s) (mem s') root" by (rule keep_trans [OF s1(4) s'(4)]) (use s'(5) in blast)
  moreover have "leaves (mem s') root \<subseteq> leaves (mem s) root" using s1(5) s'(5) by blast
  ultimately show ?case
    using s1(1,3) s'(1,3) as_step_trans [OF s1(2) s'(2)]
    by (intro exI [of _ s'] exI [of _ zs]) simp
qed

lemma uvmunmap_spec:
  assumes "as_inv s xs root" "a mod 4096 = 0" "vp a + unat n \<le> TFP"
  obtains s' ys where "uvmunmap root a n True s = Done () s'" "as_step s xs root s' ys"
    "nodes (mem s') root = nodes (mem s) root"
    "keep (mem s) (mem s') root" "leaves (mem s') root \<subseteq> leaves (mem s) root"
    "\<And>v. v < MAXVA \<Longrightarrow> lookup (mem s') root v =
       (if vp a \<le> vp v \<and> vp v < vp a + unat n then None else lookup (mem s) root v)"
proof -
  have a: "unat a = vp a * 4096" by (rule vp_aligned [OF assms(2)])
  have n: "unat (n * PGSIZE) = unat n * 4096" using assms(3) by (simp add: unat_word_ariths)
  then have u: "unat (a + n * PGSIZE) = unat a + unat n * 4096"
    using assms(3) a by (simp add: unat_word_ariths)
  have "(if a < a + n * PGSIZE then unat (a + n * PGSIZE - a) div 4096 else 0) = unat n"
    using u n by (simp add: word_less_nat_alt)
  then have "uvmunmap root a n True s = uvmunmap_loop (unat n) root a True s"
    using assms(2) by (simp add: uvmunmap_def Let_def)
  moreover obtain s' ys where "uvmunmap_loop (unat n) root a True s = Done () s'" "as_step s xs root s' ys"
    "nodes (mem s') root = nodes (mem s) root"
    "keep (mem s) (mem s') root" "leaves (mem s') root \<subseteq> leaves (mem s) root"
    "\<forall>v < MAXVA. lookup (mem s') root v =
       (if vp a \<le> vp v \<and> vp v < vp a + unat n then None else lookup (mem s) root v)"
    using uvmunmap_loop_spec [OF assms] by (elim exE conjE)
  ultimately show thesis using that [of s' ys] by simp
qed

lemma uvmdealloc_spec:
  assumes inv: "as_inv s xs root" and old: "oldsz \<le> TRAPFRAME"
  obtains s' ys where "uvmdealloc root oldsz newsz s = Done (min oldsz newsz) s'" "as_step s xs root s' ys"
    "nodes (mem s') root = nodes (mem s) root"
    "keep (mem s) (mem s') root" "leaves (mem s') root \<subseteq> leaves (mem s) root"
    "\<And>v. v < MAXVA \<Longrightarrow> lookup (mem s') root v =
       (if newsz < oldsz \<and> up newsz \<le> vp v \<and> vp v < up oldsz then None else lookup (mem s) root v)"
proof (cases "newsz < oldsz \<and> PGROUNDUP newsz < PGROUNDUP oldsz")
  case True
  then have new: "newsz \<le> TRAPFRAME" using old by (simp add: word_less_nat_alt word_le_nat_alt)
  note o = up_PGROUNDUP [OF old] and nw = up_PGROUNDUP [OF new]
  have lt: "up newsz < up oldsz" using True o(1) nw(1) by (simp add: word_less_nat_alt)
  let ?d = "(PGROUNDUP oldsz - PGROUNDUP newsz) div PGSIZE"
  have sub: "unat (PGROUNDUP oldsz - PGROUNDUP newsz) = (up oldsz - up newsz) * 4096"
    using True o(1) nw(1) by (simp add: unat_sub word_le_nat_alt word_less_nat_alt diff_mult_distrib)
  then have d: "unat ?d = up oldsz - up newsz" by (simp add: unat_div_distrib)
  have small: "up oldsz - up newsz < 2 ^ 31" using o(3) by simp
  have n: "scast (ucast ?d :: u32) = ?d"
    by (rule scast_ucast_small) (use d small in simp)
  have "vp (PGROUNDUP newsz) + unat ?d \<le> TFP" using d lt o(3) nw(2) by simp
  then obtain s' ys where s': "uvmunmap root (PGROUNDUP newsz) ?d True s = Done () s'" "as_step s xs root s' ys"
      "nodes (mem s') root = nodes (mem s) root"
      "keep (mem s) (mem s') root" "leaves (mem s') root \<subseteq> leaves (mem s) root"
      "\<And>v. v < MAXVA \<Longrightarrow> lookup (mem s') root v = (if vp (PGROUNDUP newsz) \<le> vp v \<and>
         vp v < vp (PGROUNDUP newsz) + unat ?d then None else lookup (mem s) root v)"
    by (rule uvmunmap_spec [OF inv nw(4)]) (rule that)
  have e: "up newsz + unat ?d = up oldsz" using lt by (simp add: d)
  have "uvmdealloc root oldsz newsz s = Done (min oldsz newsz) s'"
    using True s'(1) n by (auto simp: uvmdealloc_def Let_def min_def not_le)
  then show thesis by (rule that [OF _ s'(2-5)]) (simp add: s'(6) e nw(2) True)
next
  case False
  have run: "uvmdealloc root oldsz newsz s = Done (min oldsz newsz) s"
    using False by (auto simp: uvmdealloc_def min_def not_le)
  have none: "\<not> (newsz < oldsz \<and> up newsz \<le> k \<and> k < up oldsz)" for k
  proof
    assume k: "newsz < oldsz \<and> up newsz \<le> k \<and> k < up oldsz"
    then have new: "newsz \<le> TRAPFRAME" using old by (simp add: word_less_nat_alt word_le_nat_alt)
    show False using k False up_PGROUNDUP(1) [OF old] up_PGROUNDUP(1) [OF new] by (simp add: word_less_nat_alt)
  qed
  show thesis by (rule that [OF run as_step_refl [OF inv] refl keep_refl subset_refl]) (simp only: none if_False)
qed

end
