(* ===== verification/Ualloc.thy ===== *)
theory Ualloc
  imports Uvm
begin

text \<open>
  Allocating user memory: \<^verbatim>\<open>uvmalloc\<close> and \<^verbatim>\<open>uvmcopy\<close> on address spaces, and what they keep of
  the other address spaces in memory.
\<close>

section \<open>Complete address spaces\<close>

text \<open>The physical pages mapped above user memory, the trapframe and the trampoline, are
  neither free nor pages of the address space.\<close>

definition sysp :: "(u64 \<Rightarrow> page) \<Rightarrow> u64 \<Rightarrow> u64 set" where
  "sysp m root = {PTE2PA e | e. \<exists>va. TRAPFRAME \<le> va \<and> va < MAXVA \<and> lookup m root va = Some e}"

definition as_full :: "'a kmem_state_scheme \<Rightarrow> u64 list \<Rightarrow> u64 \<Rightarrow> bool" where
  "as_full s xs root \<longleftrightarrow> as_inv s xs root \<and> sysp (mem s) root \<inter> (set xs \<union> owned (mem s) root) = {}"

lemma mapped_split: "mapped m root = leaves m root \<union> sysp m root"
proof (intro set_eqI iffI)
  fix a assume "a \<in> mapped m root"
  then obtain e va where "a = PTE2PA e" "va < MAXVA" "lookup m root va = Some e"
    by (auto simp only: mapped_def)
  then show "a \<in> leaves m root \<union> sysp m root"
    by (cases "va < TRAPFRAME") (auto simp only: leaves_def sysp_def not_less)
next
  fix a assume "a \<in> leaves m root \<union> sysp m root"
  then show "a \<in> mapped m root"
    using leaves_mapped [of m root] by (auto simp only: mapped_def sysp_def)
qed

lemma sysp_cong:
  assumes "\<And>v. TRAPFRAME \<le> v \<Longrightarrow> v < MAXVA \<Longrightarrow> lookup m' root v = lookup m root v"
  shows "sysp m' root = sysp m root"
proof -
  have "TRAPFRAME \<le> va \<and> va < MAXVA \<and> lookup m' root va = Some e \<longleftrightarrow>
    TRAPFRAME \<le> va \<and> va < MAXVA \<and> lookup m root va = Some e" for va e
    using assms [of va] by auto
  then show ?thesis by (simp only: sysp_def)
qed

lemma as_full_step:
  assumes "as_full s xs root" "as_step s xs root s' ys"
    "\<And>v. TRAPFRAME \<le> v \<Longrightarrow> v < MAXVA \<Longrightarrow> lookup (mem s') root v = lookup (mem s) root v"
  shows "as_full s' ys root"
  using assms(1,2) sysp_cong [OF assms(3)] by (simp add: as_full_def as_step_def)

lemma as_fullD: "as_full s xs root \<Longrightarrow> as_inv s xs root"
  by (simp add: as_full_def)

section \<open>One fresh page\<close>

text \<open>The state after taking page \<open>b\<close> off the free list and filling it with \<open>pg\<close>.\<close>

definition fresh :: "'a kmem_state_scheme \<Rightarrow> u64 \<Rightarrow> page \<Rightarrow> 'a kmem_state_scheme" where
  "fresh s b pg = s\<lparr>freelist := ld64 (mem s b) 0, mem := (mem s)(b := pg)\<rparr>"

lemma fresh_inv:
  assumes full: "as_full s (b # xs) root"
  shows "as_full (fresh s b pg) xs root" and "lookup (mem (fresh s b pg)) root v = lookup (mem s) root v"
    and "owned (mem (fresh s b pg)) root = owned (mem s) root"
    and "b \<notin> owned (mem s) root" "b \<notin> set xs" "b \<notin> mapped (mem s) root" "page_ok s b"
    and "kmem_inv (fresh s b pg) xs" "same_rest s (fresh s b pg)"
proof -
  have inv: "as_inv s (b # xs) root" by (rule as_fullD [OF full])
  then have kinv: "kmem_inv s (b # xs)" by (simp add: as_inv_def)
  note ka = kalloc_Cons [OF kinv]
  show bo: "b \<notin> owned (mem s) root" using inv by (auto simp: as_inv_def)
  show "b \<notin> set xs" "page_ok s b" by (rule ka)+
  show "b \<notin> mapped (mem s) root"
    using bo full by (auto simp: mapped_split as_full_def owned_def)
  have m: "mem (fresh s b pg) a = mem s a" if "a \<in> nodes (mem s) root" for a
    using that bo by (auto simp: fresh_def owned_def)
  note fr = lookup_frame [of "mem s" root "mem (fresh s b pg)", OF m]
    nodes_frame [of "mem s" root "mem (fresh s b pg)", OF m]
    leaves_frame [of "mem s" root "mem (fresh s b pg)", OF m]
    owned_frame [of "mem s" root "mem (fresh s b pg)", OF m]
    pt_tree_frame [of "mem s" root "mem (fresh s b pg)", OF m]
  show "lookup (mem (fresh s b pg)) root v = lookup (mem s) root v" by (rule fr)
  show "owned (mem (fresh s b pg)) root = owned (mem s) root" by (rule fr)
  show rest: "same_rest s (fresh s b pg)"
    unfolding fresh_def by (rule same_rest_upd)
  show k: "kmem_inv (fresh s b pg) xs"
    using ka(2) kmem_inv_mem_upd [OF ka(5), of "memset_page b 5 (s\<lparr>freelist := ld64 (mem s b) 0\<rparr>)" pg]
    by (simp add: fresh_def memset_page_def)
  have "as_inv (fresh s b pg) xs root"
    using inv k by (simp add: as_inv_def leaf_inj_def fr same_rest_page_ok [OF rest])
  moreover have "sysp (mem (fresh s b pg)) root = sysp (mem s) root"
    by (rule sysp_cong) (rule fr)
  ultimately show "as_full (fresh s b pg) xs root"
    using full by (simp add: as_full_def fr)
qed

lemma kalloc_fresh:
  assumes "kmem_inv s (b # xs)"
  shows "kalloc s = (b, fresh s b (\<lambda>_. 5))" and "b \<noteq> 0"
    and "memset_page b c (fresh s b pg) = fresh s b (\<lambda>_. c)"
    and "(fresh s b pg)\<lparr>mem := (mem (fresh s b pg))(b := pg')\<rparr> = fresh s b pg'"
  using kalloc_Cons(1,3) [OF assms] by (simp_all add: fresh_def memset_page_def)

text \<open>Mapping the fresh page: either it becomes the page of \<open>va\<close>, or the map fails, leaving
  every entry as it was, and the page can be given back.\<close>

lemma map_fresh:
  assumes full: "as_full s (b # xs) root" and va: "va mod 4096 = 0" "vp va < TFP"
    and none: "lookup (mem s) root va = None" and perm: "perm AND 0x3FF = perm"
  obtains (ok) s' ys where "mappages root va PGSIZE b perm (fresh s b pg) = Done 0 s'"
      "as_step s (b # xs) root s' ys" "mem s' b = pg" "b \<in> leaves (mem s') root"
      "leaves (mem s) root \<subseteq> leaves (mem s') root" "keep (mem s) (mem s') root"
      "\<And>v. v < MAXVA \<Longrightarrow> lookup (mem s') root v =
        (if vp v = vp va then Some (PA2PTE b OR perm OR PTE_V) else lookup (mem s) root v)"
  | (fail) s' s'' ys where "mappages root va PGSIZE b perm (fresh s b pg) = Done (-1) s'"
      "kfree b s' = Done () s''" "as_step s (b # xs) root s'' ys"
      "leaves (mem s'') root = leaves (mem s) root" "keep (mem s) (mem s'') root"
      "\<And>v. v < MAXVA \<Longrightarrow> lookup (mem s'') root v = lookup (mem s) root v"
proof -
  let ?s1 = "fresh s b pg"
  note f = fresh_inv(1-3) [OF full, where pg = pg] fresh_inv(4-7) [OF full] fresh_inv(8,9) [OF full, where pg = pg]
  note i1 = as_fullD [OF f(1)]
  have tf: "va < TRAPFRAME" "va < MAXVA" using va(2) by (simp_all only: vp_TRAPFRAME vp_user)
  have n1: "lookup (mem ?s1) root va = None" using none f(2) by simp
  have lv1: "leaves (mem ?s1) root = leaves (mem s) root" by (simp only: leaves_def f(2))
  have mp1: "mapped (mem ?s1) root = mapped (mem s) root" by (simp only: mapped_def f(2))
  have "b \<notin> nodes (mem ?s1) root" using f(3,4) by (auto simp: owned_def)
  then have "map_ok ?s1 xs root va b perm"
    using f(5,6,7) tf perm page_ok_bounds [OF f(7)]
    by (simp add: map_ok_def same_rest_page_ok [OF f(9)] mp1 del: mod_0_imp_dvd)
  then obtain r s2 ys where run: "mappages root va PGSIZE b perm ?s1 = Done r s2" "r = 0 \<or> r = -1"
    and inv2: "as_inv s2 ys root" and w: "walk_rel ?s1 xs root s2 ys"
    and lk: "\<And>v. v < MAXVA \<Longrightarrow> lookup (mem s2) root v =
       (if r = 0 \<and> vpn v = vpn va then Some (PA2PTE b OR perm OR PTE_V) else lookup (mem ?s1) root v)"
    and lv: "leaves (mem s2) root = (if r = 0 \<and> va < TRAPFRAME then insert b (leaves (mem ?s1) root)
       else leaves (mem ?s1) root)"
    by (rule mappages_as [OF i1 va(1) n1]) (rule that)
  obtain zs where zs: "xs = zs @ ys" "nodes (mem s2) root = nodes (mem ?s1) root \<union> set zs"
    using w unfolding walk_rel_def by blast
  have rest: "same_rest s s2" using w f(9) by (metis walk_rel_def same_rest_trans)
  have b2: "b \<notin> set xs \<union> nodes (mem ?s1) root" using f(5) \<open>b \<notin> nodes (mem ?s1) root\<close> by simp
  then have mb: "mem s2 b = pg" using w by (simp add: walk_rel_def fresh_def)
  have frm: "mem s2 a = mem s a" if "a \<notin> set (b # xs) \<union> owned (mem s) root" for a
  proof -
    have "a \<notin> set xs \<union> nodes (mem ?s1) root" using that f(3) by (auto simp: owned_def)
    then have "mem s2 a = mem ?s1 a" using w by (simp add: walk_rel_def)
    then show ?thesis using that by (simp add: fresh_def)
  qed
  have own1: "nodes (mem ?s1) root \<union> leaves (mem s) root = owned (mem s) root"
    using f(3) lv1 by (simp add: owned_def)
  have kp: "mem s2 a = mem s a" if "a \<in> leaves (mem s) root" for a
  proof -
    have "a \<notin> set xs \<union> nodes (mem ?s1) root" "a \<noteq> b"
      using i1 that f(4) lv1 by (auto simp: as_inv_def owned_def)
    then show ?thesis using w by (simp add: walk_rel_def fresh_def)
  qed
  show thesis
  proof (cases "r = 0")
    case True
    then have lv': "leaves (mem s2) root = insert b (leaves (mem s) root)" using lv lv1 tf by simp
    have "set ys \<union> owned (mem s2) root = set (b # xs) \<union> owned (mem s) root"
      unfolding owned_def [of "mem s2"] zs(2) lv' own1 [symmetric] zs(1) by auto
    then have "as_step s (b # xs) root s2 ys"
      unfolding as_step_def using inv2 rest frm by blast
    then show thesis
      using ok [of s2 ys] run True mb lv' lk f(2) kp by (simp add: vpn_vp keep_def subset_insertI)
  next
    case False
    then have r: "r = -1" using run(2) by simp
    have lv': "leaves (mem s2) root = leaves (mem s) root" using lv lv1 False by simp
    have lk2: "lookup (mem s2) root v = lookup (mem s) root v" if "v < MAXVA" for v
      using lk [OF that] False f(2) by simp
    have own2: "owned (mem s2) root = owned (mem s) root \<union> set zs"
      unfolding owned_def [of "mem s2"] zs(2) lv' own1 [symmetric] by auto
    have bf: "page_ok s2 b" "b \<notin> set ys" "b \<notin> owned (mem s2) root"
      using f(4,5,7) zs(1) own2 by (auto simp: same_rest_page_ok [OF rest])
    obtain s3 where s3: "kfree b s2 = Done () s3" "kmem_inv s3 (b # ys)"
      "s3 = s2\<lparr>mem := (mem s2)(b := st64 (\<lambda>_. 1) 0 (freelist s2)), freelist := b\<rparr>"
      using kfree_Done [OF _ bf(1,2)] inv2 by (auto simp: as_inv_def)
    have m3: "mem s3 a = mem s2 a" if "a \<in> nodes (mem s2) root" for a
      using that bf(3) by (auto simp: s3(3) owned_def)
    note fr = lookup_frame [of "mem s2" root "mem s3", OF m3] nodes_frame [of "mem s2" root "mem s3", OF m3]
      leaves_frame [of "mem s2" root "mem s3", OF m3] owned_frame [of "mem s2" root "mem s3", OF m3]
      pt_tree_frame [of "mem s2" root "mem s3", OF m3]
    have rest3: "same_rest s2 s3" unfolding same_rest_def using s3(3) by blast
    have "as_inv s3 (b # ys) root"
      using inv2 s3(2) bf(3) by (simp add: as_inv_def leaf_inj_def fr same_rest_page_ok [OF rest3]) blast
    moreover have "mem s3 a = mem s a" if "a \<notin> set (b # xs) \<union> owned (mem s) root" for a
      using frm [OF that] that by (simp add: s3(3))
    moreover have "set (b # ys) \<union> owned (mem s3) root = set (b # xs) \<union> owned (mem s) root"
      by (auto simp: fr own2 zs(1))
    moreover have "keep (mem s) (mem s3) root"
      using kp f(4) by (auto simp: keep_def s3(3) owned_def)
    moreover have "leaves (mem s3) root = leaves (mem s) root" using lv' by (simp add: fr)
    ultimately have "as_step s (b # xs) root s3 (b # ys)" "keep (mem s) (mem s3) root"
      "leaves (mem s3) root = leaves (mem s) root"
      unfolding as_step_def using same_rest_trans [OF rest rest3] by blast+
    then show thesis using fail [of s2 s3 "b # ys"] run(1) r s3(1) lk2 fr by simp
  qed
qed

section \<open>uvmalloc\<close>

text \<open>\<open>zero_page m root v perm\<close>: \<open>v\<close> is mapped with \<open>perm\<close> to a page of zeroes.\<close>

definition zero_page :: "(u64 \<Rightarrow> page) \<Rightarrow> u64 \<Rightarrow> u64 \<Rightarrow> u64 \<Rightarrow> bool" where
  "zero_page m root v perm \<longleftrightarrow> (\<exists>b. lookup m root v = Some (PA2PTE b OR perm OR PTE_V) \<and>
     PTE2PA (PA2PTE b OR perm OR PTE_V) = b \<and> b \<in> leaves m root \<and> m b = (\<lambda>_. 0))"

lemma zero_page_keep:
  assumes "zero_page m root v perm" "lookup m' root v = lookup m root v" "keep m m' root"
    "leaves m root \<subseteq> leaves m' root"
  shows "zero_page m' root v perm"
proof -
  obtain b where b: "lookup m root v = Some (PA2PTE b OR perm OR PTE_V)"
    "PTE2PA (PA2PTE b OR perm OR PTE_V) = b" "b \<in> leaves m root" "m b = (\<lambda>_. 0)"
    using assms(1) by (auto simp only: zero_page_def)
  have "b \<in> leaves m' root" using b(3) assms(4) by blast
  moreover have "m' b = (\<lambda>_. 0)" using b(3,4) assms(3) calculation by (simp add: keep_def)
  ultimately show ?thesis using b assms(2) unfolding zero_page_def by metis
qed

lemma lookup_above:
  assumes "\<And>v. v < MAXVA \<Longrightarrow> lookup m' root v = (if P (vp v) then f v else lookup m root v)"
    and "\<And>k. P k \<Longrightarrow> k < TFP"
  shows "TRAPFRAME \<le> v \<Longrightarrow> v < MAXVA \<Longrightarrow> lookup m' root v = lookup m root v"
  using assms(1) [of v] assms(2) [of "vp v"] vp_TRAPFRAME [of v] by auto

lemma perm_bits: "xperm AND 0x3FF = xperm \<Longrightarrow> (PTE_R OR PTE_U OR xperm) AND 0x3FF = (PTE_R OR PTE_U OR (xperm :: u64))"
  by (simp add: bit.conj_disj_distrib2)

definition unmapped :: "nat \<Rightarrow> nat \<Rightarrow> (u64 \<Rightarrow> page) \<Rightarrow> u64 \<Rightarrow> bool" where
  "unmapped a n m root \<longleftrightarrow>
     (\<forall>v. v < MAXVA \<longrightarrow> a \<le> vp v \<longrightarrow> vp v < a + n \<longrightarrow> lookup m root v = None)"

text \<open>The failure exit of the loop of \<^verbatim>\<open>uvmalloc\<close>: everything from \<open>oldsz\<close> on is unmapped again.\<close>

lemma uvmalloc_undo:
  assumes inv: "as_inv s xs root" and a: "a mod 4096 = 0" "vp a \<le> TFP" and old: "oldsz mod 4096 = 0" "vp oldsz \<le> vp a"
    and none: "unmapped (vp a) n (mem s) root"
  obtains s' ys where "obind (uvmdealloc root a oldsz s) (\<lambda>_ s. Done 0 s) = Done (0 :: u64) s'"
    "as_step s xs root s' ys" "keep (mem s) (mem s') root" "leaves (mem s') root \<subseteq> leaves (mem s) root"
    "\<And>v. v < MAXVA \<Longrightarrow> lookup (mem s') root v =
       (if vp oldsz \<le> vp v \<and> vp v < vp a + n then None else lookup (mem s) root v)"
proof -
  have ua: "unat a = vp a * 4096" and uo: "unat oldsz = vp oldsz * 4096"
    using a(1) old(1) by (simp_all only: vp_aligned)
  have at: "a \<le> TRAPFRAME" using ua a(2) by (simp add: word_le_nat_alt)
  have up: "up a = vp a" "up oldsz = vp oldsz" by (simp_all add: up_def ua uo)
  obtain s' ys where s': "uvmdealloc root a oldsz s = Done (min a oldsz) s'" "as_step s xs root s' ys"
    "nodes (mem s') root = nodes (mem s) root"
    "keep (mem s) (mem s') root" "leaves (mem s') root \<subseteq> leaves (mem s) root"
    "\<And>v. v < MAXVA \<Longrightarrow> lookup (mem s') root v =
       (if oldsz < a \<and> up oldsz \<le> vp v \<and> vp v < up a then None else lookup (mem s) root v)"
    by (rule uvmdealloc_spec [OF inv at]) (rule that)
  have lt: "oldsz < a \<longleftrightarrow> vp oldsz < vp a" by (simp add: word_less_nat_alt ua uo)
  have "lookup (mem s') root v = (if vp oldsz \<le> vp v \<and> vp v < vp a + n then None else lookup (mem s) root v)"
    if "v < MAXVA" for v
    using s'(6) [OF that] none that old(2) by (auto simp: up lt unmapped_def)
  then show thesis using that [of s' ys] s'(1,2,4,5) by simp
qed

definition allocated :: "nat \<Rightarrow> nat \<Rightarrow> u64 \<Rightarrow> (u64 \<Rightarrow> page) \<Rightarrow> (u64 \<Rightarrow> page) \<Rightarrow> u64 \<Rightarrow> bool" where
  "allocated a n perm m m' root \<longleftrightarrow> leaves m root \<subseteq> leaves m' root \<and> (\<forall>v < MAXVA.
     if a \<le> vp v \<and> vp v < a + n then zero_page m' root v perm else lookup m' root v = lookup m root v)"

lemma allocated_Suc:
  assumes step: "\<And>v. v < MAXVA \<Longrightarrow> lookup m1 root v = (if vp v = a then Some (PA2PTE b OR perm OR PTE_V) else lookup m root v)"
    and b: "PTE2PA (PA2PTE b OR perm OR PTE_V) = b" "b \<in> leaves m1 root" "m1 b = (\<lambda>_. 0)"
    and lv: "leaves m root \<subseteq> leaves m1 root" and kp: "keep m1 m' root"
    and rest: "allocated (Suc a) n perm m1 m' root"
  shows "allocated a (Suc n) perm m m' root"
proof -
  have lv': "leaves m1 root \<subseteq> leaves m' root" using rest by (simp add: allocated_def)
  have "if a \<le> vp v \<and> vp v < a + Suc n then zero_page m' root v perm else lookup m' root v = lookup m root v"
    if v: "v < MAXVA" for v
  proof (cases "vp v = a")
    case True
    have "zero_page m1 root v perm" unfolding zero_page_def using step [OF v] True b by auto
    moreover have "lookup m' root v = lookup m1 root v" using rest v True by (simp add: allocated_def)
    ultimately show ?thesis using True zero_page_keep [OF _ _ kp lv'] by simp
  next
    case False
    then have "a \<le> vp v \<and> vp v < a + Suc n \<longleftrightarrow> Suc a \<le> vp v \<and> vp v < Suc a + n" by auto
    then show ?thesis using rest v step [OF v] False by (simp add: allocated_def)
  qed
  then show ?thesis using lv lv' unfolding allocated_def by blast
qed

lemma uvmalloc_loop_spec:
  assumes "as_full s xs root" "a mod 4096 = 0" "vp a + n \<le> TFP" "oldsz mod 4096 = 0" "vp oldsz \<le> vp a"
    "xperm AND 0x3FF = xperm"
    "unmapped (vp a) n (mem s) root"
  shows "\<exists>r s' ys. uvmalloc_loop n root a oldsz newsz xperm s = Done r s' \<and> as_step s xs root s' ys \<and>
    keep (mem s) (mem s') root \<and>
    (r = newsz \<and> allocated (vp a) n (PTE_R OR PTE_U OR xperm) (mem s) (mem s') root \<or>
     r = 0 \<and> (\<forall>v < MAXVA. lookup (mem s') root v =
       (if vp oldsz \<le> vp v \<and> vp v < vp a + n then None else lookup (mem s) root v)))"
  using assms
proof (induction n arbitrary: s xs a)
  case 0
  have "\<not> (vp a \<le> k \<and> k < vp a + 0)" for k by simp
  then have "allocated (vp a) 0 (PTE_R OR PTE_U OR xperm) (mem s) (mem s) root"
    by (simp only: allocated_def if_False simp_thms subset_refl)
  then show ?case using as_step_refl [OF as_fullD [OF 0(1)]]
    by (intro exI [of _ newsz] exI [of _ s] exI [of _ xs]) simp
next
  case (Suc n)
  let ?perm = "PTE_R OR PTE_U OR xperm"
  let ?undo = "\<lambda>s. obind (uvmdealloc root a oldsz s) (\<lambda>_ s. Done (0 :: u64) s)"
  have a: "vp a < TFP" using Suc.prems(3) by simp
  note st = vp_step [OF Suc.prems(2) a]
  note perm = perm_bits [OF Suc.prems(6)]
  have anone: "lookup (mem s) root a = None" using Suc.prems(7) a by (simp add: vp_user unmapped_def)
  have undo: ?case if eq: "uvmalloc_loop (Suc n) root a oldsz newsz xperm s = ?undo t"
    and t: "as_step s xs root t ys" "keep (mem s) (mem t) root" "leaves (mem t) root = leaves (mem s) root"
      "\<And>v. v < MAXVA \<Longrightarrow> lookup (mem t) root v = lookup (mem s) root v" for t ys
  proof -
    have ti: "as_inv t ys root" using t(1) by (simp add: as_step_def)
    have tn: "unmapped (vp a) (Suc n) (mem t) root"
      using Suc.prems(7) t(4) by (simp add: unmapped_def)
    obtain s' zs where s': "?undo t = Done 0 s'" "as_step t ys root s' zs" "keep (mem t) (mem s') root"
      "leaves (mem s') root \<subseteq> leaves (mem t) root"
      "\<And>v. v < MAXVA \<Longrightarrow> lookup (mem s') root v =
         (if vp oldsz \<le> vp v \<and> vp v < vp a + Suc n then None else lookup (mem t) root v)"
      by (rule uvmalloc_undo [OF ti Suc.prems(2) less_imp_le [OF a] Suc.prems(4,5) tn]) (rule that)
    have "keep (mem s) (mem s') root" by (rule keep_trans [OF t(2) s'(3)]) (use t(3) in blast)
    moreover have "\<forall>v < MAXVA. lookup (mem s') root v =
       (if vp oldsz \<le> vp v \<and> vp v < vp a + Suc n then None else lookup (mem s) root v)"
      using s'(5) t(4) by simp
    ultimately show ?thesis using eq s'(1) as_step_trans [OF t(1) s'(2)] by simp blast
  qed
  show ?case
  proof (cases xs)
    case Nil
    then have "kalloc s = (0, s)" using Suc.prems(1) by (simp add: as_full_def as_inv_def kalloc_empty)
    then have "uvmalloc_loop (Suc n) root a oldsz newsz xperm s = ?undo s" by simp
    then show ?thesis using as_step_refl [OF as_fullD [OF Suc.prems(1)]] by (rule undo) simp_all
  next
    case (Cons b zs)
    then have full: "as_full s (b # zs) root" using Suc.prems(1) by simp
    then have kinv: "kmem_inv s (b # zs)" by (simp add: as_full_def as_inv_def)
    note kf = kalloc_fresh [OF kinv]
    have unf: "uvmalloc_loop (Suc n) root a oldsz newsz xperm s =
      obind (mappages root a PGSIZE b ?perm (fresh s b (\<lambda>_. 0))) (\<lambda>r s.
        if r \<noteq> 0 then obind (kfree b s) (\<lambda>_ s. ?undo s)
        else uvmalloc_loop n root (a + PGSIZE) oldsz newsz xperm s)"
      by (simp add: kf del: uvmdealloc_def)
    show ?thesis
    proof (rule map_fresh [OF full Suc.prems(2) a anone perm, where pg = "\<lambda>_. 0"], goal_cases)
      case (2 s1 s2 ys)
      have "uvmalloc_loop (Suc n) root a oldsz newsz xperm s = ?undo s2" using unf 2(1,2) by simp
      then show ?case by (rule undo [OF _ _ 2(5,4,6)]) (use 2(3) Cons in simp)
    next
      case (1 s1 ys)
      have pte: "PTE2PA (PA2PTE b OR ?perm OR PTE_V) = b"
        by (rule PTE_bits(1) [OF _ _ perm]) (use page_ok_bounds [OF fresh_inv(7) [OF full]] in simp_all)
      have full1: "as_full s1 ys root"
        by (rule as_full_step [OF full 1(2)]) (rule lookup_above [OF 1(7)], use a in simp_all)
      have none1: "unmapped (vp (a + PGSIZE)) n (mem s1) root"
        using 1(7) Suc.prems(7) by (simp add: st unmapped_def)
      have "vp (a + PGSIZE) + n \<le> TFP" "vp oldsz \<le> vp (a + PGSIZE)" using Suc.prems(3,5) by (simp_all add: st)
      from Suc.IH [OF full1 st(2) this(1) Suc.prems(4) this(2) Suc.prems(6) none1]
      obtain r s' us where s': "uvmalloc_loop n root (a + PGSIZE) oldsz newsz xperm s1 = Done r s'"
        "as_step s1 ys root s' us" "keep (mem s1) (mem s') root"
        "r = newsz \<and> allocated (vp (a + PGSIZE)) n ?perm (mem s1) (mem s') root \<or>
         r = 0 \<and> (\<forall>v < MAXVA. lookup (mem s') root v =
           (if vp oldsz \<le> vp v \<and> vp v < vp (a + PGSIZE) + n then None else lookup (mem s1) root v))"
        by (elim exE conjE)
      have run: "uvmalloc_loop (Suc n) root a oldsz newsz xperm s = Done r s'" using unf 1(1) s'(1) by simp
      have tr: "as_step s xs root s' us" using as_step_trans [OF 1(2) s'(2)] Cons by simp
      have kp: "keep (mem s) (mem s') root" by (rule keep_trans [OF 1(6) s'(3)]) (use 1(5) in blast)
      from s'(4) show ?case
      proof
        assume r: "r = newsz \<and> allocated (vp (a + PGSIZE)) n ?perm (mem s1) (mem s') root"
        then have "allocated (vp a) (Suc n) ?perm (mem s) (mem s') root"
          using allocated_Suc [OF 1(7) pte 1(4,3,5) s'(3)] by (simp add: st)
        then show ?thesis using run tr kp r by blast
      next
        assume r: "r = 0 \<and> (\<forall>v < MAXVA. lookup (mem s') root v =
           (if vp oldsz \<le> vp v \<and> vp v < vp (a + PGSIZE) + n then None else lookup (mem s1) root v))"
        have "lookup (mem s') root v =
          (if vp oldsz \<le> vp v \<and> vp v < vp a + Suc n then None else lookup (mem s) root v)" if v: "v < MAXVA" for v
          using r v 1(7) [OF v] Suc.prems(5) by (simp add: st)
        then show ?thesis using run tr kp r by blast
      qed
    qed
  qed
qed

end
