(* ===== verification/Ucopy.thy ===== *)
theory Ucopy
  imports Ualloc
begin

text \<open>
  Copying an address space for fork (\<^verbatim>\<open>uvmcopy\<close>) and the properties of the user-memory
  operations: what \<^verbatim>\<open>mappages\<close>, \<^verbatim>\<open>uvmalloc\<close>, \<^verbatim>\<open>uvmdealloc\<close> and \<^verbatim>\<open>uvmcopy\<close> do to the address space
  they work on, and that they leave every other address space alone.
\<close>

section \<open>uvmcopy\<close>

lemma uvmcopy_skip:
  assumes "i < MAXVA" "lookup (mem s) old i = None"
  shows "uvmcopy_loop (Suc n) old new i s = uvmcopy_loop n old new (i + PGSIZE) s"
  using assms(2) by (cases "node (mem s) old [PX 2 i, PX 1 i]")
    (auto simp: walk_lookup [OF assms(1)] lookup_def pte_get_mem Let_def simp del: node.simps split: if_splits)

lemma uvmcopy_page:
  assumes "i < MAXVA" "lookup (mem s) old i = Some e"
  shows "uvmcopy_loop (Suc n) old new i s =
    (case kalloc s of (m, s1) \<Rightarrow>
       if m = 0 then obind (uvmunmap new 0 (i div PGSIZE) True s1) (\<lambda>_ s. Done (-1) s)
       else obind (mappages new i PGSIZE m (PTE_FLAGS e) (s1\<lparr>mem := (mem s1)(m := mem s1 (PTE2PA e))\<rparr>)) (\<lambda>r s.
         if r \<noteq> 0 then obind (kfree m s) (\<lambda>_ s. obind (uvmunmap new 0 (i div PGSIZE) True s) (\<lambda>_ s. Done (-1) s))
         else uvmcopy_loop n old new (i + PGSIZE) s))"
proof -
  obtain q where "node (mem s) old [PX 2 i, PX 1 i] = Some q" "ld64 (mem s q) (PX 0 i) = e" "e AND PTE_V \<noteq> 0"
    using assms(2) by (rule lookup_SomeE)
  then show ?thesis by (simp add: walk_lookup [OF assms(1)] pte_get_mem Let_def del: node.simps)
qed

text \<open>\<open>copied\<close>: page \<open>v\<close> of the copy has the flags and the contents of page \<open>v\<close> of the original.\<close>

definition copied :: "(u64 \<Rightarrow> page) \<Rightarrow> u64 \<Rightarrow> (u64 \<Rightarrow> page) \<Rightarrow> u64 \<Rightarrow> u64 \<Rightarrow> bool" where
  "copied m old m' new v = (case lookup m old v of
     None \<Rightarrow> lookup m' new v = None
   | Some e \<Rightarrow> \<exists>b. lookup m' new v = Some (PA2PTE b OR PTE_FLAGS e OR PTE_V) \<and>
       PTE2PA (PA2PTE b OR PTE_FLAGS e OR PTE_V) = b \<and> b \<in> leaves m' new \<and> m' b = m (PTE2PA e))"

lemma copied_keep:
  assumes "copied m old m1 new v" "lookup m2 new v = lookup m1 new v" "keep m1 m2 new"
    "leaves m1 new \<subseteq> leaves m2 new"
  shows "copied m old m2 new v"
proof (cases "lookup m old v")
  case None
  then show ?thesis using assms(1,2) by (simp add: copied_def)
next
  case (Some e)
  then obtain b where b: "lookup m1 new v = Some (PA2PTE b OR PTE_FLAGS e OR PTE_V)"
    "PTE2PA (PA2PTE b OR PTE_FLAGS e OR PTE_V) = b" "b \<in> leaves m1 new" "m1 b = m (PTE2PA e)"
    using assms(1) by (auto simp only: copied_def option.case)
  have "b \<in> leaves m2 new" using b(3) assms(4) by blast
  moreover have "m2 b = m1 b" using b(3) calculation assms(3) by (simp add: keep_def)
  ultimately show ?thesis
    unfolding copied_def Some option.case using b assms(2) by (intro exI [of _ b]) simp
qed

text \<open>Two complete address spaces that share no page.\<close>

definition as_pair :: "'a kmem_state_scheme \<Rightarrow> u64 list \<Rightarrow> u64 \<Rightarrow> u64 \<Rightarrow> bool" where
  "as_pair s xs old new \<longleftrightarrow> as_full s xs old \<and> as_full s xs new \<and>
     owned (mem s) old \<inter> owned (mem s) new = {} \<and> sysp (mem s) old \<inter> owned (mem s) new = {}"

lemma as_pair_step:
  assumes pair: "as_pair s xs old new" and step: "as_step s xs new s' ys"
    and above: "\<forall>v. TRAPFRAME \<le> v \<longrightarrow> v < MAXVA \<longrightarrow> lookup (mem s') new v = lookup (mem s) new v"
  shows "as_pair s' ys old new" and "lookup (mem s') old v = lookup (mem s) old v"
    and "owned (mem s') old = owned (mem s) old"
    and "a \<in> owned (mem s) old \<Longrightarrow> mem s' a = mem s a"
proof -
  have p: "as_full s xs old" "as_full s xs new" "owned (mem s) old \<inter> owned (mem s) new = {}"
    "sysp (mem s) old \<inter> owned (mem s) new = {}"
    using pair by (simp_all add: as_pair_def)
  note o = as_step_other [OF step as_fullD [OF p(1)] p(3)]
  show lk: "lookup (mem s') old v = lookup (mem s) old v" for v by (rule o)
  show ow: "owned (mem s') old = owned (mem s) old" by (rule o)
  show "a \<in> owned (mem s) old \<Longrightarrow> mem s' a = mem s a" by (rule o)
  have sy: "sysp (mem s') old = sysp (mem s) old" by (simp only: sysp_def lk)
  have tot: "set ys \<union> owned (mem s') new = set xs \<union> owned (mem s) new"
    using step by (simp add: as_step_def)
  have xs: "owned (mem s) old \<inter> set xs = {}" "sysp (mem s) old \<inter> set xs = {}"
    "sysp (mem s) old \<inter> owned (mem s) old = {}"
    using p(1) by (auto simp: as_full_def as_inv_def)
  have "owned (mem s) old \<inter> (set ys \<union> owned (mem s') new) = {}"
    "sysp (mem s) old \<inter> (set ys \<union> owned (mem s') new) = {}"
    unfolding tot using xs p(3,4) by blast+
  then show "as_pair s' ys old new"
    using o(1) as_full_step [OF p(2) step above [rule_format]] xs(3) unfolding as_pair_def as_full_def ow sy by blast
qed

definition copy_range :: "nat \<Rightarrow> nat \<Rightarrow> (u64 \<Rightarrow> page) \<Rightarrow> u64 \<Rightarrow> (u64 \<Rightarrow> page) \<Rightarrow> u64 \<Rightarrow> bool" where
  "copy_range i n m old m' new \<longleftrightarrow> leaves m new \<subseteq> leaves m' new \<and> (\<forall>v < MAXVA.
     if i \<le> vp v \<and> vp v < i + n then copied m old m' new v else lookup m' new v = lookup m new v)"

text \<open>The failure exit: the child's pages below \<open>i\<close> are unmapped and freed.\<close>

lemma uvmcopy_undo:
  assumes inv: "as_inv s xs new" and i: "i mod 4096 = 0" "vp i + n \<le> TFP"
    and none: "unmapped (vp i) n (mem s) new"
  obtains s' ys where "obind (uvmunmap new 0 (i div PGSIZE) True s) (\<lambda>_ s. Done (-1) s) = Done (-1 :: int) s'"
    "as_step s xs new s' ys"
    "\<And>v. v < MAXVA \<Longrightarrow> lookup (mem s') new v = (if vp v < vp i + n then None else lookup (mem s) new v)"
proof -
  have ui: "unat (i div PGSIZE) = vp i" by (simp add: vp_def unat_div_distrib)
  have z: "vp 0 = 0" by (simp add: vp_def)
  have "vp 0 + unat (i div PGSIZE) \<le> TFP" using i by (simp add: ui z)
  then obtain s' ys where s': "uvmunmap new 0 (i div PGSIZE) True s = Done () s'" "as_step s xs new s' ys"
    "nodes (mem s') new = nodes (mem s) new" "keep (mem s) (mem s') new" "leaves (mem s') new \<subseteq> leaves (mem s) new"
    "\<And>v. v < MAXVA \<Longrightarrow> lookup (mem s') new v =
       (if vp 0 \<le> vp v \<and> vp v < vp 0 + unat (i div PGSIZE) then None else lookup (mem s) new v)"
    by (rule uvmunmap_spec [OF inv mod_0]) (rule that)
  have "lookup (mem s') new v = (if vp v < vp i + n then None else lookup (mem s) new v)" if v: "v < MAXVA" for v
    using s'(6) [OF v] none v by (auto simp: ui z unmapped_def)
  then show thesis using that [of s' ys] s'(1,2) by simp
qed

lemma PTE_FLAGS_bits: "PTE_FLAGS e AND 0x3FF = PTE_FLAGS e"
  by (simp add: PTE_FLAGS_def and.assoc)

lemma copy_range_page:
  assumes step: "\<And>v. v < MAXVA \<Longrightarrow> lookup m1 new v = (if vp v = i then f else lookup m new v)"
    and v0: "v0 < MAXVA" "vp v0 = i" and page: "copied m old m1 new v0"
    and lv: "leaves m new \<subseteq> leaves m1 new" and kp: "keep m1 m' new"
    and same: "\<And>v. lookup m1 old v = lookup m old v" "\<And>v e. v < TRAPFRAME \<Longrightarrow> lookup m old v = Some e \<Longrightarrow> m1 (PTE2PA e) = m (PTE2PA e)"
    and top: "i + Suc n \<le> TFP"
    and rest: "copy_range (Suc i) n m1 old m' new"
  shows "copy_range i (Suc n) m old m' new"
proof -
  have lv': "leaves m1 new \<subseteq> leaves m' new" using rest by (simp add: copy_range_def)
  have "if i \<le> vp v \<and> vp v < i + Suc n then copied m old m' new v else lookup m' new v = lookup m new v"
    if v: "v < MAXVA" for v
  proof (cases "vp v = i")
    case True
    then have eq: "lookup x r v = lookup x r v0" for x r
      using lookup_vpn [of v v0 x r] v0(2) by (simp add: vpn_vp)
    have "copied m old m1 new v" using page by (simp only: copied_def eq)
    moreover have "lookup m' new v = lookup m1 new v" using rest v True by (simp add: copy_range_def)
    ultimately show ?thesis using True copied_keep [OF _ _ kp lv'] by simp
  next
    case False
    then have iff: "i \<le> vp v \<and> vp v < i + Suc n \<longleftrightarrow> Suc i \<le> vp v \<and> vp v < Suc i + n" by auto
    show ?thesis
    proof (cases "Suc i \<le> vp v \<and> vp v < Suc i + n")
      case True
      then have c: "copied m1 old m' new v" using rest v by (simp add: copy_range_def)
      have tf: "v < TRAPFRAME" unfolding vp_TRAPFRAME using True top by simp
      have "copied m old m' new v" using c same(1) [of v] same(2) [OF tf]
        by (cases "lookup m old v") (simp_all add: copied_def)
      then show ?thesis using True iff by simp
    next
      case no: False
      then have "lookup m' new v = lookup m1 new v" using rest v by (simp add: copy_range_def)
      then show ?thesis using step [OF v] False unfolding iff if_not_P [OF no] by simp
    qed
  qed
  then show ?thesis using lv lv' unfolding copy_range_def by blast
qed

lemma uvmcopy_loop_spec:
  assumes "as_pair s xs old new" "i mod 4096 = 0" "vp i + n \<le> TFP" "unmapped (vp i) n (mem s) new"
  shows "\<exists>r s' ys. uvmcopy_loop n old new i s = Done r s' \<and> as_step s xs new s' ys \<and>
    (r = 0 \<and> copy_range (vp i) n (mem s) old (mem s') new \<and> keep (mem s) (mem s') new \<or>
     r = -1 \<and> (\<forall>v < MAXVA. lookup (mem s') new v = (if vp v < vp i + n then None else lookup (mem s) new v)))"
  using assms
proof (induction n arbitrary: s xs i)
  case 0
  have "\<not> (vp i \<le> k \<and> k < vp i + 0)" for k by simp
  then have "copy_range (vp i) 0 (mem s) old (mem s) new"
    by (simp only: copy_range_def if_False simp_thms subset_refl)
  moreover have "as_step s xs new s xs" using 0(1) by (simp add: as_pair_def as_full_def as_step_refl)
  ultimately show ?case by (intro exI [of _ 0] exI [of _ s] exI [of _ xs]) simp
next
  case (Suc n)
  let ?undo = "\<lambda>s. obind (uvmunmap new 0 (i div PGSIZE) True s) (\<lambda>_ s. Done (-1 :: int) s)"
  have i: "vp i < TFP" using Suc.prems(3) by simp
  then have mx: "i < MAXVA" by (rule vp_user)
  note st = vp_step [OF Suc.prems(2) i]
  have fnew: "as_full s xs new" and fold: "as_full s xs old" using Suc.prems(1) by (simp_all add: as_pair_def)
  have top: "vp (i + PGSIZE) + n \<le> TFP" using Suc.prems(3) by (simp add: st)
  have undo: ?case if eq: "uvmcopy_loop (Suc n) old new i s = ?undo t"
    and t: "as_step s xs new t ys" "\<And>v. v < MAXVA \<Longrightarrow> lookup (mem t) new v = lookup (mem s) new v" for t ys
  proof -
    have ti: "as_inv t ys new" using t(1) by (simp add: as_step_def)
    have tn: "unmapped (vp i) (Suc n) (mem t) new" using Suc.prems(4) t(2) by (simp add: unmapped_def)
    obtain s' zs where s': "?undo t = Done (-1) s'" "as_step t ys new s' zs"
      "\<And>v. v < MAXVA \<Longrightarrow> lookup (mem s') new v = (if vp v < vp i + Suc n then None else lookup (mem t) new v)"
      by (rule uvmcopy_undo [OF ti Suc.prems(2,3) tn]) (rule that)
    then show ?thesis using eq as_step_trans [OF t(1) s'(2)] t(2)
      by (intro exI [of _ "-1"] exI [of _ s'] exI [of _ zs]) simp
  qed
  show ?case
  proof (cases "lookup (mem s) old i")
    case None
    have eq: "uvmcopy_loop (Suc n) old new i s = uvmcopy_loop n old new (i + PGSIZE) s"
      by (rule uvmcopy_skip [OF mx None])
    have "unmapped (vp (i + PGSIZE)) n (mem s) new" using Suc.prems(4) by (simp add: unmapped_def st)
    from Suc.IH [OF Suc.prems(1) st(2) top this]
    obtain r s' ys where s': "uvmcopy_loop n old new (i + PGSIZE) s = Done r s'" "as_step s xs new s' ys"
      "r = 0 \<and> copy_range (vp (i + PGSIZE)) n (mem s) old (mem s') new \<and> keep (mem s) (mem s') new \<or>
       r = -1 \<and> (\<forall>v < MAXVA. lookup (mem s') new v = (if vp v < vp (i + PGSIZE) + n then None else lookup (mem s) new v))"
      by (elim exE conjE)
    have new: "lookup (mem s) new i = None" using Suc.prems(4) mx by (simp add: unmapped_def)
    have "lookup (mem s) new v = (if vp v = vp i then None else lookup (mem s) new v)" for v
      using lookup_vpn [of v i "mem s" new] new by (auto simp: vpn_vp)
    then have "copy_range (vp i) (Suc n) (mem s) old (mem s') new"
      if "copy_range (vp (i + PGSIZE)) n (mem s) old (mem s') new" "keep (mem s) (mem s') new"
      by (rule copy_range_page [OF _ mx refl _ subset_refl that(2) refl refl Suc.prems(3)])
        (use that(1) None new in \<open>simp_all add: copied_def st\<close>)
    moreover have sum: "vp (i + PGSIZE) + n = vp i + Suc n" by (simp add: st)
    ultimately have "r = 0 \<and> copy_range (vp i) (Suc n) (mem s) old (mem s') new \<and> keep (mem s) (mem s') new \<or>
       r = -1 \<and> (\<forall>v < MAXVA. lookup (mem s') new v = (if vp v < vp i + Suc n then None else lookup (mem s) new v))"
      using s'(3) unfolding sum by blast
    moreover have "uvmcopy_loop (Suc n) old new i s = Done r s'" unfolding eq by (rule s'(1))
    ultimately show ?thesis using s'(2) by blast
  next
    case (Some e)
    note page = uvmcopy_page [OF mx Some, of n new]
    have new: "lookup (mem s) new i = None" using Suc.prems(4) mx by (simp add: unmapped_def)
    show ?thesis
    proof (cases xs)
      case Nil
      then have "kalloc s = (0, s)" using fnew by (simp add: as_full_def as_inv_def kalloc_empty)
      then have "uvmcopy_loop (Suc n) old new i s = ?undo s" using page by simp
      then show ?thesis using as_step_refl [OF as_fullD [OF fnew]] by (rule undo) simp
    next
      case (Cons b zs)
      have full: "as_full s (b # zs) new" using fnew Cons by simp
      then have kinv: "kmem_inv s (b # zs)" by (simp add: as_full_def as_inv_def)
      note kf = kalloc_fresh [OF kinv]
      have tf: "i < TRAPFRAME" unfolding vp_TRAPFRAME by (rule i)
      have "PTE2PA e \<noteq> b"
        using leavesI [OF tf Some] fold Cons by (auto simp: as_full_def as_inv_def owned_def)
      then have same: "mem (fresh s b (\<lambda>_. 5)) (PTE2PA e) = mem s (PTE2PA e)" by (simp add: fresh_def)
      let ?pg = "mem s (PTE2PA e)"
      have unf: "uvmcopy_loop (Suc n) old new i s =
        obind (mappages new i PGSIZE b (PTE_FLAGS e) (fresh s b ?pg)) (\<lambda>r s.
          if r \<noteq> 0 then obind (kfree b s) (\<lambda>_ s. ?undo s) else uvmcopy_loop n old new (i + PGSIZE) s)"
        using page by (simp add: kf same)
      show ?thesis
      proof (rule map_fresh [OF full Suc.prems(2) i new PTE_FLAGS_bits [of e], where pg = ?pg], goal_cases)
        case (2 s1 s2 ys)
        have "uvmcopy_loop (Suc n) old new i s = ?undo s2" using unf 2(1,2) by simp
        then show ?case by (rule undo [OF _ _ 2(6)]) (use 2(3) Cons in simp)
      next
        case (1 s1 ys)
        have pte: "PTE2PA (PA2PTE b OR PTE_FLAGS e OR PTE_V) = b"
          by (rule PTE_bits(1) [OF _ _ PTE_FLAGS_bits]) (use page_ok_bounds [OF fresh_inv(7) [OF full]] in simp_all)
        have ab: "\<forall>v. TRAPFRAME \<le> v \<longrightarrow> v < MAXVA \<longrightarrow> lookup (mem s1) new v = lookup (mem s) new v"
          by (intro allI impI, rule lookup_above [OF 1(7)]) (use i in simp_all)
        have step: "as_step s xs new s1 ys" using 1(2) Cons by simp
        note pr = as_pair_step [OF Suc.prems(1) step ab]
        have none1: "unmapped (vp (i + PGSIZE)) n (mem s1) new"
          using 1(7) Suc.prems(4) by (simp add: st unmapped_def)
        from Suc.IH [OF pr(1) st(2) top none1]
        obtain r s' us where s': "uvmcopy_loop n old new (i + PGSIZE) s1 = Done r s'" "as_step s1 ys new s' us"
          "r = 0 \<and> copy_range (vp (i + PGSIZE)) n (mem s1) old (mem s') new \<and> keep (mem s1) (mem s') new \<or>
           r = -1 \<and> (\<forall>v < MAXVA. lookup (mem s') new v = (if vp v < vp (i + PGSIZE) + n then None else lookup (mem s1) new v))"
          by (elim exE conjE)
        have run: "uvmcopy_loop (Suc n) old new i s = Done r s'" using unf 1(1) s'(1) by simp
        have tr: "as_step s xs new s' us" by (rule as_step_trans [OF step s'(2)])
        have cp: "copied (mem s) old (mem s1) new i"
          unfolding copied_def Some option.case using 1(3,4,7) mx pte by (intro exI [of _ b]) simp
        have ct: "mem s1 (PTE2PA f) = mem s (PTE2PA f)" if "v < TRAPFRAME" "lookup (mem s) old v = Some f" for v f
          by (rule pr(4)) (use leavesI [OF that] in \<open>simp add: owned_def\<close>)
        from s'(3) show ?case
        proof
          assume r: "r = 0 \<and> copy_range (vp (i + PGSIZE)) n (mem s1) old (mem s') new \<and> keep (mem s1) (mem s') new"
          then have cr: "copy_range (Suc (vp i)) n (mem s1) old (mem s') new" by (simp add: st)
          have "copy_range (vp i) (Suc n) (mem s) old (mem s') new"
            by (rule copy_range_page [OF _ mx refl cp 1(5) _ pr(2) _ Suc.prems(3) cr])
              (erule 1(7), use r in blast, erule (1) ct)
          moreover have "keep (mem s) (mem s') new" by (rule keep_trans [OF 1(6)]) (use r 1(5) in blast)+
          ultimately show ?thesis using run tr r by blast
        next
          assume r: "r = -1 \<and> (\<forall>v < MAXVA. lookup (mem s') new v =
            (if vp v < vp (i + PGSIZE) + n then None else lookup (mem s1) new v))"
          have "lookup (mem s') new v = (if vp v < vp i + Suc n then None else lookup (mem s) new v)"
            if v: "v < MAXVA" for v
            using r v 1(7) [OF v] by (simp add: st)
          then show ?thesis using run tr r by blast
        qed
      qed
    qed
  qed
qed

section \<open>Empty address spaces\<close>

lemma zero_root:
  assumes root: "mem s root = (\<lambda>_. 0)" and kinv: "kmem_inv s xs" and ok: "page_ok s root" "root \<notin> set xs"
  shows "lookup (mem s) root v = None" and "nodes (mem s) root = {root}" and "leaves (mem s) root = {}"
    and "sysp (mem s) root = {}" and "as_full s xs root"
proof -
  have c: "child (mem s) root i = None" for i by (simp add: child_def root)
  then show lk: "lookup (mem s) root v = None" for v by (simp add: lookup_def)
  have nd: "vpath p \<Longrightarrow> node (mem s) root p = Some a \<Longrightarrow> p = [] \<and> a = root" for p a
    by (cases p) (simp_all add: c)
  show n: "nodes (mem s) root = {root}"
  proof (intro set_eqI iffI)
    fix a assume "a \<in> nodes (mem s) root"
    then obtain p where "vpath p" "node (mem s) root p = Some a" by (auto simp only: nodes_def)
    then show "a \<in> {root}" using nd by blast
  qed simp
  show l: "leaves (mem s) root = {}" by (simp add: leaves_def lk)
  show sy: "sysp (mem s) root = {}" by (simp add: sysp_def lk)
  have "pt_tree (mem s) root" unfolding pt_tree_def using nd by blast
  moreover have "leaf_inj (mem s) root" by (simp add: leaf_inj_def lk)
  ultimately show "as_full s xs root"
    using kinv ok by (simp add: as_full_def as_inv_def owned_def n l sy)
qed

text \<open>A small machine state: three free pages, and two empty page tables.\<close>

definition ex_mem :: "u64 \<Rightarrow> page" where
  "ex_mem = ((\<lambda>_ _. 0)(0x87000000 := st64 (\<lambda>_. 0) 0 0x87001000))(0x87001000 := st64 (\<lambda>_. 0) 0 0x87002000)"

definition ex_state :: kmem_state where
  "ex_state = \<lparr>kend = 0x80100000, etext = 0x80008000, trampoline = 0x80007000,
     freelist = 0x87000000, mem = ex_mem\<rparr>"

lemma ex_kmem_inv: "kmem_inv ex_state [0x87000000, 0x87001000, 0x87002000]"
  by (simp add: kmem_inv_def ex_state_def ex_mem_def page_ok_def ld64_st64)

lemma ex_full:
  "as_full ex_state [0x87000000, 0x87001000, 0x87002000] 0x86000000"
  "as_full ex_state [0x87000000, 0x87001000, 0x87002000] 0x86001000"
  by (rule zero_root(5) [OF _ ex_kmem_inv]; simp add: ex_state_def ex_mem_def page_ok_def)+

lemma ex_roots:
  "lookup (mem ex_state) 0x86000000 v = None" "lookup (mem ex_state) 0x86001000 v = None"
  "owned (mem ex_state) 0x86000000 = {0x86000000}" "owned (mem ex_state) 0x86001000 = {0x86001000}"
  "sysp (mem ex_state) 0x86000000 = {}"
proof -
  have r: "mem ex_state 0x86000000 = (\<lambda>_. 0)" "page_ok ex_state 0x86000000" "mem ex_state 0x86001000 = (\<lambda>_. 0)" "page_ok ex_state 0x86001000"
    by (simp_all add: ex_state_def ex_mem_def page_ok_def)
  note z = zero_root [OF r(1) ex_kmem_inv r(2)] zero_root [OF r(3) ex_kmem_inv r(4)]
  show "lookup (mem ex_state) 0x86000000 v = None" "lookup (mem ex_state) 0x86001000 v = None"
    by (rule z; simp)+
  show "owned (mem ex_state) 0x86000000 = {0x86000000}" "owned (mem ex_state) 0x86001000 = {0x86001000}"
    using z(2,3,7,8) by (simp_all add: owned_def)
  show "sysp (mem ex_state) 0x86000000 = {}" by (rule z) simp
qed

section \<open>Properties\<close>

text \<open>C26: \<^verbatim>\<open>mappages\<close> of one page either maps exactly the page of \<open>va\<close> to \<open>pa\<close>, so that
  \<^verbatim>\<open>walkaddr\<close> then translates \<open>va\<close> to \<open>pa\<close>, or runs out of memory and maps nothing; in both cases
  no other virtual address changes its translation, it never panics, and only pages of the
  tree and of the free list are written.\<close>

theorem mappages_walkaddr:
  assumes "pt_ready s xs root" and "va < MAXVA" "va mod 4096 = 0" and "lookup (mem s) root va = None"
    and "pa mod 4096 = 0" "pa < 0x1000000000000" and "perm AND 0x3FF = perm" "perm AND PTE_U \<noteq> 0"
  shows "\<exists>r s' ys. mappages root va PGSIZE pa perm s = Done r s' \<and> walk_rel s xs root s' ys \<and>
    (r = 0 \<and> walkaddr root va s' = Done pa s' \<or>
     r = -1 \<and> ys = [] \<and> lookup (mem s') root va = None) \<and>
    (\<forall>v < MAXVA. vp v \<noteq> vp va \<longrightarrow> lookup (mem s') root v = lookup (mem s) root v)"
proof -
  let ?e = "PA2PTE pa OR perm OR PTE_V"
  obtain r s' ys where m: "mappages root va PGSIZE pa perm s = Done r s'" "walk_rel s xs root s' ys"
    "r = 0 \<or> r = -1 \<and> ys = []"
    "\<And>v. v < MAXVA \<Longrightarrow> lookup (mem s') root v =
       (if r = 0 \<and> vpn v = vpn va then Some ?e else lookup (mem s) root v)"
    by (rule mappages_page [OF assms(1-7)]) (rule that)
  have "?e AND PTE_U \<noteq> 0"
    using assms(8) by (simp add: bit.conj_disj_distrib2 or_eq_0_iff)
  then have "r = 0 \<Longrightarrow> walkaddr root va s' = Done pa s'"
    using m(4) [OF assms(2)] PTE_bits(1) [OF assms(5-7)] by (simp add: walkaddr_lookup [OF assms(2)])
  moreover have "r = -1 \<Longrightarrow> lookup (mem s') root va = None" using m(4) [OF assms(2)] assms(4) by simp
  ultimately show ?thesis using m by (auto simp: vpn_vp)
qed

lemma mappages_walkaddr_witness:
  "\<exists>r s' ys. mappages 0x86000000 0x1000 PGSIZE 0x86002000 (PTE_U OR PTE_R) ex_state = Done r s' \<and>
    walk_rel ex_state [0x87000000, 0x87001000, 0x87002000] 0x86000000 s' ys \<and>
    (r = 0 \<and> walkaddr 0x86000000 0x1000 s' = Done 0x86002000 s' \<or>
     r = -1 \<and> ys = [] \<and> lookup (mem s') 0x86000000 0x1000 = None) \<and>
    (\<forall>v < MAXVA. vp v \<noteq> vp 0x1000 \<longrightarrow> lookup (mem s') 0x86000000 v = lookup (mem ex_state) 0x86000000 v)"
  by (rule mappages_walkaddr [OF as_inv_ready [OF as_fullD [OF ex_full(1)]]]) (simp_all add: ex_roots)

text \<open>C27: \<^verbatim>\<open>uvmalloc\<close> from \<open>oldsz\<close> to \<open>newsz\<close> returns \<open>newsz\<close> with exactly the pages between the two
  sizes newly mapped, readable by the user, with the permissions asked for and filled with
  zeroes, or returns 0 with the translation of every address as it was. In both cases the
  pages mapped before keep their contents, no page is leaked or shared, and memory outside
  the address space and the free list is not written.\<close>

theorem uvmalloc_correct:
  assumes "as_full s xs root" and "oldsz \<le> newsz" "newsz \<le> TRAPFRAME" and "xperm AND 0x3FF = xperm"
    and "unmapped (up oldsz) (up newsz - up oldsz) (mem s) root"
  shows "\<exists>r s' ys. uvmalloc root oldsz newsz xperm s = Done r s' \<and> as_step s xs root s' ys \<and>
    keep (mem s) (mem s') root \<and>
    (r = newsz \<and> allocated (up oldsz) (up newsz - up oldsz) (PTE_R OR PTE_U OR xperm) (mem s) (mem s') root \<or>
     r = 0 \<and> (\<forall>v < MAXVA. lookup (mem s') root v = lookup (mem s) root v))"
proof -
  have old: "oldsz \<le> TRAPFRAME" using assms(2,3) by (rule order_trans)
  note o = up_PGROUNDUP [OF old] and n = up_PGROUNDUP [OF assms(3)]
  let ?a = "PGROUNDUP oldsz"
  have le: "up oldsz \<le> up newsz" using assms(2) unfolding up_def by (simp add: word_le_nat_alt div_le_mono)
  have cnt: "(if ?a < newsz then (unat (newsz - ?a) + 4095) div 4096 else 0) = up newsz - up oldsz"
  proof (cases "?a < newsz")
    case True
    then have "unat (newsz - ?a) + 4095 + up oldsz * 4096 = unat newsz + 4095"
      using o(1) by (simp add: unat_sub word_le_nat_alt word_less_nat_alt)
    then have "(unat (newsz - ?a) + 4095) div 4096 + up oldsz = up newsz"
      unfolding up_def by (metis div_mult_self2 numeral_neq_zero add.commute up_def mult.commute)
    then show ?thesis using True by simp
  next
    case False
    then have "unat newsz \<le> up oldsz * 4096" using o(1) by (simp add: word_le_nat_alt not_less)
    then have "up newsz \<le> up oldsz" unfolding up_def [of newsz] round_up_le_iff .
    then show ?thesis using False by simp
  qed
  have run: "uvmalloc root oldsz newsz xperm s = uvmalloc_loop (up newsz - up oldsz) root ?a ?a newsz xperm s"
    using leD [OF assms(2)] cnt by (simp add: uvmalloc_def Let_def)
  have un: "unmapped (vp ?a) (up newsz - up oldsz) (mem s) root" using assms(5) o(2) by simp
  have "vp ?a + (up newsz - up oldsz) \<le> TFP" using o(2) n(3) le by simp
  from uvmalloc_loop_spec [OF assms(1) o(4) this o(4) order_refl assms(4) un, of newsz]
  obtain r s' ys where s': "uvmalloc_loop (up newsz - up oldsz) root ?a ?a newsz xperm s = Done r s'"
    "as_step s xs root s' ys" "keep (mem s) (mem s') root"
    "r = newsz \<and> allocated (vp ?a) (up newsz - up oldsz) (PTE_R OR PTE_U OR xperm) (mem s) (mem s') root \<or>
     r = 0 \<and> (\<forall>v < MAXVA. lookup (mem s') root v =
       (if vp ?a \<le> vp v \<and> vp v < vp ?a + (up newsz - up oldsz) then None else lookup (mem s) root v))"
    by (elim exE conjE)
  have "lookup (mem s) root v = None" if "v < MAXVA" "vp ?a \<le> vp v" "vp v < vp ?a + (up newsz - up oldsz)" for v
    using un that by (simp add: unmapped_def)
  then have "r = newsz \<and> allocated (up oldsz) (up newsz - up oldsz) (PTE_R OR PTE_U OR xperm) (mem s) (mem s') root \<or>
     r = 0 \<and> (\<forall>v < MAXVA. lookup (mem s') root v = lookup (mem s) root v)"
    using s'(4) unfolding o(2) by (auto split: if_splits)
  then show ?thesis using run s'(1-3) by metis
qed

lemma uvmalloc_correct_witness:
  "\<exists>r s' ys. uvmalloc 0x86000000 0x1000 0x2000 PTE_W ex_state = Done r s' \<and>
    as_step ex_state [0x87000000, 0x87001000, 0x87002000] 0x86000000 s' ys \<and>
    keep (mem ex_state) (mem s') 0x86000000 \<and>
    (r = 0x2000 \<and> allocated (up 0x1000) (up 0x2000 - up 0x1000) (PTE_R OR PTE_U OR PTE_W) (mem ex_state) (mem s') 0x86000000 \<or>
     r = 0 \<and> (\<forall>v < MAXVA. lookup (mem s') 0x86000000 v = lookup (mem ex_state) 0x86000000 v))"
  by (rule uvmalloc_correct [OF ex_full(1)]) (simp_all add: ex_roots unmapped_def)

text \<open>C28: \<^verbatim>\<open>uvmdealloc\<close> returns the smaller of the two sizes, unmaps exactly the whole pages between
  them, puts exactly the physical pages they had back on the free list, and leaves the
  contents of the remaining pages alone.\<close>

theorem uvmdealloc_correct:
  assumes "as_inv s xs root" and "oldsz \<le> TRAPFRAME"
  shows "\<exists>s' ys. uvmdealloc root oldsz newsz s = Done (min oldsz newsz) s' \<and> as_step s xs root s' ys \<and>
    set ys = set xs \<union> (leaves (mem s) root - leaves (mem s') root) \<and> keep (mem s) (mem s') root \<and>
    (\<forall>v < MAXVA. lookup (mem s') root v =
       (if newsz < oldsz \<and> up newsz \<le> vp v \<and> vp v < up oldsz then None else lookup (mem s) root v))"
proof -
  obtain s' ys where s': "uvmdealloc root oldsz newsz s = Done (min oldsz newsz) s'" "as_step s xs root s' ys"
    "nodes (mem s') root = nodes (mem s) root"
    "keep (mem s) (mem s') root" "leaves (mem s') root \<subseteq> leaves (mem s) root"
    "\<And>v. v < MAXVA \<Longrightarrow> lookup (mem s') root v =
       (if newsz < oldsz \<and> up newsz \<le> vp v \<and> vp v < up oldsz then None else lookup (mem s) root v)"
    by (rule uvmdealloc_spec [OF assms]) (rule that)
  have tot: "set ys \<union> (nodes (mem s) root \<union> leaves (mem s') root) = set xs \<union> (nodes (mem s) root \<union> leaves (mem s) root)"
    using s'(2,3) by (simp add: as_step_def owned_def)
  have "set ys \<inter> (nodes (mem s) root \<union> leaves (mem s') root) = {}"
    using s'(2,3) by (auto simp: as_step_def as_inv_def owned_def)
  moreover have "set xs \<inter> (nodes (mem s) root \<union> leaves (mem s) root) = {}" "nodes (mem s) root \<inter> leaves (mem s) root = {}"
    using assms(1) by (auto simp: as_inv_def owned_def)
  ultimately have "set ys = set xs \<union> (leaves (mem s) root - leaves (mem s') root)" using tot s'(5) by blast
  then show ?thesis using s' by blast
qed

lemma uvmdealloc_correct_witness:
  "\<exists>s' ys. uvmdealloc 0x86000000 0x3000 0x1000 ex_state = Done (min 0x3000 0x1000) s' \<and>
    as_step ex_state [0x87000000, 0x87001000, 0x87002000] 0x86000000 s' ys \<and>
    set ys = set [0x87000000, 0x87001000, 0x87002000] \<union> (leaves (mem ex_state) 0x86000000 - leaves (mem s') 0x86000000) \<and>
    keep (mem ex_state) (mem s') 0x86000000 \<and>
    (\<forall>v < MAXVA. lookup (mem s') 0x86000000 v =
       (if 0x1000 < (0x3000 :: u64) \<and> up 0x1000 \<le> vp v \<and> vp v < up 0x3000 then None
        else lookup (mem ex_state) 0x86000000 v))"
  by (rule uvmdealloc_correct [OF as_fullD [OF ex_full(1)]]) simp

text \<open>C6: \<^verbatim>\<open>uvmcopy\<close>, the memory copy of fork, gives the child a private copy: on success every
  page of the parent above page 0 is copied, with its flags, into a page the child alone
  owns; on failure the child has no user page left. The parent's translations and memory
  are untouched, parent and child share no page, and page 0 of the child stays unmapped.\<close>

theorem uvmcopy_correct:
  assumes "as_pair s xs old new" and "sz \<le> TRAPFRAME" and "unmapped 0 (up sz) (mem s) new"
  shows "\<exists>r s' ys. uvmcopy old new sz s = Done r s' \<and> as_pair s' ys old new \<and>
    (\<forall>v. lookup (mem s') old v = lookup (mem s) old v) \<and> (\<forall>a \<in> owned (mem s) old. mem s' a = mem s a) \<and>
    (r = 0 \<and> (\<forall>v < MAXVA. 1 \<le> vp v \<and> vp v < up sz \<longrightarrow> copied (mem s) old (mem s') new v) \<or>
     r = -1 \<and> (\<forall>v < MAXVA. vp v < up sz \<longrightarrow> lookup (mem s') new v = None)) \<and>
    (\<forall>v < MAXVA. vp v = 0 \<and> 0 < up sz \<longrightarrow> lookup (mem s') new v = None)"
proof -
  define n where "n = (unat sz - 1) div 4096"
  have one: "vp PGSIZE = 1" by (simp add: vp_def)
  have n: "1 + n = up sz \<or> n = 0 \<and> up sz = 0"
  proof (cases "unat sz")
    case (Suc k)
    then have "unat sz + 4095 = k + 4096" by simp
    then have "up sz = k div 4096 + 1" unfolding up_def by (simp only: div_add_self2)
    then show ?thesis using Suc by (simp add: n_def)
  qed (simp add: n_def up_def)
  have "1 + n \<le> TFP" using up_PGROUNDUP(3) [OF assms(2)] n by auto
  then have top: "vp PGSIZE + n \<le> TFP" by (simp add: one)
  have "unmapped (vp PGSIZE) n (mem s) new" using assms(3) n by (auto simp: unmapped_def one)
  from uvmcopy_loop_spec [OF assms(1) _ top this]
  obtain r s' ys where s': "uvmcopy_loop n old new PGSIZE s = Done r s'" "as_step s xs new s' ys"
    "r = 0 \<and> copy_range (vp PGSIZE) n (mem s) old (mem s') new \<and> keep (mem s) (mem s') new \<or>
     r = -1 \<and> (\<forall>v < MAXVA. lookup (mem s') new v = (if vp v < vp PGSIZE + n then None else lookup (mem s) new v))"
    by auto
  have above: "\<forall>v. TRAPFRAME \<le> v \<longrightarrow> v < MAXVA \<longrightarrow> lookup (mem s') new v = lookup (mem s) new v"
  proof (intro allI impI)
    fix v :: u64 assume v: "TRAPFRAME \<le> v" "v < MAXVA"
    then have "\<not> vp v < vp PGSIZE + n" using top vp_TRAPFRAME [of v] by auto
    then show "lookup (mem s') new v = lookup (mem s) new v"
      using s'(3) v(2) by (auto simp: copy_range_def)
  qed
  note pr = as_pair_step [OF assms(1) s'(2) above]
  have zero: "lookup (mem s') new v = None" if v: "v < MAXVA" "vp v = 0" "0 < up sz" for v
    using s'(3) v assms(3) one by (auto simp: copy_range_def unmapped_def)
  have res: "r = 0 \<and> (\<forall>v < MAXVA. 1 \<le> vp v \<and> vp v < up sz \<longrightarrow> copied (mem s) old (mem s') new v) \<or>
     r = -1 \<and> (\<forall>v < MAXVA. vp v < up sz \<longrightarrow> lookup (mem s') new v = None)"
    using s'(3) n unfolding one copy_range_def by fastforce
  have "uvmcopy old new sz s = Done r s'" using s'(1) by (simp add: uvmcopy_def n_def)
  then show ?thesis using pr res zero by blast
qed

lemma uvmcopy_correct_witness:
  "\<exists>r s' ys. uvmcopy 0x86000000 0x86001000 0x3000 ex_state = Done r s' \<and> as_pair s' ys 0x86000000 0x86001000 \<and>
    (\<forall>v. lookup (mem s') 0x86000000 v = lookup (mem ex_state) 0x86000000 v) \<and>
    (\<forall>a \<in> owned (mem ex_state) 0x86000000. mem s' a = mem ex_state a) \<and>
    (r = 0 \<and> (\<forall>v < MAXVA. 1 \<le> vp v \<and> vp v < up 0x3000 \<longrightarrow> copied (mem ex_state) 0x86000000 (mem s') 0x86001000 v) \<or>
     r = -1 \<and> (\<forall>v < MAXVA. vp v < up 0x3000 \<longrightarrow> lookup (mem s') 0x86001000 v = None)) \<and>
    (\<forall>v < MAXVA. vp v = 0 \<and> 0 < up 0x3000 \<longrightarrow> lookup (mem s') 0x86001000 v = None)"
  by (rule uvmcopy_correct [where xs = "[0x87000000, 0x87001000, 0x87002000]"])
    (simp_all add: as_pair_def ex_full ex_roots unmapped_def)

end
