(* ===== verification/UserMem.thy ===== *)
theory UserMem
  imports Copy Ucopy
begin

text \<open>
  Correctness of the copies between kernel and user memory, and the null-page guard. The
  memory a process sees is \<open>ubyte\<close>, the byte at a user-accessible virtual address; \<open>uas\<close> is
  the invariant of the address space of a process: complete, nothing mapped in page 0 or
  above the size of the process, no user access above user memory.
\<close>

section \<open>The user's view of memory\<close>

definition ubyte :: "(u64 \<Rightarrow> page) \<Rightarrow> u64 \<Rightarrow> u64 \<Rightarrow> u8 option" where
  "ubyte m root v = (case lookup m root v of
     None \<Rightarrow> None
   | Some e \<Rightarrow> if e AND PTE_U = 0 then None else Some (m (PTE2PA e) (unat v mod 4096)))"

definition uas :: "'a kmem_state_scheme \<Rightarrow> u64 list \<Rightarrow> u64 \<Rightarrow> u64 \<Rightarrow> bool" where
  "uas s xs root sz \<longleftrightarrow> as_full s xs root \<and> sz \<le> TRAPFRAME \<and>
     (\<forall>v e. v < MAXVA \<longrightarrow> lookup (mem s) root v = Some e \<longrightarrow>
        (if vp v < TFP then 1 \<le> vp v \<and> vp v < up sz else e AND PTE_U = 0))"

lemma uasD: "uas s xs root sz \<Longrightarrow> as_full s xs root"
  by (simp add: uas_def)

lemma uas_cong:
  fixes s :: "'a kmem_state_scheme" and s' :: "'b kmem_state_scheme"
  assumes "kend s' = kend s" "freelist s' = freelist s" "mem s' = mem s"
  shows "uas s' xs root sz = uas s xs root sz"
  using assms by (simp add: uas_def as_full_def as_inv_def kmem_inv_def page_ok_def)

lemma uas_user:
  "uas s xs root sz \<Longrightarrow> v < MAXVA \<Longrightarrow> lookup (mem s) root v = Some e \<Longrightarrow> e AND PTE_U \<noteq> 0 \<Longrightarrow>
    vp v < TFP \<and> 1 \<le> vp v \<and> vp v < up sz"
  unfolding uas_def by metis

lemma uas_page:
  assumes "uas s xs root sz" "v < MAXVA" "lookup (mem s) root v = Some e" "e AND PTE_U \<noteq> 0"
  shows "PTE2PA e \<in> leaves (mem s) root" "page_ok s (PTE2PA e)" "PTE2PA e \<noteq> 0"
    "PTE2PA e \<notin> set xs" "PTE2PA e \<notin> nodes (mem s) root"
proof -
  have "v < TRAPFRAME" unfolding vp_TRAPFRAME using uas_user [OF assms] by simp
  then show l: "PTE2PA e \<in> leaves (mem s) root" using assms(3) by (rule leavesI)
  have inv: "as_inv s xs root" by (rule as_fullD [OF uasD [OF assms(1)]])
  then show ok: "page_ok s (PTE2PA e)" "PTE2PA e \<notin> set xs" "PTE2PA e \<notin> nodes (mem s) root"
    using l by (auto simp: as_inv_def owned_def)
  show "PTE2PA e \<noteq> 0" using ok(1) inv page_ok_nonzero by (auto simp: as_inv_def kmem_inv_def)
qed

lemma walkaddr_ubyte:
  assumes "uas s xs root sz" "v < MAXVA"
  shows "walkaddr root v s = Done 0 s \<and> ubyte (mem s) root v = None \<or>
    (\<exists>e. lookup (mem s) root v = Some e \<and> e AND PTE_U \<noteq> 0 \<and> PTE2PA e \<noteq> 0 \<and> walkaddr root v s = Done (PTE2PA e) s)"
  using uas_page(3) [OF assms] by (auto simp: walkaddr_lookup [OF assms(2)] ubyte_def split: option.splits)

section \<open>Addresses within a page\<close>

lemma in_page:
  assumes "unat va mod 4096 + i < 4096"
  shows "unat (va + of_nat i) = unat va + i" "vp (va + of_nat i) = vp va"
    "unat (va + of_nat i) mod 4096 = unat va mod 4096 + i"
proof -
  define k where "k = unat va div 4096"
  define r where "r = unat va mod 4096"
  have u: "unat va = k * 4096 + r" unfolding k_def r_def by simp
  have ri: "r + i < 4096" using assms by (simp add: r_def)
  have "k < 2 ^ 52" unfolding k_def using unsigned_less [of va, where ?'a = nat] by (simp add: less_mult_imp_div_less)
  then have "k * 4096 + (r + i) < 2 ^ 64" using ri by simp
  moreover have "unat (of_nat i :: u64) = i" using ri by (simp add: unat_of_nat)
  ultimately show s: "unat (va + of_nat i) = unat va + i" by (simp add: u unat_word_ariths)
  have e: "unat va + i = k * 4096 + (r + i)" using u by simp
  show "vp (va + of_nat i) = vp va" unfolding vp_def s e using ri by (simp add: k_def)
  show "unat (va + of_nat i) mod 4096 = unat va mod 4096 + i" unfolding s e r_def [symmetric] using ri by simp
qed

lemma same_page_addr:
  assumes "vp v = vp va" "unat va mod 4096 \<le> unat v mod 4096"
  shows "v = va + of_nat (unat v mod 4096 - unat va mod 4096)"
proof -
  let ?d = "unat v mod 4096 - unat va mod 4096"
  have "unat va mod 4096 + ?d < 4096" using assms(2) by simp
  then have "unat (va + of_nat ?d) = unat va + ?d" by (rule in_page(1))
  also have "\<dots> = unat va div 4096 * 4096 + unat v mod 4096"
    using assms(2) div_mult_mod_eq [of "unat va" 4096] by linarith
  also have "\<dots> = unat v" using assms(1) div_mult_mod_eq [of "unat v" 4096] by (simp only: vp_def)
  finally show ?thesis by (simp only: word_unat_eq_iff)
qed

lemma PGROUNDDOWN_facts: "vp (PGROUNDDOWN va) = vp va" "PGROUNDDOWN va mod 4096 = 0"
  by (simp_all add: vp_def unat_PGROUNDDOWN word_mod_unat)

lemma chunk_le: "chunk va len \<le> len" "i < chunk va len \<Longrightarrow> unat va mod 4096 + i < 4096"
  by (auto simp: chunk_def page_offset)

lemma chunk_next:
  assumes "chunk va len < len"
  shows "va + of_nat (chunk va len) = PGROUNDDOWN va + PGSIZE"
proof -
  have c: "chunk va len = 4096 - unat (va - PGROUNDDOWN va)" using assms by (simp add: chunk_def)
  have "unat (va - PGROUNDDOWN va) \<le> 4096" by (simp add: page_offset less_imp_le)
  then have "of_nat (chunk va len) = (4096 - (va - PGROUNDDOWN va) :: u64)"
    unfolding c by (simp add: of_nat_diff)
  then show ?thesis by simp
qed

lemma lookup_vp: "vp v = vp w \<Longrightarrow> lookup m root v = lookup m root w"
  by (rule lookup_vpn) (simp only: vpn_vp)

section \<open>Faults and translations\<close>

text \<open>\<open>grown\<close>: at most the page of \<open>va0\<close> was mapped, to zeroes; nothing else changed.\<close>

definition grown :: "(u64 \<Rightarrow> page) \<Rightarrow> (u64 \<Rightarrow> page) \<Rightarrow> u64 \<Rightarrow> u64 \<Rightarrow> bool" where
  "grown m m' root va0 \<longleftrightarrow> leaves m root \<subseteq> leaves m' root \<and> keep m m' root \<and>
     (\<forall>v < MAXVA. vp v \<noteq> vp va0 \<or> lookup m root v \<noteq> None \<longrightarrow> lookup m' root v = lookup m root v)"

lemma grown_refl [simp]: "grown m m root va"
  by (simp add: grown_def)

lemma grown_ubyte:
  assumes "uas s xs root sz" "grown (mem s) m' root va0" "v < MAXVA" "ubyte (mem s) root v = Some b"
  shows "ubyte m' root v = Some b"
proof -
  obtain e where e: "lookup (mem s) root v = Some e" "e AND PTE_U \<noteq> 0" "b = mem s (PTE2PA e) (unat v mod 4096)"
    using assms(4) by (auto simp: ubyte_def split: option.splits if_splits)
  have l: "PTE2PA e \<in> leaves (mem s) root" by (rule uas_page(1) [OF assms(1,3) e(1,2)])
  then have "m' (PTE2PA e) = mem s (PTE2PA e)" using assms(2) by (auto simp: grown_def keep_def)
  moreover have "lookup m' root v = Some e" using assms(2,3) e(1) by (auto simp: grown_def)
  ultimately show ?thesis using e by (simp add: ubyte_def)
qed

lemma ismapped_lookup:
  "va < MAXVA \<Longrightarrow> ismapped root va s = Done (lookup (mem s) root va \<noteq> None) s"
  by (cases "node (mem s) root [PX 2 va, PX 1 va]")
    (simp_all add: ismapped_def walk_lookup lookup_def pte_get_mem Let_def del: node.simps)

definition own_space :: "u64 \<Rightarrow> u64 \<Rightarrow> 'a proc_state_scheme \<Rightarrow> bool" where
  "own_space root sz s \<longleftrightarrow> p_pagetable (proc_at s (cur s)) = root \<and> p_sz (proc_at s (cur s)) = sz"

lemma own_space_rest: "same_rest s s' \<Longrightarrow> own_space root sz s' = own_space root sz s"
  by (auto simp: same_rest_def own_space_def myproc_def mycpu_def cpuid_def)

lemma up_lt: "va < sz \<Longrightarrow> vp va < up sz"
proof -
  assume "va < sz"
  then have "unat va < unat sz" by (simp add: word_less_nat_alt)
  also have "\<dots> \<le> up sz * 4096" unfolding up_def by (rule round_up_ge)
  finally show ?thesis unfolding vp_def by (simp add: less_mult_imp_div_less)
qed

lemma uas_map:
  assumes u: "uas s xs root sz" and st: "as_step s xs root s' ys" and va: "1 \<le> vp va" "vp va < up sz" "vp va < TFP"
    and lk: "\<And>v. v < MAXVA \<Longrightarrow> lookup (mem s') root v = (if vp v = vp va then Some e else lookup (mem s) root v)"
  shows "uas s' ys root sz"
proof -
  have "as_full s' ys root"
    by (rule as_full_step [OF uasD [OF u] st]) (rule lookup_above [OF lk], use va in simp_all)
  moreover have "if vp v < TFP then 1 \<le> vp v \<and> vp v < up sz else f AND PTE_U = 0"
    if v: "v < MAXVA" "lookup (mem s') root v = Some f" for v f
  proof (cases "vp v = vp va")
    case False
    then have "lookup (mem s) root v = Some f" using lk v by simp
    then show ?thesis using u v(1) unfolding uas_def by blast
  qed (use va in simp)
  ultimately show ?thesis using u unfolding uas_def by blast
qed

lemma uas_same:
  assumes u: "uas s xs root sz" and st: "as_step s xs root s' ys"
    and lk: "\<And>v. v < MAXVA \<Longrightarrow> lookup (mem s') root v = lookup (mem s) root v"
  shows "uas s' ys root sz"
proof -
  have "as_full s' ys root" by (rule as_full_step [OF uasD [OF u] st]) (rule lk)
  then show ?thesis using u lk unfolding uas_def by auto
qed

text \<open>\<^verbatim>\<open>vmfault\<close> either maps the page of \<open>va\<close>, a page of the process above page 0, to zeroes and
  returns its physical address, or returns 0 and changes no translation.\<close>

lemma vmfault_spec:
  fixes s :: "'a proc_state_scheme"
  assumes u: "uas s xs root sz" and own: "own_space root sz s" and va: "va < MAXVA"
  obtains (none) s' ys where "vmfault root va s = Done 0 s'" "as_step s xs root s' ys" "uas s' ys root sz"
      "\<And>v. v < MAXVA \<Longrightarrow> lookup (mem s') root v = lookup (mem s) root v" "grown (mem s) (mem s') root va"
  | (new) pa s' ys where "vmfault root va s = Done pa s'" "pa \<noteq> 0" "as_step s xs root s' ys" "uas s' ys root sz"
      "grown (mem s) (mem s') root va" "1 \<le> vp va" "va < sz"
      "lookup (mem s') root va = Some (PA2PTE pa OR (PTE_W OR PTE_U OR PTE_R) OR PTE_V)"
      "PTE2PA (PA2PTE pa OR (PTE_W OR PTE_U OR PTE_R) OR PTE_V) = pa"
proof -
  note full = uasD [OF u]
  note inv = as_fullD [OF full]
  let ?va = "PGROUNDDOWN va" and ?perm = "PTE_W OR PTE_U OR PTE_R :: u64"
  have pt: "p_pagetable (proc_at s (cur s)) = root" "p_sz (proc_at s (cur s)) = sz"
    using own by (simp_all add: own_space_def)
  show thesis
  proof (cases "va < PGSIZE \<or> sz \<le> va \<or> lookup (mem s) root ?va \<noteq> None \<or> xs = []")
    case True
    have mv: "?va < MAXVA" using va PGROUNDDOWN_facts(1) [of va] by (simp add: vp_MAXVA)
    have "kalloc s = (0, s)" if "xs = []"
      using inv that by (simp add: as_inv_def kalloc_empty)
    then have "vmfault root va s = Done 0 s" using True pt by (auto simp: vmfault_def Let_def ismapped_lookup [OF mv])
    then show thesis using as_step_refl [OF inv] u refl grown_refl by (rule none)
  next
    case False
    then obtain b zs where xs: "xs = b # zs" and va1: "PGSIZE \<le> va" "va < sz" and nn: "lookup (mem s) root ?va = None"
      by (cases xs) (auto simp: not_less not_le)
    have vp1: "1 \<le> vp va" using va1(1) unfolding vp_def by (simp add: word_le_nat_alt Suc_leI div_greater_zero_iff)
    have vp2: "vp va < up sz" by (rule up_lt [OF va1(2)])
    have "up sz \<le> TFP" using u by (intro up_PGROUNDUP(3)) (simp add: uas_def)
    then have vp3: "vp ?va < TFP" "vp va < TFP" using vp2 by (simp_all add: PGROUNDDOWN_facts)
    have mv: "?va < MAXVA" by (rule vp_user [OF vp3(1)])
    have fullb: "as_full s (b # zs) root" using full xs by simp
    then have kinv: "kmem_inv s (b # zs)" by (simp add: as_full_def as_inv_def)
    note kf = kalloc_fresh [OF kinv]
    have fpt: "p_pagetable (proc_at (fresh s b pg) (cur (fresh s b pg))) = root" for pg
      using pt(1) by (simp add: fresh_def myproc_def mycpu_def cpuid_def)
    have unf: "vmfault root va s = obind (mappages root ?va PGSIZE b ?perm (fresh s b (\<lambda>_. 0))) (\<lambda>r s.
        if r \<noteq> 0 then obind (kfree b s) (\<lambda>_ s. Done 0 s) else Done b s)"
      using leD [OF va1(1)] va1(2) [folded not_le] nn pt by (simp add: vmfault_def ismapped_lookup [OF mv] kf fpt)
    have perm: "?perm AND 0x3FF = ?perm" by simp
    show thesis
    proof (rule map_fresh [OF fullb PGROUNDDOWN_facts(2) vp3(1) nn perm, where pg = "\<lambda>_. 0"], goal_cases)
      case (1 s1 ys)
      have lk: "lookup (mem s1) root v = (if vp v = vp va then Some (PA2PTE b OR ?perm OR PTE_V) else lookup (mem s) root v)"
        if "v < MAXVA" for v using 1(7) [OF that] by (simp only: PGROUNDDOWN_facts)
      have st: "as_step s xs root s1 ys" using 1(2) xs by simp
      have run: "vmfault root va s = Done b s1" using unf 1(1) by simp
      have nv: "lookup (mem s) root v = None" if "vp v = vp va" for v
        using lookup_vp [of v ?va "mem s" root] that nn by (simp only: PGROUNDDOWN_facts)
      have "lookup (mem s1) root v = lookup (mem s) root v"
        if v: "v < MAXVA" "vp v \<noteq> vp va \<or> lookup (mem s) root v \<noteq> None" for v
      proof -
        have "vp v \<noteq> vp va" using v(2) nv [of v] by (cases "vp v = vp va") simp_all
        then show ?thesis using lk [OF v(1)] by simp
      qed
      then have gr: "grown (mem s) (mem s1) root va" unfolding grown_def using 1(5,6) by blast
      have l: "lookup (mem s1) root va = Some (PA2PTE b OR ?perm OR PTE_V)" using lk [OF va] by simp
      have pte: "PTE2PA (PA2PTE b OR ?perm OR PTE_V) = b"
        by (rule PTE_bits(1) [OF _ _ perm]) (use page_ok_bounds [OF fresh_inv(7) [OF fullb]] in simp_all)
      show ?case
        by (rule new [OF run kf(2) st uas_map [OF u st vp1 vp2 vp3(2) lk] gr vp1 va1(2) l pte])
    next
      case (2 s1 s2 ys)
      have st: "as_step s xs root s2 ys" using 2(3) xs by simp
      have run: "vmfault root va s = Done 0 s2" using unf 2(1,2) by simp
      have gr: "grown (mem s) (mem s2) root va" using 2(4,5,6) by (simp add: grown_def)
      show ?case by (rule none [OF run st uas_same [OF u st 2(6)] 2(6) gr])
    qed
  qed
qed

text \<open>The translation step of the copy loops.\<close>

lemma user_page_spec:
  fixes s :: "'a proc_state_scheme"
  assumes u: "uas s xs root sz" and own: "own_space root sz s" and va: "va < MAXVA"
  obtains (none) s' ys where "user_page root va s = Done 0 s'" "as_step s xs root s' ys" "uas s' ys root sz"
      "grown (mem s) (mem s') root va" "ubyte (mem s) root va = None"
  | (page) e s' ys where "user_page root va s = Done (PTE2PA e) s'" "PTE2PA e \<noteq> 0" "as_step s xs root s' ys" "uas s' ys root sz"
      "grown (mem s) (mem s') root va" "lookup (mem s') root va = Some e" "e AND PTE_U \<noteq> 0"
      "ubyte (mem s) root va \<noteq> None \<Longrightarrow> s' = s"
proof -
  from walkaddr_ubyte [OF u va] consider "walkaddr root va s = Done 0 s" "ubyte (mem s) root va = None"
    | e where "lookup (mem s) root va = Some e" "e AND PTE_U \<noteq> 0" "PTE2PA e \<noteq> 0" "walkaddr root va s = Done (PTE2PA e) s"
    by (elim disjE exE conjE)
  then show thesis
  proof cases
    case 1
    then have eq: "user_page root va s = vmfault root va s" by (simp add: user_page_def)
    show thesis
    proof (rule vmfault_spec [OF u own va], goal_cases)
      case (1 s' ys)
      then show ?case using none [of s' ys] eq \<open>ubyte (mem s) root va = None\<close> by simp
    next
      case (2 pa s' ys)
      let ?e = "PA2PTE pa OR (PTE_W OR PTE_U OR PTE_R) OR PTE_V"
      have "?e AND PTE_U \<noteq> 0" by (simp add: bit.conj_disj_distrib2 or_eq_0_iff)
      then show ?case using page [of ?e s' ys] 2 eq \<open>ubyte (mem s) root va = None\<close> by simp
    qed
  next
    case 2
    then have "user_page root va s = Done (PTE2PA e) s" by (simp add: user_page_def)
    then show thesis
      using page [of e s xs] 2 as_step_refl [OF as_fullD [OF uasD [OF u]]] u by simp
  qed
qed

section \<open>Writing user pages\<close>

lemma leaf_write:
  fixes s :: "'a kmem_state_scheme" and pg :: page
  assumes u: "uas s xs root sz" and va: "va < MAXVA" and e: "lookup (mem s) root va = Some e" "e AND PTE_U \<noteq> 0"
  defines "s' \<equiv> s\<lparr>mem := (mem s)(PTE2PA e := pg)\<rparr>"
  shows "as_step s xs root s' xs" and "uas s' xs root sz" and "lookup (mem s') root v = lookup (mem s) root v"
    and "v < MAXVA \<Longrightarrow> ubyte (mem s') root v = (if vp v = vp va then Some (pg (unat v mod 4096)) else ubyte (mem s) root v)"
proof -
  note up = uas_page [OF u va e]
  note full = uasD [OF u]
  note inv = as_fullD [OF full]
  have m: "mem s' a = mem s a" if "a \<in> nodes (mem s) root" for a using that up(5) by (auto simp: s'_def)
  note fr = lookup_frame [of "mem s" root "mem s'", OF m] nodes_frame [of "mem s" root "mem s'", OF m]
    leaves_frame [of "mem s" root "mem s'", OF m] owned_frame [of "mem s" root "mem s'", OF m]
    pt_tree_frame [of "mem s" root "mem s'", OF m]
  show lk: "lookup (mem s') root v = lookup (mem s) root v" for v by (rule fr)
  have "kmem_inv s' xs" unfolding s'_def using inv by (simp add: as_inv_def kmem_inv_mem_upd [OF up(4)])
  then have i': "as_inv s' xs root"
    using inv by (simp add: as_inv_def leaf_inj_def fr) (simp add: s'_def page_ok_def)
  have "same_rest s s'" by (simp add: s'_def)
  then show st: "as_step s xs root s' xs"
    using i' up(1) by (simp add: as_step_def fr) (auto simp: s'_def owned_def)
  show "uas s' xs root sz" by (rule uas_same [OF u st lk])
  assume v: "v < MAXVA"
  show "ubyte (mem s') root v = (if vp v = vp va then Some (pg (unat v mod 4096)) else ubyte (mem s) root v)"
  proof (cases "vp v = vp va")
    case True
    then show ?thesis using e lookup_vp [OF True, of "mem s" root] by (simp add: ubyte_def lk) (simp add: s'_def)
  next
    case False
    have "PTE2PA f \<noteq> PTE2PA e" if f: "lookup (mem s) root v = Some f" for f
    proof
      assume eq: "PTE2PA f = PTE2PA e"
      have "va < TRAPFRAME" unfolding vp_TRAPFRAME using uas_user [OF u va e] by simp
      then have "vpn va = vpn v" using inv v e(1) f eq unfolding as_inv_def leaf_inj_def by metis
      then show False using False by (simp add: vpn_vp)
    qed
    then have "mem s' (PTE2PA f) = mem s (PTE2PA f)" if "lookup (mem s) root v = Some f" for f
      using that by (simp add: s'_def)
    then show ?thesis using False by (auto simp: ubyte_def lk split: option.split)
  qed
qed

lemma page_write_at:
  "page_write pg off bs i = (if off \<le> i \<and> i < off + length bs then bs ! (i - off) else pg i)"
  by (simp add: page_write_def)

section \<open>copyout\<close>

text \<open>\<open>wrote\<close>: the bytes at \<open>va\<close> onwards are \<open>bs\<close> and every other byte is as before.\<close>

definition outside :: "u64 \<Rightarrow> nat \<Rightarrow> u64 \<Rightarrow> bool" where
  "outside va n v \<longleftrightarrow> (\<forall>i < n. v \<noteq> va + of_nat i)"

lemma copyout_step:
  fixes s :: "'a proc_state_scheme"
  assumes u: "uas s xs root sz" and own: "own_space root sz s" and ne: "bs \<noteq> []" and mx: "PGROUNDDOWN va < MAXVA"
  obtains (fail) s' ys where "copyout root va bs s = Done (-1) s'" "as_step s xs root s' ys" "uas s' ys root sz"
      "\<And>v b. v < MAXVA \<Longrightarrow> ubyte (mem s) root v = Some b \<Longrightarrow> ubyte (mem s') root v = Some b"
  | (go) s' ys where
      "copyout root va bs s = copyout root (PGROUNDDOWN va + PGSIZE) (drop (chunk va (length bs)) bs) s'"
      "as_step s xs root s' ys" "uas s' ys root sz" "vp va < TFP"
      "\<And>i. i < chunk va (length bs) \<Longrightarrow> ubyte (mem s') root (va + of_nat i) = Some (bs ! i)"
      "\<And>v b. v < MAXVA \<Longrightarrow> outside va (chunk va (length bs)) v \<Longrightarrow> ubyte (mem s) root v = Some b \<Longrightarrow>
        ubyte (mem s') root v = Some b"
proof -
  let ?va = "PGROUNDDOWN va" and ?n = "chunk va (length bs)"
  have nle: "\<not> MAXVA \<le> ?va" using mx by (simp add: not_le)
  note unf = copyout.simps [of root va bs s]
  show thesis
  proof (rule user_page_spec [OF u own mx], goal_cases)
    case (1 s1 ys)
    have "copyout root va bs s = Done (-1) s1" using unf ne nle 1(1) by (simp add: Let_def)
    then show ?case using grown_ubyte [OF u 1(4)] by (intro fail [OF _ 1(2,3)])
  next
    case (2 e s1 ys)
    obtain q where q: "node (mem s1) root [PX 2 ?va, PX 1 ?va] = Some q" "ld64 (mem s1 q) (PX 0 ?va) = e" "e AND PTE_V \<noteq> 0"
      using 2(6) by (rule lookup_SomeE)
    have w: "walk root ?va False s1 = Done (Some (q, PX 0 ?va)) s1"
      by (simp only: walk_lookup [OF mx] q option.map)
    let ?pg = "page_write (mem s1 (PTE2PA e)) (unat (va - ?va)) (take ?n bs)"
    let ?s2 = "s1\<lparr>mem := (mem s1)(PTE2PA e := ?pg)\<rparr>"
    show ?case
    proof (cases "e AND PTE_W = 0")
      case True
      have "copyout root va bs s = Done (-1) s1" using unf ne nle 2(1,2) w q(2) True by (simp add: Let_def pte_get_mem)
      then show ?thesis using grown_ubyte [OF u 2(5)] by (intro fail [OF _ 2(3,4)])
    next
      case False
      have run: "copyout root va bs s = copyout root (?va + PGSIZE) (drop ?n bs) ?s2"
        using unf ne nle 2(1,2) w q(2) False by (simp add: Let_def pte_get_mem)
      note lw = leaf_write [OF 2(4) mx 2(6,7), where pg = ?pg]
      have tf: "vp va < TFP" using uas_user [OF 2(4) mx 2(6,7)] by (simp add: PGROUNDDOWN_facts)
      have mxv: "v < MAXVA" if "vp v = vp va" for v using that tf vp_user by simp
      have in1: "ubyte (mem ?s2) root (va + of_nat i) = Some (bs ! i)" if i: "i < ?n" for i
      proof -
        note ip = in_page [OF chunk_le(2) [OF i]]
        have "i < length bs" using i chunk_le(1) [of va "length bs"] by simp
        then have "?pg (unat (va + of_nat i) mod 4096) = bs ! i"
          using i by (simp add: page_write_at page_offset ip(3))
        then show ?thesis using lw(4) [OF mxv [OF ip(2)]] by (simp add: ip(2) PGROUNDDOWN_facts)
      qed
      moreover have "ubyte (mem ?s2) root v = Some b"
        if v: "v < MAXVA" "outside va ?n v" "ubyte (mem s) root v = Some b" for v b
      proof -
        have b1: "ubyte (mem s1) root v = Some b" by (rule grown_ubyte [OF u 2(5) v(1,3)])
        show ?thesis
        proof (cases "vp v = vp va")
          case True
          let ?o = "unat va mod 4096" and ?p = "unat v mod 4096"
          have "\<not> (?o \<le> ?p \<and> ?p < ?o + ?n)"
          proof
            assume p: "?o \<le> ?p \<and> ?p < ?o + ?n"
            then have "v = va + of_nat (?p - ?o)" using same_page_addr [OF True] by simp
            moreover have "?p - ?o < ?n" using p by linarith
            ultimately show False using v(2) unfolding outside_def by blast
          qed
          then have "?pg ?p = mem s1 (PTE2PA e) ?p" using ne chunk_le(1) [of va "length bs"]
            by (auto simp: page_write_at page_offset)
          moreover have "lookup (mem s1) root v = Some e"
            using 2(6) lookup_vp [of v ?va "mem s1" root] True by (simp add: PGROUNDDOWN_facts)
          ultimately show ?thesis using lw(4) [OF v(1)] b1 2(7) True by (simp add: PGROUNDDOWN_facts ubyte_def)
        next
          case False
          then show ?thesis using lw(4) [OF v(1)] b1 by (simp add: PGROUNDDOWN_facts)
        qed
      qed
      ultimately show ?thesis using go [OF run as_step_trans [OF 2(3) lw(1)] lw(2) tf] by blast
    qed
  qed
qed

lemma outside_split:
  assumes "outside va n v" "m \<le> n"
  shows "outside va m v" and "outside (va + of_nat m) (n - m) v"
proof -
  show "outside va m v" using assms by (simp add: outside_def)
  have "v \<noteq> va + of_nat m + of_nat i" if "i < n - m" for i
  proof -
    have "m + i < n" using that by simp
    then have "v \<noteq> va + of_nat (m + i)" using assms(1) unfolding outside_def by blast
    then show ?thesis by (simp add: add.assoc)
  qed
  then show "outside (va + of_nat m) (n - m) v" by (simp add: outside_def)
qed

text \<open>Bytes written before the current page lie outside what is written later.\<close>

lemma before_outside:
  assumes i: "i < chunk va len" and c: "chunk va len < len" and top: "unat va + len \<le> TFP * 4096"
  shows "outside (PGROUNDDOWN va + PGSIZE) (len - chunk va len) (va + of_nat i)"
proof -
  have n: "PGROUNDDOWN va + PGSIZE = va + of_nat (chunk va len)" using chunk_next [OF c] by simp
  have small: "unat (of_nat k :: u64) = k" "unat (va + of_nat k) = unat va + k" if "k \<le> len" for k
    using that top by (simp_all add: unat_of_nat unat_word_ariths)
  have "va + of_nat i \<noteq> va + of_nat (chunk va len) + of_nat j" if "j < len - chunk va len" for j
  proof
    assume "va + of_nat i = va + of_nat (chunk va len) + of_nat j"
    then have "va + of_nat i = va + of_nat (chunk va len + j)" by (simp add: add.assoc)
    then have "unat (va + of_nat i) = unat (va + of_nat (chunk va len + j))" by (rule arg_cong)
    moreover have "i \<le> len" "chunk va len + j \<le> len" using that i c by simp_all
    ultimately have "unat va + i = unat va + (chunk va len + j)" by (simp only: small)
    then show False using i by simp
  qed
  then show ?thesis by (simp add: outside_def n)
qed

lemma copyout_top:
  assumes "vp va < TFP" "chunk va len = len \<or> unat (PGROUNDDOWN va + PGSIZE) + (len - chunk va len) \<le> TFP * 4096"
  shows "unat va + len \<le> TFP * 4096"
proof -
  define k o' where "k = unat va div 4096" and "o' = unat va mod 4096"
  have u: "unat va = k * 4096 + o'" "o' < 4096" by (simp_all add: k_def o'_def)
  have k: "k < TFP" using assms(1) by (simp add: vp_def k_def)
  have nx: "unat (PGROUNDDOWN va + PGSIZE) = k * 4096 + 4096"
    using k by (simp add: unat_word_ariths unat_PGROUNDDOWN k_def)
  have c: "chunk va len = min (4096 - o') len" by (simp add: chunk_def page_offset o'_def)
  show ?thesis
  proof (cases "len \<le> 4096 - o'")
    case True
    then have "unat va + len \<le> (k + 1) * 4096" using u by simp
    also have "\<dots> \<le> TFP * 4096" using k by (intro mult_le_mono1) simp
    finally show ?thesis .
  next
    case False
    then have "chunk va len = 4096 - o'" "chunk va len \<noteq> len" using c by auto
    then show ?thesis using assms(2) nx u False by simp
  qed
qed

lemma copyout_bytes:
  assumes i: "i < length bs" and top: "unat va + length bs \<le> TFP * 4096" and vp: "vp va < TFP"
    and here: "\<And>i. i < chunk va (length bs) \<Longrightarrow> ubyte m1 root (va + of_nat i) = Some (bs ! i)"
    and keep: "\<And>v b. v < MAXVA \<Longrightarrow> outside (PGROUNDDOWN va + PGSIZE) (length (drop (chunk va (length bs)) bs)) v \<Longrightarrow>
      ubyte m1 root v = Some b \<Longrightarrow> ubyte m' root v = Some b"
    and later: "\<forall>i < length (drop (chunk va (length bs)) bs).
      ubyte m' root (PGROUNDDOWN va + PGSIZE + of_nat i) = Some (drop (chunk va (length bs)) bs ! i)"
  shows "ubyte m' root (va + of_nat i) = Some (bs ! i)"
proof -
  let ?n = "chunk va (length bs)"
  show ?thesis
  proof (cases "i < ?n")
    case True
    have "vp (va + of_nat i) < TFP" using vp in_page(2) [OF chunk_le(2) [OF True]] by simp
    then have mx: "va + of_nat i < MAXVA" by (rule vp_user)
    have "outside (PGROUNDDOWN va + PGSIZE) (length (drop ?n bs)) (va + of_nat i)"
    proof (cases "?n < length bs")
      case c: True
      then show ?thesis using before_outside [OF True c top] by simp
    qed (simp add: outside_def)
    then show ?thesis using keep [OF mx _ here [OF True]] by blast
  next
    case False
    then have c: "?n < length bs" using i by simp
    have "i - ?n < length (drop ?n bs)" using False i by simp
    then have "ubyte m' root (PGROUNDDOWN va + PGSIZE + of_nat (i - ?n)) = Some (drop ?n bs ! (i - ?n))" using later by blast
    moreover have "PGROUNDDOWN va + PGSIZE + of_nat (i - ?n) = va + of_nat i"
      unfolding chunk_next [OF c, symmetric] using False by (simp add: of_nat_diff not_less)
    moreover have "drop ?n bs ! (i - ?n) = bs ! i" using False i by simp
    ultimately show ?thesis by (simp only:)
  qed
qed

lemma copyout_spec:
  fixes s :: "'a proc_state_scheme"
  assumes "uas s xs root sz" "own_space root sz s"
  shows "\<exists>r s' ys. copyout root va bs s = Done r s' \<and> as_step s xs root s' ys \<and> uas s' ys root sz \<and>
    (r = 0 \<and> (bs \<noteq> [] \<longrightarrow> unat va + length bs \<le> TFP * 4096) \<and>
       (\<forall>i < length bs. ubyte (mem s') root (va + of_nat i) = Some (bs ! i)) \<or> r = -1) \<and>
    (\<forall>v b. v < MAXVA \<longrightarrow> outside va (length bs) v \<longrightarrow> ubyte (mem s) root v = Some b \<longrightarrow> ubyte (mem s') root v = Some b)"
  using assms
proof (induction bs arbitrary: va s xs rule: length_induct)
  case (1 bs)
  note u = 1(2) and own = 1(3)
  note refl = as_step_refl [OF as_fullD [OF uasD [OF u]]]
  show ?case
  proof (cases "bs = []")
    case True
    then have "copyout root va bs s = Done 0 s" by (simp add: copyout.simps)
    then show ?thesis using refl u True by (intro exI [of _ 0] exI [of _ s] exI [of _ xs]) simp
  next
    case ne: False
    show ?thesis
    proof (cases "PGROUNDDOWN va < MAXVA")
      case False
      then have "copyout root va bs s = Done (-1) s" using ne by (simp add: copyout.simps [of root va] not_less)
      then show ?thesis using refl u by (intro exI [of _ "-1"] exI [of _ s] exI [of _ xs]) simp
    next
      case True
      show ?thesis
      proof (rule copyout_step [OF u own ne True], goal_cases)
        case (1 s' ys)
        then show ?case by (intro exI [of _ "-1"] exI [of _ s'] exI [of _ ys]) simp
      next
        case (2 s1 ys)
        let ?n = "chunk va (length bs)" and ?va' = "PGROUNDDOWN va + PGSIZE"
        have npos: "0 < ?n" using ne by (intro chunk_pos) simp
        have nle: "?n \<le> length bs" by (rule chunk_le)
        have own1: "own_space root sz s1" using own own_space_rest [of s s1] 2(2) by (simp add: as_step_def)
        have "length (drop ?n bs) < length bs" using npos ne by simp
        from 1(1) [rule_format, OF this 2(3) own1, of ?va']
        obtain r s' zs where s': "copyout root ?va' (drop ?n bs) s1 = Done r s'" "as_step s1 ys root s' zs" "uas s' zs root sz"
          "r = 0 \<and> (drop ?n bs \<noteq> [] \<longrightarrow> unat ?va' + length (drop ?n bs) \<le> TFP * 4096) \<and>
            (\<forall>i < length (drop ?n bs). ubyte (mem s') root (?va' + of_nat i) = Some (drop ?n bs ! i)) \<or> r = -1"
          "\<And>v b. v < MAXVA \<Longrightarrow> outside ?va' (length (drop ?n bs)) v \<Longrightarrow> ubyte (mem s1) root v = Some b \<Longrightarrow> ubyte (mem s') root v = Some b"
          by blast
        have keepb: "ubyte (mem s') root v = Some b"
          if v: "v < MAXVA" "outside va (length bs) v" "ubyte (mem s) root v = Some b" for v b
        proof -
          note o = outside_split [OF v(2) nle]
          have b1: "ubyte (mem s1) root v = Some b" by (rule 2(6) [OF v(1) o(1) v(3)])
          have "outside ?va' (length (drop ?n bs)) v"
            using o(2) chunk_next [of va "length bs"] nle by (cases "?n = length bs") (simp_all add: outside_def)
          then show ?thesis using s'(5) v(1) b1 by blast
        qed
        have good: "unat va + length bs \<le> TFP * 4096 \<and> (\<forall>i < length bs. ubyte (mem s') root (va + of_nat i) = Some (bs ! i))" if r: "r = 0"
        proof -
          have top: "unat va + length bs \<le> TFP * 4096"
          proof (rule copyout_top [OF 2(4)])
            have "unat ?va' + length (drop ?n bs) \<le> TFP * 4096" if "drop ?n bs \<noteq> []"
              using s'(4) r that by (elim disjE conjE) simp_all
            then show "?n = length bs \<or> unat ?va' + (length bs - ?n) \<le> TFP * 4096"
              using nle unfolding length_drop by (cases "?n = length bs") simp_all
          qed
          have later: "\<forall>i < length (drop ?n bs). ubyte (mem s') root (?va' + of_nat i) = Some (drop ?n bs ! i)"
            using s'(4) r by (elim disjE conjE) simp_all
          show ?thesis
            by (intro conjI top allI impI, rule copyout_bytes [OF _ top 2(4) _ _ later]) (assumption, erule 2(5), erule (2) s'(5))
        qed
        have "r = 0 \<and> (bs \<noteq> [] \<longrightarrow> unat va + length bs \<le> TFP * 4096) \<and>
            (\<forall>i < length bs. ubyte (mem s') root (va + of_nat i) = Some (bs ! i)) \<or> r = -1"
          using s'(4) good by blast
        then show ?case
          using 2(1) s'(1,3) as_step_trans [OF 2(2) s'(2)] keepb
          by (intro exI [of _ r] exI [of _ s'] exI [of _ zs]) simp
      qed
    qed
  qed
qed

section \<open>copyin\<close>

lemma copyin_mapped:
  fixes s :: "'a proc_state_scheme"
  assumes "uas s xs root sz" "own_space root sz s" "\<forall>i < len. ubyte (mem s) root (va + of_nat i) \<noteq> None"
    "unat va + len \<le> TFP * 4096"
  shows "copyin root va len s = Done (0, map (\<lambda>i. the (ubyte (mem s) root (va + of_nat i))) [0..<len]) s"
  using assms(3,4)
proof (induction len arbitrary: va rule: less_induct)
  case (less len)
  show ?case
  proof (cases "len = 0")
    case True
    then show ?thesis by (simp add: copyin.simps)
  next
    case False
    let ?va = "PGROUNDDOWN va" and ?n = "chunk va len"
    have n: "0 < ?n" "?n \<le> len" using False by (simp_all add: chunk_pos chunk_le)
    have "unat va < TFP * 4096" using less.prems(2) False by simp
    then have vp: "vp va < TFP" unfolding vp_def by (simp add: less_mult_imp_div_less)
    then have mx: "va < MAXVA" "?va < MAXVA" by (simp_all add: vp_user PGROUNDDOWN_facts)
    have "ubyte (mem s) root va \<noteq> None" using less.prems(1) [rule_format, of 0] False by simp
    then obtain e where e: "lookup (mem s) root va = Some e" "e AND PTE_U \<noteq> 0"
      by (auto simp: ubyte_def split: option.splits if_splits)
    have same: "lookup (mem s) root v = Some e" if "vp v = vp va" for v using e(1) lookup_vp [OF that] by simp
    then have e0: "lookup (mem s) root ?va = Some e" by (simp add: PGROUNDDOWN_facts)
    have up: "user_page root ?va s = Done (PTE2PA e) s" "PTE2PA e \<noteq> 0"
      using uas_page(3) [OF assms(1) mx(2) e0 e(2)] e0 e(2) by (simp_all add: user_page_def walkaddr_lookup [OF mx(2)])
    have page: "page_read (mem s (PTE2PA e)) (unat (va - ?va)) ?n = map (\<lambda>i. the (ubyte (mem s) root (va + of_nat i))) [0..<?n]"
      unfolding page_read_def
    proof (rule map_cong [OF refl])
      fix i assume "i \<in> set [0..<?n]"
      then have i: "i < ?n" by simp
      note ip = in_page [OF chunk_le(2) [OF i]]
      show "mem s (PTE2PA e) (unat (va - ?va) + i) = the (ubyte (mem s) root (va + of_nat i))"
        using same [OF ip(2)] e(2) by (simp add: ubyte_def ip(3) page_offset)
    qed
    show ?thesis
    proof (cases "?n = len")
      case True
      have "copyin root (?va + PGSIZE) (len - ?n) s = Done (0, []) s" using True by (simp add: copyin.simps)
      then show ?thesis using up page True False by (simp add: copyin.simps [of root va])
    next
      case c: False
      then have nx: "?va + PGSIZE = va + of_nat ?n" using chunk_next [of va len] n by simp
      have ad: "?va + PGSIZE + of_nat i = va + of_nat (?n + i)" for i unfolding nx by (simp add: add.assoc)
      have mp: "\<forall>i < len - ?n. ubyte (mem s) root (?va + PGSIZE + of_nat i) \<noteq> None"
      proof (intro allI impI)
        fix i assume "i < len - ?n"
        then have "?n + i < len" by simp
        then show "ubyte (mem s) root (?va + PGSIZE + of_nat i) \<noteq> None" unfolding ad using less.prems(1) by blast
      qed
      have "unat (va + of_nat ?n) = unat va + ?n" using n less.prems(2) by (simp add: unat_word_ariths unat_of_nat)
      then have "unat (?va + PGSIZE) + (len - ?n) \<le> TFP * 4096" unfolding nx using n less.prems(2) by simp
      from less.IH [OF _ mp this] n
      have "copyin root (?va + PGSIZE) (len - ?n) s =
          Done (0, map (\<lambda>i. the (ubyte (mem s) root (va + of_nat (?n + i)))) [0..<len - ?n]) s"
        unfolding ad by simp
      moreover have "[0..<len] = [0..<?n] @ map ((+) ?n) [0..<len - ?n]"
      proof -
        have "map ((+) ?n) [0..<len - ?n] = [?n..<len]" by (rule nth_equalityI) simp_all
        then show ?thesis using n upt_add_eq_append [of 0 ?n "len - ?n"] by simp
      qed
      ultimately show ?thesis using up page False by (simp add: copyin.simps [of root va] comp_def Let_def)
    qed
  qed
qed

section \<open>An example process\<close>

definition ex_uproc :: proc where
  "ex_uproc = \<lparr>p_state = RUNNING, p_chan = None, p_killed = 0, p_xstate = 0, p_pid = 7, p_parent = None,
     p_kstack = 0, p_sz = 0x3000, p_pagetable = 0x86000000, p_trapframe = 0, p_context = zero_context,
     p_ofile = replicate NOFILE None, p_cwd = None, p_name = (\<lambda>_. 0), p_tickets = 1, p_ticks = 0\<rparr>"

definition ex_ustate :: proc_state where
  "ex_ustate = \<lparr>kend = 0x80100000, etext = 0x80008000, trampoline = 0x80007000, freelist = 0x87000000,
     mem = ex_mem, forkret_pc = 0, procs = [ex_uproc], nextpid = 8, initproc = None, rand_state = 1,
     cpus = (\<lambda>_. \<lparr>c_proc = Some 0, c_noff = 0, c_intena = False\<rparr>), tp = 0\<rparr>"

lemma ex_uas: "uas ex_ustate [0x87000000, 0x87001000, 0x87002000] 0x86000000 0x3000"
proof -
  have k: "kmem_inv ex_ustate [0x87000000, 0x87001000, 0x87002000]"
    by (simp add: kmem_inv_def ex_ustate_def ex_mem_def page_ok_def ld64_st64)
  have r: "mem ex_ustate 0x86000000 = (\<lambda>_. 0)" "page_ok ex_ustate 0x86000000"
    by (simp_all add: ex_ustate_def ex_mem_def page_ok_def)
  note z = zero_root [OF r(1) k r(2)]
  show ?thesis using z(1,5) by (simp add: uas_def)
qed

lemma ex_own: "own_space 0x86000000 0x3000 ex_ustate"
  by (simp add: own_space_def ex_ustate_def ex_uproc_def myproc_def mycpu_def cpuid_def)

lemma ex_run: "case copyout 0x86000000 0x1004 [7, 8] ex_ustate of
    Done r s \<Rightarrow> r = 0 \<and> (case lookup (mem s) 0x86000000 0x1004 of
      Some e \<Rightarrow> e AND PTE_U \<noteq> 0 \<and> e AND PTE_W \<noteq> 0 | None \<Rightarrow> False)
  | _ \<Rightarrow> False"
  by code_simp

lemma ex_copyout:
  "\<exists>s e. copyout 0x86000000 0x1004 [7, 8] ex_ustate = Done 0 s \<and> lookup (mem s) 0x86000000 0x1004 = Some e \<and>
    e AND PTE_U \<noteq> 0 \<and> e AND PTE_W \<noteq> 0"
  using ex_run by (simp split: outcome.splits option.splits)

section \<open>Properties\<close>

text \<open>C7: \<^verbatim>\<open>copyout\<close> into the address space of the current process never panics; when it returns
  0 the user sees exactly the copied bytes at \<open>dstva\<close> and all other user memory unchanged,
  and the range lies below the trapframe; memory of other processes and of the kernel is
  not written, and the invariant of the address space is kept also on failure.\<close>

theorem copyout_correct:
  fixes s :: "'a proc_state_scheme"
  assumes "uas s xs root sz" and "own_space root sz s"
  shows "\<exists>r s' ys. copyout root va bs s = Done r s' \<and> as_step s xs root s' ys \<and> uas s' ys root sz \<and>
    (r = 0 \<and> (bs \<noteq> [] \<longrightarrow> unat va + length bs \<le> unat TRAPFRAME) \<and>
       (\<forall>i < length bs. ubyte (mem s') root (va + of_nat i) = Some (bs ! i)) \<or> r = -1) \<and>
    (\<forall>v b. v < MAXVA \<longrightarrow> outside va (length bs) v \<longrightarrow> ubyte (mem s) root v = Some b \<longrightarrow> ubyte (mem s') root v = Some b)"
  using copyout_spec [OF assms, of va bs] by simp

lemma copyout_correct_witness:
  "\<exists>r s' ys. copyout 0x86000000 0x1004 [7, 8] ex_ustate = Done r s' \<and>
    as_step ex_ustate [0x87000000, 0x87001000, 0x87002000] 0x86000000 s' ys \<and> uas s' ys 0x86000000 0x3000 \<and>
    (r = 0 \<and> (([7, 8] :: u8 list) \<noteq> [] \<longrightarrow> unat (0x1004 :: u64) + length ([7, 8] :: u8 list) \<le> unat TRAPFRAME) \<and>
       (\<forall>i < length ([7, 8] :: u8 list). ubyte (mem s') 0x86000000 (0x1004 + of_nat i) = Some ([7, 8] ! i)) \<or> r = -1) \<and>
    (\<forall>v b. v < MAXVA \<longrightarrow> outside 0x1004 (length ([7, 8] :: u8 list)) v \<longrightarrow>
       ubyte (mem ex_ustate) 0x86000000 v = Some b \<longrightarrow> ubyte (mem s') 0x86000000 v = Some b)"
  by (rule copyout_correct [OF ex_uas ex_own])

text \<open>C31: what \<^verbatim>\<open>copyout\<close> stored, \<^verbatim>\<open>copyin\<close> of the same range reads back, without faulting and
  without changing the state.\<close>

theorem copyout_copyin_roundtrip:
  fixes s :: "'a proc_state_scheme"
  assumes "uas s xs root sz" and "own_space root sz s" and "copyout root va bs s = Done 0 s'" and "bs \<noteq> []"
  shows "copyin root va (length bs) s' = Done (0, bs) s'"
proof -
  obtain r t ys where t: "copyout root va bs s = Done r t" "as_step s xs root t ys" "uas t ys root sz"
    "r = 0 \<and> (bs \<noteq> [] \<longrightarrow> unat va + length bs \<le> TFP * 4096) \<and>
       (\<forall>i < length bs. ubyte (mem t) root (va + of_nat i) = Some (bs ! i)) \<or> r = -1"
    using copyout_spec [OF assms(1,2), of va bs] by (elim exE conjE)
  have eq: "r = 0" "t = s'" using t(1) assms(3) by simp_all
  have top: "unat va + length bs \<le> TFP * 4096" and by': "\<forall>i < length bs. ubyte (mem s') root (va + of_nat i) = Some (bs ! i)"
    using t(4) assms(4) by (auto simp: eq)
  have own: "own_space root sz s'" using assms(2) own_space_rest [of s s'] t(2) by (simp add: as_step_def eq)
  have "map (\<lambda>i. the (ubyte (mem s') root (va + of_nat i))) [0..<length bs] = bs"
    by (rule nth_equalityI) (use by' in auto)
  moreover have "uas s' ys root sz" using t(3) by (simp add: eq)
  ultimately show ?thesis using copyin_mapped [OF _ own _ top] by' by fastforce
qed

lemma copyout_copyin_roundtrip_witness:
  "\<exists>s'. copyout 0x86000000 0x1004 [7, 8] ex_ustate = Done 0 s' \<and> copyin 0x86000000 0x1004 2 s' = Done (0, [7, 8]) s'"
proof -
  obtain s' where s': "copyout 0x86000000 0x1004 [7, 8] ex_ustate = Done 0 s'"
    using ex_copyout by (elim exE conjE)
  show ?thesis using s' copyout_copyin_roundtrip [OF ex_uas ex_own s'] by (simp add: numeral_2_eq_2)
qed

text \<open>C32: the null-page guard: in the address space of a process \<^verbatim>\<open>vmfault\<close> refuses every address
  in page 0, \<^verbatim>\<open>copyout\<close> and \<^verbatim>\<open>copyin\<close> of a non-empty range starting there fail, and none of the
  three changes the state.\<close>

theorem null_page_guard:
  fixes s :: "'a proc_state_scheme"
  assumes "uas s xs root sz" and "own_space root sz s" and "va < PGSIZE" and "bs \<noteq> []" and "0 < len"
  shows "vmfault root va s = Done 0 s \<and> copyout root va bs s = Done (-1) s \<and> copyin root va len s = Done (-1, []) s"
proof -
  have vf: "vmfault root w s = Done 0 s" if "w < PGSIZE" for w using that by (simp add: vmfault_def)
  have z: "PGROUNDDOWN va = 0" using assms(3) by (simp add: word_unat_eq_iff unat_PGROUNDDOWN word_less_nat_alt)
  have "lookup (mem s) root 0 = None"
  proof (rule ccontr)
    assume "lookup (mem s) root 0 \<noteq> None"
    then obtain e where "lookup (mem s) root 0 = Some e" by blast
    then have "if vp 0 < TFP then 1 \<le> vp 0 \<and> vp 0 < up sz else e AND PTE_U = 0"
      using assms(1) unfolding uas_def by (elim conjE allE [of _ 0] allE [of _ e] impE) simp_all
    then show False by (simp add: vp_def)
  qed
  then have "walkaddr root 0 s = Done 0 s" by (simp add: walkaddr_lookup)
  then have "user_page root 0 s = Done 0 s" by (simp add: user_page_def vf)
  then show ?thesis using vf [OF assms(3)] assms(4,5)
    by (simp add: copyout.simps [of root va] copyin.simps [of root va] z)
qed

lemma null_page_guard_witness:
  "vmfault 0x86000000 0x10 ex_ustate = Done 0 ex_ustate \<and>
   copyout 0x86000000 0x10 [1] ex_ustate = Done (-1) ex_ustate \<and>
   copyin 0x86000000 0x10 4 ex_ustate = Done (-1, []) ex_ustate"
  by (rule null_page_guard [OF ex_uas ex_own]) simp_all

end
