(* ===== verification/Ring.thy ===== *)
theory Ring
  imports Prelude
begin

text \<open>
  Circular buffers indexed by free-running 32-bit counters, as pipes (\<^verbatim>\<open>nread\<close>, \<^verbatim>\<open>nwrite\<close>) and the
  console (\<^verbatim>\<open>r\<close>, \<^verbatim>\<open>w\<close>, \<^verbatim>\<open>e\<close>) use them: the list of bytes between two counters, and how storing and
  removing a byte changes it, across the wrap-around of the counters. \<open>byte_queue\<close> is the
  contract of a bounded first-in first-out queue.
\<close>

definition ring_list :: "nat \<Rightarrow> (nat \<Rightarrow> u8) \<Rightarrow> u32 \<Rightarrow> u32 \<Rightarrow> u8 list" where
  "ring_list N buf r w = map (\<lambda>k. buf (unat (r + of_nat k) mod N)) [0..<unat (w - r)]"

lemma length_ring_list [simp]: "length (ring_list N buf r w) = unat (w - r)"
  by (simp add: ring_list_def)

lemma ring_list_empty: "ring_list N buf r w = [] \<longleftrightarrow> r = w"
  by (auto simp: ring_list_def unat_eq_0)

lemma ring_index_mod:
  assumes "N dvd 2 ^ 32" "k < 2 ^ 32"
  shows "unat (r + of_nat k :: u32) mod N = (unat r + k) mod N"
proof -
  have "unat (r + of_nat k :: u32) = (unat r + k) mod 2 ^ 32"
    using assms(2) by (simp add: unat_word_ariths unat_of_nat)
  then show ?thesis using assms(1) by (simp add: mod_mod_cancel)
qed

lemma ring_index_inj:
  assumes "N dvd 2 ^ 32" "j < N" "k < N" "unat (r + of_nat j :: u32) mod N = unat (r + of_nat k) mod N"
  shows "j = k"
proof -
  have "N \<le> 2 ^ 32" using assms(1) by (rule dvd_imp_le) simp
  then have "(unat r + j) mod N = (unat r + k) mod N"
    using ring_index_mod [OF assms(1), of j r] ring_index_mod [OF assms(1), of k r] assms(2-4) by simp
  then have "j mod N = k mod N" by (simp add: nat_mod_eq_iff) 
  then show ?thesis using assms(2,3) by simp
qed

lemma unat_word_Suc: "unat (x :: u32) + 1 < 2 ^ 32 \<Longrightarrow> unat (x + 1) = Suc (unat x)"
  by (simp add: unat_word_ariths)

lemma unat_word_nonzero: "(x :: u32) + 1 \<noteq> 0 \<Longrightarrow> unat (x + 1) = Suc (unat x)"
proof (rule unat_word_Suc, rule ccontr)
  assume "x + 1 \<noteq> 0" and "\<not> unat x + 1 < 2 ^ 32"
  then have "unat x + 1 = 2 ^ 32" using unsigned_less [of x, where ?'a = nat] by simp
  then have "unat (x + 1) = 0" by (simp add: unat_word_ariths)
  with \<open>x + 1 \<noteq> 0\<close> show False by (simp only: unat_eq_zero)
qed

lemma ring_get:
  assumes "r \<noteq> w"
  shows "ring_list N buf r w = buf (unat r mod N) # ring_list N buf (r + 1) w"
proof -
  let ?x = "w - (r + 1)"
  have x: "?x + 1 = w - r" by simp
  have "?x + 1 \<noteq> 0" unfolding x using assms by simp
  then have n: "unat (w - r) = Suc (unat ?x)"
    unfolding x [symmetric] by (rule unat_word_nonzero)
  have "[0..<Suc m] = 0 # map Suc [0..<m]" for m by (simp add: upt_conv_Cons map_Suc_upt)
  then show ?thesis unfolding ring_list_def n by (simp add: add.assoc)
qed

lemma ring_put:
  assumes "N dvd 2 ^ 32" "N < 2 ^ 32" "unat (w - r) < N"
  shows "ring_list N (buf(unat w mod N := c)) r (w + 1) = ring_list N buf r w @ [c]"
proof -
  let ?n = "unat (w - r)"
  have n: "unat (w + 1 - r) = Suc ?n"
    using unat_word_Suc [of "w - r"] assms(2,3) by (simp add: algebra_simps)
  have w: "r + of_nat ?n = w" by simp
  have "(buf(unat w mod N := c)) (unat (r + of_nat k) mod N) = buf (unat (r + of_nat k) mod N)" if "k < ?n" for k
  proof -
    have "unat (r + of_nat k) mod N \<noteq> unat w mod N"
      using ring_index_inj [OF assms(1), of k ?n r] that assms(3) unfolding w by auto
    then show ?thesis by simp
  qed
  then show ?thesis unfolding ring_list_def n by (simp add: w)
qed

lemma ring_unput:
  assumes "w \<noteq> r"
  shows "ring_list N buf r (w - 1) = butlast (ring_list N buf r w)"
proof -
  let ?x = "w - 1 - r"
  have x: "?x + 1 = w - r" by simp
  have "?x + 1 \<noteq> 0" unfolding x using assms by simp
  then have n: "unat (w - r) = Suc (unat ?x)"
    unfolding x [symmetric] by (rule unat_word_nonzero)
  show ?thesis unfolding ring_list_def n by simp
qed

lemma ring_last:
  assumes "w \<noteq> r"
  shows "last (ring_list N buf r w) = buf (unat (w - 1) mod N)"
proof -
  let ?x = "w - 1 - r"
  have x: "?x + 1 = w - r" by simp
  have "?x + 1 \<noteq> 0" unfolding x using assms by simp
  then have n: "unat (w - r) = Suc (unat ?x)"
    unfolding x [symmetric] by (rule unat_word_nonzero)
  show ?thesis unfolding ring_list_def n by simp
qed

lemma ring_put_other:
  assumes "N dvd 2 ^ 32" "unat (e - r) < N" "unat (w - r) \<le> unat (e - r)"
  shows "ring_list N (buf(unat e mod N := c)) r w = ring_list N buf r w"
proof -
  have e: "r + of_nat (unat (e - r)) = e" by simp
  have "unat (r + of_nat k) mod N \<noteq> unat e mod N" if "k < unat (w - r)" for k
    using ring_index_inj [OF assms(1), of k "unat (e - r)" r] that assms(2,3) unfolding e by auto
  then show ?thesis by (simp add: ring_list_def)
qed

lemma unat_diff_Suc: "unat (e - w :: u32) < 1000 \<Longrightarrow> unat (e + 1 - w) = Suc (unat (e - w))"
  using unat_word_Suc [of "e - w"] by (simp add: algebra_simps)

lemma unat_diff_pred: "(e :: u32) \<noteq> w \<Longrightarrow> unat (e - w) = Suc (unat (e - 1 - w))"
  using unat_word_nonzero [of "e - 1 - w"] by simp

lemma ring_split:
  assumes "unat (m - r) + unat (w - m) = unat (w - r)"
  shows "ring_list N buf r w = ring_list N buf r m @ ring_list N buf m w"
proof (rule nth_equalityI)
  fix k assume "k < length (ring_list N buf r w)"
  then have k: "k < unat (w - r)" by simp
  show "ring_list N buf r w ! k = (ring_list N buf r m @ ring_list N buf m w) ! k"
  proof (cases "k < unat (m - r)")
    case True
    then show ?thesis using k by (simp add: ring_list_def nth_append)
  next
    case False
    then have "r + of_nat k = m + of_nat (k - unat (m - r))" by (simp add: of_nat_diff not_less)
    then show ?thesis using False k assms by (simp add: ring_list_def nth_append add.commute)
  qed
qed (use assms in simp)

section \<open>Bounded queues\<close>

text \<open>
  \<open>cont q\<close> is what a queue holds. \<open>put\<close> appends one byte when the queue is not full, \<open>get\<close>
  removes the oldest one when it is not empty.
\<close>

datatype qop = Put u8 | Get

locale byte_queue =
  fixes cont :: "'q \<Rightarrow> u8 list" and ok :: "'q \<Rightarrow> bool" and cap :: nat
    and full :: "'q \<Rightarrow> bool" and put :: "u8 \<Rightarrow> 'q \<Rightarrow> 'q" and empty :: "'q \<Rightarrow> bool" and get :: "'q \<Rightarrow> u8 \<times> 'q"
  assumes cont_cap: "ok q \<Longrightarrow> length (cont q) \<le> cap"
    and full_cont: "ok q \<Longrightarrow> full q \<longleftrightarrow> length (cont q) = cap"
    and put_ok: "ok q \<Longrightarrow> \<not> full q \<Longrightarrow> ok (put c q) \<and> cont (put c q) = cont q @ [c]"
    and empty_cont: "ok q \<Longrightarrow> empty q \<longleftrightarrow> cont q = []"
    and get_ok: "ok q \<Longrightarrow> \<not> empty q \<Longrightarrow> get q = (c, q') \<Longrightarrow> ok q' \<and> cont q = c # cont q'"
begin

text \<open>A run of attempted operations: what went in, what came out and the final queue. A
  \<open>Put\<close> on a full queue and a \<open>Get\<close> on an empty one wait, that is, do nothing yet.\<close>

fun qrun :: "qop list \<Rightarrow> 'q \<Rightarrow> u8 list \<times> u8 list \<times> 'q" where
  "qrun [] q = ([], [], q)"
| "qrun (Put c # ops) q =
     (if full q then qrun ops q
      else case qrun ops (put c q) of (ins, outs, q') \<Rightarrow> (c # ins, outs, q'))"
| "qrun (Get # ops) q =
     (if empty q then qrun ops q
      else case get q of (c, q1) \<Rightarrow> case qrun ops q1 of (ins, outs, q') \<Rightarrow> (ins, c # outs, q'))"

lemma qrun_fifo:
  "ok q \<Longrightarrow> qrun ops q = (ins, outs, q') \<Longrightarrow> ok q' \<and> cont q @ ins = outs @ cont q' \<and> length (cont q') \<le> cap"
proof (induction ops q arbitrary: ins outs q' rule: qrun.induct)
  case (1 q)
  then show ?case using cont_cap by simp
next
  case (2 c ops q)
  show ?case
  proof (cases "full q")
    case True
    then show ?thesis using 2 by simp
  next
    case False
    then obtain ins' where r: "qrun ops (put c q) = (ins', outs, q')" "ins = c # ins'"
      using 2(4) by (auto split: prod.splits)
    then show ?thesis using 2(2) [OF False _ r(1)] put_ok [OF 2(3) False, of c] by simp
  qed
next
  case (3 ops q)
  show ?case
  proof (cases "empty q")
    case True
    then show ?thesis using 3 by simp
  next
    case False
    obtain c q1 where g: "get q = (c, q1)" by (cases "get q")
    then obtain outs' where r: "qrun ops q1 = (ins, outs', q')" "outs = c # outs'"
      using 3(4) False by (auto split: prod.splits)
    then show ?thesis using 3(2) [OF False g [symmetric] _ r(1)] get_ok [OF 3(3) False g] by simp
  qed
qed

end

end
