(* ===== verification/Sched.thy ===== *)
theory Sched
  imports Proc
begin

text \<open>
  Facts about \<^verbatim>\<open>sleep\<close>, \<^verbatim>\<open>wakeup\<close>, \<^verbatim>\<open>kkill\<close> and the process table that the blocking operations
  of the kernel share.
\<close>

section \<open>sleep\<close>

text \<open>\<open>asleep c s\<close>: the current process is marked as sleeping on \<open>c\<close> and has left the CPU.\<close>

definition asleep :: "chan \<Rightarrow> 'a proc_state_scheme \<Rightarrow> 'a proc_state_scheme" where
  "asleep c s = set_cpu_proc None (set_proc (cur s) (\<lambda>p. p\<lparr>p_chan := Some c, p_state := SLEEPING\<rparr>) s)"

lemma myproc_set_proc [simp]: "myproc (set_proc i f s) = myproc s"
  by (simp add: myproc_def mycpu_def cpuid_def set_proc_def)

lemma proc_at_set_proc:
  "i < length (procs s) \<Longrightarrow> proc_at (set_proc i f s) j = (if i = j then f (proc_at s i) else proc_at s j)"
  by (simp add: set_proc_def nth_list_update)

lemma length_procs_set_proc [simp]: "length (procs (set_proc i f s)) = length (procs s)"
  by (simp add: set_proc_def)

lemma procs_set_cpu_proc [simp]: "procs (set_cpu_proc p s) = procs s"
  by (simp add: set_cpu_proc_def)

lemma myproc_set_cpu_proc [simp]: "myproc (set_cpu_proc p s) = p"
  by (simp add: myproc_def mycpu_def cpuid_def set_cpu_proc_def)

lemma sleep_asleep: "cur s < length (procs s) \<Longrightarrow> sleep c s = Asleep c (asleep c s)"
  by (simp add: sleep_def sched_def asleep_def proc_at_set_proc)

lemma asleep_facts:
  assumes "cur s < length (procs s)"
  shows "myproc (asleep c s) = None" and "length (procs (asleep c s)) = length (procs s)"
    and "p_state (proc_at (asleep c s) (cur s)) = SLEEPING" and "p_chan (proc_at (asleep c s) (cur s)) = Some c"
    and "j \<noteq> cur s \<Longrightarrow> proc_at (asleep c s) j = proc_at s j"
  using assms by (simp_all add: asleep_def proc_at_set_proc)

section \<open>wakeup\<close>

lemma wakeup_simps [simp]:
  "length (procs (wakeup c s)) = length (procs s)" "myproc (wakeup c s) = myproc s"
  "mem (wakeup c s) = mem s" "freelist (wakeup c s) = freelist s"
  by (simp_all add: wakeup_def myproc_def mycpu_def cpuid_def)

lemma proc_at_wakeup:
  "i < length (procs s) \<Longrightarrow> proc_at (wakeup c s) i =
    (if myproc s \<noteq> Some i \<and> p_state (proc_at s i) = SLEEPING \<and> p_chan (proc_at s i) = Some c
     then (proc_at s i)\<lparr>p_state := RUNNABLE\<rparr> else proc_at s i)"
  by (simp add: wakeup_def Let_def)

lemma wakeup_keeps:
  assumes "i < length (procs s)"
  shows "p_killed (proc_at (wakeup c s) i) = p_killed (proc_at s i)"
    and "p_pagetable (proc_at (wakeup c s) i) = p_pagetable (proc_at s i)"
    and "p_sz (proc_at (wakeup c s) i) = p_sz (proc_at s i)"
    and "p_chan (proc_at (wakeup c s) i) = p_chan (proc_at s i)"
  using assms by (simp_all add: proc_at_wakeup)

text \<open>\<open>woken c s\<close>: nobody but the process on this CPU is asleep on \<open>c\<close>.\<close>

definition woken :: "chan \<Rightarrow> 'a proc_state_scheme \<Rightarrow> bool" where
  "woken c s \<longleftrightarrow> (\<forall>i < length (procs s). myproc s \<noteq> Some i \<longrightarrow>
     \<not> (p_state (proc_at s i) = SLEEPING \<and> p_chan (proc_at s i) = Some c))"

lemma wakeup_woken: "woken c (wakeup c s)"
  by (auto simp: woken_def proc_at_wakeup)

lemma asleep_woken:
  assumes "woken c s" "d \<noteq> c" "cur s < length (procs s)"
  shows "woken c (asleep d s)"
  unfolding woken_def
proof (intro allI impI)
  fix i assume i: "i < length (procs (asleep d s))" "myproc (asleep d s) \<noteq> Some i"
  note af = asleep_facts(1-4) [OF assms(3), of d]
  show "\<not> (p_state (proc_at (asleep d s) i) = SLEEPING \<and> p_chan (proc_at (asleep d s) i) = Some c)"
  proof (cases "i = cur s")
    case True
    then show ?thesis using af(4) assms(2) by simp
  next
    case False
    then have "myproc s \<noteq> Some i" by auto
    then show ?thesis using assms(1) i(1) af(2) asleep_facts(5) [OF assms(3) False] by (auto simp: woken_def)
  qed
qed

section \<open>kill\<close>

text \<open>
  A slot that is not in use has pid 0, so \<^verbatim>\<open>kill(0)\<close> finds one, reports success and sets
  its \<^verbatim>\<open>killed\<close> flag; \<^verbatim>\<open>allocproc\<close> does not clear that flag when it hands out the slot.
\<close>

lemma find_upt_least:
  assumes "i < n" "P i"
  obtains j where "List.find P [0..<n] = Some j" "j \<le> i" "P j" "\<forall>k < j. \<not> P k"
proof (cases "List.find P [0..<n]")
  case None
  then show ?thesis using assms by (simp add: find_upt_None)
next
  case (Some j)
  then have "P j" "\<forall>k < j. \<not> P k" by (simp_all add: find_upt_Some)
  moreover from this have "j \<le> i" using assms(2) by (meson not_le)
  ultimately show ?thesis using that Some by blast
qed

end
