(* ===== verification/Pipe.thy ===== *)
theory Pipe
  imports UserMem Ring Sched
begin

text \<open>
  \<^verbatim>\<open>kernel/pipe.c\<close>: the ring buffer of a pipe and \<^verbatim>\<open>pipewrite\<close>, \<^verbatim>\<open>piperead\<close>, \<^verbatim>\<open>pipeclose\<close>
  (\<^verbatim>\<open>pipealloc\<close> needs open files and is in \<^verbatim>\<open>File\<close>). A pipe lives in a page of its own and is
  known by the address of that page. \<^verbatim>\<open>pipewrite\<close> may sleep in the middle of its loop:
  \<open>pipewrite_loop\<close> then gives back how many bytes it had moved, and the same function
  started from there is what the process does once it is woken.
\<close>

section \<open>Model\<close>

abbreviation PIPESIZE :: nat where "PIPESIZE \<equiv> 512"

record pipe =
  pi_data :: "nat \<Rightarrow> u8"
  pi_nread :: u32
  pi_nwrite :: u32
  pi_readopen :: int
  pi_writeopen :: int

record pipe_state = proc_state +
  pipes :: "u64 \<Rightarrow> pipe"

definition set_pipe :: "u64 \<Rightarrow> (pipe \<Rightarrow> pipe) \<Rightarrow> 'a pipe_state_scheme \<Rightarrow> 'a pipe_state_scheme" where
  "set_pipe pi f s = s\<lparr>pipes := (pipes s)(pi := f (pipes s pi))\<rparr>"

definition pipe_full :: "pipe \<Rightarrow> bool" where
  "pipe_full p \<longleftrightarrow> pi_nwrite p = pi_nread p + of_nat PIPESIZE"

definition pipe_put :: "u8 \<Rightarrow> pipe \<Rightarrow> pipe" where
  "pipe_put ch p = p\<lparr>pi_data := (pi_data p)(unat (pi_nwrite p) mod PIPESIZE := ch), pi_nwrite := pi_nwrite p + 1\<rparr>"

definition pipe_empty :: "pipe \<Rightarrow> bool" where
  "pipe_empty p \<longleftrightarrow> pi_nread p = pi_nwrite p"

definition pipe_get :: "pipe \<Rightarrow> u8 \<times> pipe" where
  "pipe_get p = (pi_data p (unat (pi_nread p) mod PIPESIZE), p\<lparr>pi_nread := pi_nread p + 1\<rparr>)"

datatype progress = Ret int | Blocked nat

definition pipeclose :: "u64 \<Rightarrow> bool \<Rightarrow> 'a pipe_state_scheme \<Rightarrow> (unit, 'a pipe_state_scheme) outcome" where
  "pipeclose pi writable s =
     (let s = (if writable then wakeup (ChPipeRead pi) (set_pipe pi (pi_writeopen_update (\<lambda>_. 0)) s)
               else wakeup (ChPipeWrite pi) (set_pipe pi (pi_readopen_update (\<lambda>_. 0)) s))
      in if pi_readopen (pipes s pi) = 0 \<and> pi_writeopen (pipes s pi) = 0 then kfree pi s else Done () s)"

text \<open>\<open>i\<close> bytes have been moved and \<open>k\<close> remain.\<close>

fun pipewrite_loop :: "u64 \<Rightarrow> u64 \<Rightarrow> nat \<Rightarrow> nat \<Rightarrow> 'a pipe_state_scheme \<Rightarrow> (progress, 'a pipe_state_scheme) outcome" where
  "pipewrite_loop pi addr i 0 s = Done (Ret (int i)) (wakeup (ChPipeRead pi) s)"
| "pipewrite_loop pi addr i (Suc k) s =
     (if pi_readopen (pipes s pi) = 0 \<or> killed (cur s) s \<noteq> 0 then Done (Ret (-1)) s
      else if pipe_full (pipes s pi) then
        (case sleep (ChPipeWrite pi) (wakeup (ChPipeRead pi) s) of
           Asleep c s \<Rightarrow> Done (Blocked i) s | Panic e \<Rightarrow> Panic e | Done r s \<Rightarrow> Done r s)
      else obind (copyin (p_pagetable (proc_at s (cur s))) (addr + of_nat i) 1 s) (\<lambda>(r, ch) s.
        if r = -1 then Done (Ret (int i)) (wakeup (ChPipeRead pi) s)
        else pipewrite_loop pi addr (Suc i) k (set_pipe pi (pipe_put (hd ch)) s)))"

definition pipewrite :: "u64 \<Rightarrow> u64 \<Rightarrow> int \<Rightarrow> 'a pipe_state_scheme \<Rightarrow> (int, 'a pipe_state_scheme) outcome" where
  "pipewrite pi addr n s =
     obind (pipewrite_loop pi addr 0 (nat n) s) (\<lambda>r s.
       case r of Ret v \<Rightarrow> Done v s | Blocked i \<Rightarrow> Asleep (ChPipeWrite pi) s)"

fun piperead_loop :: "u64 \<Rightarrow> u64 \<Rightarrow> nat \<Rightarrow> nat \<Rightarrow> 'a pipe_state_scheme \<Rightarrow> (int, 'a pipe_state_scheme) outcome" where
  "piperead_loop pi addr i 0 s = Done (int i) s"
| "piperead_loop pi addr i (Suc k) s =
     (if pipe_empty (pipes s pi) then Done (int i) s
      else case pipe_get (pipes s pi) of (ch, pipe') \<Rightarrow>
        obind (copyout (p_pagetable (proc_at s (cur s))) (addr + of_nat i) [ch] s) (\<lambda>r s.
          if r = -1 then Done (if i = 0 then -1 else int i) s
          else piperead_loop pi addr (Suc i) k (set_pipe pi (\<lambda>_. pipe') s)))"

definition piperead :: "u64 \<Rightarrow> u64 \<Rightarrow> int \<Rightarrow> 'a pipe_state_scheme \<Rightarrow> (int, 'a pipe_state_scheme) outcome" where
  "piperead pi addr n s =
     (if pipe_empty (pipes s pi) \<and> pi_writeopen (pipes s pi) \<noteq> 0 then
        if killed (cur s) s \<noteq> 0 then Done (-1) s else sleep (ChPipeRead pi) s
      else obind (piperead_loop pi addr 0 (nat n) s) (\<lambda>i s. Done i (wakeup (ChPipeWrite pi) s)))"

section \<open>The ring buffer is a bounded queue\<close>

definition pipe_cont :: "pipe \<Rightarrow> u8 list" where
  "pipe_cont p = ring_list PIPESIZE (pi_data p) (pi_nread p) (pi_nwrite p)"

definition pipe_ok :: "pipe \<Rightarrow> bool" where
  "pipe_ok p \<longleftrightarrow> unat (pi_nwrite p - pi_nread p) \<le> PIPESIZE"

lemma pipe_full_iff: "pipe_full p \<longleftrightarrow> length (pipe_cont p) = PIPESIZE"
proof -
  have "pipe_full p \<longleftrightarrow> pi_nwrite p - pi_nread p = 512" by (simp add: pipe_full_def diff_eq_eq add.commute)
  also have "\<dots> \<longleftrightarrow> unat (pi_nwrite p - pi_nread p) = unat (512 :: u32)" by (simp only: word_unat_eq_iff)
  finally show ?thesis by (simp add: pipe_cont_def)
qed

lemma pipe_ok_length: "pipe_ok p \<longleftrightarrow> length (pipe_cont p) \<le> PIPESIZE"
  by (simp add: pipe_ok_def pipe_cont_def)

lemma pipe_put_cont:
  assumes "pipe_ok p" "\<not> pipe_full p"
  shows "pipe_ok (pipe_put c p) \<and> pipe_cont (pipe_put c p) = pipe_cont p @ [c]"
proof -
  have l: "unat (pi_nwrite p - pi_nread p) < PIPESIZE"
    using assms by (auto simp: pipe_ok_def pipe_full_iff pipe_cont_def)
  have c: "pipe_cont (pipe_put c p) = pipe_cont p @ [c]"
    unfolding pipe_cont_def pipe_put_def using ring_put [OF _ _ l] by simp
  moreover have "length (pipe_cont p) < PIPESIZE" using l by (simp add: pipe_cont_def)
  ultimately show ?thesis by (simp add: pipe_ok_length)
qed

lemma pipe_empty_iff: "pipe_empty p \<longleftrightarrow> pipe_cont p = []"
  unfolding pipe_empty_def pipe_cont_def ring_list_def by (auto simp: unat_eq_zero)

lemma pipe_get_cont:
  assumes "pipe_ok p" "\<not> pipe_empty p" "pipe_get p = (c, p')"
  shows "pipe_ok p' \<and> pipe_cont p = c # pipe_cont p'"
proof -
  have c: "pipe_cont p = c # pipe_cont p'"
    using ring_get [of "pi_nread p" "pi_nwrite p"] assms(2,3) by (auto simp: pipe_cont_def pipe_empty_def pipe_get_def)
  then show ?thesis using assms(1) by (simp add: pipe_ok_length)
qed

interpretation pq: byte_queue pipe_cont pipe_ok PIPESIZE pipe_full pipe_put pipe_empty pipe_get
proof unfold_locales
  fix q c q'
  show "pipe_ok q \<Longrightarrow> length (pipe_cont q) \<le> PIPESIZE" by (simp add: pipe_ok_def pipe_cont_def)
  show "pipe_full q = (length (pipe_cont q) = PIPESIZE)" by (rule pipe_full_iff)
  show "pipe_empty q = (pipe_cont q = [])" by (rule pipe_empty_iff)
  show "pipe_ok q \<Longrightarrow> \<not> pipe_full q \<Longrightarrow> pipe_ok (pipe_put c q) \<and> pipe_cont (pipe_put c q) = pipe_cont q @ [c]"
    by (rule pipe_put_cont)
  show "pipe_ok q \<Longrightarrow> \<not> pipe_empty q \<Longrightarrow> pipe_get q = (c, q') \<Longrightarrow> pipe_ok q' \<and> pipe_cont q = c # pipe_cont q'"
    by (rule pipe_get_cont)
qed

section \<open>pipewrite\<close>

text \<open>The changes to one pipe leave the rest of the kernel alone.\<close>

lemma set_pipe_simps [simp]:
  "mem (set_pipe pi f s) = mem s" "procs (set_pipe pi f s) = procs s" "myproc (set_pipe pi f s) = myproc s"
  "pipes (set_pipe pi f s) = (pipes s)(pi := f (pipes s pi))" "set_pipe pi f (set_pipe pi g s) = set_pipe pi (f \<circ> g) s"
  by (simp_all add: set_pipe_def myproc_def mycpu_def cpuid_def)

lemma pipes_wakeup [simp]: "pipes (wakeup c s) = pipes s"
  by (simp add: wakeup_def)

lemma pipes_asleep [simp]: "pipes (asleep c s) = pipes s" "mem (asleep c s) = mem s"
  by (simp_all add: asleep_def set_cpu_proc_def set_proc_def)

lemma uas_set_pipe [simp]: "uas (set_pipe pi f s) xs root sz = uas s xs root sz"
  by (rule uas_cong) (simp_all add: set_pipe_def)

lemma own_space_set_pipe [simp]: "own_space root sz (set_pipe pi f s) = own_space root sz s"
  by (simp add: own_space_def)

lemma killed_set_pipe [simp]: "killed p (set_pipe pi f s) = killed p s"
  by (simp add: killed_def)

text \<open>\<open>user_bytes m root va n\<close>: the bytes of user memory from \<open>va\<close> on.\<close>

definition user_bytes :: "(u64 \<Rightarrow> page) \<Rightarrow> u64 \<Rightarrow> u64 \<Rightarrow> nat \<Rightarrow> u8 list" where
  "user_bytes m root va n = map (\<lambda>j. the (ubyte m root (va + of_nat j))) [0..<n]"

lemma user_bytes_Suc: "user_bytes m root va (Suc n) = the (ubyte m root va) # user_bytes m root (va + 1) n"
  by (simp add: user_bytes_def upt_conv_Cons map_Suc_upt [symmetric] add.assoc del: upt_Suc)

text \<open>\<open>readable_range\<close>: the whole range is mapped for the process, below the trap frame.\<close>

definition readable_range :: "(u64 \<Rightarrow> page) \<Rightarrow> u64 \<Rightarrow> u64 \<Rightarrow> nat \<Rightarrow> bool" where
  "readable_range m root va n \<longleftrightarrow> unat va + n \<le> TFP * 4096 \<and> (\<forall>i < n. ubyte m root (va + of_nat i) \<noteq> None)"

lemma readable_range_Suc:
  assumes "readable_range m root va (Suc n)"
  shows "readable_range m root (va + 1) n" and "readable_range m root va 1"
proof -
  have r: "unat va + Suc n \<le> TFP * 4096" "\<forall>i < Suc n. ubyte m root (va + of_nat i) \<noteq> None"
    using assms by (simp_all add: readable_range_def)
  have u: "unat (va + 1) = unat va + 1" using r(1) by (simp add: unat_word_ariths)
  have "ubyte m root (va + 1 + of_nat i) \<noteq> None" if "i < n" for i
  proof -
    have "Suc i < Suc n" using that by simp
    then have "ubyte m root (va + of_nat (Suc i)) \<noteq> None" using r(2) by blast
    then show ?thesis by (simp add: add.assoc)
  qed
  then show "readable_range m root (va + 1) n" using r(1) u by (simp add: readable_range_def)
  show "readable_range m root va 1" using r by (auto simp: readable_range_def)
qed

lemma copyin_byte:
  assumes "uas s xs root sz" "own_space root sz s" "readable_range (mem s) root va 1"
  shows "copyin root va 1 s = Done (0, [the (ubyte (mem s) root va)]) s"
  using copyin_mapped [OF assms(1,2), of 1 va] assms(3) by (simp add: readable_range_def)

lemma pipewrite_loop_ok:
  fixes s :: "'a pipe_state_scheme"
  assumes "uas s xs root sz" "own_space root sz s" "cur s < length (procs s)"
    and "pi_readopen (pipes s pi) \<noteq> 0" "killed (cur s) s = 0" "pipe_ok (pipes s pi)"
    and "readable_range (mem s) root (addr + of_nat i) k"
  shows "\<exists>p'. pipe_ok p' \<and>
    pipe_cont p' = pipe_cont (pipes s pi) @
      take (PIPESIZE - length (pipe_cont (pipes s pi))) (user_bytes (mem s) root (addr + of_nat i) k) \<and>
    pipewrite_loop pi addr i k s =
      (if k \<le> PIPESIZE - length (pipe_cont (pipes s pi))
       then Done (Ret (int (i + k))) (wakeup (ChPipeRead pi) (set_pipe pi (\<lambda>_. p') s))
       else Done (Blocked (i + (PIPESIZE - length (pipe_cont (pipes s pi)))))
              (asleep (ChPipeWrite pi) (wakeup (ChPipeRead pi) (set_pipe pi (\<lambda>_. p') s))))"
  using assms
proof (induction k arbitrary: i s)
  case 0
  show ?case
    by (intro exI [of _ "pipes s pi"]) (simp add: 0 user_bytes_def set_pipe_def)
next
  case (Suc k)
  let ?p = "pipes s pi" and ?a = "addr + of_nat i"
  note ok = Suc.prems(6)
  note rr = readable_range_Suc [OF Suc.prems(7)]
  show ?case
  proof (cases "pipe_full ?p")
    case True
    then have l: "length (pipe_cont ?p) = PIPESIZE" by (simp add: pipe_full_iff)
    have "cur (wakeup (ChPipeRead pi) s) < length (procs (wakeup (ChPipeRead pi) s))" using Suc.prems(3) by simp
    then show ?thesis using True Suc.prems l
      by (intro exI [of _ ?p]) (simp add: sleep_asleep set_pipe_def)
  next
    case False
    let ?b = "the (ubyte (mem s) root ?a)"
    let ?s = "set_pipe pi (pipe_put ?b) s"
    have room: "length (pipe_cont ?p) < PIPESIZE" using False ok by (simp add: pipe_full_iff pipe_ok_length)
    note put = pipe_put_cont [OF ok False, of ?b]
    have pt: "p_pagetable (proc_at s (cur s)) = root" using Suc.prems(2) by (simp add: own_space_def)
    have step: "pipewrite_loop pi addr i (Suc k) s = pipewrite_loop pi addr (Suc i) k ?s"
      using Suc.prems(4,5) False copyin_byte [OF Suc.prems(1,2) rr(2)] by (simp add: pt)
    have "readable_range (mem ?s) root (addr + of_nat (Suc i)) k" using rr(1) by (simp add: ac_simps)
    from Suc.IH [of ?s "Suc i", OF _ _ _ _ _ _ this] Suc.prems put obtain p' where
      p': "pipe_ok p'" "pipe_cont p' = pipe_cont (pipe_put ?b ?p) @ take (PIPESIZE - length (pipe_cont (pipe_put ?b ?p)))
        (user_bytes (mem s) root (addr + of_nat (Suc i)) k)"
      "pipewrite_loop pi addr (Suc i) k ?s =
        (if k \<le> PIPESIZE - length (pipe_cont (pipe_put ?b ?p))
         then Done (Ret (int (Suc i + k))) (wakeup (ChPipeRead pi) (set_pipe pi (\<lambda>_. p') ?s))
         else Done (Blocked (Suc i + (PIPESIZE - length (pipe_cont (pipe_put ?b ?p)))))
              (asleep (ChPipeWrite pi) (wakeup (ChPipeRead pi) (set_pipe pi (\<lambda>_. p') ?s))))"
      by (auto simp: pipe_put_def)
    have d: "PIPESIZE - length (pipe_cont ?p) = Suc (PIPESIZE - length (pipe_cont (pipe_put ?b ?p)))"
      using put room by simp
    have a: "addr + of_nat (Suc i) = ?a + 1" by (simp add: ac_simps)
    show ?thesis
      unfolding d step user_bytes_Suc a [symmetric] using p' put
      by (intro exI [of _ p']) (simp add: comp_def)
  qed
qed

section \<open>piperead\<close>

lemma outside_next: "k < 2 ^ 63 \<Longrightarrow> outside (va + 1) k va"
proof -
  assume k: "k < 2 ^ 63"
  have "va \<noteq> va + 1 + of_nat i" if "i < k" for i
  proof
    assume "va = va + 1 + of_nat i"
    then have "of_nat (Suc i) = (0 :: u64)" by (simp add: add.assoc)
    then have "unat (of_nat (Suc i) :: u64) = 0" by (simp only: unsigned_0)
    then have "Suc i mod 2 ^ 64 = 0" by (simp add: unat_of_nat del: of_nat_Suc)
    then show False using that k by simp
  qed
  then show ?thesis by (simp add: outside_def)
qed

lemma outside_Suc: "outside va (Suc k) v \<Longrightarrow> outside (va + 1) k v" "outside va (Suc k) v \<Longrightarrow> outside va 1 v"
  using outside_split [of va "Suc k" v 1] by simp_all

definition keeps_outside :: "(u64 \<Rightarrow> page) \<Rightarrow> (u64 \<Rightarrow> page) \<Rightarrow> u64 \<Rightarrow> u64 \<Rightarrow> nat \<Rightarrow> bool" where
  "keeps_outside m m' root va n \<longleftrightarrow>
     (\<forall>v b. v < MAXVA \<longrightarrow> outside va n v \<longrightarrow> ubyte m root v = Some b \<longrightarrow> ubyte m' root v = Some b)"

definition writable :: "(u64 \<Rightarrow> page) \<Rightarrow> u64 \<Rightarrow> u64 \<Rightarrow> bool" where
  "writable m root va \<longleftrightarrow> va < MAXVA \<and>
     (\<exists>e. lookup m root va = Some e \<and> e AND PTE_U \<noteq> 0 \<and> e AND PTE_W \<noteq> 0)"

lemma copyout_writable:
  fixes s :: "'a proc_state_scheme"
  assumes u: "uas s xs root sz" and w: "writable (mem s) root va"
  shows "\<exists>s'. copyout root va [b] s = Done 0 s' \<and> (\<forall>v. lookup (mem s') root v = lookup (mem s) root v)"
proof -
  let ?va = "PGROUNDDOWN va"
  obtain e where e: "va < MAXVA" "lookup (mem s) root va = Some e" "e AND PTE_U \<noteq> 0" "e AND PTE_W \<noteq> 0"
    using w unfolding writable_def by (elim conjE exE)
  have mx: "?va < MAXVA" using e(1) by (rule le_less_trans [rotated]) (simp add: word_le_nat_alt unat_PGROUNDDOWN)
  have le: "lookup (mem s) root ?va = Some e"
    using e(2) lookup_vp [of ?va va "mem s" root] by (simp add: PGROUNDDOWN_facts)
  note pg = uas_page [OF u mx le e(3)]
  have up: "user_page root ?va s = Done (PTE2PA e) s"
    using pg(3) e(3) by (simp add: user_page_def walkaddr_lookup [OF mx] le)
  obtain q where q: "node (mem s) root [PX 2 ?va, PX 1 ?va] = Some q" "ld64 (mem s q) (PX 0 ?va) = e" "e AND PTE_V \<noteq> 0"
    using le by (rule lookup_SomeE)
  have wk: "walk root ?va False s = Done (Some (q, PX 0 ?va)) s"
    by (simp only: walk_lookup [OF mx] q option.map)
  have c: "chunk va (Suc 0) = Suc 0" using chunk_pos [of 1 va] chunk_le(1) [of va 1] by simp
  let ?s = "s\<lparr>mem := (mem s)(PTE2PA e := page_write (mem s (PTE2PA e)) (unat (va - ?va)) [b])\<rparr>"
  have "copyout root va [b] s = Done 0 ?s"
    using copyout.simps [of root va "[b]" s] mx up pg(3) wk q(2) e(4) copyout.simps [of root "?va + PGSIZE" "[]" ?s]
    by (simp add: Let_def pte_get_mem c not_le)
  then show ?thesis using leaf_write(3) [OF u mx le e(3)] by blast
qed

text \<open>One byte: stored, or the destination is not writable.\<close>

lemma copyout_byte:
  fixes s :: "'a proc_state_scheme"
  assumes "uas s xs root sz" "own_space root sz s"
  obtains (stored) s' ys where "copyout root va [b] s = Done 0 s'" "same_rest s s'" "uas s' ys root sz"
      "va < MAXVA" "ubyte (mem s') root va = Some b" "keeps_outside (mem s) (mem s') root va 1"
      "writable (mem s) root va \<Longrightarrow> (\<forall>v. lookup (mem s') root v = lookup (mem s) root v)"
  | (failed) s' ys where "copyout root va [b] s = Done (-1) s'" "same_rest s s'" "uas s' ys root sz"
      "keeps_outside (mem s) (mem s') root va 1" "\<not> writable (mem s) root va"
proof -
  from copyout_spec [OF assms, of va "[b]"] obtain r s' ys where
    c: "copyout root va [b] s = Done r s'" "as_step s xs root s' ys" "uas s' ys root sz"
      "r = 0 \<and> unat va + 1 \<le> TFP * 4096 \<and> ubyte (mem s') root va = Some b \<or> r = -1"
      "keeps_outside (mem s) (mem s') root va 1"
    by (auto simp: keeps_outside_def)
  have r: "same_rest s s'" using c(2) by (simp add: as_step_def)
  have w: "r = 0 \<and> (\<forall>v. lookup (mem s') root v = lookup (mem s) root v)" if "writable (mem s) root va"
    using copyout_writable [OF assms(1) that, of b] c(1) by auto
  from c(4) show thesis
  proof
    assume z: "r = 0 \<and> unat va + 1 \<le> TFP * 4096 \<and> ubyte (mem s') root va = Some b"
    then have "va < MAXVA" by (simp add: word_less_nat_alt)
    with z c(1) have "copyout root va [b] s = Done 0 s'" "ubyte (mem s') root va = Some b" by simp_all
    then show thesis using w \<open>va < MAXVA\<close> by (intro stored [OF _ r c(3) _ _ c(5)]) simp_all
  next
    assume m: "r = -1"
    then have "\<not> writable (mem s) root va" using w by auto
    with m c(1) show thesis by (intro failed [OF _ r c(3,5)]) simp_all
  qed
qed

definition writable_range :: "(u64 \<Rightarrow> page) \<Rightarrow> u64 \<Rightarrow> u64 \<Rightarrow> nat \<Rightarrow> bool" where
  "writable_range m root va n \<longleftrightarrow> (\<forall>i < n. writable m root (va + of_nat i))"

lemma writable_range_Suc:
  assumes "writable_range m root va (Suc n)"
  shows "writable m root va" and "writable_range m root (va + 1) n"
proof -
  show "writable m root va" using assms [unfolded writable_range_def, rule_format, of 0] by simp
  have "writable m root (va + 1 + of_nat i)" if "i < n" for i
    using assms [unfolded writable_range_def, rule_format, of "Suc i"] that by (simp add: add.assoc)
  then show "writable_range m root (va + 1) n" by (simp add: writable_range_def)
qed

lemma writable_range_cong:
  "\<forall>v. lookup m' root v = lookup m root v \<Longrightarrow> writable_range m' root va n = writable_range m root va n"
  by (simp add: writable_range_def writable_def)

lemma same_rest_pipes: "same_rest s s' \<Longrightarrow> pipes s' = pipes s \<and> procs s' = procs s \<and> myproc s' = myproc s"
  by (auto simp: same_rest_def myproc_def mycpu_def cpuid_def)

text \<open>The bytes handed over are the oldest ones, in order; a byte leaves the pipe exactly when
  it has been stored.\<close>

definition delivered :: "u64 \<Rightarrow> u64 \<Rightarrow> u64 \<Rightarrow> u64 \<Rightarrow> nat \<Rightarrow> 'a pipe_state_scheme \<Rightarrow> nat \<Rightarrow> 'a pipe_state_scheme \<Rightarrow> bool" where
  "delivered pi root sz va k s m s' \<longleftrightarrow> (\<exists>ys. uas s' ys root sz) \<and> pipe_ok (pipes s' pi) \<and> m \<le> k \<and>
     pipe_cont (pipes s pi) = user_bytes (mem s') root va m @ pipe_cont (pipes s' pi) \<and>
     (\<forall>j < m. ubyte (mem s') root (va + of_nat j) \<noteq> None) \<and>
     (writable_range (mem s) root va k \<longrightarrow> m = min k (length (pipe_cont (pipes s pi)))) \<and>
     keeps_outside (mem s) (mem s') root va k \<and> (\<forall>q. q \<noteq> pi \<longrightarrow> pipes s' q = pipes s q)"

lemma delivered_wakeup: "delivered pi root sz va k s m (wakeup c s') = delivered pi root sz va k s m s'"
proof -
  have "uas (wakeup c s') ys root sz = uas s' ys root sz" for ys by (rule uas_cong) (simp_all add: wakeup_def)
  then show ?thesis by (simp only: delivered_def wakeup_simps pipes_wakeup)
qed

lemma delivered_none:
  assumes "uas s' ys root sz" "pipe_ok (pipes s pi)" "pipes s' = pipes s" "keeps_outside (mem s) (mem s') root va k"
    and "k = 0 \<or> pipe_empty (pipes s pi) \<or> \<not> writable_range (mem s) root va k"
  shows "delivered pi root sz va k s 0 s'"
  using assms unfolding delivered_def by (auto simp: user_bytes_def pipe_empty_iff)

lemma delivered_Suc:
  assumes d: "delivered pi root sz (va + 1) k (set_pipe pi (\<lambda>_. p') s1) m s'"
    and g: "pipe_ok p' \<and> pipe_cont (pipes s pi) = c # pipe_cont p'" and s1: "pipes s1 = pipes s"
    and w: "va < MAXVA" "ubyte (mem s1) root va = Some c" "keeps_outside (mem s) (mem s1) root va 1"
      "writable (mem s) root va \<Longrightarrow> \<forall>v. lookup (mem s1) root v = lookup (mem s) root v"
    and k: "k < 2 ^ 63"
  shows "delivered pi root sz va (Suc k) s (Suc m) s'"
proof -
  have ko: "keeps_outside (mem s1) (mem s') root (va + 1) k" using d by (simp add: delivered_def)
  have b: "ubyte (mem s') root va = Some c"
    using ko w(1,2) outside_next [OF k, of va] unfolding keeps_outside_def by simp
  have mapped: "ubyte (mem s') root (va + of_nat j) \<noteq> None" if "j < Suc m" for j
  proof (cases j)
    case (Suc j')
    have "\<forall>j < m. ubyte (mem s') root (va + 1 + of_nat j) \<noteq> None" using d by (simp add: delivered_def)
    then show ?thesis using Suc that by (auto simp: add.assoc)
  qed (use b in simp)
  have wr: "m = min k (length (pipe_cont p'))" if "writable_range (mem s) root va (Suc k)"
  proof -
    note ws = writable_range_Suc [OF that]
    have "writable_range (mem s1) root (va + 1) k"
      unfolding writable_range_cong [OF w(4) [OF ws(1)]] by (rule ws(2))
    then show ?thesis using d unfolding delivered_def set_pipe_simps fun_upd_same by (elim conjE) (erule mp)
  qed
  have "keeps_outside (mem s) (mem s') root va (Suc k)"
    using ko w(3) outside_Suc unfolding keeps_outside_def by blast
  moreover have "pipe_cont (pipes s pi) = user_bytes (mem s') root va (Suc m) @ pipe_cont (pipes s' pi)"
    "m \<le> k" "pipe_ok (pipes s' pi)" "\<exists>ys. uas s' ys root sz" "\<forall>q. q \<noteq> pi \<longrightarrow> pipes s' q = pipes s q"
    using d g s1 b by (simp_all add: delivered_def user_bytes_Suc)
  moreover have "Suc m = min (Suc k) (length (pipe_cont (pipes s pi)))" if "writable_range (mem s) root va (Suc k)"
    using wr [OF that] g by simp
  ultimately show ?thesis unfolding delivered_def using mapped by (intro conjI allI impI) simp_all
qed

lemma piperead_loop_spec:
  fixes s :: "'a pipe_state_scheme"
  assumes "uas s xs root sz" "own_space root sz s" "pipe_ok (pipes s pi)" "k < 2 ^ 63"
  shows "\<exists>r m s'. piperead_loop pi addr i k s = Done r s' \<and> (r = int (i + m) \<or> r = -1 \<and> i = 0 \<and> m = 0) \<and>
    delivered pi root sz (addr + of_nat i) k s m s' \<and> procs s' = procs s \<and> myproc s' = myproc s"
  using assms
proof (induction k arbitrary: i s xs)
  case 0
  then show ?case
    by (intro exI [of _ "int i"] exI [of _ 0] exI [of _ s])
      (simp add: delivered_none [of s xs] keeps_outside_def)
next
  case (Suc k)
  let ?p = "pipes s pi" and ?a = "addr + of_nat i"
  have a: "addr + of_nat (Suc i) = ?a + 1" by (simp add: ac_simps)
  have pt: "p_pagetable (proc_at s (cur s)) = root" using Suc.prems(2) by (simp add: own_space_def)
  show ?case
  proof (cases "pipe_empty ?p")
    case True
    then show ?thesis using Suc.prems
      by (intro exI [of _ "int i"] exI [of _ 0] exI [of _ s])
        (simp add: delivered_none [of s xs] keeps_outside_def)
  next
    case False
    obtain c p' where g: "pipe_get ?p = (c, p')" by (cases "pipe_get ?p")
    note get = pipe_get_cont [OF Suc.prems(3) False g]
    show ?thesis
    proof (rule copyout_byte [OF Suc.prems(1,2), of ?a c], goal_cases)
      case (2 s1 ys)
      note sr = same_rest_pipes [OF 2(2)]
      have "keeps_outside (mem s) (mem s1) root ?a (Suc k)"
        using 2(4) outside_Suc(2) unfolding keeps_outside_def by blast
      moreover have "\<not> writable_range (mem s) root ?a (Suc k)" using 2(5) writable_range_Suc(1) by blast
      ultimately have "delivered pi root sz ?a (Suc k) s 0 s1"
        using sr Suc.prems(3) by (intro delivered_none [OF 2(3)]) simp_all
      then show ?thesis
        by (intro exI [of _ "if i = 0 then -1 else int i"] exI [of _ 0] exI [of _ s1])
          (use False g 2(1) sr in \<open>simp add: pt\<close>)
    next
      case (1 s1 ys)
      note sr = same_rest_pipes [OF 1(2)]
      let ?s = "set_pipe pi (\<lambda>_. p') s1"
      have step: "piperead_loop pi addr i (Suc k) s = piperead_loop pi addr (Suc i) k ?s"
        using False g 1(1) by (simp add: pt)
      have own: "own_space root sz ?s" using own_space_rest [OF 1(2)] Suc.prems(2) by simp
      from Suc.IH [of ?s ys "Suc i", OF _ own] 1(3) get Suc.prems(4) obtain r m s' where
        r: "piperead_loop pi addr (Suc i) k ?s = Done r s'" "r = int (Suc i + m)"
          "delivered pi root sz (?a + 1) k ?s m s'" "procs s' = procs s1" "myproc s' = myproc s1"
        unfolding a by auto
      have "delivered pi root sz ?a (Suc k) s (Suc m) s'"
        using Suc.prems(4) sr by (intro delivered_Suc [OF r(3) get _ 1(4-7)]) simp_all
      then show ?thesis
        unfolding step by (intro exI [of _ r] exI [of _ "Suc m"] exI [of _ s']) (use r sr in simp)
    qed
  qed
qed

section \<open>Properties\<close>

text \<open>
  C15: A pipe is a first-in first-out queue of at most 512 bytes. In any interleaving of the
  byte transfers of writers and readers, what was in the pipe followed by what was put in is what
  came out followed by what is left in it; no byte is lost, duplicated or reordered, also
  when the 32-bit counters \<^verbatim>\<open>nread\<close> and \<^verbatim>\<open>nwrite\<close> wrap around.
\<close>

theorem pipe_fifo:
  assumes "pipe_ok p" "pq.qrun ops p = (ins, outs, p')"
  shows "pipe_cont p @ ins = outs @ pipe_cont p' \<and> length (pipe_cont p') \<le> PIPESIZE"
  using pq.qrun_fifo [OF assms] by blast

text \<open>A pipe whose counters are about to wrap.\<close>

definition ex_pipe :: pipe where
  "ex_pipe = \<lparr>pi_data = (\<lambda>_. 0), pi_nread = 0xffffffff, pi_nwrite = 0xffffffff, pi_readopen = 1, pi_writeopen = 1\<rparr>"

theorem pipe_fifo_witness:
  "pipe_ok ex_pipe \<and> (case pq.qrun [Put 7, Put 8, Get, Put 9, Get] ex_pipe of (ins, outs, p') \<Rightarrow>
     pipe_cont ex_pipe @ ins = outs @ pipe_cont p' \<and> length (pipe_cont p') \<le> PIPESIZE \<and> outs = [7, 8])"
proof -
  have ok: "pipe_ok ex_pipe" by (simp add: pipe_ok_def ex_pipe_def)
  obtain ins outs p' where r: "pq.qrun [Put 7, Put 8, Get, Put 9, Get] ex_pipe = (ins, outs, p')"
    by (metis prod_cases3)
  have "outs = [7, 8]"
    using r by (simp add: ex_pipe_def pipe_full_def pipe_put_def pipe_empty_def pipe_get_def)
  then show ?thesis using ok pipe_fifo [OF ok r] by (simp add: r del: pq.qrun.simps)
qed

text \<open>
  C33: \<^verbatim>\<open>pipewrite\<close> of \<open>n\<close> mapped user bytes to a pipe with an open read end appends them to the
  pipe and returns \<open>n\<close> when they fit; otherwise it appends as many as fit and goes to
  sleep until there is room. Either way no process is left asleep waiting for data of this
  pipe, and neither memory nor another pipe changes.
\<close>

theorem pipewrite_correct:
  fixes s :: "'a pipe_state_scheme"
  assumes "uas s xs root sz" "own_space root sz s" "cur s < length (procs s)"
    and "pi_readopen (pipes s pi) \<noteq> 0" "killed (cur s) s = 0" "pipe_ok (pipes s pi)"
    and "0 \<le> n" "readable_range (mem s) root addr (nat n)"
  shows "\<exists>s'. pipewrite pi addr n s =
      (if nat n \<le> PIPESIZE - length (pipe_cont (pipes s pi)) then Done n s' else Asleep (ChPipeWrite pi) s') \<and>
    pipe_ok (pipes s' pi) \<and>
    pipe_cont (pipes s' pi) = pipe_cont (pipes s pi) @
      take (PIPESIZE - length (pipe_cont (pipes s pi))) (user_bytes (mem s) root addr (nat n)) \<and>
    woken (ChPipeRead pi) s' \<and> mem s' = mem s \<and> (\<forall>q. q \<noteq> pi \<longrightarrow> pipes s' q = pipes s q)"
proof -
  have r: "readable_range (mem s) root (addr + of_nat 0) (nat n)" using assms(8) by simp
  let ?room = "PIPESIZE - length (pipe_cont (pipes s pi))"
  obtain p' where p: "pipe_ok p'"
    "pipe_cont p' = pipe_cont (pipes s pi) @ take ?room (user_bytes (mem s) root addr (nat n))"
    and w: "pipewrite_loop pi addr 0 (nat n) s =
      (if nat n \<le> ?room then Done (Ret n) (wakeup (ChPipeRead pi) (set_pipe pi (\<lambda>_. p') s))
       else Done (Blocked ?room) (asleep (ChPipeWrite pi) (wakeup (ChPipeRead pi) (set_pipe pi (\<lambda>_. p') s))))"
    using pipewrite_loop_ok [OF assms(1-6) r] assms(7) by (auto simp del: pipewrite_loop.simps)
  let ?s = "wakeup (ChPipeRead pi) (set_pipe pi (\<lambda>_. p') s)"
  have "cur ?s < length (procs ?s)" using assms(3) by simp
  then have wo: "woken (ChPipeRead pi) (asleep (ChPipeWrite pi) ?s)"
    by (intro asleep_woken wakeup_woken) simp_all
  show ?thesis
    by (intro exI [of _ "if nat n \<le> ?room then ?s else asleep (ChPipeWrite pi) ?s"])
      (use p w wo in \<open>simp add: pipewrite_def wakeup_woken\<close>)
qed

text \<open>A process with two mapped bytes, and a pipe holding one byte.\<close>

lemma ex_mapped:
  "\<exists>(s :: proc_state) ys. uas s ys 0x86000000 0x3000 \<and> own_space 0x86000000 0x3000 s \<and> procs s = [ex_uproc] \<and> myproc s = Some 0 \<and>
    readable_range (mem s) 0x86000000 0x1004 2 \<and> user_bytes (mem s) 0x86000000 0x1004 2 = [7, 8] \<and>
    writable_range (mem s) 0x86000000 0x1004 2"
proof -
  obtain s' e where s': "copyout 0x86000000 0x1004 [7, 8] ex_ustate = Done 0 s'"
      and e: "lookup (mem s') 0x86000000 0x1004 = Some e" "e AND PTE_U \<noteq> 0" "e AND PTE_W \<noteq> 0"
    using ex_copyout by (elim exE conjE)
  from copyout_spec [OF ex_uas ex_own, of "0x1004" "[7, 8]"] s' obtain ys where
    c: "as_step ex_ustate [0x87000000, 0x87001000, 0x87002000] 0x86000000 s' ys" "uas s' ys 0x86000000 0x3000"
      "\<forall>i < length ([7, 8] :: u8 list). ubyte (mem s') 0x86000000 (0x1004 + of_nat i) = Some ([7, 8] ! i)"
    by auto
  have b: "ubyte (mem s') 0x86000000 0x1004 = Some 7" "ubyte (mem s') 0x86000000 0x1005 = Some 8"
    using c(3) [rule_format, of 0] c(3) [rule_format, of 1] by simp_all
  have sr: "same_rest ex_ustate s'" using c(1) by (simp add: as_step_def)
  have "procs s' = [ex_uproc]" "myproc s' = Some 0"
    using sr by (auto simp: same_rest_def ex_ustate_def myproc_def mycpu_def cpuid_def)
  moreover have "own_space 0x86000000 0x3000 s'" using own_space_rest [OF sr] ex_own by simp
  moreover have "readable_range (mem s') 0x86000000 0x1004 2" using b
    by (auto simp: readable_range_def less_2_cases_iff)
  moreover have "user_bytes (mem s') 0x86000000 0x1004 2 = [7, 8]" using b by (simp add: user_bytes_def numeral_2_eq_2)
  moreover have "lookup (mem s') 0x86000000 0x1005 = Some e"
    using e(1) lookup_vp [of "0x1005" "0x1004" "mem s'" "0x86000000"] by (simp add: vp_def)
  then have "writable_range (mem s') 0x86000000 0x1004 2"
    using e by (auto simp: writable_range_def writable_def less_2_cases_iff)
  ultimately show ?thesis using c(2) by blast
qed

lemma ex_pipe_mapped:
  "\<exists>(s :: pipe_state) ys. uas s ys 0x86000000 0x3000 \<and> own_space 0x86000000 0x3000 s \<and> procs s = [ex_uproc] \<and>
    myproc s = Some 0 \<and> readable_range (mem s) 0x86000000 0x1004 2 \<and>
    user_bytes (mem s) 0x86000000 0x1004 2 = [7, 8] \<and> pipes s = (\<lambda>_. pipe_put 5 ex_pipe)"
proof -
  obtain s :: proc_state and ys where s: "uas s ys 0x86000000 0x3000" "own_space 0x86000000 0x3000 s" "procs s = [ex_uproc]"
    "myproc s = Some 0" "readable_range (mem s) 0x86000000 0x1004 2" "user_bytes (mem s) 0x86000000 0x1004 2 = [7, 8]"
    using ex_mapped by (elim exE conjE)
  let ?t = "proc_state.extend s (pipe_state.fields (\<lambda>_. pipe_put 5 ex_pipe))"
  have "uas ?t ys 0x86000000 0x3000" using s(1) uas_cong [of ?t s] by (simp add: pipe_state.defs proc_state.defs)
  then show ?thesis using s(2-6)
    by (intro exI [of _ ?t] exI [of _ ys])
      (simp add: pipe_state.defs proc_state.defs own_space_def myproc_def mycpu_def cpuid_def)
qed

lemma ex_pipe_facts: "pipe_ok (pipe_put 5 ex_pipe)" "pipe_cont (pipe_put 5 ex_pipe) = [5]"
  "pi_readopen (pipe_put 5 ex_pipe) = 1" "\<not> pipe_empty (pipe_put 5 ex_pipe)"
  by (simp_all add: pipe_ok_def pipe_put_def ex_pipe_def pipe_cont_def ring_list_def pipe_empty_def)

theorem pipewrite_correct_witness:
  "\<exists>(s :: pipe_state) s'. pipewrite 0 0x1004 2 s = Done 2 s' \<and> pipe_cont (pipes s 0) = [5] \<and>
     pipe_cont (pipes s' 0) = [5, 7, 8] \<and> woken (ChPipeRead 0) s'"
proof -
  obtain s :: pipe_state and ys where s: "uas s ys 0x86000000 0x3000" "own_space 0x86000000 0x3000 s" "procs s = [ex_uproc]"
    "myproc s = Some 0" "readable_range (mem s) 0x86000000 0x1004 2" "user_bytes (mem s) 0x86000000 0x1004 2 = [7, 8]"
    "pipes s = (\<lambda>_. pipe_put 5 ex_pipe)"
    using ex_pipe_mapped by (elim exE conjE)
  have "killed (cur s) s = 0" "cur s < length (procs s)" using s(3,4) by (simp_all add: killed_def ex_uproc_def)
  then obtain s' where "pipewrite 0 0x1004 2 s = Done 2 s'" "pipe_cont (pipes s' 0) = [5, 7, 8]" "woken (ChPipeRead 0) s'"
    using pipewrite_correct [OF s(1,2), of 0 2 "0x1004"] s(5-7) ex_pipe_facts by auto
  then show ?thesis using s(7) ex_pipe_facts by (intro exI [of _ s] exI [of _ s']) simp
qed

text \<open>
  C34: \<^verbatim>\<open>piperead\<close> from a pipe that holds data, or whose write end is closed, returns without
  sleeping. It takes the oldest bytes out of the pipe and stores exactly those, in order, from \<open>addr\<close> on; a
  byte leaves the pipe only when it has been stored, so that a bad address loses nothing; when the
  destination is writable it takes as many bytes as it may. Other user memory and
  other pipes keep their contents, and no writer is left asleep waiting for room.
\<close>

theorem piperead_correct:
  fixes s :: "'a pipe_state_scheme"
  assumes "uas s xs root sz" "own_space root sz s" "pipe_ok (pipes s pi)"
    and "\<not> pipe_empty (pipes s pi) \<or> pi_writeopen (pipes s pi) = 0" "0 \<le> n" "n < 2 ^ 31"
  shows "\<exists>r m s'. piperead pi addr n s = Done r s' \<and> (r = int m \<or> r = -1 \<and> m = 0) \<and>
    delivered pi root sz addr (nat n) s m s' \<and> woken (ChPipeWrite pi) s'"
proof -
  have "nat n < 2 ^ 63" using assms(6) by simp
  from piperead_loop_spec [OF assms(1-3) this, of addr 0] obtain r m s' where
    r: "piperead_loop pi addr 0 (nat n) s = Done r s'" "r = int m \<or> r = -1 \<and> m = 0"
      "delivered pi root sz addr (nat n) s m s'" by auto
  then have "delivered pi root sz addr (nat n) s m (wakeup (ChPipeWrite pi) s')"
    by (simp only: delivered_wakeup)
  then show ?thesis using r(1,2) assms(4)
    by (intro exI [of _ r] exI [of _ m] exI [of _ "wakeup (ChPipeWrite pi) s'"])
      (auto simp: piperead_def wakeup_woken)
qed

theorem piperead_correct_witness:
  "\<exists>(s :: pipe_state) r m s'. piperead 0 0x1004 9 s = Done r s' \<and> (r = int m \<or> r = -1 \<and> m = 0) \<and>
    pipe_cont (pipes s 0) = [5] \<and> delivered 0 0x86000000 0x3000 0x1004 9 s m s' \<and> woken (ChPipeWrite 0) s'"
proof -
  obtain s :: pipe_state and ys where s: "uas s ys 0x86000000 0x3000" "own_space 0x86000000 0x3000 s"
    "pipes s = (\<lambda>_. pipe_put 5 ex_pipe)"
    using ex_pipe_mapped by (elim exE conjE)
  show ?thesis
    using piperead_correct [OF s(1,2), of 0 9 "0x1004"] s(3) ex_pipe_facts by (intro exI [of _ s]) auto
qed

end
