(* ===== verification/Klib.thy ===== *)
theory Klib
  imports Prelude
begin

text \<open>
  \<^verbatim>\<open>kernel/string.c\<close> over a flat byte memory. Pointers are natural-number addresses;
  each C loop is a recursive function with the same loop variables.
\<close>

type_synonym bytes = "nat \<Rightarrow> u8"

section \<open>memset, memcmp, memmove\<close>

function memset_loop :: "nat \<Rightarrow> u8 \<Rightarrow> nat \<Rightarrow> nat \<Rightarrow> bytes \<Rightarrow> bytes" where
  "memset_loop cdst c i n m =
     (if i < n then memset_loop cdst c (Suc i) n (m(cdst + i := c)) else m)"
  by pat_completeness auto
termination by (relation "measure (\<lambda>(cdst, c, i, n, m). n - i)") auto

declare memset_loop.simps [simp del]

definition memset :: "nat \<Rightarrow> int \<Rightarrow> u32 \<Rightarrow> bytes \<Rightarrow> bytes" where
  "memset dst c n m = memset_loop dst (word_of_int c) 0 (unat n) m"

fun memcmp :: "nat \<Rightarrow> nat \<Rightarrow> nat \<Rightarrow> bytes \<Rightarrow> int" where
  "memcmp s1 s2 0 m = 0"
| "memcmp s1 s2 (Suc n) m =
     (if m s1 \<noteq> m s2 then uint (m s1) - uint (m s2) else memcmp (Suc s1) (Suc s2) n m)"

text \<open>\<open>move_down\<close> is the loop \<^verbatim>\<open>while(n-- > 0) *--d = *--s\<close>, \<open>move_up\<close> is \<^verbatim>\<open>while(n-- > 0) *d++ = *s++\<close>.\<close>

fun move_down :: "nat \<Rightarrow> nat \<Rightarrow> nat \<Rightarrow> bytes \<Rightarrow> bytes" where
  "move_down d s 0 m = m"
| "move_down d s (Suc n) m = move_down (d - 1) (s - 1) n (m(d - 1 := m (s - 1)))"

fun move_up :: "nat \<Rightarrow> nat \<Rightarrow> nat \<Rightarrow> bytes \<Rightarrow> bytes" where
  "move_up d s 0 m = m"
| "move_up d s (Suc n) m = move_up (Suc d) (Suc s) n (m(d := m s))"

definition memmove :: "nat \<Rightarrow> nat \<Rightarrow> nat \<Rightarrow> bytes \<Rightarrow> bytes" where
  "memmove dst src n m =
     (if n = 0 then m
      else if src < dst \<and> src + n > dst then move_down (dst + n) (src + n) n m
      else move_up dst src n m)"

definition memcpy :: "nat \<Rightarrow> nat \<Rightarrow> nat \<Rightarrow> bytes \<Rightarrow> bytes" where
  "memcpy dst src n m = memmove dst src n m"

section \<open>Strings\<close>

fun strncmp :: "nat \<Rightarrow> nat \<Rightarrow> nat \<Rightarrow> bytes \<Rightarrow> int" where
  "strncmp p q 0 m = 0"
| "strncmp p q (Suc n) m =
     (if m p \<noteq> 0 \<and> m p = m q then strncmp (Suc p) (Suc q) n m
      else uint (m p) - uint (m q))"

fun zero_fill :: "nat \<Rightarrow> nat \<Rightarrow> bytes \<Rightarrow> bytes" where
  "zero_fill s 0 m = m"
| "zero_fill s (Suc n) m = zero_fill (Suc s) n (m(s := 0))"

fun strncpy_loop :: "nat \<Rightarrow> nat \<Rightarrow> nat \<Rightarrow> bytes \<Rightarrow> bytes" where
  "strncpy_loop s t 0 m = m"
| "strncpy_loop s t (Suc n) m =
     (if m t \<noteq> 0 then strncpy_loop (Suc s) (Suc t) n (m(s := m t))
      else zero_fill (Suc s) n (m(s := m t)))"

definition strncpy :: "nat \<Rightarrow> nat \<Rightarrow> int \<Rightarrow> bytes \<Rightarrow> bytes" where
  "strncpy s t n m = strncpy_loop s t (nat n) m"

text \<open>
  \<open>safestrcpy_loop s t k m\<close> is \<^verbatim>\<open>while(--n > 0 && (*s++ = *t++) != 0); *s = 0\<close> entered with
  \<^verbatim>\<open>n = k + 1\<close>: after copying a NUL the pointer has moved on and one more zero is stored.
\<close>

fun safestrcpy_loop :: "nat \<Rightarrow> nat \<Rightarrow> nat \<Rightarrow> bytes \<Rightarrow> bytes" where
  "safestrcpy_loop s t 0 m = m(s := 0)"
| "safestrcpy_loop s t (Suc k) m =
     (if m t \<noteq> 0 then safestrcpy_loop (Suc s) (Suc t) k (m(s := m t))
      else (m(s := m t))(Suc s := 0))"

definition safestrcpy :: "nat \<Rightarrow> nat \<Rightarrow> int \<Rightarrow> bytes \<Rightarrow> bytes" where
  "safestrcpy s t n m = (if n \<le> 0 then m else safestrcpy_loop s t (nat n - 1) m)"

partial_function (option) strlen_from :: "nat \<Rightarrow> nat \<Rightarrow> bytes \<Rightarrow> nat option" where
  "strlen_from s n m = (if m (s + n) \<noteq> 0 then strlen_from s (Suc n) m else Some n)"

definition strlen :: "nat \<Rightarrow> bytes \<Rightarrow> nat option" where
  "strlen s m = strlen_from s 0 m"

section \<open>What the loops compute\<close>

lemma memset_loop_apply:
  "memset_loop d c i n m a = (if d + i \<le> a \<and> a < d + n then c else m a)"
proof (induction "n - i" arbitrary: i m)
  case 0
  then show ?case by (subst memset_loop.simps) auto
next
  case (Suc k)
  then have "memset_loop d c (Suc i) n (m(d + i := c)) a =
    (if d + Suc i \<le> a \<and> a < d + n then c else (m(d + i := c)) a)"
    by simp
  with Suc.hyps(2) show ?case by (subst memset_loop.simps) auto
qed

lemma memset_apply:
  "memset d c n m a = (if d \<le> a \<and> a < d + unat n then word_of_int c else m a)"
  by (simp add: memset_def memset_loop_apply)

lemma memcmp_zero: "memcmp s1 s2 n m = 0 \<longleftrightarrow> (\<forall>i<n. m (s1 + i) = m (s2 + i))"
proof (induction s1 s2 n m rule: memcmp.induct)
  case (2 s1 s2 n m)
  have "(\<forall>i<Suc n. m (s1 + i) = m (s2 + i)) \<longleftrightarrow>
        m s1 = m s2 \<and> (\<forall>i<n. m (Suc s1 + i) = m (Suc s2 + i))"
    by (auto simp: less_Suc_eq_0_disj)
  with 2 show ?case by (auto simp: word_uint_eq_iff)
qed simp

lemma move_up_apply:
  "d \<le> s \<or> s + n \<le> d \<Longrightarrow> move_up d s n m a = (if d \<le> a \<and> a < d + n then m (s + (a - d)) else m a)"
proof (induction n arbitrary: d s m)
  case (Suc n)
  then have "move_up (Suc d) (Suc s) n (m(d := m s)) a =
    (if Suc d \<le> a \<and> a < Suc d + n then (m(d := m s)) (Suc s + (a - Suc d)) else (m(d := m s)) a)"
    by auto
  moreover have "Suc d \<le> a \<Longrightarrow> Suc s + (a - Suc d) = s + (a - d)" by arith
  ultimately show ?case using Suc.prems by auto
qed auto

lemma move_down_apply:
  "s \<le> d \<Longrightarrow> move_down (d + n) (s + n) n m a =
     (if d \<le> a \<and> a < d + n then m (s + (a - d)) else m a)"
proof (induction n arbitrary: m)
  case (Suc n)
  then have "move_down (d + Suc n) (s + Suc n) (Suc n) m a =
    (if d \<le> a \<and> a < d + n then (m(d + n := m (s + n))) (s + (a - d)) else (m(d + n := m (s + n))) a)"
    by simp
  with Suc.prems show ?case by auto
qed auto

lemma zero_fill_apply: "zero_fill s n m a = (if s \<le> a \<and> a < s + n then 0 else m a)"
  by (induction n arbitrary: s m) auto

text \<open>\<open>upto_nul m p i\<close>: the string at \<open>p\<close> has no NUL among its first \<open>i\<close> bytes.\<close>

definition upto_nul :: "bytes \<Rightarrow> nat \<Rightarrow> nat \<Rightarrow> bool" where
  "upto_nul m p i \<longleftrightarrow> (\<forall>j<i. m (p + j) \<noteq> 0)"

lemma upto_nul_0 [simp]: "upto_nul m p 0"
  by (simp add: upto_nul_def)

lemma upto_nul_Suc: "upto_nul m p (Suc i) \<longleftrightarrow> m p \<noteq> 0 \<and> upto_nul m (Suc p) i"
  by (auto simp: upto_nul_def less_Suc_eq_0_disj)

lemma upto_nul_cong:
  "(\<And>j. j < i \<Longrightarrow> m (p + j) = m' (p + j)) \<Longrightarrow> upto_nul m p i = upto_nul m' p i"
  by (auto simp: upto_nul_def)

lemma all_less_Suc_shift: "(\<forall>i<Suc n. P i) \<longleftrightarrow> P 0 \<and> (\<forall>i<n. P (Suc i))"
  by (auto simp: less_Suc_eq_0_disj)

lemma strncmp_zero:
  "strncmp p q n m = 0 \<longleftrightarrow> (\<forall>i<n. upto_nul m p i \<longrightarrow> m (p + i) = m (q + i))"
proof (induction p q n m rule: strncmp.induct)
  case (2 p q n m)
  show ?case
  proof (cases "m p \<noteq> 0 \<and> m p = m q")
    case True
    with 2 show ?thesis by (simp add: all_less_Suc_shift upto_nul_Suc)
  next
    case False
    then show ?thesis by (auto simp: all_less_Suc_shift upto_nul_Suc word_uint_eq_iff)
  qed
qed simp

lemma strncpy_loop_apply:
  "s + n \<le> t \<or> t + n \<le> s \<Longrightarrow>
   strncpy_loop s t n m a =
     (if s \<le> a \<and> a < s + n then (if upto_nul m t (a - s) then m (t + (a - s)) else 0) else m a)"
proof (induction n arbitrary: s t m)
  case (Suc n)
  let ?m = "m(s := m t)"
  have sep: "Suc s + n \<le> Suc t \<or> Suc t + n \<le> Suc s" using Suc.prems by auto
  have up: "upto_nul ?m (Suc t) k = upto_nul m (Suc t) k" if "k < n" for k
    using Suc.prems that by (intro upto_nul_cong) auto
  show ?case
  proof (cases "m t = 0")
    case True
    then have "upto_nul m t (a - s) \<longleftrightarrow> a - s = 0" by (cases "a - s") (auto simp: upto_nul_Suc)
    with True show ?thesis by (auto simp: zero_fill_apply)
  next
    case False
    have "strncpy_loop s t (Suc n) m a = (if Suc s \<le> a \<and> a < Suc s + n
      then (if upto_nul ?m (Suc t) (a - Suc s) then ?m (Suc t + (a - Suc s)) else 0) else ?m a)"
      using False Suc.IH [OF sep, of ?m] by (simp add: fun_upd_def)
    moreover have "upto_nul m t (a - s) = upto_nul ?m (Suc t) (a - Suc s)"
      and "Suc t + (a - Suc s) = t + (a - s)" and "t + (a - s) \<noteq> s"
      if "Suc s \<le> a" "a < Suc s + n"
      using that False up [of "a - Suc s"] upto_nul_Suc [of m t "a - Suc s"] Suc.prems
      by (auto simp: Suc_diff_Suc)
    ultimately show ?thesis using Suc.prems by auto
  qed
qed auto

lemma safestrcpy_loop_frame:
  "a < s \<or> s + k < a \<Longrightarrow> safestrcpy_loop s t k m a = m a"
  by (induction k arbitrary: s t m) auto

lemma safestrcpy_loop_nul:
  "\<exists>i\<le>k. safestrcpy_loop s t k m (s + i) = 0"
proof (induction k arbitrary: s t m)
  case (Suc k)
  then obtain i where "i \<le> k" "safestrcpy_loop (Suc s) (Suc t) k (m(s := m t)) (Suc s + i) = 0"
    by blast
  then show ?case by (cases "m t = 0") (auto intro: exI [of _ "Suc i"] exI [of _ 0])
qed auto

lemma safestrcpy_loop_prefix:
  "s + k < t \<or> t + k < s \<Longrightarrow> i < k \<Longrightarrow> upto_nul m t i \<Longrightarrow>
   safestrcpy_loop s t k m (s + i) = m (t + i)"
proof (induction k arbitrary: s t m i)
  case (Suc k)
  show ?case
  proof (cases i)
    case 0
    with Suc.prems show ?thesis by (auto simp: safestrcpy_loop_frame)
  next
    case (Suc j)
    have nz: "m t \<noteq> 0" "upto_nul m (Suc t) j" using Suc.prems(3) Suc by (auto simp: upto_nul_Suc)
    then have "upto_nul (m(s := m t)) (Suc t) j"
      using Suc.prems Suc by (subst upto_nul_cong [of _ _ _ m]) auto
    then have "safestrcpy_loop (Suc s) (Suc t) k (m(s := m t)) (Suc s + j) = (m(s := m t)) (Suc t + j)"
      using Suc.prems Suc by (intro Suc.IH [of "Suc s" "Suc t" j "m(s := m t)"]) (auto simp: fun_upd_def)
    with nz Suc Suc.prems show ?thesis by auto
  qed
qed simp

lemma strlen_from_None_step: "m (s + n) \<noteq> 0 \<Longrightarrow> strlen_from s n m = strlen_from s (Suc n) m"
  by (subst strlen_from.simps) simp

lemma strlen_from_hit: "m (s + n) = 0 \<Longrightarrow> strlen_from s n m = Some n"
  by (subst strlen_from.simps) simp

lemma strlen_from_total:
  "(\<forall>j<k. m (s + n + j) \<noteq> 0) \<Longrightarrow> m (s + n + k) = 0 \<Longrightarrow> strlen_from s n m = Some (n + k)"
proof (induction k arbitrary: n)
  case 0
  then show ?case by (simp add: strlen_from_hit)
next
  case (Suc k)
  then have "strlen_from s n m = strlen_from s (Suc n) m"
    by (intro strlen_from_None_step) auto
  also have "\<dots> = Some (Suc n + k)"
    using Suc.prems by (intro Suc.IH) (auto simp: all_less_Suc_shift)
  finally show ?case by simp
qed

lemma strlen_from_sound: "strlen_from s n m = Some r \<Longrightarrow> n \<le> r \<and> m (s + r) = 0 \<and> (\<forall>j. n \<le> j \<and> j < r \<longrightarrow> m (s + j) \<noteq> 0)"
proof (induction rule: strlen_from.raw_induct [where P = "\<lambda>s n m r. n \<le> r \<and> m (s + r) = 0 \<and>
    (\<forall>j. n \<le> j \<and> j < r \<longrightarrow> m (s + j) \<noteq> 0)", rotated 1, consumes 1])
  case (1 f s n m r)
  show ?case
  proof (cases "m (s + n) = 0")
    case False
    with 1 have "Suc n \<le> r \<and> m (s + r) = 0 \<and> (\<forall>j. Suc n \<le> j \<and> j < r \<longrightarrow> m (s + j) \<noteq> 0)"
      by simp
    with False show ?thesis by (metis Suc_leI Suc_leD le_neq_implies_less)
  qed (use 1 in auto)
qed

section \<open>Properties\<close>

text \<open>C24: \<^verbatim>\<open>memmove\<close> copies the \<open>n\<close> source bytes to the destination as they were before the
  call, also when the two ranges overlap in either direction, and changes no other byte.\<close>

theorem memmove_correct:
  "memmove dst src n m a =
     (if dst \<le> a \<and> a < dst + n then m (src + (a - dst)) else m a)"
  unfolding memmove_def using move_down_apply [of src dst n m a] move_up_apply [of dst src n m a]
  by auto

text \<open>\<^verbatim>\<open>strlen\<close> returns exactly the offset of the first NUL byte, and it does return whenever
  there is one.\<close>

theorem strlen_correct:
  "strlen s m = Some n \<longleftrightarrow> m (s + n) = 0 \<and> upto_nul m s n"
  using strlen_from_total [of n m s 0] strlen_from_sound [of s 0 m n]
  by (auto simp: strlen_def upto_nul_def)

text \<open>\<^verbatim>\<open>safestrcpy\<close> never stores outside the \<open>n\<close> bytes of its destination, leaves a NUL among
  them, and copies the source string as far as it fits.\<close>

theorem safestrcpy_correct:
  assumes "0 < n" and "s + nat n \<le> t \<or> t + nat n \<le> s"
  shows "(\<forall>a. a < s \<or> s + nat n \<le> a \<longrightarrow> safestrcpy s t n m a = m a) \<and>
         (\<exists>i<nat n. safestrcpy s t n m (s + i) = 0) \<and>
         (\<forall>i. Suc i < nat n \<and> upto_nul m t i \<longrightarrow> safestrcpy s t n m (s + i) = m (t + i))"
proof -
  obtain k where k: "nat n = Suc k" using assms(1) by (cases "nat n") auto
  then have eq: "safestrcpy s t n m = safestrcpy_loop s t k m"
    using assms(1) by (simp add: safestrcpy_def)
  show ?thesis
    unfolding eq k using assms(2) k safestrcpy_loop_nul [of k s t m]
    by (auto simp: safestrcpy_loop_frame safestrcpy_loop_prefix less_Suc_eq_le)
qed

theorem safestrcpy_correct_witness:
  "safestrcpy 0 8 4 (\<lambda>a. if a = 8 then 97 else if a = 9 then 98 else 0) 1 = 98"
  using safestrcpy_correct [of 4 0 8 "\<lambda>a. if a = 8 then 97 else if a = 9 then 98 else 0"]
  by (auto simp: upto_nul_def dest!: spec [of _ 1])

end
