(* ===== verification/Printf.thy ===== *)
theory Printf
  imports Klib
begin

text \<open>
  \<^verbatim>\<open>kernel/printf.c\<close>: the formatter as a function from the format string and the arguments to
  the characters handed to \<^verbatim>\<open>consputc\<close>. A string is the list of its bytes before the NUL. An
  argument is a 64-bit register; a pointer argument is the string it points to, or none.
\<close>

section \<open>Model\<close>

datatype vararg = VNum u64 | VStr "u8 list option"

definition bytes_of :: "string \<Rightarrow> u8 list" where
  "bytes_of str = map of_char str"

definition digits :: "u8 list" where
  "digits = bytes_of ''0123456789abcdef''"

text \<open>
  The do-while loop that fills \<^verbatim>\<open>buf\<close>, least significant digit first. The callers pass base
  10 or 16; with base 0 or 1 the C loop would not end and the model stops at once.
\<close>

function digit_loop :: "u64 \<Rightarrow> u64 \<Rightarrow> u8 list" where
  "digit_loop x base =
     (let d = digits ! unat (x mod base); x' = x div base
      in if x' = 0 \<or> base \<le> 1 then [d] else d # digit_loop x' base)"
  by pat_completeness auto
termination
proof (relation "measure (\<lambda>(x, base). unat x)")
  fix x base x' :: u64 and d :: u8
  assume "x' = x div base" "\<not> (x' = 0 \<or> base \<le> 1)"
  then have z: "x' \<noteq> 0" and b: "1 < unat base" and x: "unat x' = unat x div unat base"
    by (simp_all add: unat_div_distrib word_le_nat_alt)
  have n: "unat x' \<noteq> 0" using z by (simp only: unat_eq_zero not_False_eq_True)
  have "unat x \<noteq> 0" using x n by (intro notI) simp
  then have "unat x' < unat x" unfolding x using b by simp
  then show "((x', base), x, base) \<in> measure (\<lambda>(x, base). unat x)" by simp
qed simp

declare digit_loop.simps [simp del]

text \<open>
  \<^verbatim>\<open>-xx\<close> of the most negative number overflows in C; the compiled code negates modulo \<open>2^64\<close>, as here.
\<close>

definition printint_buf :: "u64 \<Rightarrow> u64 \<Rightarrow> bool \<Rightarrow> u8 list" where
  "printint_buf xx base sign =
     (let neg = (sign \<and> sint xx < 0); x = (if neg then - xx else xx)
      in digit_loop x base @ (if neg then [of_char (CHR ''-'')] else []))"

definition printint :: "u64 \<Rightarrow> u64 \<Rightarrow> bool \<Rightarrow> u8 list" where
  "printint xx base sign = rev (printint_buf xx base sign)"

fun ptr_loop :: "nat \<Rightarrow> u64 \<Rightarrow> u8 list" where
  "ptr_loop 0 x = []"
| "ptr_loop (Suc n) x = digits ! unat (drop_bit 60 x) # ptr_loop n (push_bit 4 x)"

definition printptr :: "u64 \<Rightarrow> u8 list" where
  "printptr x = bytes_of ''0x'' @ ptr_loop 16 x"

definition fmt_at :: "u8 list \<Rightarrow> nat \<Rightarrow> u8" where
  "fmt_at fmt i = (if i < length fmt then fmt ! i else 0)"

fun num_arg :: "vararg list \<Rightarrow> (u64 \<times> vararg list) option" where
  "num_arg (VNum x # ap) = Some (x, ap)"
| "num_arg ap = None"

fun str_arg :: "vararg list \<Rightarrow> (u8 list option \<times> vararg list) option" where
  "str_arg (VStr x # ap) = Some (x, ap)"
| "str_arg ap = None"

text \<open>\<^verbatim>\<open>va_arg(ap, int)\<close> and \<^verbatim>\<open>va_arg(ap, uint32)\<close> look at the low half of the register.\<close>

definition as_int :: "u64 \<Rightarrow> u64" where
  "as_int x = scast (ucast x :: u32)"

definition as_uint32 :: "u64 \<Rightarrow> u64" where
  "as_uint32 x = ucast (ucast x :: u32)"

text \<open>One \<^verbatim>\<open>%\<close> sequence: what it prints, the remaining arguments and how far it advances in the
  format; \<^verbatim>\<open>None\<close> when the argument is missing or of the other kind, which C leaves undefined.\<close>

definition conversion :: "u8 \<Rightarrow> u8 \<Rightarrow> u8 \<Rightarrow> vararg list \<Rightarrow> (u32 list \<times> vararg list \<times> nat) option" where
  "conversion c0 c1 c2 ap =
    (let d = of_char (CHR ''d''); l = of_char (CHR ''l''); u = of_char (CHR ''u''); x = of_char (CHR ''x'');
         num = (\<lambda>conv base sign n. map_option (\<lambda>(v, ap). (map ucast (printint (conv v) base sign), ap, n)) (num_arg ap))
     in if c0 = d then num as_int 10 True 1
        else if c0 = l \<and> c1 = d then num id 10 True 2
        else if c0 = l \<and> c1 = l \<and> c2 = d then num id 10 True 3
        else if c0 = u then num as_uint32 10 False 1
        else if c0 = l \<and> c1 = u then num id 10 False 2
        else if c0 = l \<and> c1 = l \<and> c2 = u then num id 10 False 3
        else if c0 = x then num as_uint32 16 False 1
        else if c0 = l \<and> c1 = x then num id 16 False 2
        else if c0 = l \<and> c1 = l \<and> c2 = x then num id 16 False 3
        else if c0 = of_char (CHR ''p'') then map_option (\<lambda>(v, ap). (map ucast (printptr v), ap, 1)) (num_arg ap)
        else if c0 = of_char (CHR ''c'') then map_option (\<lambda>(v, ap). ([ucast v], ap, 1)) (num_arg ap)
        else if c0 = of_char (CHR ''s'') then
          map_option (\<lambda>(p, ap). (map ucast (case p of None \<Rightarrow> bytes_of ''(null)'' | Some s \<Rightarrow> s), ap, 1)) (str_arg ap)
        else if c0 = of_char (CHR ''%'') then Some ([of_char (CHR ''%'')], ap, 1)
        else Some ([of_char (CHR ''%''), ucast c0], ap, 1))"

text \<open>The loop of \<^verbatim>\<open>printf\<close>; the result is the sequence of arguments of \<^verbatim>\<open>consputc\<close>.\<close>

function printf :: "u8 list \<Rightarrow> vararg list \<Rightarrow> u32 list option" where
  "printf [] ap = Some []"
| "printf (cx # fmt) ap =
     (if cx \<noteq> of_char (CHR ''%'') then map_option (\<lambda>out. ucast cx # out) (printf fmt ap)
      else
        let c0 = fmt_at fmt 0;
            c1 = (if c0 \<noteq> 0 then fmt_at fmt 1 else 0);
            c2 = (if c1 \<noteq> 0 then fmt_at fmt 2 else 0)
        in if c0 = 0 then Some []
           else case conversion c0 c1 c2 ap of
             None \<Rightarrow> None
           | Some (out, ap, n) \<Rightarrow> map_option (\<lambda>rest. out @ rest) (printf (drop n fmt) ap))"
  by pat_completeness auto
termination
  by (relation "measure (\<lambda>(fmt, ap). length fmt)") auto

declare printf.simps [simp del]

text \<open>\<^verbatim>\<open>panic\<close> prints its message and stops the machine.\<close>

definition panic_text :: "u8 list \<Rightarrow> u32 list option" where
  "panic_text msg =
     (case printf (bytes_of ''panic: '') [] of None \<Rightarrow> None
      | Some a \<Rightarrow> map_option (\<lambda>b. a @ b) (printf (bytes_of ''%s\<newline>'') [VStr (Some msg)]))"

section \<open>Numbers\<close>

definition digit_val :: "u8 \<Rightarrow> int" where
  "digit_val c = (if c \<le> of_char (CHR ''9'') then uint c - 48 else uint c - 87)"

text \<open>Reading a numeral, most significant digit first, with an optional minus sign.\<close>

definition unsigned_val :: "int \<Rightarrow> u8 list \<Rightarrow> int" where
  "unsigned_val base ds = foldl (\<lambda>acc c. acc * base + digit_val c) 0 ds"

fun numeral_val :: "int \<Rightarrow> u8 list \<Rightarrow> int" where
  "numeral_val base [] = 0"
| "numeral_val base (c # ds) =
     (if c = of_char (CHR ''-'') then - unsigned_val base ds else unsigned_val base (c # ds))"

lemma unsigned_val_snoc: "unsigned_val base (ds @ [c]) = unsigned_val base ds * base + digit_val c"
  by (simp add: unsigned_val_def)

lemma digits_val: "n < 16 \<Longrightarrow> digit_val (digits ! n) = int n"
proof -
  have "\<forall>n \<in> {0..<16}. digit_val (digits ! n) = int n" by code_simp
  then show "n < 16 \<Longrightarrow> digit_val (digits ! n) = int n" by simp
qed

lemma digits_not_minus: "n < 16 \<Longrightarrow> digits ! n \<noteq> of_char (CHR ''-'')"
proof -
  have "\<forall>n \<in> {0..<16}. digits ! n \<noteq> of_char (CHR ''-'')" by code_simp
  then show "n < 16 \<Longrightarrow> digits ! n \<noteq> of_char (CHR ''-'')" by simp
qed

abbreviation print_base :: "u64 \<Rightarrow> bool" where
  "print_base base \<equiv> base = 10 \<or> base = 16"

lemma digit_loop_step:
  assumes "print_base base"
  shows "unat (x div base) = unat x div unat base" "unat (x mod base) = unat x mod unat base" "unat (x mod base) < 16"
  using assms by (auto simp: unat_div_distrib unat_mod_distrib)

lemma print_base_large: "print_base base \<Longrightarrow> \<not> base \<le> 1" "print_base base \<Longrightarrow> 10 \<le> unat base"
  by (auto simp: word_le_nat_alt)

lemma digit_loop_val:
  assumes "print_base base"
  shows "unsigned_val (uint base) (rev (digit_loop x base)) = uint x \<and>
    (\<forall>c \<in> set (digit_loop x base). c \<noteq> of_char (CHR ''-'')) \<and> digit_loop x base \<noteq> []"
  using assms
proof (induction x base rule: digit_loop.induct)
  case (1 x base)
  note st = digit_loop_step [OF 1(2), of x] print_base_large [OF 1(2)]
  let ?d = "digits ! unat (x mod base)"
  have dv: "digit_val ?d = int (unat x mod unat base)" using digits_val [OF st(3)] st(2) by simp
  have dm: "?d \<noteq> of_char (CHR ''-'')" by (rule digits_not_minus [OF st(3)])
  show ?case
  proof (cases "x div base = 0")
    case True
    then have "unat x div unat base = 0" using st(1) by simp
    then have "unat x mod unat base = unat x" using div_mult_mod_eq [of "unat x" "unat base"] by simp
    moreover have "digit_loop x base = [?d]" using True by (simp add: digit_loop.simps [of x base])
    ultimately show ?thesis using dv dm by (simp add: unsigned_val_def)
  next
    case False
    have l: "digit_loop x base = ?d # digit_loop (x div base) base"
      using False st(4) by (simp add: digit_loop.simps [of x base])
    have ih: "unsigned_val (uint base) (rev (digit_loop (x div base) base)) = uint (x div base)"
      "\<forall>c \<in> set (digit_loop (x div base) base). c \<noteq> of_char (CHR ''-'')"
      using 1(1) [OF refl refl _ 1(2)] False st(4) by blast+
    have "uint (x div base) * uint base + int (unat x mod unat base) = int (unat (x div base) * unat base + unat x mod unat base)"
      by simp
    also have "\<dots> = uint x" unfolding st(1) by simp
    finally show ?thesis using ih dv dm unfolding l by (simp add: unsigned_val_snoc)
  qed
qed

lemma digit_loop_length:
  assumes "print_base base" "unat x < 10 ^ Suc n"
  shows "length (digit_loop x base) \<le> Suc n"
  using assms
proof (induction n arbitrary: x)
  case 0
  note st = digit_loop_step [OF 0(1), of x] print_base_large [OF 0(1)]
  have "x div base = 0" using st(1,5) 0(2) by (simp add: unat_eq_zero [symmetric])
  then show ?case by (simp add: digit_loop.simps [of x base])
next
  case (Suc n)
  note st = digit_loop_step [OF Suc.prems(1), of x] print_base_large [OF Suc.prems(1)]
  have "unat x < 10 ^ Suc n * 10" using Suc.prems(2) by (simp only: power_Suc mult.commute)
  then have "unat x div 10 < 10 ^ Suc n" by (rule less_mult_imp_div_less)
  moreover have "unat x div unat base \<le> unat x div 10" by (rule div_le_mono2 [OF _ st(5)]) simp
  ultimately have "unat x div unat base < 10 ^ Suc n" by (rule le_less_trans [rotated])
  then have "length (digit_loop (x div base) base) \<le> Suc n" using Suc.IH [OF Suc.prems(1)] st(1) by simp
  then show ?case by (simp add: digit_loop.simps [of x base] Let_def)
qed

section \<open>Properties\<close>

text \<open>
  C35: \<^verbatim>\<open>printint\<close> prints the number: read back in its base, the output of a signed conversion is the signed
  value and that of an unsigned one the unsigned value, for every 64-bit argument including the most
  negative number, and never more than the 20 characters that its buffer holds.
\<close>

theorem printint_correct:
  assumes "base = 10 \<or> base = 16"
  shows "numeral_val (uint base) (printint xx base sign) = (if sign then sint xx else uint xx) \<and>
    length (printint_buf xx base sign) \<le> 20"
proof -
  define x where "x = (if sign \<and> sint xx < 0 then - xx else xx)"
  note dl = digit_loop_val [OF assms, of x]
  obtain c cs where e: "rev (digit_loop x base) = c # cs" using dl by (cases "rev (digit_loop x base)") auto
  have "c \<in> set (digit_loop x base)" using arg_cong [OF e, of set] by auto
  then have nm: "numeral_val (uint base) (rev (digit_loop x base)) = uint x" using dl unfolding e by simp
  have ux: "unat x < 10 ^ 20" using unsigned_less [of x, where ?'a = nat] by simp
  then have len20: "length (digit_loop x base) \<le> 20" using digit_loop_length [OF assms, of x 19] by simp
  show ?thesis
  proof (cases "sign \<and> sint xx < 0")
    case True
    have neg: "sint xx < 0" "sint xx \<ge> - (2 ^ 63)" using True sint_greater_eq [of xx] by simp_all
    have "sint xx mod 2 ^ 64 = sint xx + 2 ^ 64"
      using neg mod_add_self2 [of "sint xx" "2 ^ 64"] mod_pos_pos_trivial [of "sint xx + 2 ^ 64" "2 ^ 64"] by simp
    then have ui: "uint xx = sint xx + 2 ^ 64" by (simp add: uint_sint take_bit_int_def)
    have x: "uint x = - sint xx" using neg True ui by (simp add: x_def uint_word_ariths)
    then have "unat x < 10 ^ 19" using neg by (simp add: unat_eq_nat_uint)
    then have "length (digit_loop x base) \<le> 19" using digit_loop_length [OF assms, of x 18] by simp
    then show ?thesis using True dl x by (simp add: printint_def printint_buf_def x_def Let_def)
  next
    case False
    have "uint xx = sint xx" if "sign"
      using that False sint_less [of xx] by (simp add: uint_sint take_bit_int_eq_self)
    moreover have "x = xx" using False by (simp only: x_def if_False)
    ultimately show ?thesis using False nm len20 by (auto simp: printint_def printint_buf_def Let_def)
  qed
qed

theorem printint_correct_witness:
  "numeral_val 10 (printint 0x8000000000000000 10 True) = - 9223372036854775808 \<and>
   length (printint_buf 0x8000000000000000 10 True) \<le> 20"
  using printint_correct [of 10 "0x8000000000000000" True] by simp

end
