(* ===== verification/Console.thy ===== *)
theory Console
  imports Pipe Printf
begin

text \<open>
  \<^verbatim>\<open>kernel/uart.c\<close> and \<^verbatim>\<open>kernel/console.c\<close>. The UART is what the driver sees of it: the bytes
  written to its transmit register so far, the bytes waiting in its receive register, and whether
  the line status register reports the transmitter idle. Writing the transmit register makes
  it busy; \<^verbatim>\<open>uart_sent\<close> is the step of the device that finishes sending. Once the kernel has
  panicked nothing runs any more, so the \<^verbatim>\<open>panicked\<close> flag has no place in the state.
\<close>

section \<open>UART\<close>

record cons_state = pipe_state +
  uart_out :: "u8 list"
  uart_in :: "u8 list"
  uart_idle :: bool
  tx_busy :: int
  cons_buf :: "nat \<Rightarrow> u8"
  cons_r :: u32
  cons_w :: u32
  cons_e :: u32

definition write_THR :: "u8 \<Rightarrow> 'a cons_state_scheme \<Rightarrow> 'a cons_state_scheme" where
  "write_THR c s = s\<lparr>uart_out := uart_out s @ [c], uart_idle := False\<rparr>"

definition uart_sent :: "'a cons_state_scheme \<Rightarrow> 'a cons_state_scheme" where
  "uart_sent s = s\<lparr>uart_idle := True\<rparr>"

text \<open>
  \<^verbatim>\<open>uartwrite\<close> from any point of its loop: the argument is what is left of the buffer and the result
  what is still left when it returns (nothing) or goes to sleep on \<^verbatim>\<open>tx_chan\<close>.
\<close>

fun uartwrite :: "u8 list \<Rightarrow> 'a cons_state_scheme \<Rightarrow> (u8 list, 'a cons_state_scheme) outcome" where
  "uartwrite [] s = Done [] s"
| "uartwrite (b # buf) s =
     (if tx_busy s \<noteq> 0 then
        (case sleep ChUart s of Asleep c s \<Rightarrow> Done (b # buf) s | Panic e \<Rightarrow> Panic e | Done r s \<Rightarrow> Done r s)
      else uartwrite buf ((write_THR b s)\<lparr>tx_busy := 1\<rparr>))"

text \<open>\<^verbatim>\<open>uartputc_sync\<close> spins until the device has sent the previous byte.\<close>

definition uartputc_sync :: "u8 \<Rightarrow> 'a cons_state_scheme \<Rightarrow> 'a cons_state_scheme" where
  "uartputc_sync c s = write_THR c (uart_sent s)"

definition uartgetc :: "'a cons_state_scheme \<Rightarrow> int \<times> 'a cons_state_scheme" where
  "uartgetc s = (case uart_in s of [] \<Rightarrow> (-1, s) | c # cs \<Rightarrow> (uint c, s\<lparr>uart_in := cs\<rparr>))"

section \<open>Console\<close>

abbreviation BACKSPACE :: u32 where "BACKSPACE \<equiv> 0x100"
abbreviation INPUT_BUF_SIZE :: nat where "INPUT_BUF_SIZE \<equiv> 128"

definition ctrl :: "char \<Rightarrow> u8" where
  "ctrl x = of_char x - of_char (CHR ''@'')"

abbreviation NL :: u8 where "NL \<equiv> 10"
abbreviation EOT :: u8 where "EOT \<equiv> 4"

definition consputc :: "u32 \<Rightarrow> 'a cons_state_scheme \<Rightarrow> 'a cons_state_scheme" where
  "consputc c s =
     (if c = BACKSPACE then uartputc_sync 8 (uartputc_sync (of_char (CHR '' '')) (uartputc_sync 8 s))
      else uartputc_sync (ucast c) s)"

text \<open>
  \<^verbatim>\<open>consolewrite\<close> from any point: \<open>i\<close> bytes have been fetched from the caller and \<open>buf\<close> is the part of the
  last batch that is still to be sent. It returns the number of bytes written, or how to go on
  after sleeping in \<^verbatim>\<open>uartwrite\<close>.
\<close>

datatype cons_progress = CRet int | CBlocked nat "u8 list"

function consolewrite_from :: "place \<Rightarrow> nat \<Rightarrow> nat \<Rightarrow> u8 list \<Rightarrow> 'a cons_state_scheme \<Rightarrow>
    (cons_progress, 'a cons_state_scheme) outcome" where
  "consolewrite_from src n i buf s =
     obind (uartwrite buf s) (\<lambda>rest s.
       if rest \<noteq> [] then Done (CBlocked i rest) s
       else if \<not> i < n then Done (CRet (int i)) s
       else
         let nn = min 32 (n - i) in
         obind (either_copyin (place_add src i) [] nn s) (\<lambda>(r, bs) s.
           if r = -1 then Done (CRet (int i)) s
           else consolewrite_from src n (i + nn) bs s))"
  by pat_completeness auto
termination
  by (relation "measure (\<lambda>(src, n, i, buf, s). n - i)") auto

declare consolewrite_from.simps [simp del]

definition consolewrite :: "place \<Rightarrow> int \<Rightarrow> 'a cons_state_scheme \<Rightarrow> (int, 'a cons_state_scheme) outcome" where
  "consolewrite src n s =
     obind (consolewrite_from src (nat n) 0 [] s) (\<lambda>r s.
       case r of CRet v \<Rightarrow> Done v s | CBlocked i rest \<Rightarrow> Asleep ChUart s)"

text \<open>
  \<^verbatim>\<open>consoleread\<close> with \<open>n\<close> bytes left to read of \<open>target\<close>; \<open>Blocked n\<close> when it goes to sleep with \<open>n\<close> left.
\<close>

fun consoleread_loop :: "place \<Rightarrow> nat \<Rightarrow> nat \<Rightarrow> 'a cons_state_scheme \<Rightarrow> (progress, 'a cons_state_scheme) outcome" where
  "consoleread_loop dst target 0 s = Done (Ret (int target)) s"
| "consoleread_loop dst target (Suc n) s =
     (if cons_r s = cons_w s then
        if killed (cur s) s \<noteq> 0 then Done (Ret (-1)) s
        else (case sleep ChCons s of Asleep c s \<Rightarrow> Done (Blocked (Suc n)) s | Panic e \<Rightarrow> Panic e | Done r s \<Rightarrow> Done r s)
      else
        let c = cons_buf s (unat (cons_r s) mod INPUT_BUF_SIZE);
            s = s\<lparr>cons_r := cons_r s + 1\<rparr>
        in if c = ctrl (CHR ''D'') then
             Done (Ret (int (target - Suc n))) (if Suc n < target then s\<lparr>cons_r := cons_r s - 1\<rparr> else s)
           else obind (either_copyout (place_add dst (target - Suc n)) [c] s) (\<lambda>r s.
             if r = -1 then Done (Ret (int (target - Suc n))) s
             else if c = NL then Done (Ret (int (target - n))) s
             else consoleread_loop dst target n s))"

definition consoleread :: "place \<Rightarrow> int \<Rightarrow> 'a cons_state_scheme \<Rightarrow> (int, 'a cons_state_scheme) outcome" where
  "consoleread dst n s =
     (if n \<le> 0 then Done 0 s
      else obind (consoleread_loop dst (nat n) (nat n) s) (\<lambda>r s.
        case r of Ret v \<Rightarrow> Done v s | Blocked m \<Rightarrow> Asleep ChCons s))"

text \<open>\<^verbatim>\<open>procdump\<close>: the text it prints.\<close>

definition proc_line :: "int \<times> string \<times> (nat \<Rightarrow> u8) \<Rightarrow> u32 list option" where
  "proc_line e = (case e of (pid, st, name) \<Rightarrow>
     (case printf (bytes_of ''%d %s %s'') [VNum (word_of_int pid), VStr (Some (bytes_of st)),
              VStr (Some (takeWhile (\<lambda>c. c \<noteq> 0) (map name [0..<16])))] of
        None \<Rightarrow> None
      | Some a \<Rightarrow> map_option (\<lambda>b. a @ b) (printf (bytes_of ''\<newline>'') [])))"

definition procdump_text :: "'a proc_state_scheme \<Rightarrow> u32 list option" where
  "procdump_text s =
     foldl (\<lambda>acc e. case (acc, proc_line e) of (Some a, Some b) \<Rightarrow> Some (a @ b) | _ \<Rightarrow> None)
       (printf (bytes_of ''\<newline>'') []) (procdump s)"

text \<open>The loop of control-U.\<close>

function kill_line :: "'a cons_state_scheme \<Rightarrow> 'a cons_state_scheme" where
  "kill_line s =
     (if cons_e s \<noteq> cons_w s \<and> cons_buf s (unat (cons_e s - 1) mod INPUT_BUF_SIZE) \<noteq> NL
      then kill_line (consputc BACKSPACE (s\<lparr>cons_e := cons_e s - 1\<rparr>)) else s)"
  by pat_completeness auto
termination
proof (relation "measure (\<lambda>s. unat (cons_e s - cons_w s))")
  fix s :: "'a cons_state_scheme"
  assume a: "cons_e s \<noteq> cons_w s \<and> cons_buf s (unat (cons_e s - 1) mod INPUT_BUF_SIZE) \<noteq> NL"
  let ?x = "cons_e s - 1 - cons_w s"
  have "?x + 1 \<noteq> 0" using a by simp
  then have "unat (?x + 1) = Suc (unat ?x)" by (rule unat_word_nonzero)
  then have "unat ?x < unat (cons_e s - cons_w s)" by simp
  then show "(consputc BACKSPACE (s\<lparr>cons_e := cons_e s - 1\<rparr>), s) \<in> measure (\<lambda>s. unat (cons_e s - cons_w s))"
    by (simp add: consputc_def uartputc_sync_def write_THR_def uart_sent_def)
qed simp

declare kill_line.simps [simp del]

definition consoleintr :: "u8 \<Rightarrow> 'a cons_state_scheme \<Rightarrow> 'a cons_state_scheme" where
  "consoleintr c s =
     (if c = ctrl (CHR ''P'') then
        (case procdump_text s of None \<Rightarrow> s | Some out \<Rightarrow> fold consputc out s)
      else if c = ctrl (CHR ''U'') then kill_line s
      else if c = ctrl (CHR ''H'') \<or> c = 0x7f then
        if cons_e s \<noteq> cons_w s then consputc BACKSPACE (s\<lparr>cons_e := cons_e s - 1\<rparr>) else s
      else if c \<noteq> 0 \<and> unat (cons_e s - cons_r s) < INPUT_BUF_SIZE then
        let c = (if c = 13 then NL else c);
            s = consputc (ucast c) s;
            s = s\<lparr>cons_buf := (cons_buf s)(unat (cons_e s) mod INPUT_BUF_SIZE := c), cons_e := cons_e s + 1\<rparr>
        in if c = NL \<or> c = ctrl (CHR ''D'') \<or> unat (cons_e s - cons_r s) = INPUT_BUF_SIZE
           then wakeup ChCons (s\<lparr>cons_w := cons_e s\<rparr>) else s
      else s)"

text \<open>What the output routines change.\<close>

definition consputc_bytes :: "u32 \<Rightarrow> u8 list" where
  "consputc_bytes c = (if c = BACKSPACE then [8, 32, 8] else [ucast c])"

lemma consputc_eq: "consputc c s = s\<lparr>uart_out := uart_out s @ consputc_bytes c, uart_idle := False\<rparr>"
  by (simp add: consputc_def consputc_bytes_def uartputc_sync_def write_THR_def uart_sent_def)

lemma fold_consputc: "\<exists>b. fold consputc out s = s\<lparr>uart_out := uart_out s @ concat (map consputc_bytes out), uart_idle := b\<rparr>"
proof (induction out arbitrary: s)
  case Nil
  show ?case by (rule exI [of _ "uart_idle s"]) simp
next
  case (Cons c out)
  then obtain b where "fold consputc out (consputc c s) = (consputc c s)\<lparr>uart_out := uart_out (consputc c s) @
    concat (map consputc_bytes out), uart_idle := b\<rparr>" by blast
  then show ?case by (intro exI [of _ b]) (simp add: consputc_eq [of c])
qed

lemma kill_line_frame: "\<exists>e out b. kill_line s = s\<lparr>cons_e := e, uart_out := out, uart_idle := b\<rparr>"
proof (induction s rule: kill_line.induct)
  case (1 s)
  show ?case
  proof (cases "cons_e s \<noteq> cons_w s \<and> cons_buf s (unat (cons_e s - 1) mod INPUT_BUF_SIZE) \<noteq> NL")
    case True
    from 1 [OF True] obtain e out b where "kill_line (consputc BACKSPACE (s\<lparr>cons_e := cons_e s - 1\<rparr>)) =
      (consputc BACKSPACE (s\<lparr>cons_e := cons_e s - 1\<rparr>))\<lparr>cons_e := e, uart_out := out, uart_idle := b\<rparr>" by blast
    then show ?thesis using True
      by (intro exI [of _ e] exI [of _ out] exI [of _ b]) (simp add: kill_line.simps [of s] consputc_eq)
  next
    case False
    then have "kill_line s = s" by (subst kill_line.simps) (simp only: if_False)
    then show ?thesis
      by (intro exI [of _ "cons_e s"] exI [of _ "uart_out s"] exI [of _ "uart_idle s"]) simp
  qed
qed

lemma uart_in_wakeup [simp]: "uart_in (wakeup c s) = uart_in s"
  by (simp add: wakeup_def)

lemma consoleintr_uart_in: "uart_in (consoleintr c s) = uart_in s"
proof -
  have k: "uart_in (kill_line s) = uart_in s"
    using kill_line_frame [of s] by auto
  have "uart_in (fold consputc out s) = uart_in s" for out
    using fold_consputc [of out s] by auto
  then show ?thesis by (simp add: consoleintr_def Let_def k consputc_eq split: option.split)
qed

text \<open>The second half of \<^verbatim>\<open>uartintr\<close>: every waiting byte goes to the console.\<close>

function uart_drain :: "'a cons_state_scheme \<Rightarrow> 'a cons_state_scheme" where
  "uart_drain s = (case uartgetc s of (c, s') \<Rightarrow> if c = -1 then s' else uart_drain (consoleintr (word_of_int c) s'))"
  by pat_completeness auto
termination
  by (relation "measure (\<lambda>s. length (uart_in s))")
    (auto simp: uartgetc_def consoleintr_uart_in split: list.splits)

declare uart_drain.simps [simp del]

definition uartintr :: "'a cons_state_scheme \<Rightarrow> 'a cons_state_scheme" where
  "uartintr s =
     (let s = (if uart_idle s then wakeup ChUart (s\<lparr>tx_busy := 0\<rparr>) else s) in uart_drain s)"

section \<open>The line editor\<close>

text \<open>
  What a user at the terminal is promised. The console holds the input that is ready to be
  read and the line being edited. A newline, an end-of-file character or the last free place of
  the buffer makes the line available; backspace and control-U work on the edited line
  only; a character for which there is no room, and NUL, are dropped.
\<close>

definition edit_step :: "u8 \<Rightarrow> u8 list \<times> u8 list \<Rightarrow> u8 list \<times> u8 list" where
  "edit_step c st = (case st of (ready, line) \<Rightarrow>
     if c = ctrl (CHR ''P'') then (ready, line)
     else if c = ctrl (CHR ''U'') then (ready, [])
     else if c = ctrl (CHR ''H'') \<or> c = 0x7f then (ready, butlast line)
     else if c = 0 \<or> length ready + length line = INPUT_BUF_SIZE then (ready, line)
     else
       let c = (if c = 13 then NL else c) in
       if c = NL \<or> c = ctrl (CHR ''D'') \<or> Suc (length ready + length line) = INPUT_BUF_SIZE
       then (ready @ line @ [c], []) else (ready, line @ [c]))"

definition cons_ready :: "'a cons_state_scheme \<Rightarrow> u8 list" where
  "cons_ready s = ring_list INPUT_BUF_SIZE (cons_buf s) (cons_r s) (cons_w s)"

definition cons_line :: "'a cons_state_scheme \<Rightarrow> u8 list" where
  "cons_line s = ring_list INPUT_BUF_SIZE (cons_buf s) (cons_w s) (cons_e s)"

definition cons_ok :: "'a cons_state_scheme \<Rightarrow> bool" where
  "cons_ok s \<longleftrightarrow> unat (cons_w s - cons_r s) + unat (cons_e s - cons_w s) = unat (cons_e s - cons_r s) \<and>
     unat (cons_e s - cons_r s) \<le> INPUT_BUF_SIZE \<and> NL \<notin> set (cons_line s) \<and>
     (unat (cons_e s - cons_r s) = INPUT_BUF_SIZE \<longrightarrow> cons_line s = [])"

lemma ring_list_same [simp]: "ring_list N buf r r = []"
  by (simp add: ring_list_def)

lemma cons_list_cong:
  assumes "cons_buf t = cons_buf s" "cons_r t = cons_r s" "cons_w t = cons_w s" "cons_e t = cons_e s"
  shows "cons_ready t = cons_ready s" "cons_line t = cons_line s" "cons_ok t = cons_ok s"
  using assms by (simp_all add: cons_ready_def cons_line_def cons_ok_def)

lemma cons_lengths: "length (cons_ready s) = unat (cons_w s - cons_r s)" "length (cons_line s) = unat (cons_e s - cons_w s)"
  by (simp_all add: cons_ready_def cons_line_def)

lemma kill_line_e:
  "NL \<notin> set (cons_line s) \<Longrightarrow> cons_e (kill_line s) = cons_w s"
proof (induction s rule: kill_line.induct)
  case (1 s)
  show ?case
  proof (cases "cons_e s = cons_w s")
    case True
    then show ?thesis by (simp add: kill_line.simps [of s])
  next
    case False
    let ?s = "consputc BACKSPACE (s\<lparr>cons_e := cons_e s - 1\<rparr>)"
    have "cons_line s \<noteq> []" using False unat_diff_pred [OF False] cons_lengths(2) [of s] by auto
    then have "last (cons_line s) \<in> set (cons_line s)" by (rule last_in_set)
    then have nl: "cons_buf s (unat (cons_e s - 1) mod INPUT_BUF_SIZE) \<noteq> NL"
      using 1(2) ring_last [OF False] by (auto simp: cons_line_def)
    have "cons_line ?s = butlast (cons_line s)"
      using ring_unput [OF False] by (simp add: cons_line_def consputc_eq)
    then have "NL \<notin> set (cons_line ?s)" using 1(2) in_set_butlastD by fastforce
    then have "cons_e (kill_line ?s) = cons_w ?s" using 1(1) False nl by blast
    then show ?thesis using False nl by (simp add: kill_line.simps [of s] consputc_eq)
  qed
qed

text \<open>Storing a character.\<close>

lemma cons_put:
  fixes s :: "'a cons_state_scheme" and c :: u8
  assumes ok: "cons_ok s" and room: "unat (cons_e s - cons_r s) < INPUT_BUF_SIZE"
  defines "t \<equiv> s\<lparr>cons_buf := (cons_buf s)(unat (cons_e s) mod INPUT_BUF_SIZE := c), cons_e := cons_e s + 1\<rparr>"
  shows "cons_ready t = cons_ready s" "cons_line t = cons_line s @ [c]"
    "unat (cons_e t - cons_r t) = Suc (unat (cons_e s - cons_r s))"
    "unat (cons_w t - cons_r t) + unat (cons_e t - cons_w t) = unat (cons_e t - cons_r t)"
    "cons_ready (t\<lparr>cons_w := cons_e t\<rparr>) = cons_ready s @ cons_line s @ [c]"
proof -
  have sum: "unat (cons_w s - cons_r s) + unat (cons_e s - cons_w s) = unat (cons_e s - cons_r s)"
    using ok by (simp add: cons_ok_def)
  have d: "INPUT_BUF_SIZE dvd 2 ^ 32" by simp
  have le: "unat (cons_w s - cons_r s) \<le> unat (cons_e s - cons_r s)"
    and lt: "unat (cons_e s - cons_w s) < INPUT_BUF_SIZE" using sum room by simp_all
  show r: "cons_ready t = cons_ready s"
    unfolding cons_ready_def t_def using ring_put_other [OF d room le] by simp
  show l: "cons_line t = cons_line s @ [c]"
    unfolding cons_line_def t_def using ring_put [OF d _ lt] by simp
  have "unat (cons_e s + 1 - cons_w s) = Suc (unat (cons_e s - cons_w s))" using lt by (intro unat_diff_Suc) simp
  moreover show n: "unat (cons_e t - cons_r t) = Suc (unat (cons_e s - cons_r s))"
    unfolding t_def using room unat_diff_Suc [of "cons_e s" "cons_r s"] by simp
  ultimately show sm: "unat (cons_w t - cons_r t) + unat (cons_e t - cons_w t) = unat (cons_e t - cons_r t)"
    using sum by (simp add: t_def)
  have "cons_ready (t\<lparr>cons_w := cons_e t\<rparr>) = cons_ready t @ cons_line t"
    using ring_split [OF sm, of INPUT_BUF_SIZE "cons_buf t"] by (simp add: cons_ready_def cons_line_def)
  then show "cons_ready (t\<lparr>cons_w := cons_e t\<rparr>) = cons_ready s @ cons_line s @ [c]" using r l by simp
qed

lemma cons_ok_I:
  assumes "unat (cons_w s - cons_r s) + unat (cons_e s - cons_w s) = unat (cons_e s - cons_r s)"
    "unat (cons_e s - cons_r s) \<le> INPUT_BUF_SIZE" "NL \<notin> set (cons_line s)"
    "unat (cons_e s - cons_r s) = INPUT_BUF_SIZE \<Longrightarrow> cons_line s = []"
  shows "cons_ok s"
  using assms by (simp add: cons_ok_def)

text \<open>Removing the last character or the whole line.\<close>

lemma cons_erase:
  fixes s :: "'a cons_state_scheme"
  assumes ok: "cons_ok s"
  shows "cons_e s \<noteq> cons_w s \<Longrightarrow> cons_ok (s\<lparr>cons_e := cons_e s - 1\<rparr>) \<and>
      cons_line (s\<lparr>cons_e := cons_e s - 1\<rparr>) = butlast (cons_line s)"
    and "cons_ok (s\<lparr>cons_e := cons_w s\<rparr>) \<and> cons_line (s\<lparr>cons_e := cons_w s\<rparr>) = []"
    and "cons_ready (s\<lparr>cons_e := e\<rparr>) = cons_ready s"
proof -
  note o = ok [unfolded cons_ok_def]
  show "cons_ok (s\<lparr>cons_e := cons_e s - 1\<rparr>) \<and> cons_line (s\<lparr>cons_e := cons_e s - 1\<rparr>) = butlast (cons_line s)"
    if ne: "cons_e s \<noteq> cons_w s"
  proof -
    have pos: "unat (cons_e s - cons_w s) = Suc (unat (cons_e s - 1 - cons_w s))" by (rule unat_diff_pred [OF ne])
    have "cons_e s \<noteq> cons_r s"
    proof
      assume "cons_e s = cons_r s"
      then show False using o pos by simp
    qed
    then have pos': "unat (cons_e s - cons_r s) = Suc (unat (cons_e s - 1 - cons_r s))" by (rule unat_diff_pred)
    have l: "cons_line (s\<lparr>cons_e := cons_e s - 1\<rparr>) = butlast (cons_line s)"
      using ring_unput [OF ne] by (simp add: cons_line_def)
    then show ?thesis using o pos pos' in_set_butlastD [of NL "cons_line s"] by (auto intro!: cons_ok_I)
  qed
  show "cons_ok (s\<lparr>cons_e := cons_w s\<rparr>) \<and> cons_line (s\<lparr>cons_e := cons_w s\<rparr>) = []"
  proof -
    have l: "cons_line (s\<lparr>cons_e := cons_w s\<rparr>) = []" by (simp add: cons_line_def)
    then show ?thesis using o by (auto intro!: cons_ok_I)
  qed
  show "cons_ready (s\<lparr>cons_e := e\<rparr>) = cons_ready s" by (simp add: cons_ready_def)
qed

lemma cons_commit:
  fixes s :: "'a cons_state_scheme" and c :: u8
  assumes ok: "cons_ok s" and room: "unat (cons_e s - cons_r s) < INPUT_BUF_SIZE"
  defines "t \<equiv> s\<lparr>cons_buf := (cons_buf s)(unat (cons_e s) mod INPUT_BUF_SIZE := c), cons_e := cons_e s + 1\<rparr>"
  shows "cons_ok (t\<lparr>cons_w := cons_e t\<rparr>) \<and> cons_line (t\<lparr>cons_w := cons_e t\<rparr>) = []"
    and "c \<noteq> NL \<Longrightarrow> unat (cons_e t - cons_r t) \<noteq> INPUT_BUF_SIZE \<Longrightarrow> cons_ok t"
proof -
  note p = cons_put [OF ok room, where c = c, folded t_def]
  have l: "cons_line (t\<lparr>cons_w := cons_e t\<rparr>) = []" by (simp add: cons_line_def)
  then show "cons_ok (t\<lparr>cons_w := cons_e t\<rparr>) \<and> cons_line (t\<lparr>cons_w := cons_e t\<rparr>) = []"
    using p(3) room by (auto intro!: cons_ok_I)
  show "cons_ok t" if "c \<noteq> NL" "unat (cons_e t - cons_r t) \<noteq> INPUT_BUF_SIZE"
    using that p ok room by (intro cons_ok_I) (simp_all add: cons_ok_def)
qed

lemma cons_wakeup [simp]: "cons_ready (wakeup c s) = cons_ready s" "cons_line (wakeup c s) = cons_line s"
  "cons_ok (wakeup c s) = cons_ok s"
  by (rule cons_list_cong; simp add: wakeup_def)+

lemma cons_consputc [simp]: "cons_ready (consputc c s) = cons_ready s" "cons_line (consputc c s) = cons_line s"
  "cons_ok (consputc c s) = cons_ok s" "cons_r (consputc c s) = cons_r s" "cons_w (consputc c s) = cons_w s"
  "cons_e (consputc c s) = cons_e s" "cons_buf (consputc c s) = cons_buf s"
  by ((rule cons_list_cong)?; simp add: consputc_eq)+

lemma consoleintr_store:
  fixes s :: "'a cons_state_scheme"
  assumes ok: "cons_ok s" and c: "c \<noteq> ctrl (CHR ''P'')" "c \<noteq> ctrl (CHR ''U'')" "c \<noteq> ctrl (CHR ''H'')" "c \<noteq> 0x7f"
    "c \<noteq> 0" and room: "unat (cons_e s - cons_r s) < INPUT_BUF_SIZE"
  shows "cons_ok (consoleintr c s) \<and>
    (cons_ready (consoleintr c s), cons_line (consoleintr c s)) = edit_step c (cons_ready s, cons_line s) \<and>
    (cons_ready (consoleintr c s) \<noteq> cons_ready s \<longrightarrow> woken ChCons (consoleintr c s))"
proof -
  define d where "d = (if c = 13 then NL else c)"
  let ?s = "consputc (ucast d) s"
  let ?t = "?s\<lparr>cons_buf := (cons_buf ?s)(unat (cons_e ?s) mod INPUT_BUF_SIZE := d), cons_e := cons_e ?s + 1\<rparr>"
  have ok': "cons_ok ?s" and room': "unat (cons_e ?s - cons_r ?s) < INPUT_BUF_SIZE" using ok room by simp_all
  note p = cons_put [OF ok' room', where c = d] and q = cons_commit [OF ok' room', where c = d]
  have n: "unat (cons_e s - cons_r s) = length (cons_ready s) + length (cons_line s)"
    using ok by (simp add: cons_ok_def cons_lengths)
  let ?full = "d = NL \<or> d = ctrl (CHR ''D'') \<or> unat (cons_e ?t - cons_r ?t) = INPUT_BUF_SIZE"
  have i: "consoleintr c s = (if ?full then wakeup ChCons (?t\<lparr>cons_w := cons_e ?t\<rparr>) else ?t)"
    using c room by (simp add: consoleintr_def d_def [symmetric] Let_def)
  have e: "edit_step c (cons_ready s, cons_line s) =
      (if ?full then (cons_ready s @ cons_line s @ [d], []) else (cons_ready s, cons_line s @ [d]))"
    using c room unfolding p(3) by (simp add: edit_step_def d_def [symmetric] Let_def n)
  show ?thesis
  proof (cases ?full)
    case True
    then have i': "consoleintr c s = wakeup ChCons (?t\<lparr>cons_w := cons_e ?t\<rparr>)" unfolding i by (rule if_P)
    show ?thesis unfolding i' e using True p(5) q(1) by (simp add: wakeup_woken del: fun_upd_apply)
  next
    case False
    then have i': "consoleintr c s = ?t" unfolding i by (rule if_not_P)
    have "cons_ok ?t" by (rule q(2)) (use False in blast)+
    then show ?thesis unfolding i' e using False p(1,2) by (simp del: fun_upd_apply)
  qed
qed

section \<open>Properties\<close>

text \<open>
  C21: \<^verbatim>\<open>consoleintr\<close> implements the line editor on the three indices of its circular buffer, for
  every character and also when the 32-bit indices wrap around: backspace and control-U never
  touch input that is already available, a line becomes available exactly when it ends or the
  buffer is full, nothing is overwritten, and a process that waits for input is woken.
\<close>

theorem consoleintr_refines:
  fixes s :: "'a cons_state_scheme"
  assumes ok: "cons_ok s"
  shows "cons_ok (consoleintr c s) \<and>
    (cons_ready (consoleintr c s), cons_line (consoleintr c s)) = edit_step c (cons_ready s, cons_line s) \<and>
    (cons_ready (consoleintr c s) \<noteq> cons_ready s \<longrightarrow> woken ChCons (consoleintr c s))"
proof -
  note nl = ok [unfolded cons_ok_def, THEN conjunct2, THEN conjunct2, THEN conjunct1]
  have distinct: "ctrl (CHR ''U'') \<noteq> ctrl (CHR ''P'')" "ctrl (CHR ''H'') \<noteq> ctrl (CHR ''P'')"
    "ctrl (CHR ''H'') \<noteq> ctrl (CHR ''U'')" "(0x7f :: u8) \<noteq> ctrl (CHR ''P'')" "(0x7f :: u8) \<noteq> ctrl (CHR ''U'')"
    by (simp_all add: ctrl_def)
  consider "c = ctrl (CHR ''P'')" | "c = ctrl (CHR ''U'')" | "c = ctrl (CHR ''H'') \<or> c = 0x7f"
    | "c = 0 \<or> \<not> unat (cons_e s - cons_r s) < INPUT_BUF_SIZE" "c \<noteq> ctrl (CHR ''P'')" "c \<noteq> ctrl (CHR ''U'')"
        "c \<noteq> ctrl (CHR ''H'')" "c \<noteq> 0x7f"
    | "c \<noteq> ctrl (CHR ''P'')" "c \<noteq> ctrl (CHR ''U'')" "c \<noteq> ctrl (CHR ''H'')" "c \<noteq> 0x7f" "c \<noteq> 0"
        "unat (cons_e s - cons_r s) < INPUT_BUF_SIZE" by blast
  then show ?thesis
  proof cases
    case 1
    have "cons_ok (fold consputc out s) = cons_ok s" "cons_ready (fold consputc out s) = cons_ready s"
      "cons_line (fold consputc out s) = cons_line s" for out
      using fold_consputc [of out s] cons_list_cong [of "fold consputc out s" s] by auto
    then show ?thesis using 1 ok by (auto simp: consoleintr_def edit_step_def split: option.split)
  next
    case 2
    obtain out b where "kill_line s = s\<lparr>cons_e := cons_w s, uart_out := out, uart_idle := b\<rparr>"
      using kill_line_frame [of s] kill_line_e [OF nl] by auto
    then have k: "cons_ok (kill_line s)" "cons_ready (kill_line s) = cons_ready s" "cons_line (kill_line s) = []"
      using cons_erase(2) [OF ok] by (simp_all add: cons_ok_def cons_ready_def cons_line_def)
    then show ?thesis using 2 distinct by (simp add: consoleintr_def edit_step_def)
  next
    case 3
    have e: "cons_e s = cons_w s \<Longrightarrow> cons_line s = []" by (simp add: cons_line_def)
    show ?thesis using 3 distinct ok cons_erase(1,3) [OF ok] e by (auto simp: consoleintr_def edit_step_def)
  next
    case 4
    have n: "unat (cons_e s - cons_r s) = length (cons_ready s) + length (cons_line s)"
      and "unat (cons_e s - cons_r s) \<le> INPUT_BUF_SIZE" using ok by (simp_all add: cons_ok_def cons_lengths)
    then show ?thesis using 4 ok by (auto simp: consoleintr_def edit_step_def)
  next
    case 5
    then show ?thesis by (intro consoleintr_store [OF ok])
  qed
qed

text \<open>Consoles on top of a kernel state, with indices that are about to wrap.\<close>

definition with_cons :: "u8 list \<Rightarrow> proc_state \<Rightarrow> cons_state" where
  "with_cons inp s = proc_state.extend s \<lparr>pipes = (\<lambda>_. ex_pipe), uart_out = [], uart_in = inp, uart_idle = True,
     tx_busy = 0, cons_buf = (\<lambda>_. 0), cons_r = 0xfffffffe, cons_w = 0xfffffffe, cons_e = 0xfffffffe\<rparr>"

lemma with_cons_ok: "cons_ok (with_cons inp s)" "cons_ready (with_cons inp s) = []" "cons_line (with_cons inp s) = []"
  by (simp_all add: cons_ok_def cons_ready_def cons_line_def with_cons_def proc_state.defs)

text \<open>The user types \<^verbatim>\<open>a\<close>, \<^verbatim>\<open>b\<close>, backspace and return.\<close>

theorem consoleintr_refines_witness:
  "let s = with_cons [] ex_ustate; t = consoleintr 13 (consoleintr 8 (consoleintr 98 (consoleintr 97 s)))
   in cons_ok s \<and> cons_ok t \<and> cons_ready t = [97, 10] \<and> cons_line t = []"
proof -
  let ?s = "with_cons [] ex_ustate"
  note r1 = consoleintr_refines [OF with_cons_ok(1) [of "[]" ex_ustate], of 97]
  note r2 = consoleintr_refines [OF r1 [THEN conjunct1], of 98]
  note r3 = consoleintr_refines [OF r2 [THEN conjunct1], of 8]
  note r4 = consoleintr_refines [OF r3 [THEN conjunct1], of 13]
  show ?thesis
    using r1 r2 r3 r4 by (simp add: with_cons_ok edit_step_def ctrl_def Let_def)
qed

section \<open>consoleread\<close>

text \<open>
  What a \<^verbatim>\<open>read\<close> of at most \<open>n\<close> bytes returns: up to a whole line; an end-of-file character ends
  it and stays for the next read when some bytes come before it. The last component
  tells whether the read returns or must wait for more input.
\<close>

fun read_spec :: "bool \<Rightarrow> nat \<Rightarrow> u8 list \<Rightarrow> u8 list \<times> u8 list \<times> bool" where
  "read_spec started 0 xs = ([], xs, True)"
| "read_spec started (Suc n) [] = ([], [], False)"
| "read_spec started (Suc n) (c # cs) =
     (if c = EOT then ([], if started then c # cs else cs, True)
      else if c = NL then ([c], cs, True)
      else case read_spec True n cs of (bs, rest, fin) \<Rightarrow> (c # bs, rest, fin))"

lemma uas_cons_r [simp]: "uas (s\<lparr>cons_r := x\<rparr>) xs root sz = uas s xs root sz"
  by (rule uas_cong) simp_all

lemma myproc_cons_r [simp]: "myproc (s\<lparr>cons_r := x\<rparr>) = myproc s"
  by (simp add: myproc_def mycpu_def cpuid_def)

lemma same_rest_cons:
  "same_rest s s' \<Longrightarrow> cons_r s' = cons_r s \<and> cons_w s' = cons_w s \<and> cons_e s' = cons_e s \<and> cons_buf s' = cons_buf s \<and>
    procs s' = procs s \<and> myproc s' = myproc s"
  by (auto simp: same_rest_def myproc_def mycpu_def cpuid_def)

text \<open>\<open>was_read va n s bs s'\<close>: the bytes \<open>bs\<close> have been moved from the console to user memory at \<open>va\<close>.\<close>

definition was_read :: "u64 \<Rightarrow> u64 \<Rightarrow> nat \<Rightarrow> 'a cons_state_scheme \<Rightarrow> u8 list \<Rightarrow> 'a cons_state_scheme \<Rightarrow> bool" where
  "was_read root va n s bs s' \<longleftrightarrow> user_bytes (mem s') root va (length bs) = bs \<and> length bs \<le> n \<and>
     keeps_outside (mem s) (mem s') root va n \<and>
     cons_w s' = cons_w s \<and> cons_e s' = cons_e s \<and> cons_buf s' = cons_buf s"

lemma was_read_none: "cons_w s' = cons_w s \<Longrightarrow> cons_e s' = cons_e s \<Longrightarrow> cons_buf s' = cons_buf s \<Longrightarrow>
    mem s' = mem s \<Longrightarrow> was_read root va n s [] s'"
  by (simp add: was_read_def user_bytes_def keeps_outside_def)

lemma was_read_Cons:
  assumes d: "was_read root (va + 1) n s1 bs s'"
    and w: "va < MAXVA" "ubyte (mem s1) root va = Some c" "keeps_outside (mem s) (mem s1) root va 1"
    and c: "cons_w s1 = cons_w s" "cons_e s1 = cons_e s" "cons_buf s1 = cons_buf s"
    and n: "n < 2 ^ 63"
  shows "was_read root va (Suc n) s (c # bs) s'"
proof -
  have ko: "keeps_outside (mem s1) (mem s') root (va + 1) n" using d by (simp add: was_read_def)
  have b: "ubyte (mem s') root va = Some c"
    using ko w(1,2) outside_next [OF n, of va] unfolding keeps_outside_def by simp
  have "keeps_outside (mem s) (mem s') root va (Suc n)"
    using ko w(3) outside_Suc unfolding keeps_outside_def by blast
  then show ?thesis using d b c by (simp add: was_read_def user_bytes_Suc)
qed

lemma was_read_one:
  assumes "va < MAXVA" "ubyte (mem s1) root va = Some c" "keeps_outside (mem s) (mem s1) root va 1"
    and "cons_w s1 = cons_w s" "cons_e s1 = cons_e s" "cons_buf s1 = cons_buf s"
  shows "was_read root va (Suc n) s [c] s1"
proof -
  have "keeps_outside (mem s) (mem s1) root va (Suc n)"
    using assms(3) outside_Suc(2) unfolding keeps_outside_def by blast
  then show ?thesis using assms by (simp add: was_read_def user_bytes_def)
qed

lemma consoleread_loop_spec:
  fixes s :: "'a cons_state_scheme"
  assumes "uas s xs root sz" "own_space root sz s" "cur s < length (procs s)" "killed (cur s) s = 0"
    and "writable_range (mem s) root (dst + of_nat (target - n)) n" "n \<le> target" "target < 2 ^ 31"
    and "read_spec (n < target) n (cons_ready s) = (bs, rest, fin)"
  shows "\<exists>s'. consoleread_loop (User dst) target n s =
      Done (if fin then Ret (int (target - n + length bs)) else Blocked (n - length bs)) s' \<and>
    cons_ready s' = rest \<and> was_read root (dst + of_nat (target - n)) n s bs s' \<and>
    (\<not> fin \<longrightarrow> p_state (proc_at s' (cur s)) = SLEEPING \<and> p_chan (proc_at s' (cur s)) = Some ChCons)"
  using assms
proof (induction n arbitrary: s xs bs)
  case 0
  then show ?case by (intro exI [of _ s]) (auto simp: was_read_none)
next
  case (Suc n)
  let ?a = "dst + of_nat (target - Suc n)"
  have "target - n = Suc (target - Suc n)" using Suc.prems(6) by simp
  then have a: "dst + of_nat (target - n) = ?a + 1" by (simp add: ac_simps)
  have pt: "p_pagetable (proc_at s (cur s)) = root" using Suc.prems(2) by (simp add: own_space_def)
  show ?case
  proof (cases "cons_r s = cons_w s")
    case True
    then have r: "cons_ready s = []" by (simp add: cons_ready_def)
    have s': "cons_ready (asleep ChCons s) = []" "was_read root ?a (Suc n) s [] (asleep ChCons s)"
      using r by (auto intro!: was_read_none simp: cons_ready_def asleep_def set_cpu_proc_def set_proc_def)
    show ?thesis using Suc.prems(3,4,8) True r s' asleep_facts(3,4) [OF Suc.prems(3), of ChCons]
      by (intro exI [of _ "asleep ChCons s"]) (simp add: sleep_asleep)
  next
    case False
    define c where "c = cons_buf s (unat (cons_r s) mod INPUT_BUF_SIZE)"
    let ?s = "s\<lparr>cons_r := cons_r s + 1\<rparr>"
    have r: "cons_ready s = c # cons_ready ?s"
      using ring_get [OF False] by (simp add: cons_ready_def c_def)
    note rs = Suc.prems(8) [unfolded r]
    show ?thesis
    proof (cases "c = EOT")
      case True
      let ?t = "if Suc n < target then ?s\<lparr>cons_r := cons_r ?s - 1\<rparr> else ?s"
      have l: "consoleread_loop (User dst) target (Suc n) s = Done (Ret (int (target - Suc n))) ?t"
        using False True by (simp add: c_def [symmetric] ctrl_def Let_def)
      have "cons_ready ?t = rest" "bs = []" "fin" using rs True r by (auto simp: cons_ready_def split: if_splits)
      then show ?thesis unfolding l by (intro exI [of _ ?t]) (simp add: was_read_none)
    next
      case neot: False
      have u: "uas ?s xs root sz" "own_space root sz ?s" using Suc.prems(1,2) by (simp_all add: own_space_def)
      show ?thesis
      proof (rule copyout_byte [OF u, of ?a c], goal_cases)
        case (2 s1 ys)
        have "writable (mem s) root ?a" by (rule writable_range_Suc(1) [OF Suc.prems(5)])
        then show ?case using 2(5) by simp
      next
        case (1 s1 ys)
        note sr = same_rest_cons [OF 1(2)]
        have ok: "either_copyout (place_add (User dst) (target - Suc n)) [c] ?s = Done 0 s1"
          using 1(1) by (simp add: either_copyout_def place_add_def pt)
        have ready: "cons_ready s1 = cons_ready ?s" using sr by (simp add: cons_ready_def)
        have ko: "keeps_outside (mem s) (mem s1) root ?a 1" using 1(6) by simp
        show ?case
        proof (cases "c = NL")
          case True
          have l: "consoleread_loop (User dst) target (Suc n) s = Done (Ret (int (target - n))) s1"
            using False neot True ok by (simp add: c_def [symmetric] ctrl_def Let_def)
          have bs: "bs = [c]" and "rest = cons_ready ?s" fin using rs True neot by auto
          have "was_read root ?a (Suc n) s bs s1"
            unfolding bs using sr by (intro was_read_one [OF 1(4,5) ko]) simp_all
          then show ?thesis unfolding l using Suc.prems(6) ready \<open>fin\<close> \<open>rest = cons_ready ?s\<close>
            by (intro exI [of _ s1] conjI) (simp_all add: bs)
        next
          case nnl: False
          have l: "consoleread_loop (User dst) target (Suc n) s = consoleread_loop (User dst) target n s1"
            using False neot nnl ok by (simp add: c_def [symmetric] ctrl_def Let_def)
          obtain bs' where rs': "read_spec True n (cons_ready s1) = (bs', rest, fin)" and bs: "bs = c # bs'"
            using rs neot nnl ready by (auto split: prod.splits)
          have lt: "n < target" using Suc.prems(6) by simp
          have wr: "writable_range (mem s1) root (dst + of_nat (target - n)) n"
          proof -
            have "writable (mem ?s) root ?a" using writable_range_Suc(1) [OF Suc.prems(5)] by simp
            from writable_range_cong [OF 1(7) [OF this]] writable_range_Suc(2) [OF Suc.prems(5)]
            show ?thesis unfolding a by simp
          qed
          have own: "own_space root sz s1" using own_space_rest [OF 1(2)] u(2) by simp
          have cur: "cur s1 = cur s" "cur s1 < length (procs s1)" "killed (cur s1) s1 = 0"
            using sr Suc.prems(3,4) by (simp_all add: killed_def)
          obtain s' where s': "consoleread_loop (User dst) target n s1 =
              Done (if fin then Ret (int (target - n + length bs')) else Blocked (n - length bs')) s'"
            "cons_ready s' = rest" "was_read root (?a + 1) n s1 bs' s'"
            "\<not> fin \<longrightarrow> p_state (proc_at s' (cur s)) = SLEEPING \<and> p_chan (proc_at s' (cur s)) = Some ChCons"
            using Suc.IH [OF 1(3) own cur(2,3) wr _ Suc.prems(7), of bs'] lt rs' unfolding a cur(1) by auto
          have "was_read root ?a (Suc n) s bs s'"
            unfolding bs using sr Suc.prems(6,7) by (intro was_read_Cons [OF s'(3) 1(4,5) ko]) simp_all
          moreover have "target - Suc n + length bs = target - n + length bs'" using lt by (simp add: bs)
          ultimately show ?thesis unfolding l using s' by (intro exI [of _ s']) (simp add: bs)
        qed
      qed
    qed
  qed
qed

lemma cons_ok_read:
  assumes "cons_ok s" "cons_w s' = cons_w s" "cons_e s' = cons_e s" "cons_buf s' = cons_buf s"
    and "length (cons_ready s') \<le> length (cons_ready s)"
  shows "cons_ok s'"
proof -
  have l: "cons_line s' = cons_line s" using assms(2-4) by (simp add: cons_line_def)
  have le: "unat (cons_w s' - cons_r s') \<le> unat (cons_w s - cons_r s)" using assms(5) by (simp add: cons_lengths)
  note o = assms(1) [unfolded cons_ok_def]
  have "cons_e s' - cons_r s' = (cons_w s' - cons_r s') + (cons_e s' - cons_w s')" by simp
  then have sum: "unat (cons_e s' - cons_r s') = unat (cons_w s' - cons_r s') + unat (cons_e s' - cons_w s')"
    using o le assms(2,3) by (simp only: unat_word_ariths) simp
  show ?thesis
  proof (rule cons_ok_I)
    assume "unat (cons_e s' - cons_r s') = INPUT_BUF_SIZE"
    then have "unat (cons_e s - cons_r s) = INPUT_BUF_SIZE" using sum le o assms(2,3) by simp
    then show "cons_line s' = []" using o l by simp
  qed (use sum le o assms(2,3) l in simp_all)
qed

lemma read_spec_length: "read_spec st n xs = (bs, rest, fin) \<Longrightarrow> length rest \<le> length xs"
  by (induction st n xs arbitrary: bs rule: read_spec.induct) (auto split: if_splits prod.splits intro: le_SucI)

text \<open>
  C36: \<^verbatim>\<open>consoleread\<close> of \<open>n\<close> bytes into a writable user buffer returns at most one line, consumes
  exactly the characters it returns, treats control-D as end of file (kept for the next read unless
  it comes first) and otherwise goes to sleep until the interrupt handler has input; the
  line being edited and all other user memory are untouched.
\<close>

theorem consoleread_correct:
  fixes s :: "'a cons_state_scheme"
  assumes "uas s xs root sz" "own_space root sz s" "cur s < length (procs s)" "killed (cur s) s = 0" "cons_ok s"
    and "0 < n" "n < 2 ^ 31" "writable_range (mem s) root dst (nat n)"
    and "read_spec False (nat n) (cons_ready s) = (bs, rest, fin)"
  shows "\<exists>s'. consoleread (User dst) n s = (if fin then Done (int (length bs)) s' else Asleep ChCons s') \<and>
    cons_ok s' \<and> cons_ready s' = rest \<and> cons_line s' = cons_line s \<and>
    user_bytes (mem s') root dst (length bs) = bs \<and> keeps_outside (mem s) (mem s') root dst (nat n) \<and>
    (\<not> fin \<longrightarrow> p_state (proc_at s' (cur s)) = SLEEPING \<and> p_chan (proc_at s' (cur s)) = Some ChCons)"
proof -
  have w: "writable_range (mem s) root (dst + of_nat (nat n - nat n)) (nat n)" using assms(8) by simp
  have n: "nat n < 2 ^ 31" using assms(6,7) by simp
  obtain s' where s': "consoleread_loop (User dst) (nat n) (nat n) s =
      Done (if fin then Ret (int (length bs)) else Blocked (nat n - length bs)) s'"
    "cons_ready s' = rest" "was_read root dst (nat n) s bs s'"
    "\<not> fin \<longrightarrow> p_state (proc_at s' (cur s)) = SLEEPING \<and> p_chan (proc_at s' (cur s)) = Some ChCons"
    using consoleread_loop_spec [OF assms(1-4) w _ n, of bs rest fin] assms(9) by auto
  note wr = s'(3) [unfolded was_read_def]
  have "cons_ok s'" using cons_ok_read [OF assms(5), of s'] wr s'(2) read_spec_length [OF assms(9)] by simp
  moreover have "cons_line s' = cons_line s" using wr by (simp add: cons_line_def)
  ultimately show ?thesis using s' wr assms(6) by (intro exI [of _ s']) (simp add: consoleread_def)
qed

definition with_line :: "proc_state \<Rightarrow> cons_state" where
  "with_line s = (with_cons [] s)\<lparr>cons_buf := (\<lambda>i. if i = 126 then 97 else 10), cons_w := 0, cons_e := 0\<rparr>"

lemma upt_2: "[0..<2] = [0, Suc 0]" "nat 2 = Suc (Suc 0)"
  by (simp_all add: numeral_2_eq_2)

lemma with_line_facts:
  "uas (with_line s) xs root sz = uas s xs root sz" "own_space root sz (with_line s) = own_space root sz s"
  "procs (with_line s) = procs s" "myproc (with_line s) = myproc s" "mem (with_line s) = mem s"
  "cons_ready (with_line s) = [97, 10]" "cons_ok (with_line s)"
proof -
  show "uas (with_line s) xs root sz = uas s xs root sz"
    by (rule uas_cong) (simp_all add: with_line_def with_cons_def proc_state.defs)
  show "cons_ready (with_line s) = [97, 10]"
    by (simp add: with_line_def with_cons_def proc_state.defs cons_ready_def ring_list_def upt_2)
qed (simp_all add: with_line_def with_cons_def proc_state.defs own_space_def myproc_def mycpu_def cpuid_def
  cons_ok_def cons_line_def)

theorem consoleread_correct_witness:
  "\<exists>(s :: cons_state) s'. cons_ready s = [97, 10] \<and> consoleread (User 0x1004) 2 s = Done 2 s' \<and> cons_ready s' = [] \<and>
     user_bytes (mem s') 0x86000000 0x1004 (Suc (Suc 0)) = [97, 10]"
proof -
  obtain s :: proc_state and ys where s: "uas s ys 0x86000000 0x3000" "own_space 0x86000000 0x3000 s" "procs s = [ex_uproc]"
    "myproc s = Some 0" "writable_range (mem s) 0x86000000 0x1004 2"
    using ex_mapped by (elim exE conjE)
  let ?s = "with_line s"
  note f = with_line_facts [where s = s]
  have u: "uas ?s ys 0x86000000 0x3000" "own_space 0x86000000 0x3000 ?s" "cur ?s < length (procs ?s)" "killed (cur ?s) ?s = 0"
    using s f by (simp_all add: killed_def ex_uproc_def)
  have "read_spec False (nat 2) (cons_ready ?s) = ([97, 10], [], True)" unfolding f(6) upt_2 by simp
  from consoleread_correct [OF u f(7) _ _ _ this, of "0x1004"] s(5) f(5)
  obtain s' where "consoleread (User 0x1004) 2 ?s = Done 2 s'" "cons_ready s' = []"
    "user_bytes (mem s') 0x86000000 0x1004 (Suc (Suc 0)) = [97, 10]"
    by (auto simp: upt_2)
  then show ?thesis using f(6) by (intro exI [of _ ?s] exI [of _ s'] conjI)
qed

section \<open>Transmission\<close>

text \<open>
  A process \<open>p\<close> in \<^verbatim>\<open>uartwrite\<close>: each time it sleeps, the device finishes the byte it is sending
  and interrupts; if that made \<open>p\<close> runnable, it gets the CPU again and goes on.
\<close>

fun transmit :: "nat \<Rightarrow> nat \<Rightarrow> u8 list \<Rightarrow> 'a cons_state_scheme \<Rightarrow> u8 list \<times> 'a cons_state_scheme" where
  "transmit 0 p buf s = (buf, s)"
| "transmit (Suc k) p buf s =
     (case uartwrite buf s of
        Done rest s1 \<Rightarrow>
          if rest = [] then ([], s1)
          else
            let s2 = uartintr (uart_sent s1) in
            if p_state (proc_at s2 p) = RUNNABLE then transmit k p rest (sleep_return (dispatch p s2)) else (rest, s2)
      | _ \<Rightarrow> (buf, s))"

definition uart_ready :: "nat \<Rightarrow> 'a cons_state_scheme \<Rightarrow> bool" where
  "uart_ready p s \<longleftrightarrow> myproc s = Some p \<and> p < length (procs s) \<and> uart_in s = []"

lemma uart_drain_none: "uart_in s = [] \<Longrightarrow> uart_drain s = s"
  by (subst uart_drain.simps) (simp add: uartgetc_def)

text \<open>Sleeping, the interrupt and being scheduled again give the transmitter back.\<close>

lemma uart_wait:
  fixes s :: "'a cons_state_scheme"
  assumes "uart_ready p s"
  defines "s2 \<equiv> uartintr (uart_sent (asleep ChUart s))"
  shows "p_state (proc_at s2 p) = RUNNABLE" "uart_ready p (sleep_return (dispatch p s2))"
    "tx_busy (sleep_return (dispatch p s2)) = 0" "uart_out (sleep_return (dispatch p s2)) = uart_out s"
proof -
  have p: "myproc s = Some p" "p < length (procs s)" "uart_in s = []" using assms(1) by (simp_all add: uart_ready_def)
  let ?a = "(asleep ChUart s)\<lparr>uart_idle := True, tx_busy := 0\<rparr>"
  have ua: "uart_in (asleep ChUart s) = []" "uart_out (asleep ChUart s) = uart_out s"
    using p(3) by (simp_all add: asleep_def set_cpu_proc_def set_proc_def)
  have s2: "s2 = wakeup ChUart ?a"
    using ua by (simp add: s2_def uartintr_def uart_sent_def uart_drain_none Let_def)
  have cur: "cur s < length (procs s)" using p by simp
  note af = asleep_facts [OF cur, where c = ChUart]
  have my: "myproc ?a = None" using af(1) by (simp add: myproc_def mycpu_def cpuid_def)
  have len: "length (procs s2) = length (procs s)" by (simp add: s2 af(2))
  show "p_state (proc_at s2 p) = RUNNABLE"
    unfolding s2 using p af(2-4) my by (subst proc_at_wakeup) simp_all
  show "uart_ready p (sleep_return (dispatch p s2))"
    using p(2) ua len by (simp add: uart_ready_def sleep_return_def dispatch_def s2 set_proc_def set_cpu_proc_def
      myproc_def mycpu_def cpuid_def wakeup_def)
  show "tx_busy (sleep_return (dispatch p s2)) = 0" "uart_out (sleep_return (dispatch p s2)) = uart_out s"
    using ua by (simp_all add: s2 sleep_return_def dispatch_def set_proc_def set_cpu_proc_def wakeup_def)
qed

lemma uartwrite_first:
  assumes "uart_ready p s" "buf \<noteq> []"
  shows "tx_busy s \<noteq> 0 \<Longrightarrow> uartwrite buf s = Done buf (asleep ChUart s)"
    and "tx_busy s = 0 \<Longrightarrow> \<exists>t. uart_ready p t \<and> tx_busy t \<noteq> 0 \<and> uart_out t = uart_out s @ [hd buf] \<and>
      uartwrite buf s = uartwrite (tl buf) t"
proof -
  obtain b bs where b: "buf = b # bs" using assms(2) by (cases buf) auto
  have "cur s < length (procs s)" using assms(1) by (simp add: uart_ready_def)
  then show "uartwrite buf s = Done buf (asleep ChUart s)" if "tx_busy s \<noteq> 0" using that by (simp add: b sleep_asleep)
  show "\<exists>t. uart_ready p t \<and> tx_busy t \<noteq> 0 \<and> uart_out t = uart_out s @ [hd buf] \<and> uartwrite buf s = uartwrite (tl buf) t"
    if "tx_busy s = 0"
    using that assms(1) by (intro exI [of _ "(write_THR b s)\<lparr>tx_busy := 1\<rparr>"])
      (simp add: b uart_ready_def write_THR_def myproc_def mycpu_def cpuid_def)
qed

lemma uartwrite_Done: "uart_ready p s \<Longrightarrow> \<exists>rest t. uartwrite buf s = Done rest t"
proof (induction buf arbitrary: s)
  case (Cons b bs)
  show ?case
  proof (cases "tx_busy s = 0")
    case True
    then show ?thesis using uartwrite_first(2) [OF Cons.prems, of "b # bs"] Cons.IH by fastforce
  next
    case False
    then show ?thesis using uartwrite_first(1) [OF Cons.prems, of "b # bs"] by fastforce
  qed
qed simp

lemma transmit_cong:
  assumes "uart_ready p t" "uartwrite buf s = uartwrite bs t"
  shows "transmit (Suc k) p buf s = transmit (Suc k) p bs t"
  using uartwrite_Done [OF assms(1), of bs] assms(2) by auto

lemma transmit_busy:
  fixes s :: "'a cons_state_scheme"
  assumes "uart_ready p s" "tx_busy s \<noteq> 0"
  shows "\<exists>t. transmit (Suc (length buf)) p buf s = ([], t) \<and> uart_out t = uart_out s @ buf"
  using assms
proof (induction buf arbitrary: s)
  case Nil
  then show ?case by simp
next
  case (Cons b bs)
  let ?r = "sleep_return (dispatch p (uartintr (uart_sent (asleep ChUart s))))"
  note w = uart_wait [OF Cons.prems(1)]
  have step: "transmit (Suc (length (b # bs))) p (b # bs) s = transmit (length (b # bs)) p (b # bs) ?r"
    using uartwrite_first(1) [OF Cons.prems(1), of "b # bs"] Cons.prems(2) w(1) by (simp add: Let_def)
  obtain t where t: "uart_ready p t" "tx_busy t \<noteq> 0" "uart_out t = uart_out ?r @ [b]"
    "uartwrite (b # bs) ?r = uartwrite bs t"
    using uartwrite_first(2) [OF w(2), of "b # bs"] w(3) by auto
  have "transmit (length (b # bs)) p (b # bs) ?r = transmit (Suc (length bs)) p bs t"
    unfolding length_Cons by (rule transmit_cong [OF t(1,4)])
  then show ?case unfolding step using Cons.IH [OF t(1,2)] t(3) w(4) by auto
qed

text \<open>
  C37: Every byte handed to \<^verbatim>\<open>uartwrite\<close> is transmitted, once and in order: as long as the device
  keeps interrupting after each byte, the sleeping writer is made runnable by every interrupt
  (no wakeup is lost) and the call ends after at most one wait per byte.
\<close>

theorem uartwrite_transmits:
  fixes s :: "'a cons_state_scheme"
  assumes "uart_ready p s"
  shows "\<exists>k t. k \<le> Suc (length buf) \<and> transmit k p buf s = ([], t) \<and> uart_out t = uart_out s @ buf"
proof (cases "tx_busy s = 0 \<and> buf \<noteq> []")
  case True
  then obtain b bs where b: "buf = b # bs" by (cases buf) auto
  obtain t where t: "uart_ready p t" "tx_busy t \<noteq> 0" "uart_out t = uart_out s @ [b]" "uartwrite buf s = uartwrite bs t"
    using uartwrite_first(2) [OF assms, of buf] True by (auto simp: b simp del: uartwrite.simps)
  have "transmit (Suc (length bs)) p buf s = transmit (Suc (length bs)) p bs t" by (rule transmit_cong [OF t(1,4)])
  then show ?thesis using transmit_busy [OF t(1,2), of bs] t(3) by (intro exI [of _ "Suc (length bs)"]) (auto simp: b)
next
  case False
  then show ?thesis using transmit_busy [OF assms, of buf]
    by (intro exI [of _ "Suc (length buf)"]) (cases "buf = []", auto)
qed

theorem uartwrite_transmits_witness:
  "uart_ready 0 (with_cons [] ex_ustate) \<and>
   (\<exists>k t. k \<le> Suc (length [104, 105, 10 :: u8]) \<and> transmit k 0 [104, 105, 10] (with_cons [] ex_ustate) = ([], t) \<and> uart_out t = [104, 105, 10])"
proof -
  have "uart_ready 0 (with_cons [] ex_ustate)"
    by (simp add: uart_ready_def with_cons_def proc_state.defs ex_ustate_def myproc_def mycpu_def cpuid_def)
  moreover have "uart_out (with_cons [] ex_ustate) = []" by (simp add: with_cons_def proc_state.defs)
  ultimately show ?thesis
    using uartwrite_transmits [of 0 "with_cons [] ex_ustate" "[104, 105, 10]"] by simp
qed

end
