(* ===== verification/Sleeplock.thy ===== *)
theory Sleeplock
  imports Sched
begin

text \<open>
  \<^verbatim>\<open>kernel/sleeplock.c\<close>. Every buffer and every in-memory inode contains a sleep lock, so the
  operations take the channel, that is the address, of the lock together with how to read and
  how to change it in the kernel state. The interface \<^verbatim>\<open>sleeplock_at\<close> is what a component has
  to provide to use them.
\<close>

record sleeplock =
  sl_locked :: u32
  sl_pid :: int

definition initsleeplock :: sleeplock where
  "initsleeplock = \<lparr>sl_locked = 0, sl_pid = 0\<rparr>"

definition acquiresleep :: "chan \<Rightarrow> ('a proc_state_scheme \<Rightarrow> sleeplock) \<Rightarrow>
    ((sleeplock \<Rightarrow> sleeplock) \<Rightarrow> 'a proc_state_scheme \<Rightarrow> 'a proc_state_scheme) \<Rightarrow>
    'a proc_state_scheme \<Rightarrow> (unit, 'a proc_state_scheme) outcome" where
  "acquiresleep c lk upd s =
     (if sl_locked (lk s) \<noteq> 0 then sleep c s
      else Done () (upd (\<lambda>l. l\<lparr>sl_locked := 1, sl_pid := p_pid (proc_at s (cur s))\<rparr>) s))"

definition releasesleep :: "chan \<Rightarrow> ((sleeplock \<Rightarrow> sleeplock) \<Rightarrow> 'a proc_state_scheme \<Rightarrow> 'a proc_state_scheme) \<Rightarrow>
    'a proc_state_scheme \<Rightarrow> 'a proc_state_scheme" where
  "releasesleep c upd s = wakeup c (upd (\<lambda>l. l\<lparr>sl_locked := 0, sl_pid := 0\<rparr>) s)"

definition holdingsleep :: "('a proc_state_scheme \<Rightarrow> sleeplock) \<Rightarrow> 'a proc_state_scheme \<Rightarrow> bool" where
  "holdingsleep lk s \<longleftrightarrow> sl_locked (lk s) \<noteq> 0 \<and> sl_pid (lk s) = p_pid (proc_at s (cur s))"

locale sleeplock_at =
  fixes ch :: chan and lk :: "'a proc_state_scheme \<Rightarrow> sleeplock"
    and upd :: "(sleeplock \<Rightarrow> sleeplock) \<Rightarrow> 'a proc_state_scheme \<Rightarrow> 'a proc_state_scheme"
    and dom_ok :: "'a proc_state_scheme \<Rightarrow> bool"
  assumes lk_upd: "dom_ok s \<Longrightarrow> lk (upd f s) = f (lk s)"
    and lk_procs: "lk (procs_update g s) = lk s" "lk (cpus_update c s) = lk s" "lk (tp_update h s) = lk s"
    and dom_frame: "dom_ok (procs_update g s) = dom_ok s" "dom_ok (cpus_update c s) = dom_ok s" "dom_ok (tp_update h s) = dom_ok s"
      "dom_ok (upd f s) = dom_ok s"
    and procs_upd: "procs (upd f s) = procs s" "cpus (upd f s) = cpus s" "tp (upd f s) = tp s"
begin

lemma acquire_free:
  assumes "dom_ok s" "sl_locked (lk s) = 0"
  shows "\<exists>s'. acquiresleep ch lk upd s = Done () s' \<and> holdingsleep lk s'"
  using assms by (simp add: acquiresleep_def holdingsleep_def lk_upd procs_upd myproc_def mycpu_def cpuid_def)

lemma acquire_taken:
  assumes "sl_locked (lk s) \<noteq> 0" "cur s < length (procs s)"
  shows "acquiresleep ch lk upd s = Asleep ch (asleep ch s)"
  using assms by (simp add: acquiresleep_def sleep_asleep)

lemma release_wakes:
  assumes "dom_ok s"
  shows "woken ch (releasesleep ch upd s) \<and> sl_locked (lk (releasesleep ch upd s)) = 0"
proof -
  have "lk (wakeup ch t) = lk t" for t
    using lk_procs(1) [of "\<lambda>_. map (\<lambda>i. let p = proc_at t i in if myproc t \<noteq> Some i \<and> p_state p = SLEEPING \<and> p_chan p = Some ch
      then p\<lparr>p_state := RUNNABLE\<rparr> else p) [0..<length (procs t)]" t] by (simp add: wakeup_def)
  then show ?thesis using assms by (simp add: releasesleep_def wakeup_woken lk_upd)
qed

text \<open>Hand-over: when the holder releases the lock, a process that sleeps on it becomes runnable and the lock is free.\<close>

lemma hand_over:
  assumes dom: "dom_ok t" and p: "p < length (procs t)" "p_state (proc_at t p) = SLEEPING" "p_chan (proc_at t p) = Some ch" "myproc t \<noteq> Some p"
  shows "p_state (proc_at (releasesleep ch upd t) p) = RUNNABLE" "p_pid (proc_at (releasesleep ch upd t) p) = p_pid (proc_at t p)"
    "sl_locked (lk (releasesleep ch upd t)) = 0" "dom_ok (releasesleep ch upd t)" "length (procs (releasesleep ch upd t)) = length (procs t)"
    "myproc (releasesleep ch upd t) = myproc t"
proof -
  let ?t = "upd (\<lambda>l. l\<lparr>sl_locked := 0, sl_pid := 0\<rparr>) t"
  have m: "myproc ?t = myproc t" by (simp add: myproc_def mycpu_def cpuid_def procs_upd)
  have "proc_at (wakeup ch ?t) p = (proc_at t p)\<lparr>p_state := RUNNABLE\<rparr>"
    using p by (subst proc_at_wakeup) (simp_all add: procs_upd m)
  then show "p_state (proc_at (releasesleep ch upd t) p) = RUNNABLE" "p_pid (proc_at (releasesleep ch upd t) p) = p_pid (proc_at t p)"
    by (simp_all add: releasesleep_def)
  show "sl_locked (lk (releasesleep ch upd t)) = 0" using release_wakes [OF dom] by simp
  show "dom_ok (releasesleep ch upd t)" using dom by (simp add: releasesleep_def wakeup_def dom_frame)
  show "length (procs (releasesleep ch upd t)) = length (procs t)" "myproc (releasesleep ch upd t) = myproc t"
    by (simp_all add: releasesleep_def procs_upd m)
qed

text \<open>The woken process, once a CPU \<open>d\<close> runs it, leaves \<^verbatim>\<open>sleep\<close> and tests the lock again.\<close>

lemma retry:
  assumes u: "dom_ok u" "sl_locked (lk u) = 0" "p < length (procs u)"
  shows "\<exists>w. acquiresleep ch lk upd (sleep_return (dispatch p (u\<lparr>tp := d\<rparr>))) = Done () w \<and> holdingsleep lk w \<and> myproc w = Some p \<and>
    sl_pid (lk w) = p_pid (proc_at u p)"
proof -
  define v where "v = sleep_return (dispatch p (u\<lparr>tp := d\<rparr>))"
  have lk: "lk v = lk u" by (simp add: v_def sleep_return_def dispatch_def set_proc_def set_cpu_proc_def lk_procs)
  have dom: "dom_ok v" using u(1) by (simp add: v_def sleep_return_def dispatch_def set_proc_def set_cpu_proc_def dom_frame)
  have m: "myproc v = Some p" by (simp add: v_def sleep_return_def dispatch_def)
  have pid: "p_pid (proc_at v p) = p_pid (proc_at u p)"
    using u(3) by (simp add: v_def sleep_return_def dispatch_def set_proc_def set_cpu_proc_def nth_list_update)
  obtain w where w: "acquiresleep ch lk upd v = Done () w" "w = upd (\<lambda>l. l\<lparr>sl_locked := 1, sl_pid := p_pid (proc_at v p)\<rparr>) v"
    using u(2) m by (simp add: acquiresleep_def lk)
  have "lk w = (lk v)\<lparr>sl_locked := 1, sl_pid := p_pid (proc_at v p)\<rparr>" using dom by (simp add: w(2) lk_upd)
  moreover have "myproc w = Some p" "procs w = procs v" using m by (simp_all add: w(2) procs_upd myproc_def mycpu_def cpuid_def)
  ultimately show ?thesis using w(1) pid by (auto simp: holdingsleep_def v_def [symmetric])
qed

end

end
