(* ===== verification/Bio.thy ===== *)
theory Bio
  imports Console Sleeplock
begin

text \<open>
  \<^verbatim>\<open>kernel/bio.c\<close>: the buffer cache. The doubly linked list of buffers is the list of their
  indices, most recently used first. \<^verbatim>\<open>virtio_disk_rw\<close> appears here as the transfer it
  performs, one whole block at a time (the driver is in \<^verbatim>\<open>Virtio\<close>); every write is also recorded
  in \<open>disk_writes\<close>, since a crash leaves the effect of some prefix of the writes.
\<close>

section \<open>Model\<close>

type_synonym block = "nat \<Rightarrow> u8"

abbreviation NBUF :: nat where "NBUF \<equiv> 30"
abbreviation BSIZE :: nat where "BSIZE \<equiv> 1024"

record buf =
  b_valid :: int
  b_dev :: u32
  b_blockno :: u32
  b_lock :: sleeplock
  b_refcnt :: u32
  b_data :: block

record buf_state = cons_state +
  bufs :: "buf list"
  lru :: "nat list"
  disk :: "u32 \<Rightarrow> u32 \<Rightarrow> block"
  disk_writes :: "(u32 \<times> u32 \<times> block) list"

abbreviation buf_at :: "'a buf_state_scheme \<Rightarrow> nat \<Rightarrow> buf" where
  "buf_at s i \<equiv> bufs s ! i"

definition set_buf :: "nat \<Rightarrow> (buf \<Rightarrow> buf) \<Rightarrow> 'a buf_state_scheme \<Rightarrow> 'a buf_state_scheme" where
  "set_buf i f s = s\<lparr>bufs := (bufs s)[i := f (buf_at s i)]\<rparr>"

definition virtio_disk_rw :: "nat \<Rightarrow> bool \<Rightarrow> 'a buf_state_scheme \<Rightarrow> 'a buf_state_scheme" where
  "virtio_disk_rw i write s =
     (let b = buf_at s i in
      if write then
        s\<lparr>disk := (disk s)(b_dev b := (disk s (b_dev b))(b_blockno b := b_data b)),
          disk_writes := disk_writes s @ [(b_dev b, b_blockno b, b_data b)]\<rparr>
      else set_buf i (b_data_update (\<lambda>_. disk s (b_dev b) (b_blockno b))) s)"

text \<open>The static storage of the cache is zero before \<^verbatim>\<open>binit\<close> runs.\<close>

definition zero_buf :: buf where
  "zero_buf = \<lparr>b_valid = 0, b_dev = 0, b_blockno = 0, b_lock = initsleeplock, b_refcnt = 0, b_data = (\<lambda>_. 0)\<rparr>"

definition binit :: "'a buf_state_scheme \<Rightarrow> 'a buf_state_scheme" where
  "binit s = s\<lparr>bufs := map (\<lambda>b. b\<lparr>b_lock := initsleeplock\<rparr>) (bufs s), lru := fold (\<lambda>b l. b # l) [0..<NBUF] []\<rparr>"

abbreviation buf_lock :: "nat \<Rightarrow> 'a buf_state_scheme \<Rightarrow> sleeplock" where
  "buf_lock i s \<equiv> b_lock (buf_at s i)"

abbreviation upd_buf_lock :: "nat \<Rightarrow> (sleeplock \<Rightarrow> sleeplock) \<Rightarrow> 'a buf_state_scheme \<Rightarrow> 'a buf_state_scheme" where
  "upd_buf_lock i f s \<equiv> set_buf i (b_lock_update f) s"

definition bget :: "u32 \<Rightarrow> u32 \<Rightarrow> 'a buf_state_scheme \<Rightarrow> (nat, 'a buf_state_scheme) outcome" where
  "bget dev blockno s =
     (case List.find (\<lambda>i. b_dev (buf_at s i) = dev \<and> b_blockno (buf_at s i) = blockno) (lru s) of
        Some i \<Rightarrow>
          let s = set_buf i (\<lambda>b. b\<lparr>b_refcnt := b_refcnt b + 1\<rparr>) s in
          obind (acquiresleep (ChBufLock i) (buf_lock i) (upd_buf_lock i) s) (\<lambda>_ s. Done i s)
      | None \<Rightarrow>
          (case List.find (\<lambda>i. b_refcnt (buf_at s i) = 0) (rev (lru s)) of
             Some i \<Rightarrow>
               let s = set_buf i (\<lambda>b. b\<lparr>b_dev := dev, b_blockno := blockno, b_valid := 0, b_refcnt := 1\<rparr>) s in
               obind (acquiresleep (ChBufLock i) (buf_lock i) (upd_buf_lock i) s) (\<lambda>_ s. Done i s)
           | None \<Rightarrow> Panic ''bget: no buffers''))"

definition bread :: "u32 \<Rightarrow> u32 \<Rightarrow> 'a buf_state_scheme \<Rightarrow> (nat, 'a buf_state_scheme) outcome" where
  "bread dev blockno s =
     obind (bget dev blockno s) (\<lambda>b s.
       if b_valid (buf_at s b) = 0 then Done b (set_buf b (b_valid_update (\<lambda>_. 1)) (virtio_disk_rw b False s))
       else Done b s)"

definition bwrite :: "nat \<Rightarrow> 'a buf_state_scheme \<Rightarrow> (unit, 'a buf_state_scheme) outcome" where
  "bwrite b s = (if \<not> holdingsleep (buf_lock b) s then Panic ''bwrite'' else Done () (virtio_disk_rw b True s))"

definition brelse :: "nat \<Rightarrow> 'a buf_state_scheme \<Rightarrow> (unit, 'a buf_state_scheme) outcome" where
  "brelse b s =
     (if \<not> holdingsleep (buf_lock b) s then Panic ''brelse''
      else
        let s = releasesleep (ChBufLock b) (upd_buf_lock b) s;
            s = set_buf b (\<lambda>b. b\<lparr>b_refcnt := b_refcnt b - 1\<rparr>) s
        in Done () (if b_refcnt (buf_at s b) = 0 then s\<lparr>lru := b # remove1 b (lru s)\<rparr> else s))"

definition bpin :: "nat \<Rightarrow> 'a buf_state_scheme \<Rightarrow> 'a buf_state_scheme" where
  "bpin b s = set_buf b (\<lambda>b. b\<lparr>b_refcnt := b_refcnt b + 1\<rparr>) s"

definition bunpin :: "nat \<Rightarrow> 'a buf_state_scheme \<Rightarrow> 'a buf_state_scheme" where
  "bunpin b s = set_buf b (\<lambda>b. b\<lparr>b_refcnt := b_refcnt b - 1\<rparr>) s"

section \<open>Invariant and contents\<close>

text \<open>
  \<open>bc_inv H P s\<close>: the buffers \<open>H\<close> are locked by the current process and the buffers \<open>P\<close> pinned by the
  log; nobody else uses the cache. A block is cached at most once, and a buffer nobody uses agrees
  with the disk, so that recycling it loses nothing.
\<close>

definition buf_inv :: "nat set \<Rightarrow> nat set \<Rightarrow> 'a buf_state_scheme \<Rightarrow> nat \<Rightarrow> bool" where
  "buf_inv H P s i \<longleftrightarrow> (let b = buf_at s i in
     b_refcnt b = (if i \<in> H then 1 else 0) + (if i \<in> P then 1 else 0) \<and>
     (i \<in> H \<longrightarrow> holdingsleep (buf_lock i) s) \<and> (i \<notin> H \<longrightarrow> sl_locked (b_lock b) = 0) \<and>
     (i \<in> H \<union> P \<longrightarrow> b_valid b \<noteq> 0 \<and> b_dev b \<noteq> 0) \<and>
     (i \<notin> H \<union> P \<longrightarrow> b_valid b \<noteq> 0 \<longrightarrow> b_data b = disk s (b_dev b) (b_blockno b)) \<and>
     (\<forall>j < NBUF. j \<noteq> i \<longrightarrow> b_dev b \<noteq> 0 \<longrightarrow> \<not> (b_dev (buf_at s j) = b_dev b \<and> b_blockno (buf_at s j) = b_blockno b)))"

definition bc_inv :: "nat set \<Rightarrow> nat set \<Rightarrow> 'a buf_state_scheme \<Rightarrow> bool" where
  "bc_inv H P s \<longleftrightarrow> length (bufs s) = NBUF \<and> distinct (lru s) \<and> set (lru s) = {0..<NBUF} \<and>
     H \<subseteq> {0..<NBUF} \<and> P \<subseteq> {0..<NBUF} \<and> (\<forall>i < NBUF. buf_inv H P s i)"

text \<open>The contents of a block as the kernel sees it: the cached copy if there is one.\<close>

definition cached :: "u32 \<Rightarrow> u32 \<Rightarrow> 'a buf_state_scheme \<Rightarrow> nat option" where
  "cached dev bno s = List.find (\<lambda>i. b_valid (buf_at s i) \<noteq> 0 \<and> b_dev (buf_at s i) = dev \<and> b_blockno (buf_at s i) = bno) [0..<NBUF]"

definition content :: "'a buf_state_scheme \<Rightarrow> u32 \<Rightarrow> u32 \<Rightarrow> block" where
  "content s dev bno = (case cached dev bno s of Some i \<Rightarrow> b_data (buf_at s i) | None \<Rightarrow> disk s dev bno)"

lemma bc_invD:
  assumes "bc_inv H P s" "i < NBUF"
  shows "b_refcnt (buf_at s i) = (if i \<in> H then 1 else 0) + (if i \<in> P then 1 else 0)"
    and "i \<in> H \<Longrightarrow> holdingsleep (buf_lock i) s" and "i \<notin> H \<Longrightarrow> sl_locked (buf_lock i s) = 0"
    and "i \<in> H \<union> P \<Longrightarrow> b_valid (buf_at s i) \<noteq> 0 \<and> b_dev (buf_at s i) \<noteq> 0"
    and "i \<notin> H \<union> P \<Longrightarrow> b_valid (buf_at s i) \<noteq> 0 \<Longrightarrow> b_data (buf_at s i) = disk s (b_dev (buf_at s i)) (b_blockno (buf_at s i))"
    and "j < NBUF \<Longrightarrow> j \<noteq> i \<Longrightarrow> b_dev (buf_at s i) \<noteq> 0 \<Longrightarrow>
      \<not> (b_dev (buf_at s j) = b_dev (buf_at s i) \<and> b_blockno (buf_at s j) = b_blockno (buf_at s i))"
  using assms by (auto simp: bc_inv_def buf_inv_def Let_def split: if_splits)

lemma bc_inv_len: "bc_inv H P s \<Longrightarrow> length (bufs s) = NBUF" "bc_inv H P s \<Longrightarrow> set (lru s) = {0..<NBUF}"
  "bc_inv H P s \<Longrightarrow> H \<subseteq> {0..<NBUF}" "bc_inv H P s \<Longrightarrow> P \<subseteq> {0..<NBUF}"
  by (simp_all add: bc_inv_def)

text \<open>Reading off the contents of a block.\<close>

lemma cached_Some: "cached dev bno s = Some i \<Longrightarrow> i < NBUF \<and> b_valid (buf_at s i) \<noteq> 0 \<and> b_dev (buf_at s i) = dev \<and> b_blockno (buf_at s i) = bno"
  by (simp add: cached_def find_upt_Some)

lemma content_cached:
  assumes "bc_inv H P s" "i < NBUF" "b_valid (buf_at s i) \<noteq> 0" "b_dev (buf_at s i) = dev" "b_blockno (buf_at s i) = bno" "dev \<noteq> 0"
  shows "content s dev bno = b_data (buf_at s i)"
proof (cases "cached dev bno s")
  case None
  then show ?thesis using assms(2-5) unfolding cached_def find_upt_None by blast
next
  case (Some j)
  then have "j = i" using cached_Some [OF Some] bc_invD(6) [OF assms(1,2), of j] assms(4-6) by auto
  then show ?thesis by (simp add: content_def Some)
qed

lemma content_disk:
  assumes "\<And>i. i < NBUF \<Longrightarrow> \<not> (b_valid (buf_at s i) \<noteq> 0 \<and> b_dev (buf_at s i) = dev \<and> b_blockno (buf_at s i) = bno)"
  shows "content s dev bno = disk s dev bno"
proof -
  have "cached dev bno s = None" using assms unfolding cached_def find_upt_None by blast
  then show ?thesis by (simp add: content_def)
qed

lemma content_cases:
  assumes "bc_inv H P s" "dev \<noteq> 0"
  obtains (cached) i where "i < NBUF" "b_valid (buf_at s i) \<noteq> 0" "b_dev (buf_at s i) = dev" "b_blockno (buf_at s i) = bno"
      "content s dev bno = b_data (buf_at s i)"
  | (disk) "\<And>i. i < NBUF \<Longrightarrow> \<not> (b_valid (buf_at s i) \<noteq> 0 \<and> b_dev (buf_at s i) = dev \<and> b_blockno (buf_at s i) = bno)"
      "content s dev bno = disk s dev bno"
proof (cases "cached dev bno s")
  case None
  then have "\<not> (b_valid (buf_at s i) \<noteq> 0 \<and> b_dev (buf_at s i) = dev \<and> b_blockno (buf_at s i) = bno)" if "i < NBUF" for i
    using that unfolding cached_def find_upt_None by blast
  moreover have "content s dev bno = disk s dev bno" by (simp add: content_def None)
  ultimately show ?thesis by (rule disk)
next
  case (Some i)
  then show ?thesis using cached_Some [OF Some] content_cached [OF assms(1), of i dev bno] assms(2) by (intro cached) simp_all
qed

section \<open>Changing the state\<close>

definition put_buf :: "nat \<Rightarrow> buf \<Rightarrow> 'a buf_state_scheme \<Rightarrow> 'a buf_state_scheme" where
  "put_buf b B s = s\<lparr>bufs := (bufs s)[b := B]\<rparr>"

lemma set_buf_put: "set_buf i f s = put_buf i (f (buf_at s i)) s"
  by (simp add: set_buf_def put_buf_def)

lemma put_buf_simps [simp]:
  "procs (put_buf b B s) = procs s" "myproc (put_buf b B s) = myproc s" "lru (put_buf b B s) = lru s"
  "disk (put_buf b B s) = disk s" "length (bufs (put_buf b B s)) = length (bufs s)"
  "put_buf b B (put_buf b B' s) = put_buf b B s" "mem (put_buf b B s) = mem s"
  "disk_writes (put_buf b B s) = disk_writes s"
  by (simp_all add: put_buf_def myproc_def mycpu_def cpuid_def)

lemma buf_at_put: "b < length (bufs s) \<Longrightarrow> buf_at (put_buf b B s) i = (if i = b then B else buf_at s i)"
  by (simp add: put_buf_def nth_list_update)

lemma holdingsleep_iff: "holdingsleep (buf_lock i) s \<longleftrightarrow> sl_locked (buf_lock i s) \<noteq> 0 \<and> sl_pid (buf_lock i s) = p_pid (proc_at s (cur s))"
  by (simp add: holdingsleep_def)

text \<open>Replacing one buffer.\<close>

lemma bc_inv_put:
  fixes s :: "'a buf_state_scheme"
  assumes inv: "bc_inv H P s" and b: "b < NBUF"
    and HP: "H' - {b} = H - {b}" "P' - {b} = P - {b}"
    and ref: "b_refcnt B = (if b \<in> H' then 1 else 0) + (if b \<in> P' then 1 else 0)"
    and lock: "if b \<in> H' then sl_locked (b_lock B) \<noteq> 0 \<and> sl_pid (b_lock B) = p_pid (proc_at s (cur s)) else sl_locked (b_lock B) = 0"
    and used: "b \<in> H' \<union> P' \<Longrightarrow> b_valid B \<noteq> 0 \<and> b_dev B \<noteq> 0"
    and clean: "b \<notin> H' \<union> P' \<Longrightarrow> b_valid B \<noteq> 0 \<Longrightarrow> b_data B = disk s (b_dev B) (b_blockno B)"
    and uniq: "\<And>j. j < NBUF \<Longrightarrow> j \<noteq> b \<Longrightarrow> b_dev (buf_at s j) = b_dev B \<Longrightarrow> b_blockno (buf_at s j) = b_blockno B \<Longrightarrow> b_dev B = 0"
  shows "bc_inv H' P' (put_buf b B s)"
proof -
  have len: "length (bufs s) = NBUF" by (rule bc_inv_len(1) [OF inv])
  have at: "buf_at (put_buf b B s) i = (if i = b then B else buf_at s i)" for i
    using b len by (intro buf_at_put) simp
  have eq: "i \<in> H' \<longleftrightarrow> i \<in> H" "i \<in> P' \<longleftrightarrow> i \<in> P" if "i \<noteq> b" for i using HP that by blast+
  have sub: "H' \<subseteq> {0..<NBUF}" "P' \<subseteq> {0..<NBUF}"
    using HP b bc_inv_len(3,4) [OF inv] by (metis Diff_single_insert insert_Diff_single insert_subset atLeast0LessThan lessThan_iff)+
  have "buf_inv H' P' (put_buf b B s) i" if i: "i < NBUF" for i
  proof (cases "i = b")
    case True
    then show ?thesis using ref lock used clean uniq by (auto simp: buf_inv_def at holdingsleep_iff Let_def)
  next
    case False
    have "\<not> (b_dev B = b_dev (buf_at s i) \<and> b_blockno B = b_blockno (buf_at s i))" if "b_dev (buf_at s i) \<noteq> 0"
      using uniq [OF i False] that by auto
    then show ?thesis
      using inv i False eq [OF False] by (auto simp: bc_inv_def buf_inv_def at holdingsleep_iff Let_def)
  qed
  then show ?thesis using inv len sub by (simp add: bc_inv_def)
qed

text \<open>The cache sees of the process table only the pid of the current process.\<close>

lemma bc_inv_cong:
  assumes "bc_inv H P s" "bufs s' = bufs s" "disk s' = disk s" "p_pid (proc_at s' (cur s')) = p_pid (proc_at s (cur s))"
    "distinct (lru s')" "set (lru s') = set (lru s)"
  shows "bc_inv H P s'"
  using assms by (simp add: bc_inv_def buf_inv_def holdingsleep_iff Let_def)

lemma content_cong: "bufs s' = bufs s \<Longrightarrow> disk s' = disk s \<Longrightarrow> content s' = content s"
  by (intro ext) (simp add: content_def cached_def split: option.split)

text \<open>The contents after replacing one buffer.\<close>

lemma content_put:
  assumes inv': "bc_inv H' P' (put_buf b B s)" and inv: "bc_inv H P s" and b: "b < NBUF" and v: "b_valid B \<noteq> 0"
    and old: "b_valid (buf_at s b) \<noteq> 0 \<Longrightarrow> b_dev (buf_at s b) = b_dev B \<and> b_blockno (buf_at s b) = b_blockno B \<or> b \<notin> H \<union> P"
    and d: "d \<noteq> 0"
  shows "content (put_buf b B s) d n = (if b_dev B = d \<and> b_blockno B = n then b_data B else content s d n)"
proof -
  have len: "length (bufs s) = NBUF" by (rule bc_inv_len(1) [OF inv])
  have at: "buf_at (put_buf b B s) i = (if i = b then B else buf_at s i)" for i
    using b len by (intro buf_at_put) simp
  show ?thesis
  proof (cases "b_dev B = d \<and> b_blockno B = n")
    case True
    then show ?thesis using content_cached [OF inv' b, of d n] v d by (simp add: at)
  next
    case False
    show ?thesis
    proof (rule content_cases [OF inv d, of n], goal_cases)
      case (1 i)
      show ?case
      proof (cases "i = b")
        case True
        then have "b \<notin> H \<union> P" using old 1 False by auto
        then have "content s d n = disk s d n" using bc_invD(5) [OF inv b] 1 True by simp
        moreover have "content (put_buf b B s) d n = disk (put_buf b B s) d n"
        proof (rule content_disk)
          fix j assume j: "j < NBUF"
          show "\<not> (b_valid (buf_at (put_buf b B s) j) \<noteq> 0 \<and> b_dev (buf_at (put_buf b B s) j) = d \<and> b_blockno (buf_at (put_buf b B s) j) = n)"
            using bc_invD(6) [OF inv b j] 1 True False d by (auto simp: at)
        qed
        ultimately show ?thesis using False by auto
      next
        case nb: False
        then have "content (put_buf b B s) d n = b_data (buf_at (put_buf b B s) i)"
          using 1 d by (intro content_cached [OF inv']) (simp_all add: at)
        then show ?thesis using nb 1(5) False by (auto simp: at)
      qed
    next
      case 2
      have "content (put_buf b B s) d n = disk (put_buf b B s) d n"
        using 2(1) False by (intro content_disk) (auto simp: at)
      then show ?case using 2(2) False by auto
    qed
  qed
qed

definition taken :: "'a proc_state_scheme \<Rightarrow> sleeplock" where
  "taken s = \<lparr>sl_locked = 1, sl_pid = p_pid (proc_at s (cur s))\<rparr>"

lemma acquire_buf:
  assumes "sl_locked (b_lock B) = 0" "b < length (bufs s)"
  shows "acquiresleep (ChBufLock b) (buf_lock b) (upd_buf_lock b) (put_buf b B s) =
    Done () (put_buf b (B\<lparr>b_lock := taken s\<rparr>) s)"
  using assms by (cases B, cases "b_lock B") (simp add: acquiresleep_def buf_at_put set_buf_put taken_def)

text \<open>\<^verbatim>\<open>bread\<close>: a locked buffer with the contents of the block; the cache stays as it was otherwise.\<close>

lemma bread_spec:
  fixes s :: "'a buf_state_scheme"
  assumes inv: "bc_inv H P s" and dev: "dev \<noteq> 0"
    and room: "card (H \<union> P) < NBUF \<or> (\<exists>i < NBUF. b_dev (buf_at s i) = dev \<and> b_blockno (buf_at s i) = bno)"
    and nh: "\<And>i. i \<in> H \<Longrightarrow> \<not> (b_dev (buf_at s i) = dev \<and> b_blockno (buf_at s i) = bno)"
  obtains (ok) b B where "bread dev bno s = Done b (put_buf b B s)" "b < NBUF" "b \<notin> H"
    "bc_inv (insert b H) P (put_buf b B s)" "b_dev B = dev" "b_blockno B = bno" "b_data B = content s dev bno"
    "\<And>d n. d \<noteq> 0 \<Longrightarrow> content (put_buf b B s) d n = content s d n"
    "b \<in> P \<Longrightarrow> b_dev (buf_at s b) = dev \<and> b_blockno (buf_at s b) = bno"
proof -
  note len = bc_inv_len(1,2) [OF inv]
  let ?find = "List.find (\<lambda>i. b_dev (buf_at s i) = dev \<and> b_blockno (buf_at s i) = bno) (lru s)"
  have finish: thesis
    if r: "bread dev bno s = Done b (put_buf b B s)" and b: "b < NBUF" "b \<notin> H"
      and B: "b_dev B = dev" "b_blockno B = bno" "b_valid B \<noteq> 0" "b_data B = content s dev bno" "b_lock B = taken s"
        "b_refcnt B = 1 + (if b \<in> P then 1 else 0)"
      and same: "b \<in> P \<Longrightarrow> b_dev (buf_at s b) = dev \<and> b_blockno (buf_at s b) = bno"
      and uniq: "\<And>j. j < NBUF \<Longrightarrow> j \<noteq> b \<Longrightarrow> \<not> (b_dev (buf_at s j) = dev \<and> b_blockno (buf_at s j) = bno)" for b B
  proof -
    have i: "bc_inv (insert b H) P (put_buf b B s)"
      using uniq B dev by (intro bc_inv_put [OF inv b(1)]) (auto simp: taken_def)
    show thesis
    proof (rule ok [OF r b i B(1,2,4)])
      have old: "b_dev (buf_at s b) = b_dev B \<and> b_blockno (buf_at s b) = b_blockno B \<or> b \<notin> H \<union> P"
        using same b(2) B(1,2) by (cases "b \<in> P") simp_all
      show "content (put_buf b B s) d n = content s d n" if "d \<noteq> 0" for d n
        using content_put [OF i inv b(1) B(3) old that, of n] B(1,2,4) by auto
    qed (rule same)
  qed
  show thesis
  proof (cases ?find)
    case (Some b)
    then have f: "b_dev (buf_at s b) = dev" "b_blockno (buf_at s b) = bno" "b \<in> set (lru s)"
      by (auto simp: find_Some_iff)
    have b: "b < NBUF" "b \<notin> H" using f len(2) nh by auto
    have lk: "sl_locked (buf_lock b s) = 0" by (rule bc_invD(3) [OF inv b])
    have uniq: "\<not> (b_dev (buf_at s j) = dev \<and> b_blockno (buf_at s j) = bno)" if "j < NBUF" "j \<noteq> b" for j
      using bc_invD(6) [OF inv b(1) that] f dev by simp
    have rc: "b_refcnt (buf_at s b) = (if b \<in> P then 1 else 0)" using bc_invD(1) [OF inv b(1)] b(2) by simp
    let ?B = "(buf_at s b)\<lparr>b_refcnt := b_refcnt (buf_at s b) + 1, b_lock := taken s\<rparr>"
    have g: "bget dev bno s = Done b (put_buf b ?B s)"
      using lk b(1) len(1) unfolding bget_def Some by (simp add: set_buf_put acquire_buf Let_def)
    have bl: "b < length (bufs s)" using b(1) len(1) by simp
    show thesis
    proof (cases "b_valid (buf_at s b) = 0")
      case True
      let ?C = "?B\<lparr>b_data := disk s dev bno, b_valid := 1\<rparr>"
      have "bread dev bno s = Done b (put_buf b ?C s)"
        using True f bl by (simp add: bread_def g virtio_disk_rw_def set_buf_put buf_at_put Let_def)
      moreover have "content s dev bno = disk s dev bno"
        using uniq True by (intro content_disk) metis
      ultimately show thesis using b f rc uniq by (intro finish [of b ?C]) simp_all
    next
      case False
      have "bread dev bno s = Done b (put_buf b ?B s)"
        using False bl by (simp add: bread_def g buf_at_put)
      moreover have "content s dev bno = b_data (buf_at s b)"
        by (rule content_cached [OF inv b(1) False f(1,2) dev])
      ultimately show thesis using b f rc uniq False by (intro finish [of b ?B]) simp_all
    qed
  next
    case None
    have nf: "\<not> (b_dev (buf_at s j) = dev \<and> b_blockno (buf_at s j) = bno)" if "j < NBUF" for j
      using None len(2) that by (auto simp: find_None_iff)
    have "\<exists>i. i < NBUF \<and> i \<notin> H \<union> P"
    proof (rule ccontr)
      assume "\<not> ?thesis"
      then have "{0..<NBUF} \<subseteq> H \<union> P" by auto
      moreover have "H \<union> P \<subseteq> {0..<NBUF}" using bc_inv_len(3,4) [OF inv] by simp
      ultimately have "H \<union> P = {0..<NBUF}" by blast
      then show False using room nf by auto
    qed
    then obtain i where i: "i < NBUF" "i \<notin> H \<union> P" by blast
    then have "b_refcnt (buf_at s i) = 0" using bc_invD(1) [OF inv i(1)] by simp
    then obtain b where fb: "List.find (\<lambda>i. b_refcnt (buf_at s i) = 0) (rev (lru s)) = Some b"
      using i len(2) by (cases "List.find (\<lambda>i. b_refcnt (buf_at s i) = 0) (rev (lru s))") (auto simp: find_None_iff)
    then have f: "b_refcnt (buf_at s b) = 0" "b \<in> set (lru s)"
      by (auto simp: find_Some_iff) (metis length_rev nth_mem set_rev)
    have b: "b < NBUF" using f len(2) by simp
    have nhp: "b \<notin> H" "b \<notin> P" using bc_invD(1) [OF inv b] f(1) by (auto split: if_splits)
    have lk: "sl_locked (buf_lock b s) = 0" by (rule bc_invD(3) [OF inv b nhp(1)])
    have bl: "b < length (bufs s)" using b len(1) by simp
    let ?B = "(buf_at s b)\<lparr>b_dev := dev, b_blockno := bno, b_valid := 0, b_refcnt := 1, b_lock := taken s\<rparr>"
    let ?C = "?B\<lparr>b_data := disk s dev bno, b_valid := 1\<rparr>"
    have g: "bget dev bno s = Done b (put_buf b ?B s)"
      using lk bl unfolding bget_def None fb by (simp add: set_buf_put acquire_buf Let_def)
    have "bread dev bno s = Done b (put_buf b ?C s)"
      using bl by (simp add: bread_def g virtio_disk_rw_def set_buf_put buf_at_put Let_def)
    moreover have "content s dev bno = disk s dev bno"
      using nf by (intro content_disk) blast
    ultimately show thesis using b nhp nf by (intro finish [of b ?C]) simp_all
  qed
qed

text \<open>Changing the data of a held buffer changes the contents of its block.\<close>

lemma modify_spec:
  fixes s :: "'a buf_state_scheme"
  assumes inv: "bc_inv H P s" and b: "b \<in> H"
  shows "bc_inv H P (put_buf b ((buf_at s b)\<lparr>b_data := blk\<rparr>) s)"
    and "d \<noteq> 0 \<Longrightarrow> content (put_buf b ((buf_at s b)\<lparr>b_data := blk\<rparr>) s) d n =
      (if b_dev (buf_at s b) = d \<and> b_blockno (buf_at s b) = n then blk else content s d n)"
proof -
  have lt: "b < NBUF" using b bc_inv_len(3) [OF inv] by auto
  note D = bc_invD [OF inv lt]
  have u: "b_valid (buf_at s b) \<noteq> 0" "b_dev (buf_at s b) \<noteq> 0" using D(4) b by simp_all
  show i: "bc_inv H P (put_buf b ((buf_at s b)\<lparr>b_data := blk\<rparr>) s)"
    using D(1,2) D(6) b u by (intro bc_inv_put [OF inv lt]) (auto simp: holdingsleep_iff)
  show "content (put_buf b ((buf_at s b)\<lparr>b_data := blk\<rparr>) s) d n =
      (if b_dev (buf_at s b) = d \<and> b_blockno (buf_at s b) = n then blk else content s d n)" if "d \<noteq> 0"
    using content_put [OF i inv lt _ _ that, of n] u by simp
qed

text \<open>\<^verbatim>\<open>bwrite\<close> makes the disk agree with a held buffer.\<close>

lemma bwrite_spec:
  fixes s :: "'a buf_state_scheme"
  assumes inv: "bc_inv H P s" and b: "b \<in> H"
  defines "t \<equiv> s\<lparr>disk := (disk s)(b_dev (buf_at s b) := (disk s (b_dev (buf_at s b)))(b_blockno (buf_at s b) := b_data (buf_at s b))),
    disk_writes := disk_writes s @ [(b_dev (buf_at s b), b_blockno (buf_at s b), b_data (buf_at s b))]\<rparr>"
  shows "bwrite b s = Done () t" and "bc_inv H P t" and "d \<noteq> 0 \<Longrightarrow> content t d n = content s d n"
proof -
  have lt: "b < NBUF" using b bc_inv_len(3) [OF inv] by auto
  note D = bc_invD [OF inv lt]
  have u: "b_valid (buf_at s b) \<noteq> 0" "b_dev (buf_at s b) \<noteq> 0" using D(4) b by simp_all
  show "bwrite b s = Done () t" using D(2) [OF b] by (simp add: bwrite_def virtio_disk_rw_def t_def Let_def)
  have my: "bufs t = bufs s" "myproc t = myproc s" "procs t = procs s" "lru t = lru s"
    by (simp_all add: t_def myproc_def mycpu_def cpuid_def)
  have dk: "disk t d n = (if d = b_dev (buf_at s b) \<and> n = b_blockno (buf_at s b) then b_data (buf_at s b) else disk s d n)" for d n
    by (simp add: t_def)
  have other: "disk t (b_dev (buf_at s i)) (b_blockno (buf_at s i)) = disk s (b_dev (buf_at s i)) (b_blockno (buf_at s i))"
    if "i < NBUF" "i \<noteq> b" for i using D(6) [OF that u(2)] by (auto simp: dk)
  have "buf_inv H P t i" if i: "i < NBUF" for i
  proof (cases "i = b")
    case True
    then show ?thesis using inv lt b by (simp add: bc_inv_def buf_inv_def my holdingsleep_iff Let_def)
  next
    case False
    then show ?thesis using inv i other [OF i False] by (simp add: bc_inv_def buf_inv_def my holdingsleep_iff Let_def)
  qed
  then show i: "bc_inv H P t" using inv by (simp add: bc_inv_def my)
  show "content t d n = content s d n" if d: "d \<noteq> 0"
  proof (rule content_cases [OF inv d, of n], goal_cases)
    case (1 i)
    then show ?case using content_cached [OF i 1(1), of d n] d by (simp add: my)
  next
    case 2
    have "content t d n = disk t d n" using 2(1) by (intro content_disk) (simp add: my)
    moreover have "disk t d n = disk s d n" using 2(1) [OF lt] u by (auto simp: dk)
    ultimately show ?case using 2(2) by simp
  qed
qed

text \<open>\<^verbatim>\<open>bpin\<close> and \<^verbatim>\<open>bunpin\<close>.\<close>

lemma bpin_spec:
  fixes s :: "'a buf_state_scheme"
  assumes inv: "bc_inv H P s" and b: "b \<in> H" "b \<notin> P"
  shows "bc_inv H (insert b P) (bpin b s)" and "d \<noteq> 0 \<Longrightarrow> content (bpin b s) d n = content s d n"
proof -
  have lt: "b < NBUF" using b bc_inv_len(3) [OF inv] by auto
  note D = bc_invD [OF inv lt]
  let ?B = "(buf_at s b)\<lparr>b_refcnt := b_refcnt (buf_at s b) + 1\<rparr>"
  have e: "bpin b s = put_buf b ?B s" by (simp add: bpin_def set_buf_put)
  have u: "b_valid (buf_at s b) \<noteq> 0" "b_dev (buf_at s b) \<noteq> 0" using D(4) b by simp_all
  show i: "bc_inv H (insert b P) (bpin b s)"
    unfolding e using D(1,2) D(6) b u by (intro bc_inv_put [OF inv lt]) (auto simp: holdingsleep_iff)
  show "content (bpin b s) d n = content s d n" if "d \<noteq> 0"
    using content_put [OF i [unfolded e] inv lt _ _ that, of n] u content_cached [OF inv lt u(1) refl refl u(2)]
    by (auto simp: e)
qed

lemma bunpin_spec:
  fixes s :: "'a buf_state_scheme"
  assumes inv: "bc_inv H P s" and b: "b \<in> H" "b \<in> P"
  shows "bc_inv H (P - {b}) (bunpin b s)" and "d \<noteq> 0 \<Longrightarrow> content (bunpin b s) d n = content s d n"
proof -
  have lt: "b < NBUF" using b bc_inv_len(3) [OF inv] by auto
  note D = bc_invD [OF inv lt]
  let ?B = "(buf_at s b)\<lparr>b_refcnt := b_refcnt (buf_at s b) - 1\<rparr>"
  have e: "bunpin b s = put_buf b ?B s" by (simp add: bunpin_def set_buf_put)
  have u: "b_valid (buf_at s b) \<noteq> 0" "b_dev (buf_at s b) \<noteq> 0" using D(4) b by simp_all
  show i: "bc_inv H (P - {b}) (bunpin b s)"
    unfolding e using D(1,2) D(6) b u by (intro bc_inv_put [OF inv lt]) (auto simp: holdingsleep_iff)
  show "content (bunpin b s) d n = content s d n" if "d \<noteq> 0"
    using content_put [OF i [unfolded e] inv lt _ _ that, of n] u content_cached [OF inv lt u(1) refl refl u(2)]
    by (auto simp: e)
qed

text \<open>
  \<open>io_frame\<close>: only the cache, the disk and the console output changed, and in the process table only
  that some processes other than the current one became runnable.
\<close>

definition same_procs :: "'a proc_state_scheme \<Rightarrow> proc list \<Rightarrow> bool" where
  "same_procs s ps \<longleftrightarrow> length ps = length (procs s) \<and> (\<forall>i < length ps. \<exists>st. ps ! i = (procs s ! i)\<lparr>p_state := st\<rparr>) \<and>
     (\<forall>i < length ps. myproc s = Some i \<longrightarrow> ps ! i = procs s ! i)"

definition io_frame :: "'a buf_state_scheme \<Rightarrow> 'a buf_state_scheme \<Rightarrow> bool" where
  "io_frame s s' \<longleftrightarrow> (\<exists>bs l ps d w out b. s' = s\<lparr>bufs := bs, lru := l, procs := ps, disk := d, disk_writes := w,
     uart_out := out, uart_idle := b\<rparr> \<and> same_procs s ps)"

lemma same_procs_refl: "same_procs s (procs s)"
proof -
  have "\<exists>st. procs s ! i = (procs s ! i)\<lparr>p_state := st\<rparr>" for i by (cases "procs s ! i") auto
  then show ?thesis by (simp add: same_procs_def)
qed

lemma same_procs_trans:
  assumes "same_procs s ps" "same_procs t qs" "procs t = ps" "myproc t = myproc s"
  shows "same_procs s qs"
proof -
  have "\<exists>st. qs ! i = (procs s ! i)\<lparr>p_state := st\<rparr>" if "i < length qs" for i
    using assms that unfolding same_procs_def by (metis proc.update_convs(1) proc.surjective)
  then show ?thesis using assms by (simp add: same_procs_def)
qed

lemma io_frame_facts:
  assumes "io_frame s s'"
  shows "myproc s' = myproc s" "length (procs s') = length (procs s)" "mem s' = mem s"
    "myproc s = Some p \<Longrightarrow> p < length (procs s) \<Longrightarrow> proc_at s' p = proc_at s p"
  using assms by (auto simp: io_frame_def same_procs_def myproc_def mycpu_def cpuid_def)

lemma io_frameI:
  "s' = s\<lparr>bufs := bs, lru := l, procs := ps, disk := d, disk_writes := w, uart_out := out, uart_idle := b\<rparr> \<Longrightarrow>
    same_procs s ps \<Longrightarrow> io_frame s s'"
  unfolding io_frame_def by blast

lemma io_frame_trans:
  assumes "io_frame s t" "io_frame t u"
  shows "io_frame s u"
proof -
  obtain bs l ps d w out b where t: "t = s\<lparr>bufs := bs, lru := l, procs := ps, disk := d, disk_writes := w,
      uart_out := out, uart_idle := b\<rparr>" "same_procs s ps"
    using assms(1) by (auto simp: io_frame_def)
  obtain bs' l' ps' d' w' out' b' where u: "u = t\<lparr>bufs := bs', lru := l', procs := ps', disk := d', disk_writes := w',
      uart_out := out', uart_idle := b'\<rparr>" "same_procs t ps'"
    using assms(2) by (auto simp: io_frame_def)
  have "same_procs s ps'"
    by (rule same_procs_trans [OF t(2) u(2)]) (simp_all add: t(1) myproc_def mycpu_def cpuid_def)
  then show ?thesis
    by (intro io_frameI [where bs = bs' and l = l' and ps = ps' and d = d' and w = w' and out = out' and b = b']) (simp_all add: t u)
qed

lemma io_frame_put: "io_frame s (put_buf b B s)"
  by (rule io_frameI [OF _ same_procs_refl, where bs = "(bufs s)[b := B]" and l = "lru s" and d = "disk s" and
    w = "disk_writes s" and out = "uart_out s" and b = "uart_idle s"]) (simp add: put_buf_def)

lemma io_frame_refl: "io_frame s s"
  by (rule io_frameI [OF _ same_procs_refl, where bs = "bufs s" and l = "lru s" and d = "disk s" and
    w = "disk_writes s" and out = "uart_out s" and b = "uart_idle s"]) simp

lemma io_frame_disk: "io_frame s (s\<lparr>disk := d, disk_writes := w\<rparr>)"
  by (rule io_frameI [OF _ same_procs_refl, where bs = "bufs s" and l = "lru s" and d = d and
    w = w and out = "uart_out s" and b = "uart_idle s"]) simp

lemma io_frame_out: "io_frame s (s\<lparr>uart_out := out, uart_idle := b\<rparr>)"
  by (rule io_frameI [OF _ same_procs_refl, where bs = "bufs s" and l = "lru s" and d = "disk s" and
    w = "disk_writes s" and out = out and b = b]) simp

lemma same_procs_wakeup: "same_procs s (procs (wakeup c s))"
proof -
  have "\<exists>st. procs (wakeup c s) ! i = (procs s ! i)\<lparr>p_state := st\<rparr>" if "i < length (procs s)" for i
    using that by (cases "procs s ! i") (auto simp: proc_at_wakeup)
  then show ?thesis by (simp add: same_procs_def proc_at_wakeup)
qed

definition running :: "'a proc_state_scheme \<Rightarrow> bool" where
  "running s \<longleftrightarrow> myproc s \<noteq> None \<and> cur s < length (procs s)"

lemma io_frame_running: "io_frame s t \<Longrightarrow> running t = running s"
  using io_frame_facts(1,2) [of s t] by (simp add: running_def)

lemma running_put [simp]: "running (put_buf b B s) = running s"
  by (simp add: running_def)

text \<open>
  \<^verbatim>\<open>brelse\<close> gives the buffer back. A buffer that is not pinned must agree with the disk by then.
\<close>

lemma brelse_spec:
  fixes s :: "'a buf_state_scheme"
  assumes inv: "bc_inv H P s" and b: "b \<in> H" and run: "running s"
    and clean: "b \<in> P \<or> b_data (buf_at s b) = disk s (b_dev (buf_at s b)) (b_blockno (buf_at s b))"
  obtains (ok) t where "brelse b s = Done () t" "bc_inv (H - {b}) P t" "io_frame s t" "disk t = disk s" "disk_writes t = disk_writes s"
    "\<And>d n. d \<noteq> 0 \<Longrightarrow> content t d n = content s d n" "\<And>i. i \<noteq> b \<Longrightarrow> buf_at t i = buf_at s i"
    "b_dev (buf_at t b) = b_dev (buf_at s b)" "b_blockno (buf_at t b) = b_blockno (buf_at s b)"
proof -
  have lt: "b < NBUF" using b bc_inv_len(3) [OF inv] by auto
  have bl: "b < length (bufs s)" using lt bc_inv_len(1) [OF inv] by simp
  have cur: "cur s < length (procs s)" "myproc s \<noteq> None" using run by (simp_all add: running_def)
  note D = bc_invD [OF inv lt]
  have u: "b_valid (buf_at s b) \<noteq> 0" "b_dev (buf_at s b) \<noteq> 0" using D(4) b by simp_all
  let ?B = "(buf_at s b)\<lparr>b_lock := \<lparr>sl_locked = 0, sl_pid = 0\<rparr>, b_refcnt := b_refcnt (buf_at s b) - 1\<rparr>"
  let ?s1 = "put_buf b ?B s"
  have B': "b_lock_update (\<lambda>l. l\<lparr>sl_locked := 0, sl_pid := 0\<rparr>) (buf_at s b) = (buf_at s b)\<lparr>b_lock := \<lparr>sl_locked = 0, sl_pid = 0\<rparr>\<rparr>"
    by (cases "buf_at s b", cases "buf_lock b s") simp
  have i1: "bc_inv (H - {b}) P ?s1"
    using D(1) D(6) b u clean by (intro bc_inv_put [OF inv lt]) auto
  have c1: "content ?s1 d n = content s d n" if "d \<noteq> 0" for d n
    using content_put [OF i1 inv lt _ _ that, of n] u content_cached [OF inv lt u(1) refl refl u(2)] by auto
  let ?w = "wakeup (ChBufLock b) ?s1"
  let ?t = "if b_refcnt ?B = 0 then ?w\<lparr>lru := b # remove1 b (lru ?w)\<rparr> else ?w"
  have wk: "wakeup (ChBufLock b) (put_buf b X s) = put_buf b X (wakeup (ChBufLock b) s)" for X
    by (simp add: wakeup_def put_buf_def myproc_def mycpu_def cpuid_def)
  have bufw: "bufs (wakeup (ChBufLock b) s) = bufs s" by (simp add: wakeup_def)
  have "brelse b s = Done () ?t"
    using D(2) [OF b] bl by (simp add: brelse_def releasesleep_def set_buf_put B' Let_def wk bufw buf_at_put)
  moreover have same: "bufs ?t = bufs ?s1" "disk ?t = disk s" by (simp_all add: wakeup_def)
  moreover have "bc_inv (H - {b}) P ?t"
  proof (rule bc_inv_cong [OF i1])
    have "myproc ?t = myproc s" by (simp add: myproc_def mycpu_def cpuid_def wakeup_def put_buf_def)
    moreover have "procs ?t = procs ?w" by simp
    ultimately show "p_pid (proc_at ?t (cur ?t)) = p_pid (proc_at ?s1 (cur ?s1))"
      using cur by (simp add: proc_at_wakeup)
    have "distinct (lru s)" "b \<in> set (lru s)" using inv lt by (auto simp: bc_inv_def)
    then show "distinct (lru ?t)" "set (lru ?t) = set (lru ?s1)" by (auto simp: wakeup_def)
  qed (use same in simp_all)
  moreover have "content ?t d n = content s d n" if "d \<noteq> 0" for d n
    using content_cong [OF same(1)] same(2) c1 [OF that] by simp
  moreover have "io_frame s ?t"
  proof (rule io_frameI)
    show "?t = s\<lparr>bufs := bufs ?t, lru := lru ?t, procs := procs ?t, disk := disk s, disk_writes := disk_writes s,
        uart_out := uart_out s, uart_idle := uart_idle s\<rparr>"
      by (simp add: wakeup_def put_buf_def)
    have "procs ?t = procs (wakeup (ChBufLock b) s)" by (simp add: wk)
    then show "same_procs s (procs ?t)" using same_procs_wakeup [of s] by simp
  qed
  moreover have "disk_writes ?t = disk_writes s" by (simp add: wakeup_def put_buf_def)
  moreover have "buf_at ?t i = (if i = b then ?B else buf_at s i)" for i
    using same(1) bl by (simp add: buf_at_put)
  ultimately show thesis by (intro ok [of ?t]) simp_all
qed

text \<open>\<^verbatim>\<open>binit\<close> starts with an empty cache.\<close>

lemma binit_lru: "lru (binit s) = rev [0..<NBUF]"
  by (simp add: binit_def fold_Cons_rev)

lemma binit_inv:
  assumes "bufs s = replicate NBUF zero_buf"
  shows "bc_inv {} {} (binit s)"
proof -
  have b: "buf_at (binit s) i = zero_buf" if "i < NBUF" for i
    using that assms by (simp add: binit_def zero_buf_def)
  then show ?thesis
    using assms unfolding bc_inv_def binit_lru
    by (simp add: buf_inv_def zero_buf_def initsleeplock_def Let_def) (simp add: binit_def atLeast0LessThan)
qed

section \<open>The locks of the buffers\<close>

interpretation bl: sleeplock_at "ChBufLock i" "buf_lock i" "upd_buf_lock i" "\<lambda>s. i < length (bufs s)" for i :: nat
  by unfold_locales (simp_all add: set_buf_def)

section \<open>Properties\<close>

text \<open>
  C5: Coherence of the buffer cache. In a cache where the buffers \<open>H\<close> are locked and the buffers \<open>P\<close>
  pinned, \<^verbatim>\<open>bread\<close> of a block that the process does not hold already, with a buffer to spare,
  returns a buffer that was not in use by this process, locked for it, holding the latest contents of the
  block even when those have not reached the disk; the invariant (one buffer per block, unused
  buffers agree with the disk) holds afterwards, no block changes its contents and the
  disk is not written.
\<close>

theorem bread_coherent:
  fixes s :: "'a buf_state_scheme"
  assumes inv: "bc_inv H P s" and dev: "dev \<noteq> 0" and room: "card (H \<union> P) < NBUF"
    and free: "\<forall>i \<in> H. \<not> (b_dev (buf_at s i) = dev \<and> b_blockno (buf_at s i) = bno)"
  shows "\<exists>b t. bread dev bno s = Done b t \<and> b \<notin> H \<and> bc_inv (insert b H) P t \<and> holdingsleep (buf_lock b) t \<and>
    b_dev (buf_at t b) = dev \<and> b_blockno (buf_at t b) = bno \<and> b_data (buf_at t b) = content s dev bno \<and>
    (\<forall>d n. d \<noteq> 0 \<longrightarrow> content t d n = content s d n) \<and> disk_writes t = disk_writes s"
proof -
  have room': "card (H \<union> P) < NBUF \<or> (\<exists>i < NBUF. b_dev (buf_at s i) = dev \<and> b_blockno (buf_at s i) = bno)"
    using room by simp
  obtain b B where r: "bread dev bno s = Done b (put_buf b B s)" "b < NBUF" "b \<notin> H"
    "bc_inv (insert b H) P (put_buf b B s)" "b_dev B = dev" "b_blockno B = bno" "b_data B = content s dev bno"
    "\<And>d n. d \<noteq> 0 \<Longrightarrow> content (put_buf b B s) d n = content s d n"
    by (rule bread_spec [OF inv dev room' bspec [OF free]]) (assumption, rule that)
  have at: "buf_at (put_buf b B s) b = B" using r(2) bc_inv_len(1) [OF inv] by (simp add: buf_at_put)
  show ?thesis using r bc_invD(2) [OF r(4,2)] by (intro exI [of _ b] exI [of _ "put_buf b B s"] conjI) (simp_all add: at)
qed

definition ex_cache :: buf_state where
  "ex_cache = binit (cons_state.extend (with_cons [] ex_ustate)
     \<lparr>bufs = replicate NBUF zero_buf, lru = [], disk = (\<lambda>dev bno i. ucast bno), disk_writes = []\<rparr>)"

lemma ex_cache_inv: "bc_inv {} {} ex_cache"
  unfolding ex_cache_def by (rule binit_inv) (simp add: cons_state.defs)

lemma ex_cache_facts: "procs ex_cache = [ex_uproc]" "myproc ex_cache = Some 0" "disk_writes ex_cache = []"
    "length (bufs ex_cache) = NBUF" "disk ex_cache = (\<lambda>dev bno i. ucast bno)"
  by (simp_all add: ex_cache_def binit_def cons_state.defs with_cons_def proc_state.defs ex_ustate_def myproc_def
    mycpu_def cpuid_def)

lemma ex_cache_empty: "i < NBUF \<Longrightarrow> buf_at ex_cache i = zero_buf"
  by (simp add: ex_cache_def binit_def cons_state.defs zero_buf_def)

lemma ex_cache_content: "d \<noteq> 0 \<Longrightarrow> content ex_cache d n = (\<lambda>_. ucast n)"
  by (subst content_disk) (simp_all add: ex_cache_empty zero_buf_def ex_cache_facts)

text \<open>Two blocks are read one after the other into an empty cache.\<close>

theorem bread_coherent_witness:
  "\<exists>b s1 c s2. bread 1 45 ex_cache = Done b s1 \<and> bread 1 46 s1 = Done c s2 \<and> b \<noteq> c \<and>
    b_data (buf_at s1 b) = (\<lambda>_. 45) \<and> b_data (buf_at s2 c) = (\<lambda>_. 46) \<and> bc_inv {b, c} {} s2"
proof -
  have free: "\<forall>i \<in> {}. \<not> (b_dev (buf_at ex_cache i) = 1 \<and> b_blockno (buf_at ex_cache i) = 45)" by simp
  have room: "card ({} \<union> {} :: nat set) < NBUF" by simp
  obtain b s1 where 1: "bread 1 45 ex_cache = Done b s1" "bc_inv {b} {} s1" "b_dev (buf_at s1 b) = 1" "b_blockno (buf_at s1 b) = 45"
    "b_data (buf_at s1 b) = content ex_cache 1 45" "\<forall>d n. d \<noteq> 0 \<longrightarrow> content s1 d n = content ex_cache d n"
    using bread_coherent [OF ex_cache_inv one_neq_zero room free] by blast
  have free1: "\<forall>i \<in> {b}. \<not> (b_dev (buf_at s1 i) = 1 \<and> b_blockno (buf_at s1 i) = 46)" using 1(4) by simp
  have room1: "card ({b} \<union> {}) < NBUF" by simp
  obtain c s2 where 2: "bread 1 46 s1 = Done c s2" "c \<notin> {b}" "bc_inv {c, b} {} s2" "b_data (buf_at s2 c) = content s1 1 46"
    using bread_coherent [OF 1(2) one_neq_zero room1 free1] by blast
  have "content s1 1 46 = (\<lambda>_. 46)" "content ex_cache 1 45 = (\<lambda>_. 45)" using 1(6) by (simp_all add: ex_cache_content)
  then show ?thesis using 1 2 by (intro exI [of _ b] exI [of _ s1] exI [of _ c] exI [of _ s2]) (simp add: insert_commute)
qed


text \<open>
  Process 0 waits on CPU 0 for buffer 3, which process 1, running on CPU 1, holds; in the second state process 0 sleeps, and
  CPU 1 executes the release.
\<close>

definition ex_waits :: buf_state where
  "ex_waits = (put_buf 3 (zero_buf\<lparr>b_lock := \<lparr>sl_locked = 1, sl_pid = 9\<rparr>\<rparr>) ex_cache)\<lparr>procs := [ex_uproc, ex_uproc\<lparr>p_state := RUNNING, p_pid := 9\<rparr>],
     cpus := (\<lambda>c. \<lparr>c_proc = Some c, c_noff = 0, c_intena = False\<rparr>), tp := 0\<rparr>"


end
