(* ===== verification/Bytes.thy ===== *)
theory Bytes
  imports Prelude
begin

text \<open>
  Little-endian 16- and 32-bit fields of byte arrays, as the file system lays them out in disk
  blocks: \<open>ld16 b i\<close> is \<^verbatim>\<open>((ushort*)b)[i]\<close> and \<open>ld32 b i\<close> is \<^verbatim>\<open>((uint*)b)[i]\<close>.
\<close>

definition ld16 :: "(nat \<Rightarrow> u8) \<Rightarrow> nat \<Rightarrow> u16" where
  "ld16 b i = ucast (b (2 * i)) OR push_bit 8 (ucast (b (2 * i + 1)))"

definition st16 :: "(nat \<Rightarrow> u8) \<Rightarrow> nat \<Rightarrow> u16 \<Rightarrow> nat \<Rightarrow> u8" where
  "st16 b i v = (\<lambda>off. if off div 2 = i then ucast (drop_bit (8 * (off mod 2)) v) else b off)"

definition ld32 :: "(nat \<Rightarrow> u8) \<Rightarrow> nat \<Rightarrow> u32" where
  "ld32 b i = ucast (b (4 * i)) OR push_bit 8 (ucast (b (4 * i + 1))) OR
     push_bit 16 (ucast (b (4 * i + 2))) OR push_bit 24 (ucast (b (4 * i + 3)))"

definition st32 :: "(nat \<Rightarrow> u8) \<Rightarrow> nat \<Rightarrow> u32 \<Rightarrow> nat \<Rightarrow> u8" where
  "st32 b i v = (\<lambda>off. if off div 4 = i then ucast (drop_bit (8 * (off mod 4)) v) else b off)"

text \<open>The first \<open>n\<close> bytes of a word in memory.\<close>

definition le_bytes :: "nat \<Rightarrow> 'a::len word \<Rightarrow> u8 list" where
  "le_bytes n v = map (\<lambda>i. ucast (drop_bit (8 * i) v)) [0..<n]"

lemma length_le_bytes [simp]: "length (le_bytes n v) = n"
  by (simp add: le_bytes_def)

lemma four_bytes:
  "(ucast (ucast v :: u8) :: u32) OR push_bit 8 (ucast (ucast (drop_bit 8 v) :: u8)) OR
     push_bit 16 (ucast (ucast (drop_bit 16 v) :: u8)) OR push_bit 24 (ucast (ucast (drop_bit 24 v) :: u8)) = v"
  for v :: u32
proof (rule bit_word_eqI)
  fix n assume "n < LENGTH(32)"
  then consider "n < 8" | "8 \<le> n" "n < 16" | "16 \<le> n" "n < 24" | "24 \<le> n" "n < 32" by force
  then show "bit ((ucast (ucast v :: u8) :: u32) OR push_bit 8 (ucast (ucast (drop_bit 8 v) :: u8)) OR
     push_bit 16 (ucast (ucast (drop_bit 16 v) :: u8)) OR push_bit 24 (ucast (ucast (drop_bit 24 v) :: u8))) n = bit v n"
    by cases (auto simp: bit_or_iff bit_push_bit_iff bit_ucast_iff bit_drop_bit_eq)
qed

lemma two_bytes: "(ucast (ucast v :: u8) :: u16) OR push_bit 8 (ucast (ucast (drop_bit 8 v) :: u8)) = v" for v :: u16
proof (rule bit_word_eqI)
  fix n assume "n < LENGTH(16)"
  then consider "n < 8" | "8 \<le> n" "n < 16" by force
  then show "bit ((ucast (ucast v :: u8) :: u16) OR push_bit 8 (ucast (ucast (drop_bit 8 v) :: u8))) n = bit v n"
    by cases (auto simp: bit_or_iff bit_push_bit_iff bit_ucast_iff bit_drop_bit_eq)
qed

lemma ld32_st32: "ld32 (st32 b i v) j = (if i = j then v else ld32 b j)"
proof (cases "i = j")
  case True
  have "(4 * j) div 4 = j" "(4 * j + 1) div 4 = j" "(4 * j + 2) div 4 = j" "(4 * j + 3) div 4 = j"
    "(4 * j + 1) mod 4 = 1" "(4 * j + 2) mod 4 = 2" "(4 * j + 3) mod 4 = 3" by presburger+
  then show ?thesis using True four_bytes [of v] by (simp add: ld32_def st32_def)
next
  case False
  then show ?thesis by (simp add: ld32_def st32_def)
qed

lemma ld16_st16: "ld16 (st16 b i v) j = (if i = j then v else ld16 b j)"
proof (cases "i = j")
  case True
  have "(2 * j) div 2 = j" "(2 * j + 1) div 2 = j" "(2 * j + 1) mod 2 = 1" by simp_all
  then show ?thesis using True two_bytes [of v] by (simp add: ld16_def st16_def)
next
  case False
  then show ?thesis by (simp add: ld16_def st16_def)
qed

lemma ld16_st32: "j div 2 \<noteq> i \<Longrightarrow> ld16 (st32 b i v) j = ld16 b j"
  by (simp add: ld16_def st32_def)

lemma ld32_st16: "i div 2 \<noteq> j \<Longrightarrow> ld32 (st16 b i v) j = ld32 b j"
proof -
  assume a: "i div 2 \<noteq> j"
  have "(4 * j) div 2 \<noteq> i" "(4 * j + 1) div 2 \<noteq> i" "(4 * j + 2) div 2 \<noteq> i" "(4 * j + 3) div 2 \<noteq> i"
    using a by auto
  then show ?thesis by (simp add: ld32_def st16_def)
qed

lemma ld32_cong: "(\<And>k. k < 4 \<Longrightarrow> b (4 * i + k) = b' (4 * i + k)) \<Longrightarrow> ld32 b i = ld32 b' i"
proof -
  assume a: "\<And>k. k < 4 \<Longrightarrow> b (4 * i + k) = b' (4 * i + k)"
  from a [of 0] a [of 1] a [of 2] a [of 3] show ?thesis by (simp add: ld32_def)
qed

lemma ld32_zero [simp]: "ld32 (\<lambda>_. 0) i = 0"
  by (simp add: ld32_def)

end
