(* ===== verification/Log.thy ===== *)
theory Log
  imports Bio Bytes
begin

text \<open>
  \<^verbatim>\<open>kernel/log.c\<close>: the redo log that makes file system calls atomic with respect to crashes. The
  in-memory header is the number of logged blocks and their block numbers; on disk it is the
  block \<^verbatim>\<open>log.start\<close>, laid out as \<^verbatim>\<open>struct logheader\<close>.
\<close>

section \<open>Model\<close>

abbreviation MAXOPBLOCKS :: int where "MAXOPBLOCKS \<equiv> 10"
abbreviation LOGBLOCKS :: int where "LOGBLOCKS \<equiv> 30"

record log_state = buf_state +
  log_start :: u32
  log_outstanding :: int
  log_committing :: int
  log_dev :: u32
  lh_n :: int
  lh_block :: "nat \<Rightarrow> u32"

text \<open>\<^verbatim>\<open>printf\<close> on the console; all formats of the kernel match their arguments.\<close>

definition kprintf :: "string \<Rightarrow> vararg list \<Rightarrow> 'a cons_state_scheme \<Rightarrow> 'a cons_state_scheme" where
  "kprintf fmt ap s = (case printf (bytes_of fmt) ap of None \<Rightarrow> s | Some out \<Rightarrow> fold consputc out s)"

definition install_block :: "bool \<Rightarrow> nat \<Rightarrow> 'a log_state_scheme \<Rightarrow> (unit, 'a log_state_scheme) outcome" where
  "install_block recovering tail s =
     (let s = (if recovering then kprintf ''recovering tail %d dst %d\<newline>'' [VNum (of_nat tail), VNum (ucast (lh_block s tail))] s else s)
      in obind (bread (log_dev s) (log_start s + of_nat tail + 1) s) (\<lambda>lbuf s.
         obind (bread (log_dev s) (lh_block s tail) s) (\<lambda>dbuf s.
         let s = set_buf dbuf (b_data_update (\<lambda>_. b_data (buf_at s lbuf))) s in
         obind (bwrite dbuf s) (\<lambda>_ s.
         let s = (if recovering then s else bunpin dbuf s) in
         obind (brelse lbuf s) (\<lambda>_ s. brelse dbuf s)))))"

fun install_loop :: "bool \<Rightarrow> nat list \<Rightarrow> 'a log_state_scheme \<Rightarrow> (unit, 'a log_state_scheme) outcome" where
  "install_loop recovering [] s = Done () s"
| "install_loop recovering (tail # ts) s = obind (install_block recovering tail s) (\<lambda>_ s. install_loop recovering ts s)"

definition install_trans :: "bool \<Rightarrow> 'a log_state_scheme \<Rightarrow> (unit, 'a log_state_scheme) outcome" where
  "install_trans recovering s = install_loop recovering [0..<nat (lh_n s)] s"

definition read_head :: "'a log_state_scheme \<Rightarrow> (unit, 'a log_state_scheme) outcome" where
  "read_head s =
     obind (bread (log_dev s) (log_start s) s) (\<lambda>buf s.
       let lh = b_data (buf_at s buf); n = sint (ld32 lh 0);
           s = s\<lparr>lh_n := n, lh_block := (\<lambda>i. if i < nat n then ld32 lh (Suc i) else lh_block s i)\<rparr>
       in brelse buf s)"

text \<open>The header block that \<^verbatim>\<open>write_head\<close> builds over the old one.\<close>

definition head_block :: "int \<Rightarrow> (nat \<Rightarrow> u32) \<Rightarrow> block \<Rightarrow> block" where
  "head_block n blks old = fold (\<lambda>i b. st32 b (Suc i) (blks i)) [0..<nat n] (st32 old 0 (word_of_int n))"

definition write_head :: "'a log_state_scheme \<Rightarrow> (unit, 'a log_state_scheme) outcome" where
  "write_head s =
     obind (bread (log_dev s) (log_start s) s) (\<lambda>buf s.
       let s = set_buf buf (b_data_update (head_block (lh_n s) (lh_block s))) s
       in obind (bwrite buf s) (\<lambda>_ s. brelse buf s))"

definition recover_from_log :: "'a log_state_scheme \<Rightarrow> (unit, 'a log_state_scheme) outcome" where
  "recover_from_log s =
     obind (read_head s) (\<lambda>_ s.
     obind (install_trans True s) (\<lambda>_ s.
     write_head (s\<lparr>lh_n := 0\<rparr>)))"

text \<open>The size check of \<^verbatim>\<open>initlog\<close> compares two constants, 124 and 1024.\<close>

definition initlog :: "u32 \<Rightarrow> u32 \<Rightarrow> 'a log_state_scheme \<Rightarrow> (unit, 'a log_state_scheme) outcome" where
  "initlog dev logstart s =
     (if 4 * (1 + nat LOGBLOCKS) \<ge> BSIZE then Panic ''initlog: too big logheader''
      else recover_from_log (s\<lparr>log_start := logstart, log_dev := dev\<rparr>))"

definition begin_op :: "'a log_state_scheme \<Rightarrow> (unit, 'a log_state_scheme) outcome" where
  "begin_op s =
     (if log_committing s \<noteq> 0 then sleep ChLog s
      else if lh_n s + (log_outstanding s + 1) * MAXOPBLOCKS > LOGBLOCKS then sleep ChLog s
      else Done () (s\<lparr>log_outstanding := log_outstanding s + 1\<rparr>))"

definition write_log_block :: "nat \<Rightarrow> 'a log_state_scheme \<Rightarrow> (unit, 'a log_state_scheme) outcome" where
  "write_log_block tail s =
     obind (bread (log_dev s) (log_start s + of_nat tail + 1) s) (\<lambda>to s.
     obind (bread (log_dev s) (lh_block s tail) s) (\<lambda>from s.
     let s = set_buf to (b_data_update (\<lambda>_. b_data (buf_at s from))) s in
     obind (bwrite to s) (\<lambda>_ s.
     obind (brelse from s) (\<lambda>_ s. brelse to s))))"

fun write_log_loop :: "nat list \<Rightarrow> 'a log_state_scheme \<Rightarrow> (unit, 'a log_state_scheme) outcome" where
  "write_log_loop [] s = Done () s"
| "write_log_loop (tail # ts) s = obind (write_log_block tail s) (\<lambda>_ s. write_log_loop ts s)"

definition write_log :: "'a log_state_scheme \<Rightarrow> (unit, 'a log_state_scheme) outcome" where
  "write_log s = write_log_loop [0..<nat (lh_n s)] s"

definition commit :: "'a log_state_scheme \<Rightarrow> (unit, 'a log_state_scheme) outcome" where
  "commit s =
     (if lh_n s > 0 then
        obind (write_log s) (\<lambda>_ s.
        obind (write_head s) (\<lambda>_ s.
        obind (install_trans False s) (\<lambda>_ s.
        write_head (s\<lparr>lh_n := 0\<rparr>))))
      else Done () s)"

definition end_op :: "'a log_state_scheme \<Rightarrow> (unit, 'a log_state_scheme) outcome" where
  "end_op s =
     (let s = s\<lparr>log_outstanding := log_outstanding s - 1\<rparr> in
      if log_committing s \<noteq> 0 then Panic ''log.committing''
      else if log_outstanding s = 0 then
        obind (commit (s\<lparr>log_committing := 1\<rparr>)) (\<lambda>_ s. Done () (wakeup ChLog (s\<lparr>log_committing := 0\<rparr>)))
      else Done () (wakeup ChLog s))"

definition log_write :: "nat \<Rightarrow> 'a log_state_scheme \<Rightarrow> (unit, 'a log_state_scheme) outcome" where
  "log_write b s =
     (if lh_n s \<ge> LOGBLOCKS then Panic ''too big a transaction''
      else if log_outstanding s < 1 then Panic ''log_write outside of trans''
      else
        let bno = b_blockno (buf_at s b) in
        case List.find (\<lambda>i. lh_block s i = bno) [0..<nat (lh_n s)] of
          Some i \<Rightarrow> Done () (s\<lparr>lh_block := (lh_block s)(i := bno)\<rparr>)
        | None \<Rightarrow> Done () ((bpin b (s\<lparr>lh_block := (lh_block s)(nat (lh_n s) := bno)\<rparr>))\<lparr>lh_n := lh_n s + 1\<rparr>))"

section \<open>Frames\<close>

text \<open>The cache operations do not touch the log.\<close>

lemma io_frame_log:
  "io_frame s s' \<Longrightarrow> lh_n s' = lh_n s \<and> lh_block s' = lh_block s \<and> log_dev s' = log_dev s \<and> log_start s' = log_start s \<and>
    log_outstanding s' = log_outstanding s \<and> log_committing s' = log_committing s"
  by (auto simp: io_frame_def)

lemma put_buf_log [simp]:
  "lh_n (put_buf b B s) = lh_n s" "lh_block (put_buf b B s) = lh_block s" "log_dev (put_buf b B s) = log_dev s"
  "log_start (put_buf b B s) = log_start s" "log_outstanding (put_buf b B s) = log_outstanding s"
  by (simp_all add: put_buf_def)

section \<open>Sequences of disk writes\<close>

type_synonym disk_img = "u32 \<Rightarrow> u32 \<Rightarrow> block"

definition disk_put :: "u32 \<times> u32 \<times> block \<Rightarrow> disk_img \<Rightarrow> disk_img" where
  "disk_put w D = (case w of (d, n, blk) \<Rightarrow> D(d := (D d)(n := blk)))"

abbreviation apply_writes :: "(u32 \<times> u32 \<times> block) list \<Rightarrow> disk_img \<Rightarrow> disk_img" where
  "apply_writes \<equiv> fold disk_put"

lemma apply_other: "(d, n) \<notin> (\<lambda>(d, n, b). (d, n)) ` set W \<Longrightarrow> apply_writes W D d n = D d n"
  by (induction W arbitrary: D) (auto simp: disk_put_def)

lemma apply_map:
  assumes "i < k" "\<And>j. j < k \<Longrightarrow> j \<noteq> i \<Longrightarrow> f j \<noteq> f i"
  shows "apply_writes (map (\<lambda>j. (d, f j, g j)) [0..<k]) D d (f i) = g i"
  using assms
proof (induction k)
  case (Suc k)
  show ?case
  proof (cases "i = k")
    case True
    then show ?thesis by (simp add: disk_put_def)
  next
    case False
    then have "f i \<noteq> f k" using Suc.prems(2) [of k] by auto
    then show ?thesis using Suc False by (simp add: disk_put_def)
  qed
qed simp

lemma apply_take_map:
  assumes "\<And>i. i < n \<Longrightarrow> f i \<noteq> b"
  shows "apply_writes (take m (map (\<lambda>i. (d, f i, g i)) [0..<n])) X d b = X d b"
proof (rule apply_other)
  have "b \<notin> f ` {0..<n}" using assms by fastforce
  moreover have "(\<lambda>(d, n, b). (d, n)) ` set (take m (map (\<lambda>i. (d, f i, g i)) [0..<n])) \<subseteq> (\<lambda>i. (d, f i)) ` {0..<n}"
    using set_take_subset [of m "[0..<n]"] by (auto simp: take_map)
  ultimately show "(d, b) \<notin> (\<lambda>(d, n, b). (d, n)) ` set (take m (map (\<lambda>i. (d, f i, g i)) [0..<n]))" by blast
qed

text \<open>
  \<open>wrote W P P' s t\<close>: from \<open>s\<close> to \<open>t\<close> the disk was written as \<open>W\<close> says, the contents of the blocks
  changed in the same way, and the set of pinned buffers went from \<open>P\<close> to \<open>P'\<close>.
\<close>

definition wrote :: "(u32 \<times> u32 \<times> block) list \<Rightarrow> nat set \<Rightarrow> 'a log_state_scheme \<Rightarrow> 'a log_state_scheme \<Rightarrow> bool" where
  "wrote W P' s t \<longleftrightarrow> bc_inv {} P' t \<and> io_frame s t \<and> disk t = apply_writes W (disk s) \<and>
     disk_writes t = disk_writes s @ W \<and> (\<forall>d n. d \<noteq> 0 \<longrightarrow> content t d n = apply_writes W (content s) d n) \<and>
     (\<forall>i \<in> P'. b_dev (buf_at t i) = b_dev (buf_at s i) \<and> b_blockno (buf_at t i) = b_blockno (buf_at s i))"

lemma apply_cong: "(\<And>d n. d \<noteq> 0 \<Longrightarrow> C d n = C' d n) \<Longrightarrow> d \<noteq> 0 \<Longrightarrow> apply_writes W C d n = apply_writes W C' d n"
proof (induction W arbitrary: C C')
  case (Cons w W)
  show ?case using Cons.IH [of "disk_put w C" "disk_put w C'"] Cons.prems by (auto simp: disk_put_def split: prod.split)
qed simp

lemma wrote_trans:
  assumes "wrote V P s t" "wrote W P' t u" "P' \<subseteq> P"
  shows "wrote (V @ W) P' s u"
proof -
  have "content u d n = apply_writes (V @ W) (content s) d n" if "d \<noteq> 0" for d n
    using assms(1,2) apply_cong [of "content t" "apply_writes V (content s)" d W n] that by (simp add: wrote_def)
  moreover have "io_frame s u" using io_frame_trans [of s t u] assms(1,2) by (simp add: wrote_def)
  ultimately show ?thesis using assms by (auto simp: wrote_def)
qed

lemma wrote_refl: "bc_inv {} P s \<Longrightarrow> wrote [] P s s"
  by (simp add: wrote_def io_frame_refl)

section \<open>Two buffers at once\<close>

text \<open>A block that is not pinned agrees with the disk.\<close>

lemma content_unpinned:
  assumes "bc_inv {} P s" "d \<noteq> 0" "\<And>i. i \<in> P \<Longrightarrow> \<not> (b_dev (buf_at s i) = d \<and> b_blockno (buf_at s i) = n)"
  shows "content s d n = disk s d n"
proof (rule content_cases [OF assms(1,2), of n], goal_cases)
  case (1 i)
  then have "i \<notin> P" using assms(3) by blast
  then show ?case using bc_invD(5) [OF assms(1) 1(1)] 1 by simp
next
  case 2
  then show ?case by simp
qed

lemma bread2:
  fixes s :: "'a log_state_scheme"
  assumes inv: "bc_inv {} P s" and dev: "dev \<noteq> 0" and ne: "a \<noteq> c"
    and room: "card P < NBUF" "card P < NBUF - 1 \<or> (\<exists>i \<in> P. b_dev (buf_at s i) = dev \<and> b_blockno (buf_at s i) = c)"
  obtains (ok) x y s1 s2 where "bread dev a s = Done x s1" "bread dev c s1 = Done y s2" "x \<noteq> y" "io_frame s s1" "io_frame s s2"
    "bc_inv {x, y} P s2" "disk s2 = disk s" "disk_writes s2 = disk_writes s" "\<And>d n. d \<noteq> 0 \<Longrightarrow> content s2 d n = content s d n"
    "b_dev (buf_at s2 x) = dev" "b_blockno (buf_at s2 x) = a" "b_data (buf_at s2 x) = content s dev a"
    "b_dev (buf_at s2 y) = dev" "b_blockno (buf_at s2 y) = c" "b_data (buf_at s2 y) = content s dev c"
    "\<And>i. i \<in> P \<Longrightarrow> b_dev (buf_at s2 i) = b_dev (buf_at s i) \<and> b_blockno (buf_at s2 i) = b_blockno (buf_at s i)"
proof -
  have len: "length (bufs s) = NBUF" by (rule bc_inv_len(1) [OF inv])
  have fin: "finite P" using bc_inv_len(4) [OF inv] finite_subset by blast
  obtain x X where x: "bread dev a s = Done x (put_buf x X s)" "x < NBUF" "bc_inv (insert x {}) P (put_buf x X s)"
    "b_dev X = dev" "b_blockno X = a" "b_data X = content s dev a"
    "\<And>d n. d \<noteq> 0 \<Longrightarrow> content (put_buf x X s) d n = content s d n"
    "x \<in> P \<Longrightarrow> b_dev (buf_at s x) = dev \<and> b_blockno (buf_at s x) = a"
    by (rule bread_spec [OF inv dev, of a]) (use room(1) in auto)
  let ?s1 = "put_buf x X s"
  have at1: "buf_at ?s1 i = (if i = x then X else buf_at s i)" for i using x(2) len by (simp add: buf_at_put)
  have pins1: "b_dev (buf_at ?s1 i) = b_dev (buf_at s i) \<and> b_blockno (buf_at ?s1 i) = b_blockno (buf_at s i)" if "i \<in> P" for i
    using that x(4,5,8) by (auto simp: at1)
  have room2: "card ({x} \<union> P) < NBUF \<or> (\<exists>i<NBUF. b_dev (buf_at ?s1 i) = dev \<and> b_blockno (buf_at ?s1 i) = c)"
    using room(2)
  proof
    assume r: "card P < NBUF - 1"
    have "card ({x} \<union> P) \<le> Suc (card P)" using fin by (simp add: card_insert_le_m1 card_insert_if)
    then show ?thesis using r by linarith
  next
    assume "\<exists>i \<in> P. b_dev (buf_at s i) = dev \<and> b_blockno (buf_at s i) = c"
    then show ?thesis using pins1 bc_inv_len(4) [OF inv] by (metis atLeastLessThan_iff subsetD)
  qed
  obtain y Y where y: "bread dev c ?s1 = Done y (put_buf y Y ?s1)" "y < NBUF" "y \<notin> insert x {}"
    "bc_inv (insert y (insert x {})) P (put_buf y Y ?s1)"
    "b_dev Y = dev" "b_blockno Y = c" "b_data Y = content ?s1 dev c"
    "\<And>d n. d \<noteq> 0 \<Longrightarrow> content (put_buf y Y ?s1) d n = content ?s1 d n"
    "y \<in> P \<Longrightarrow> b_dev (buf_at ?s1 y) = dev \<and> b_blockno (buf_at ?s1 y) = c"
    by (rule bread_spec [OF x(3) dev, of c]) (use room2 x(4,5) ne in \<open>auto simp: at1\<close>)
  let ?s2 = "put_buf y Y ?s1"
  have at2: "buf_at ?s2 i = (if i = y then Y else buf_at ?s1 i)" for i using y(2) len by (simp add: buf_at_put)
  have pins2: "b_dev (buf_at ?s2 i) = b_dev (buf_at s i) \<and> b_blockno (buf_at ?s2 i) = b_blockno (buf_at s i)" if "i \<in> P" for i
    using that pins1 [OF that] y(5,6,9) by (auto simp: at2)
  have sets: "insert y {x} = {x, y}" by blast
  show thesis
    by (rule ok [OF x(1) y(1) _ io_frame_put io_frame_trans [OF io_frame_put io_frame_put] y(4) [unfolded sets] _ _ _ _ _ _ _ _ _ pins2])
      (use x y dev in \<open>simp_all add: at2 at1\<close>)
qed

text \<open>Storing a block through a held buffer.\<close>

lemma write_held:
  fixes s :: "'a log_state_scheme"
  assumes inv: "bc_inv H P s" and z: "z \<in> H"
  obtains (ok) t where "bwrite z (set_buf z (b_data_update f) s) = Done () t" "bc_inv H P t" "io_frame s t"
    "disk t = disk_put (b_dev (buf_at s z), b_blockno (buf_at s z), f (b_data (buf_at s z))) (disk s)"
    "disk_writes t = disk_writes s @ [(b_dev (buf_at s z), b_blockno (buf_at s z), f (b_data (buf_at s z)))]"
    "\<And>d n. d \<noteq> 0 \<Longrightarrow> content t d n = disk_put (b_dev (buf_at s z), b_blockno (buf_at s z), f (b_data (buf_at s z))) (content s) d n"
    "\<And>i. i \<noteq> z \<Longrightarrow> buf_at t i = buf_at s i" "b_data (buf_at t z) = f (b_data (buf_at s z))"
    "\<And>i. b_dev (buf_at t i) = b_dev (buf_at s i) \<and> b_blockno (buf_at t i) = b_blockno (buf_at s i)"
proof -
  have lt: "z < length (bufs s)" using z bc_inv_len(1,3) [OF inv] by auto
  let ?s = "put_buf z ((buf_at s z)\<lparr>b_data := f (b_data (buf_at s z))\<rparr>) s"
  have e: "set_buf z (b_data_update f) s = ?s"
    by (cases "buf_at s z") (simp add: set_buf_put)
  note m = modify_spec [OF inv z, where blk = "f (b_data (buf_at s z))"]
  note w = bwrite_spec [OF m(1) z]
  have at: "buf_at ?s i = (if i = z then (buf_at s z)\<lparr>b_data := f (b_data (buf_at s z))\<rparr> else buf_at s i)" for i
    using lt by (simp add: buf_at_put)
  let ?t = "?s\<lparr>disk := (disk ?s)(b_dev (buf_at ?s z) := (disk ?s (b_dev (buf_at ?s z)))(b_blockno (buf_at ?s z) := b_data (buf_at ?s z))),
    disk_writes := disk_writes ?s @ [(b_dev (buf_at ?s z), b_blockno (buf_at ?s z), b_data (buf_at ?s z))]\<rparr>"
  have run: "bwrite z (set_buf z (b_data_update f) s) = Done () ?t" unfolding e by (rule w(1))
  show thesis
  proof (rule ok [OF run w(2)])
    show "io_frame s ?t" by (rule io_frame_trans [OF io_frame_put io_frame_disk])
  qed (use w(3) m(2) in \<open>simp_all add: at disk_put_def fun_upd_def\<close>)
qed

lemma release_two:
  fixes s :: "'a log_state_scheme"
  assumes inv: "bc_inv {x, y} P s" and ne: "x \<noteq> y" and run: "running s"
    and clean: "x \<in> P \<or> b_data (buf_at s x) = disk s (b_dev (buf_at s x)) (b_blockno (buf_at s x))"
      "y \<in> P \<or> b_data (buf_at s y) = disk s (b_dev (buf_at s y)) (b_blockno (buf_at s y))"
  obtains (ok) t where "obind (brelse x s) (\<lambda>_ s. brelse y s) = Done () t" "bc_inv {} P t" "io_frame s t" "disk t = disk s"
    "disk_writes t = disk_writes s" "\<And>d n. d \<noteq> 0 \<Longrightarrow> content t d n = content s d n"
    "\<And>i. b_dev (buf_at t i) = b_dev (buf_at s i) \<and> b_blockno (buf_at t i) = b_blockno (buf_at s i)"
proof -
  have xy: "{x, y} - {x} = {y}" "{y} - {y} = {}" using ne by auto
  obtain u where u: "brelse x s = Done () u" "bc_inv {y} P u" "io_frame s u" "disk u = disk s" "disk_writes u = disk_writes s"
    "\<And>d n. d \<noteq> 0 \<Longrightarrow> content u d n = content s d n" "\<And>i. i \<noteq> x \<Longrightarrow> buf_at u i = buf_at s i"
    "b_dev (buf_at u x) = b_dev (buf_at s x)" "b_blockno (buf_at u x) = b_blockno (buf_at s x)"
    by (rule brelse_spec [OF inv _ run clean(1)]) (simp_all add: xy)
  have run': "running u" using run io_frame_running [OF u(3)] by simp
  have cl: "y \<in> P \<or> b_data (buf_at u y) = disk u (b_dev (buf_at u y)) (b_blockno (buf_at u y))"
    using clean(2) u(4) u(7) [of y] ne by simp
  obtain t where t: "brelse y u = Done () t" "bc_inv {} P t" "io_frame u t" "disk t = disk u" "disk_writes t = disk_writes u"
    "\<And>d n. d \<noteq> 0 \<Longrightarrow> content t d n = content u d n" "\<And>i. i \<noteq> y \<Longrightarrow> buf_at t i = buf_at u i"
    "b_dev (buf_at t y) = b_dev (buf_at u y)" "b_blockno (buf_at t y) = b_blockno (buf_at u y)"
    by (rule brelse_spec [OF u(2) singletonI run' cl, unfolded xy]) (rule that)
  have same: "b_dev (buf_at t i) = b_dev (buf_at s i) \<and> b_blockno (buf_at t i) = b_blockno (buf_at s i)" for i
    using t(7-9) u(7-9) by (cases "i = x"; cases "i = y") simp_all
  show thesis by (rule ok [of t]) (use t u same io_frame_trans [OF u(3) t(3)] in simp_all)
qed

text \<open>The position of the log on the disk: \<open>log_blk s i\<close> is the block for the \<open>i\<close>-th logged block.\<close>

abbreviation log_blk :: "'a log_state_scheme \<Rightarrow> nat \<Rightarrow> u32" where
  "log_blk s i \<equiv> log_start s + of_nat i + 1"

lemma write_log_block_spec:
  fixes s :: "'a log_state_scheme"
  assumes inv: "bc_inv {} P s" and dev: "log_dev s \<noteq> 0" and run: "running s" and room: "card P < NBUF"
    and pinned: "p \<in> P" "b_dev (buf_at s p) = log_dev s" "b_blockno (buf_at s p) = lh_block s i"
    and ne: "log_blk s i \<noteq> lh_block s i"
  obtains (ok) t where "write_log_block i s = Done () t"
    "wrote [(log_dev s, log_blk s i, content s (log_dev s) (lh_block s i))] P s t"
proof -
  have room2: "card P < NBUF - 1 \<or> (\<exists>p \<in> P. b_dev (buf_at s p) = log_dev s \<and> b_blockno (buf_at s p) = lh_block s i)"
    using pinned by blast
  obtain x y s1 s2 where b: "bread (log_dev s) (log_blk s i) s = Done x s1" "bread (log_dev s) (lh_block s i) s1 = Done y s2"
    "x \<noteq> y" "io_frame s s1" "io_frame s s2"
    "bc_inv {x, y} P s2" "disk s2 = disk s" "disk_writes s2 = disk_writes s" "\<And>d n. d \<noteq> 0 \<Longrightarrow> content s2 d n = content s d n"
    "b_dev (buf_at s2 x) = log_dev s" "b_blockno (buf_at s2 x) = log_blk s i" "b_data (buf_at s2 x) = content s (log_dev s) (log_blk s i)"
    "b_dev (buf_at s2 y) = log_dev s" "b_blockno (buf_at s2 y) = lh_block s i" "b_data (buf_at s2 y) = content s (log_dev s) (lh_block s i)"
    "\<And>i. i \<in> P \<Longrightarrow> b_dev (buf_at s2 i) = b_dev (buf_at s i) \<and> b_blockno (buf_at s2 i) = b_blockno (buf_at s i)"
    by (rule bread2 [OF inv dev ne room(1) room2]) (rule that)
  have lf: "log_dev s1 = log_dev s" "lh_block s1 = lh_block s" using io_frame_log [OF b(4)] by simp_all
  have run2: "running s2" using run io_frame_running [OF b(5)] by simp
  let ?blk = "content s (log_dev s) (lh_block s i)"
  have yP: "y \<in> P"
  proof (rule ccontr)
    assume "y \<notin> P"
    then have "p \<noteq> y" using pinned(1) by blast
    have "p < NBUF" "y < NBUF" using pinned(1) bc_inv_len(3,4) [OF b(6)] by auto
    then show False using bc_invD(6) [OF b(6) \<open>y < NBUF\<close> \<open>p < NBUF\<close> \<open>p \<noteq> y\<close>] b(13,14) b(16) [OF pinned(1)] pinned dev by simp
  qed
  obtain s4 where w: "bwrite x (set_buf x (b_data_update (\<lambda>_. ?blk)) s2) = Done () s4" "bc_inv {x, y} P s4" "io_frame s2 s4"
    "disk s4 = disk_put (log_dev s, log_blk s i, ?blk) (disk s2)"
    "disk_writes s4 = disk_writes s2 @ [(log_dev s, log_blk s i, ?blk)]"
    "\<And>d n. d \<noteq> 0 \<Longrightarrow> content s4 d n = disk_put (log_dev s, log_blk s i, ?blk) (content s2) d n"
    "\<And>i. i \<noteq> x \<Longrightarrow> buf_at s4 i = buf_at s2 i" "b_data (buf_at s4 x) = ?blk"
    "\<And>i. b_dev (buf_at s4 i) = b_dev (buf_at s2 i) \<and> b_blockno (buf_at s4 i) = b_blockno (buf_at s2 i)"
    by (rule write_held [OF b(6), of x "\<lambda>_. ?blk"]) (use b(10,11) in simp_all)
  have run4: "running s4" using run2 io_frame_running [OF w(3)] by simp
  have inv4: "bc_inv {y, x} P s4" using w(2) by (simp add: insert_commute)
  obtain t where t: "obind (brelse y s4) (\<lambda>_ s. brelse x s) = Done () t" "bc_inv {} P t" "io_frame s4 t" "disk t = disk s4"
    "disk_writes t = disk_writes s4" "\<And>d n. d \<noteq> 0 \<Longrightarrow> content t d n = content s4 d n"
    "\<And>i. b_dev (buf_at t i) = b_dev (buf_at s4 i) \<and> b_blockno (buf_at t i) = b_blockno (buf_at s4 i)"
    by (rule release_two [OF inv4 _ run4]) (use b(3,10,11) w(4,8,9) yP in \<open>auto simp: disk_put_def\<close>)
  have "write_log_block i s = Done () t"
    using t(1) by (simp add: write_log_block_def b(1,2,15) lf w(1))
  moreover have "wrote [(log_dev s, log_blk s i, ?blk)] P s t"
    unfolding wrote_def
  proof (intro conjI allI impI ballI)
    show "io_frame s t" by (rule io_frame_trans [OF b(5) io_frame_trans [OF w(3) t(3)]])
    show "content t d n = apply_writes [(log_dev s, log_blk s i, ?blk)] (content s) d n" if "d \<noteq> 0" for d n
      using t(6) w(6) b(9) that by (simp add: disk_put_def)
  qed (use t w b in simp_all)
  ultimately show thesis by (rule ok)
qed

lemma kprintf_out: "\<exists>out b. kprintf fmt ap s = s\<lparr>uart_out := out, uart_idle := b\<rparr>"
proof (cases "printf (bytes_of fmt) ap")
  case None
  then show ?thesis by (intro exI [of _ "uart_out s"] exI [of _ "uart_idle s"]) (simp add: kprintf_def)
next
  case (Some cs)
  then show ?thesis using fold_consputc [of cs s] by (auto simp: kprintf_def)
qed

lemma wrote_out:
  assumes "wrote W P' (s\<lparr>uart_out := out, uart_idle := b\<rparr>) t"
  shows "wrote W P' s t"
proof -
  have "content (s\<lparr>uart_out := out, uart_idle := b\<rparr>) = content s" by (rule content_cong) simp_all
  then show ?thesis using assms io_frame_trans [OF io_frame_out [where s = s and out = out and b = b], of t] by (simp add: wrote_def)
qed

lemma bc_inv_out [simp]: "bc_inv H P (s\<lparr>uart_out := out, uart_idle := b\<rparr>) = bc_inv H P s"
  by (simp add: bc_inv_def buf_inv_def holdingsleep_iff Let_def myproc_def mycpu_def cpuid_def)

lemma running_out [simp]: "running (s\<lparr>uart_out := out, uart_idle := b\<rparr>) = running s"
  by (simp add: running_def myproc_def mycpu_def cpuid_def)

lemma content_out [simp]: "content (s\<lparr>uart_out := out, uart_idle := b\<rparr>) = content s"
  by (rule content_cong) simp_all

text \<open>Installing one block from the log; when a transaction commits its home buffer \<open>p\<close> is unpinned.\<close>

lemma install_block_quiet:
  fixes s :: "'a log_state_scheme"
  assumes inv: "bc_inv {} P s" and dev: "log_dev s \<noteq> 0" and run: "running s"
    and room: "card P < NBUF" "card P < NBUF - 1 \<or> (\<exists>p \<in> P. b_dev (buf_at s p) = log_dev s \<and> b_blockno (buf_at s p) = lh_block s i)"
    and unpinned: "\<And>q. q \<in> P \<Longrightarrow> \<not> (b_dev (buf_at s q) = log_dev s \<and> b_blockno (buf_at s q) = log_blk s i)"
    and home: "\<And>q. q \<in> P \<Longrightarrow> b_dev (buf_at s q) = log_dev s \<and> b_blockno (buf_at s q) = lh_block s i \<Longrightarrow> \<not> recov"
    and ne: "log_blk s i \<noteq> lh_block s i" and nrec: "\<not> recov \<Longrightarrow> p \<in> P \<and> b_dev (buf_at s p) = log_dev s \<and> b_blockno (buf_at s p) = lh_block s i"
  obtains (ok) t where
    "obind (bread (log_dev s) (log_blk s i) s) (\<lambda>lbuf s. obind (bread (log_dev s) (lh_block s i) s) (\<lambda>dbuf s.
       let s = set_buf dbuf (b_data_update (\<lambda>_. b_data (buf_at s lbuf))) s in
       obind (bwrite dbuf s) (\<lambda>_ s. let s = (if recov then s else bunpin dbuf s) in
       obind (brelse lbuf s) (\<lambda>_ s. brelse dbuf s)))) = Done () t"
    "wrote [(log_dev s, lh_block s i, content s (log_dev s) (log_blk s i))] (if recov then P else P - {p}) s t"
proof -
  obtain x y s1 s2 where b: "bread (log_dev s) (log_blk s i) s = Done x s1" "bread (log_dev s) (lh_block s i) s1 = Done y s2"
    "x \<noteq> y" "io_frame s s1" "io_frame s s2"
    "bc_inv {x, y} P s2" "disk s2 = disk s" "disk_writes s2 = disk_writes s" "\<And>d n. d \<noteq> 0 \<Longrightarrow> content s2 d n = content s d n"
    "b_dev (buf_at s2 x) = log_dev s" "b_blockno (buf_at s2 x) = log_blk s i" "b_data (buf_at s2 x) = content s (log_dev s) (log_blk s i)"
    "b_dev (buf_at s2 y) = log_dev s" "b_blockno (buf_at s2 y) = lh_block s i" "b_data (buf_at s2 y) = content s (log_dev s) (lh_block s i)"
    "\<And>i. i \<in> P \<Longrightarrow> b_dev (buf_at s2 i) = b_dev (buf_at s i) \<and> b_blockno (buf_at s2 i) = b_blockno (buf_at s i)"
    by (rule bread2 [OF inv dev ne room]) (rule that)
  have lf: "log_dev s1 = log_dev s" "lh_block s1 = lh_block s" using io_frame_log [OF b(4)] by simp_all
  have run2: "running s2" using run io_frame_running [OF b(5)] by simp
  let ?blk = "content s (log_dev s) (log_blk s i)"
  let ?P = "if recov then P else P - {p}"
  have yp: "y \<notin> P" if "recov" using home [of y] b(13,14) b(16) [of y] that by auto
  have yp': "y = p" if r: "\<not> recov"
  proof (rule ccontr)
    assume "y \<noteq> p"
    have "p < NBUF" "y < NBUF" using nrec [OF r] bc_inv_len(3,4) [OF b(6)] by auto
    then show False using bc_invD(6) [OF b(6) \<open>y < NBUF\<close> \<open>p < NBUF\<close>] \<open>y \<noteq> p\<close> b(13,14) b(16) [of p] nrec [OF r] dev by simp
  qed
  have xP: "x \<notin> P" using unpinned [of x] b(10,11) b(16) [of x] by auto
  have xclean: "?blk = disk s (log_dev s) (log_blk s i)" by (rule content_unpinned [OF inv dev unpinned])
  obtain s4 where w: "bwrite y (set_buf y (b_data_update (\<lambda>_. ?blk)) s2) = Done () s4" "bc_inv {x, y} P s4" "io_frame s2 s4"
    "disk s4 = disk_put (log_dev s, lh_block s i, ?blk) (disk s2)"
    "disk_writes s4 = disk_writes s2 @ [(log_dev s, lh_block s i, ?blk)]"
    "\<And>d n. d \<noteq> 0 \<Longrightarrow> content s4 d n = disk_put (log_dev s, lh_block s i, ?blk) (content s2) d n"
    "\<And>i. i \<noteq> y \<Longrightarrow> buf_at s4 i = buf_at s2 i" "b_data (buf_at s4 y) = ?blk"
    "\<And>i. b_dev (buf_at s4 i) = b_dev (buf_at s2 i) \<and> b_blockno (buf_at s4 i) = b_blockno (buf_at s2 i)"
    by (rule write_held [OF b(6), of y "\<lambda>_. ?blk"]) (use b(13,14) in simp_all)
  let ?s5 = "if recov then s4 else bunpin y s4"
  have yl: "y < length (bufs s4)" using bc_inv_len(1,3) [OF w(2)] by auto
  have s5: "bc_inv {x, y} ?P ?s5" "io_frame s4 ?s5" "disk ?s5 = disk s4" "disk_writes ?s5 = disk_writes s4"
    "\<And>d n. d \<noteq> 0 \<Longrightarrow> content ?s5 d n = content s4 d n"
    "\<And>i. b_data (buf_at ?s5 i) = b_data (buf_at s4 i) \<and> b_dev (buf_at ?s5 i) = b_dev (buf_at s4 i) \<and> b_blockno (buf_at ?s5 i) = b_blockno (buf_at s4 i)"
    using w(2) bunpin_spec [OF w(2), of y] yp' nrec io_frame_refl io_frame_put yl
    by (auto simp: bunpin_def set_buf_put buf_at_put)
  have run5: "running ?s5" using run2 io_frame_running [OF w(3)] io_frame_running [OF s5(2)] by simp
  have cl: "x \<in> ?P \<or> b_data (buf_at ?s5 x) = disk ?s5 (b_dev (buf_at ?s5 x)) (b_blockno (buf_at ?s5 x))"
    using s5(3) s5(6) [of x] w(4) w(7) [OF b(3)] b(7,10,11,12) xclean ne by (simp add: disk_put_def)
  have cl': "y \<in> ?P \<or> b_data (buf_at ?s5 y) = disk ?s5 (b_dev (buf_at ?s5 y)) (b_blockno (buf_at ?s5 y))"
    using s5(3) s5(6) [of y] w(4,8) w(9) [of y] b(13,14) by (simp add: disk_put_def)
  obtain t where t: "obind (brelse x ?s5) (\<lambda>_ s. brelse y s) = Done () t" "bc_inv {} ?P t" "io_frame ?s5 t" "disk t = disk ?s5"
    "disk_writes t = disk_writes ?s5" "\<And>d n. d \<noteq> 0 \<Longrightarrow> content t d n = content ?s5 d n"
    "\<And>i. b_dev (buf_at t i) = b_dev (buf_at ?s5 i) \<and> b_blockno (buf_at t i) = b_blockno (buf_at ?s5 i)"
    by (rule release_two [OF s5(1) b(3) run5 cl cl']) (rule that)
  show thesis
  proof (rule ok [of t])
    show "wrote [(log_dev s, lh_block s i, ?blk)] ?P s t"
      unfolding wrote_def
    proof (intro conjI allI impI ballI)
      show "io_frame s t" by (rule io_frame_trans [OF b(5) io_frame_trans [OF w(3) io_frame_trans [OF s5(2) t(3)]]])
      show "content t d n = apply_writes [(log_dev s, lh_block s i, ?blk)] (content s) d n" if "d \<noteq> 0" for d n
        using t(6) s5(5) w(6) b(9) that by (simp add: disk_put_def)
      fix j assume "j \<in> ?P"
      then have "j \<in> P" by (auto split: if_splits)
      then show "b_dev (buf_at t j) = b_dev (buf_at s j)" "b_blockno (buf_at t j) = b_blockno (buf_at s j)"
        using t(7) [of j] s5(6) [of j] w(9) [of j] b(16) [of j] by simp_all
    qed (use t s5(3,4) w(4,5) b(7,8) in simp_all)
  qed (use t(1) in \<open>simp add: b(1,2,12) lf w(1) Let_def\<close>)
qed

lemma install_commit_spec:
  fixes s :: "'a log_state_scheme"
  assumes "bc_inv {} P s" "log_dev s \<noteq> 0" "running s" "card P < NBUF"
    and "\<And>q. q \<in> P \<Longrightarrow> \<not> (b_dev (buf_at s q) = log_dev s \<and> b_blockno (buf_at s q) = log_blk s i)"
    and "log_blk s i \<noteq> lh_block s i" "p \<in> P" "b_dev (buf_at s p) = log_dev s" "b_blockno (buf_at s p) = lh_block s i"
  obtains (ok) t where "install_block False i s = Done () t"
    "wrote [(log_dev s, lh_block s i, content s (log_dev s) (log_blk s i))] (P - {p}) s t"
proof -
  have r: "card P < NBUF - 1 \<or> (\<exists>p \<in> P. b_dev (buf_at s p) = log_dev s \<and> b_blockno (buf_at s p) = lh_block s i)"
    using assms(7-9) by blast
  show thesis
  proof (rule install_block_quiet [where recov = False and p = p, OF assms(1-4) r], goal_cases)
    case (5 t)
    then show ?case by (intro ok [of t]) (simp_all add: install_block_def)
  qed (use assms in auto)
qed

lemma install_recover_spec:
  fixes s :: "'a log_state_scheme"
  assumes "bc_inv {} {} s" "log_dev s \<noteq> 0" "running s" and ne: "log_blk s i \<noteq> lh_block s i"
  obtains (ok) t where "install_block True i s = Done () t"
    "wrote [(log_dev s, lh_block s i, content s (log_dev s) (log_blk s i))] {} s t"
proof -
  obtain out b where o: "kprintf ''recovering tail %d dst %d\<newline>'' [VNum (of_nat i), VNum (ucast (lh_block s i))] s =
      s\<lparr>uart_out := out, uart_idle := b\<rparr>" using kprintf_out by blast
  let ?s = "s\<lparr>uart_out := out, uart_idle := b\<rparr>"
  have p: "bc_inv {} {} ?s" "log_dev ?s \<noteq> 0" "running ?s" "log_blk ?s i \<noteq> lh_block ?s i" using assms by simp_all
  show thesis
  proof (rule install_block_quiet [where recov = True and p = 0 and i = i, OF p(1-3)], goal_cases)
    case (7 t)
    have w: "wrote [(log_dev ?s, lh_block ?s i, content ?s (log_dev ?s) (log_blk ?s i))] {} ?s t" using 7(2) by simp
    have "install_block True i s = Done () t" using 7(1) unfolding install_block_def if_True o Let_def by simp
    moreover have "wrote [(log_dev s, lh_block s i, content s (log_dev s) (log_blk s i))] {} s t"
      using wrote_out [OF w] by simp
    ultimately show ?case by (rule ok)
  qed (use p(4) in auto)
qed

section \<open>The header\<close>

lemma fold_st32_other: "k \<notin> set ks \<Longrightarrow> ld32 (fold (\<lambda>i b. st32 b (Suc i) (blks i)) ks b) (Suc k) = ld32 b (Suc k)"
  by (induction ks arbitrary: b) (auto simp: ld32_st32)

lemma head_block_block: "i < nat n \<Longrightarrow> ld32 (head_block n blks old) (Suc i) = blks i"
proof -
  have "distinct ks \<Longrightarrow> i \<in> set ks \<Longrightarrow> ld32 (fold (\<lambda>i b. st32 b (Suc i) (blks i)) ks b) (Suc i) = blks i" for ks b
    by (induction ks arbitrary: b) (auto simp: ld32_st32 fold_st32_other)
  then show "i < nat n \<Longrightarrow> ld32 (head_block n blks old) (Suc i) = blks i" by (simp add: head_block_def)
qed

lemma head_block_n: "ld32 (head_block n blks old) 0 = word_of_int n"
proof -
  have "ld32 (fold (\<lambda>i b. st32 b (Suc i) (blks i)) ks b) 0 = ld32 b 0" for ks b
    by (induction ks arbitrary: b) (simp_all add: ld32_st32)
  then show ?thesis by (simp add: head_block_def ld32_st32)
qed

text \<open>One block at a time: read it, maybe change and write it, release it.\<close>

lemma bread1:
  fixes s :: "'a log_state_scheme"
  assumes inv: "bc_inv {} P s" and dev: "dev \<noteq> 0" and room: "card P < NBUF"
    and unpinned: "\<And>q. q \<in> P \<Longrightarrow> \<not> (b_dev (buf_at s q) = dev \<and> b_blockno (buf_at s q) = a)"
  obtains (ok) x B where "bread dev a s = Done x (put_buf x B s)" "bc_inv {x} P (put_buf x B s)" "x < NBUF" "x \<notin> P"
    "b_dev B = dev" "b_blockno B = a" "b_data B = content s dev a" "content s dev a = disk s dev a"
    "\<And>d n. d \<noteq> 0 \<Longrightarrow> content (put_buf x B s) d n = content s d n"
proof -
  have "card ({} \<union> P) < NBUF \<or> (\<exists>i<NBUF. b_dev (buf_at s i) = dev \<and> b_blockno (buf_at s i) = a)" using room by simp
  then obtain x B where x: "bread dev a s = Done x (put_buf x B s)" "x < NBUF" "bc_inv (insert x {}) P (put_buf x B s)"
    "b_dev B = dev" "b_blockno B = a" "b_data B = content s dev a"
    "\<And>d n. d \<noteq> 0 \<Longrightarrow> content (put_buf x B s) d n = content s d n"
    "x \<in> P \<Longrightarrow> b_dev (buf_at s x) = dev \<and> b_blockno (buf_at s x) = a"
    by (rule bread_spec [OF inv dev, of a]) auto
  have "x \<notin> P" using x(8) unpinned by blast
  then show thesis using x content_unpinned [OF inv dev unpinned] by (intro ok [of x B]) simp_all
qed

lemma write_head_spec:
  fixes s :: "'a log_state_scheme"
  assumes inv: "bc_inv {} P s" and dev: "log_dev s \<noteq> 0" and room: "card P < NBUF" and run: "running s"
    and unpinned: "\<And>q. q \<in> P \<Longrightarrow> \<not> (b_dev (buf_at s q) = log_dev s \<and> b_blockno (buf_at s q) = log_start s)"
  obtains (ok) t where "write_head s = Done () t"
    "wrote [(log_dev s, log_start s, head_block (lh_n s) (lh_block s) (content s (log_dev s) (log_start s)))] P s t"
proof -
  obtain x B where b: "bread (log_dev s) (log_start s) s = Done x (put_buf x B s)" "bc_inv {x} P (put_buf x B s)" "x < NBUF" "x \<notin> P"
    "b_dev B = log_dev s" "b_blockno B = log_start s" "b_data B = content s (log_dev s) (log_start s)"
    "content s (log_dev s) (log_start s) = disk s (log_dev s) (log_start s)"
    "\<And>d n. d \<noteq> 0 \<Longrightarrow> content (put_buf x B s) d n = content s d n"
    by (rule bread1 [OF inv dev room], erule unpinned, rule that)
  let ?s = "put_buf x B s" and ?f = "head_block (lh_n s) (lh_block s)"
  have at: "buf_at ?s i = (if i = x then B else buf_at s i)" for i
    using b(3) bc_inv_len(1) [OF inv] by (simp add: buf_at_put)
  obtain u where w: "bwrite x (set_buf x (b_data_update ?f) ?s) = Done () u" "bc_inv {x} P u" "io_frame ?s u"
    "disk u = disk_put (b_dev (buf_at ?s x), b_blockno (buf_at ?s x), ?f (b_data (buf_at ?s x))) (disk ?s)"
    "disk_writes u = disk_writes ?s @ [(b_dev (buf_at ?s x), b_blockno (buf_at ?s x), ?f (b_data (buf_at ?s x)))]"
    "\<And>d n. d \<noteq> 0 \<Longrightarrow> content u d n = disk_put (b_dev (buf_at ?s x), b_blockno (buf_at ?s x), ?f (b_data (buf_at ?s x))) (content ?s) d n"
    "\<And>i. i \<noteq> x \<Longrightarrow> buf_at u i = buf_at ?s i" "b_data (buf_at u x) = ?f (b_data (buf_at ?s x))"
    "\<And>i. b_dev (buf_at u i) = b_dev (buf_at ?s i) \<and> b_blockno (buf_at u i) = b_blockno (buf_at ?s i)"
    by (rule write_held [OF b(2), of x ?f]) (use that in auto)
  have run': "running u" using run io_frame_running [OF w(3)] by simp
  have cl: "x \<in> P \<or> b_data (buf_at u x) = disk u (b_dev (buf_at u x)) (b_blockno (buf_at u x))"
    using w(4,8) w(9) [of x] by (simp add: disk_put_def)
  obtain t where t: "brelse x u = Done () t" "bc_inv ({x} - {x}) P t" "io_frame u t" "disk t = disk u" "disk_writes t = disk_writes u"
    "\<And>d n. d \<noteq> 0 \<Longrightarrow> content t d n = content u d n" "\<And>i. i \<noteq> x \<Longrightarrow> buf_at t i = buf_at u i"
    "b_dev (buf_at t x) = b_dev (buf_at u x)" "b_blockno (buf_at t x) = b_blockno (buf_at u x)"
    by (rule brelse_spec [OF w(2) singletonI run' cl]) (rule that)
  show thesis
  proof (rule ok [of t])
    show "write_head s = Done () t" by (simp add: write_head_def b(1) w(1) t(1) Let_def)
    show "wrote [(log_dev s, log_start s, ?f (content s (log_dev s) (log_start s)))] P s t"
      unfolding wrote_def
    proof (intro conjI allI impI ballI)
      show "io_frame s t" by (rule io_frame_trans [OF io_frame_put io_frame_trans [OF w(3) t(3)]])
      show "content t d n = apply_writes [(log_dev s, log_start s, ?f (content s (log_dev s) (log_start s)))] (content s) d n"
        if "d \<noteq> 0" for d n using t(6) w(6) b(5,6,7,9) that by (simp add: disk_put_def at)
      fix j assume "j \<in> P"
      then have "j \<noteq> x" using b(4) by blast
      then show "b_dev (buf_at t j) = b_dev (buf_at s j)" "b_blockno (buf_at t j) = b_blockno (buf_at s j)"
        using t(7) w(7) by (simp_all add: at)
    qed (use t w(4,5) b(5,6,7) in \<open>simp_all add: at\<close>)
  qed
qed

lemma bc_inv_lh [simp]: "bc_inv H P (s\<lparr>lh_n := n, lh_block := f\<rparr>) = bc_inv H P s" "bc_inv H P (s\<lparr>lh_n := n\<rparr>) = bc_inv H P s"
  by (simp_all add: bc_inv_def buf_inv_def holdingsleep_iff Let_def myproc_def mycpu_def cpuid_def)

lemma content_lh [simp]: "content (s\<lparr>lh_n := n, lh_block := f\<rparr>) = content s" "content (s\<lparr>lh_n := n\<rparr>) = content s"
  by (rule content_cong; simp)+

lemma running_lh [simp]: "running (s\<lparr>lh_n := n, lh_block := f\<rparr>) = running s" "running (s\<lparr>lh_n := n\<rparr>) = running s"
  by (simp_all add: running_def myproc_def mycpu_def cpuid_def)

lemma read_head_spec:
  fixes s :: "'a log_state_scheme"
  assumes inv: "bc_inv {} {} s" and dev: "log_dev s \<noteq> 0" and run: "running s"
  defines "hd' \<equiv> content s (log_dev s) (log_start s)"
  defines "s' \<equiv> s\<lparr>lh_n := sint (ld32 hd' 0), lh_block := (\<lambda>i. if i < nat (sint (ld32 hd' 0)) then ld32 hd' (Suc i) else lh_block s i)\<rparr>"
  obtains (ok) t where "read_head s = Done () t" "wrote [] {} s' t"
proof -
  obtain x B where b: "bread (log_dev s) (log_start s) s = Done x (put_buf x B s)" "bc_inv {x} {} (put_buf x B s)" "x < NBUF" "x \<notin> {}"
    "b_dev B = log_dev s" "b_blockno B = log_start s" "b_data B = content s (log_dev s) (log_start s)"
    "content s (log_dev s) (log_start s) = disk s (log_dev s) (log_start s)"
    "\<And>d n. d \<noteq> 0 \<Longrightarrow> content (put_buf x B s) d n = content s d n"
    by (rule bread1 [OF inv dev, of "log_start s"]) (use that in auto)
  let ?u = "put_buf x B s'"
  have u: "(put_buf x B s)\<lparr>lh_n := sint (ld32 hd' 0), lh_block := (\<lambda>i. if i < nat (sint (ld32 hd' 0)) then ld32 hd' (Suc i) else lh_block s i)\<rparr> = ?u"
    by (simp add: put_buf_def s'_def)
  have at: "buf_at ?u i = (if i = x then B else buf_at s i)" "buf_at (put_buf x B s) x = B" for i
    using b(3) bc_inv_len(1) [OF inv] by (simp_all add: buf_at_put s'_def)
  have iu: "bc_inv {x} {} ?u" using b(2) unfolding u [symmetric] by simp
  have cu: "content ?u d n = content s d n" if "d \<noteq> 0" for d n using b(9) [OF that] unfolding u [symmetric] by simp
  have run': "running ?u" and ds: "disk s' = disk s" using run by (simp_all add: s'_def)
  have cl: "x \<in> {} \<or> b_data (buf_at ?u x) = disk ?u (b_dev (buf_at ?u x)) (b_blockno (buf_at ?u x))"
    using b(5-8) by (simp add: at ds)
  obtain t where t: "brelse x ?u = Done () t" "bc_inv ({x} - {x}) {} t" "io_frame ?u t" "disk t = disk ?u" "disk_writes t = disk_writes ?u"
    "\<And>d n. d \<noteq> 0 \<Longrightarrow> content t d n = content ?u d n"
    by (rule brelse_spec [OF iu singletonI run' cl]) (rule that)
  show thesis
  proof (rule ok [of t])
    show "read_head s = Done () t"
      using t(1) by (simp add: read_head_def b(1) at b(7) hd'_def [symmetric] u Let_def cong: if_cong)
    have "content s' = content s" by (simp add: s'_def)
    then show "wrote [] {} s' t"
      using t cu io_frame_trans [OF io_frame_put t(3)] by (simp add: wrote_def s'_def)
  qed
qed

section \<open>The loops\<close>

lemma wrote_facts:
  assumes "wrote W P s t"
  shows "bc_inv {} P t" "lh_n t = lh_n s" "lh_block t = lh_block s" "log_dev t = log_dev s" "log_start t = log_start s"
    "running t = running s" "disk t = apply_writes W (disk s)" "disk_writes t = disk_writes s @ W"
    "d \<noteq> 0 \<Longrightarrow> content t d n = apply_writes W (content s) d n"
    "i \<in> P \<Longrightarrow> b_dev (buf_at t i) = b_dev (buf_at s i) \<and> b_blockno (buf_at t i) = b_blockno (buf_at s i)"
proof -
  have f: "io_frame s t" using assms by (simp add: wrote_def)
  show "lh_n t = lh_n s" "lh_block t = lh_block s" "log_dev t = log_dev s" "log_start t = log_start s"
    using io_frame_log [OF f] by simp_all
  show "running t = running s" by (rule io_frame_running [OF f])
qed (use assms in \<open>simp_all add: wrote_def\<close>)

lemma wrote_lh_n:
  assumes "wrote W P s t"
  shows "wrote W P (s\<lparr>lh_n := n\<rparr>) (t\<lparr>lh_n := n\<rparr>)"
proof -
  have "io_frame (s\<lparr>lh_n := n\<rparr>) (t\<lparr>lh_n := n\<rparr>)" if f: "io_frame s t"
  proof -
    obtain bs l ps d w out b where t: "t = s\<lparr>bufs := bs, lru := l, procs := ps, disk := d, disk_writes := w,
      uart_out := out, uart_idle := b\<rparr>" "same_procs s ps" using f by (auto simp: io_frame_def)
    then show ?thesis
      by (intro io_frameI [where bs = bs and l = l and ps = ps and d = d and w = w and out = out and b = b])
        (simp_all add: same_procs_def myproc_def mycpu_def cpuid_def)
  qed
  then show ?thesis using assms by (simp add: wrote_def)
qed

text \<open>
  \<open>log_layout s h n\<close>: the home blocks \<open>h\<close> of a transaction are distinct and lie outside the log area, and
  the log area does not wrap around.
\<close>

definition log_layout :: "u32 \<Rightarrow> (nat \<Rightarrow> u32) \<Rightarrow> nat \<Rightarrow> bool" where
  "log_layout start h n \<longleftrightarrow> n \<le> 30 \<and> inj_on h {..<n} \<and>
     (\<forall>i < n. h i \<noteq> start \<and> (\<forall>j < 30. h i \<noteq> start + of_nat j + 1))"

lemma log_blk_neq: "i < 30 \<Longrightarrow> j < 30 \<Longrightarrow> i \<noteq> j \<Longrightarrow> start + of_nat i + 1 \<noteq> start + of_nat j + (1 :: u32)"
proof -
  assume a: "i < 30" "j < 30" "i \<noteq> j"
  have "unat (of_nat i :: u32) = i" "unat (of_nat j :: u32) = j" using a by (simp_all add: unat_of_nat)
  then have "(of_nat i :: u32) \<noteq> of_nat j" using a(3) by metis
  then show ?thesis by simp
qed

lemma log_blk_start: "i < 30 \<Longrightarrow> start + of_nat i + 1 \<noteq> (start :: u32)"
proof
  assume a: "i < 30" "start + of_nat i + 1 = (start :: u32)"
  then have "of_nat i + 1 = (0 :: u32)" by (simp add: add.assoc)
  then have "unat (of_nat i + 1 :: u32) = 0" by (simp only: unsigned_0)
  then show False using a(1) by (simp add: unat_word_ariths unat_of_nat)
qed

lemma log_layout_ne: "log_layout start h n \<Longrightarrow> i < n \<Longrightarrow> j < 30 \<Longrightarrow> start + of_nat j + 1 \<noteq> h i"
  unfolding log_layout_def by metis

text \<open>\<open>pinned_for\<close>: each of the given home blocks is cached in a pinned buffer.\<close>

definition pinned_for :: "nat set \<Rightarrow> nat set \<Rightarrow> 'a log_state_scheme \<Rightarrow> bool" where
  "pinned_for I P s \<longleftrightarrow> (\<forall>i \<in> I. \<exists>p \<in> P. b_dev (buf_at s p) = log_dev s \<and> b_blockno (buf_at s p) = lh_block s i) \<and>
     (\<forall>p \<in> P. \<exists>i \<in> I. b_dev (buf_at s p) = log_dev s \<and> b_blockno (buf_at s p) = lh_block s i)"

lemma pinned_forD:
  assumes "pinned_for I P s"
  shows "i \<in> I \<Longrightarrow> \<exists>p \<in> P. b_dev (buf_at s p) = log_dev s \<and> b_blockno (buf_at s p) = lh_block s i"
    and "p \<in> P \<Longrightarrow> \<exists>i \<in> I. b_dev (buf_at s p) = log_dev s \<and> b_blockno (buf_at s p) = lh_block s i"
  using assms unfolding pinned_for_def by blast+

lemma pinned_for_cong:
  assumes "\<And>p. p \<in> P \<Longrightarrow> b_dev (buf_at t p) = b_dev (buf_at s p) \<and> b_blockno (buf_at t p) = b_blockno (buf_at s p)"
    "lh_block t = lh_block s" "log_dev t = log_dev s"
  shows "pinned_for I P t = pinned_for I P s"
  unfolding pinned_for_def using assms by (intro arg_cong2 [where f = conj] ball_cong bex_cong refl) simp_all

lemma pinned_for_wrote: "wrote W P s t \<Longrightarrow> pinned_for I P t = pinned_for I P s"
  by (rule pinned_for_cong) (use wrote_facts(3,4,10) [of W P s t] in simp_all)

lemma write_log_loop_spec:
  fixes s :: "'a log_state_scheme"
  assumes "bc_inv {} P s" "log_dev s \<noteq> 0" "running s" "card P < NBUF" "pinned_for {..<n} P s"
    "log_layout (log_start s) (lh_block s) n" "set ts \<subseteq> {..<n}"
  shows "\<exists>t. write_log_loop ts s = Done () t \<and>
    wrote (map (\<lambda>i. (log_dev s, log_blk s i, content s (log_dev s) (lh_block s i))) ts) P s t"
  using assms
proof (induction ts arbitrary: s)
  case Nil
  then show ?case using wrote_refl by auto
next
  case (Cons i ts)
  have i: "i < n" "i < 30" using Cons.prems(6,7) by (auto simp: log_layout_def)
  obtain p where p: "p \<in> P" "b_dev (buf_at s p) = log_dev s" "b_blockno (buf_at s p) = lh_block s i"
    using Cons.prems(5) i by (auto simp: pinned_for_def)
  have ne: "log_blk s i \<noteq> lh_block s i" by (rule log_layout_ne [OF Cons.prems(6) i])
  obtain t where t: "write_log_block i s = Done () t"
      "wrote [(log_dev s, log_blk s i, content s (log_dev s) (lh_block s i))] P s t"
    by (rule write_log_block_spec [OF Cons.prems(1-4) p ne]) (rule that)
  note f = wrote_facts [OF t(2)]
  have pf: "pinned_for {..<n} P t" using Cons.prems(5) pinned_for_wrote [OF t(2)] by simp
  have c: "content t (log_dev s) (lh_block s j) = content s (log_dev s) (lh_block s j)" if "j \<in> set ts" for j
  proof -
    have "lh_block s j \<noteq> log_blk s i" using Cons.prems(6,7) that i(2) by (auto simp: log_layout_def)
    then show ?thesis using f(9) [OF Cons.prems(2)] by (simp add: disk_put_def)
  qed
  have "\<exists>u. write_log_loop ts t = Done () u \<and>
      wrote (map (\<lambda>i. (log_dev t, log_blk t i, content t (log_dev t) (lh_block t i))) ts) P t u"
    by (rule Cons.IH) (use Cons.prems f pf in simp_all)
  then obtain u where u: "write_log_loop ts t = Done () u"
      "wrote (map (\<lambda>i. (log_dev s, log_blk s i, content s (log_dev s) (lh_block s i))) ts) P t u"
    using c f(3-5) by (auto cong: map_cong)
  show ?case using t(1) u(1) wrote_trans [OF t(2) u(2)] by auto
qed

lemma install_recover_loop:
  fixes s :: "'a log_state_scheme"
  assumes "bc_inv {} {} s" "log_dev s \<noteq> 0" "running s" "log_layout (log_start s) (lh_block s) n" "set ts \<subseteq> {..<n}"
  shows "\<exists>t. install_loop True ts s = Done () t \<and>
    wrote (map (\<lambda>i. (log_dev s, lh_block s i, content s (log_dev s) (log_blk s i))) ts) {} s t"
  using assms
proof (induction ts arbitrary: s)
  case Nil
  then show ?case using wrote_refl by auto
next
  case (Cons i ts)
  have i: "i < n" "i < 30" using Cons.prems(4,5) by (auto simp: log_layout_def)
  have ne: "log_blk s i \<noteq> lh_block s i" by (rule log_layout_ne [OF Cons.prems(4) i])
  obtain t where t: "install_block True i s = Done () t"
      "wrote [(log_dev s, lh_block s i, content s (log_dev s) (log_blk s i))] {} s t"
    by (rule install_recover_spec [OF Cons.prems(1-3) ne]) (rule that)
  note f = wrote_facts(1-9) [OF t(2)]
  have c: "content t (log_dev s) (log_blk s j) = content s (log_dev s) (log_blk s j)" if "j \<in> set ts" for j
  proof -
    have "lh_block s i \<noteq> log_blk s j" using Cons.prems(4,5) that i by (auto simp: log_layout_def)
    then show ?thesis using f(9) [OF Cons.prems(2)] by (simp add: disk_put_def)
  qed
  have "\<exists>u. install_loop True ts t = Done () u \<and>
      wrote (map (\<lambda>i. (log_dev t, lh_block t i, content t (log_dev t) (log_blk t i))) ts) {} t u"
    by (rule Cons.IH) (use Cons.prems f in simp_all)
  then obtain u where u: "install_loop True ts t = Done () u"
      "wrote (map (\<lambda>i. (log_dev s, lh_block s i, content s (log_dev s) (log_blk s i))) ts) {} t u"
    using c f(3-5) by (auto cong: map_cong)
  show ?case using t(1) u(1) wrote_trans [OF t(2) u(2)] by auto
qed

lemma install_commit_loop:
  fixes s :: "'a log_state_scheme"
  assumes "bc_inv {} P s" "log_dev s \<noteq> 0" "running s" "card P < NBUF" "log_layout (log_start s) (lh_block s) n"
    "set ts \<subseteq> {..<n}" "distinct ts" "pinned_for (set ts) P s"
  shows "\<exists>t. install_loop False ts s = Done () t \<and>
    wrote (map (\<lambda>i. (log_dev s, lh_block s i, content s (log_dev s) (log_blk s i))) ts) {} s t"
  using assms
proof (induction ts arbitrary: s P)
  case Nil
  then have "P = {}" by (auto simp: pinned_for_def)
  then show ?case using wrote_refl Nil by auto
next
  case (Cons i ts)
  have i: "i < n" "i < 30" using Cons.prems(5,6) by (auto simp: log_layout_def)
  obtain p where p: "p \<in> P" "b_dev (buf_at s p) = log_dev s" "b_blockno (buf_at s p) = lh_block s i"
    using Cons.prems(8) by (auto simp: pinned_for_def)
  have ne: "log_blk s i \<noteq> lh_block s i" by (rule log_layout_ne [OF Cons.prems(5) i])
  have nl: "\<not> (b_dev (buf_at s q) = log_dev s \<and> b_blockno (buf_at s q) = log_blk s i)" if q: "q \<in> P" for q
  proof -
    obtain j where "j \<in> set (i # ts)" "b_blockno (buf_at s q) = lh_block s j" using pinned_forD(2) [OF Cons.prems(8) q] by blast
    then show ?thesis using Cons.prems(5,6) i(2) by (auto simp: log_layout_def)
  qed
  obtain t where t: "install_block False i s = Done () t"
      "wrote [(log_dev s, lh_block s i, content s (log_dev s) (log_blk s i))] (P - {p}) s t"
    by (rule install_commit_spec [OF Cons.prems(1-4) _ ne p], erule nl) (rule that)
  note f = wrote_facts [OF t(2)]
  have pp: "p < NBUF" "q \<in> P \<Longrightarrow> q < NBUF" for q using p(1) bc_inv_len(4) [OF Cons.prems(1)] by auto
  have pf: "pinned_for (set ts) (P - {p}) t"
    unfolding pinned_for_def f(3,4)
  proof (intro conjI ballI)
    fix j assume j: "j \<in> set ts"
    then obtain q where q: "q \<in> P" "b_dev (buf_at s q) = log_dev s" "b_blockno (buf_at s q) = lh_block s j"
      using Cons.prems(8) by (auto simp: pinned_for_def)
    have "j \<noteq> i" "j < n" using j Cons.prems(6,7) by auto
    then have "lh_block s j \<noteq> lh_block s i" using Cons.prems(5) i(1) by (auto simp: log_layout_def inj_on_def)
    then have "q \<in> P - {p}" using q p by auto
    then show "\<exists>q\<in>P - {p}. b_dev (buf_at t q) = log_dev s \<and> b_blockno (buf_at t q) = lh_block s j"
      using q(2,3) f(10) [of q] by auto
  next
    fix q assume q: "q \<in> P - {p}"
    then obtain j where j: "j \<in> set (i # ts)" "b_dev (buf_at s q) = log_dev s" "b_blockno (buf_at s q) = lh_block s j"
      using Cons.prems(8) unfolding pinned_for_def by blast
    have "j \<noteq> i" using bc_invD(6) [OF Cons.prems(1) pp(1), of q] q pp(2) p j(2,3) Cons.prems(2) by auto
    then show "\<exists>j\<in>set ts. b_dev (buf_at t q) = log_dev s \<and> b_blockno (buf_at t q) = lh_block s j"
      using j f(10) [OF q] by auto
  qed
  have c: "content t (log_dev s) (log_blk s j) = content s (log_dev s) (log_blk s j)" if "j \<in> set ts" for j
  proof -
    have "lh_block s i \<noteq> log_blk s j" using Cons.prems(5,6) that i by (auto simp: log_layout_def)
    then show ?thesis using f(9) [OF Cons.prems(2)] by (simp add: disk_put_def)
  qed
  have card: "card (P - {p}) < NBUF" using Cons.prems(4) by (meson card_Diff1_le le_less_trans)
  have "\<exists>u. install_loop False ts t = Done () u \<and>
      wrote (map (\<lambda>i. (log_dev t, lh_block t i, content t (log_dev t) (log_blk t i))) ts) {} t u"
    by (rule Cons.IH [OF f(1) _ _ card _ _ _ pf]) (use Cons.prems f in simp_all)
  then obtain u where u: "install_loop False ts t = Done () u"
      "wrote (map (\<lambda>i. (log_dev s, lh_block s i, content s (log_dev s) (log_blk s i))) ts) {} t u"
    using c f(3-5) by (auto cong: map_cong)
  show ?case using t(1) u(1) wrote_trans [OF t(2) u(2)] by auto
qed

section \<open>Commit and recovery\<close>

text \<open>
  The state in which \<^verbatim>\<open>end_op\<close> calls \<^verbatim>\<open>commit\<close>: the logged blocks are exactly the pinned ones, they lie outside the
  log area, the header on disk says that the log is empty, and one buffer is not pinned.
\<close>

definition commit_ready :: "nat set \<Rightarrow> 'a log_state_scheme \<Rightarrow> bool" where
  "commit_ready P s \<longleftrightarrow> bc_inv {} P s \<and> log_dev s \<noteq> 0 \<and> running s \<and> card P < NBUF \<and> 0 \<le> lh_n s \<and> lh_n s < LOGBLOCKS \<and>
     log_layout (log_start s) (lh_block s) (nat (lh_n s)) \<and> pinned_for {..<nat (lh_n s)} P s \<and>
     ld32 (disk s (log_dev s) (log_start s)) 0 = 0"

text \<open>The writes a commit makes, in order.\<close>

definition commit_writes :: "'a log_state_scheme \<Rightarrow> (u32 \<times> u32 \<times> block) list" where
  "commit_writes s =
     (let d = log_dev s; n = nat (lh_n s); old = disk s d (log_start s); h1 = head_block (lh_n s) (lh_block s) old in
      map (\<lambda>i. (d, log_blk s i, content s d (lh_block s i))) [0..<n] @ [(d, log_start s, h1)] @
      map (\<lambda>i. (d, lh_block s i, content s d (lh_block s i))) [0..<n] @
      [(d, log_start s, head_block 0 (lh_block s) h1)])"

lemma unpinned_area:
  assumes "pinned_for I P s" "log_layout (log_start s) (lh_block s) n" "I \<subseteq> {..<n}" "q \<in> P"
  shows "b_blockno (buf_at s q) \<noteq> log_start s" "i < 30 \<Longrightarrow> b_blockno (buf_at s q) \<noteq> log_blk s i"
proof -
  obtain j where "j < n" "b_blockno (buf_at s q) = lh_block s j" using pinned_forD(2) [OF assms(1,4)] assms(3) by blast
  then show "b_blockno (buf_at s q) \<noteq> log_start s" "i < 30 \<Longrightarrow> b_blockno (buf_at s q) \<noteq> log_blk s i"
    using assms(2) log_layout_ne [OF assms(2), of j i] by (auto simp: log_layout_def)
qed

lemma commit_spec:
  fixes s :: "'a log_state_scheme"
  assumes ready: "commit_ready P s" and pos: "0 < lh_n s"
  shows "\<exists>t. commit s = Done () t \<and> wrote (commit_writes s) {} (s\<lparr>lh_n := 0\<rparr>) t"
proof -
  note r = ready [unfolded commit_ready_def]
  define d where "d = log_dev s"
  define n where "n = nat (lh_n s)"
  have inv: "bc_inv {} P s" and dev: "log_dev s \<noteq> 0" and run: "running s" and card: "card P < NBUF"
    and lay: "log_layout (log_start s) (lh_block s) n" and pf: "pinned_for {..<n} P s" using r by (simp_all add: n_def)
  have n30: "n < 30" using r unfolding n_def by linarith
  let ?C = "\<lambda>i. content s d (lh_block s i)"
  let ?W1 = "map (\<lambda>i. (d, log_blk s i, ?C i)) [0..<n]"
  have "\<exists>t. write_log_loop [0..<n] s = Done () t \<and> wrote ?W1 P s t"
    unfolding d_def by (rule write_log_loop_spec [OF inv dev run card pf lay]) auto
  then obtain s1 where s1: "write_log s = Done () s1" "wrote ?W1 P s s1" by (auto simp: write_log_def n_def)
  note f1 = wrote_facts [OF s1(2)]
  have pf1: "pinned_for {..<n} P s1" using pf pinned_for_wrote [OF s1(2)] by simp
  have lay1: "log_layout (log_start s1) (lh_block s1) n" using lay f1(3,5) by simp
  let ?h1 = "head_block (lh_n s) (lh_block s) (disk s d (log_start s))"
  have start: "(d, log_start s) \<notin> (\<lambda>(d, n, b). (d, n)) ` set ?W1"
    using log_blk_start n30 by (auto simp: image_iff)
  have up: "\<not> (b_dev (buf_at s q) = log_dev s \<and> b_blockno (buf_at s q) = log_start s)" if "q \<in> P" for q
    using unpinned_area(1) [OF pf lay _ that] by auto
  have old: "content s1 (log_dev s1) (log_start s1) = disk s d (log_start s)"
    using f1(9) [OF dev] apply_other [OF start, of "content s"] content_unpinned [OF inv dev up] f1(4,5) by (simp add: d_def)
  obtain s2 where s2: "write_head s1 = Done () s2" "wrote [(d, log_start s, ?h1)] P s1 s2"
  proof (rule write_head_spec [OF f1(1) _ card], goal_cases)
    case (3 q)
    then show ?case using unpinned_area(1) [OF pf1 lay1] by auto
  next
    case (4 t)
    then show ?case using 4(1) [of t] old f1(2-5) by (simp add: d_def)
  qed (use f1 dev run in simp_all)
  note f2 = wrote_facts [OF s2(2)]
  have pf2: "pinned_for (set [0..<n]) P s2" using pf1 pinned_for_wrote [OF s2(2)] by (simp add: atLeast0LessThan)
  have lay2: "log_layout (log_start s2) (lh_block s2) n" using lay1 f2(3,5) by simp
  have c2: "content s2 d (log_blk s i) = ?C i" if "i < n" for i
  proof -
    have "content s1 d (log_blk s i) = ?C i"
      using f1(9) [OF dev] apply_map [of i n "log_blk s" d ?C "content s"] that n30 log_blk_neq by (auto simp: d_def)
    then show ?thesis using f2(9) [OF dev, of "log_blk s i"] log_blk_start [of i "log_start s"] that n30 by (simp add: d_def disk_put_def)
  qed
  have inst: "\<exists>t. install_loop False [0..<n] s2 = Done () t \<and>
      wrote (map (\<lambda>i. (log_dev s2, lh_block s2 i, content s2 (log_dev s2) (log_blk s2 i))) [0..<n]) {} s2 t"
    by (rule install_commit_loop [OF f2(1) _ _ card lay2 _ _ pf2]) (use f1 f2 dev run in auto)
  have eq: "map (\<lambda>i. (log_dev s2, lh_block s2 i, content s2 (log_dev s2) (log_blk s2 i))) [0..<n] =
      map (\<lambda>i. (d, lh_block s i, ?C i)) [0..<n]"
    using c2 f1(3-5) f2(3-5) by (auto simp: d_def)
  obtain s3 where "install_loop False [0..<n] s2 = Done () s3"
      and w3: "wrote (map (\<lambda>i. (d, lh_block s i, ?C i)) [0..<n]) {} s2 s3"
    using inst unfolding eq by blast
  then have s3: "install_trans False s2 = Done () s3" "wrote (map (\<lambda>i. (d, lh_block s i, ?C i)) [0..<n]) {} s2 s3"
    using f1(2) f2(2) by (simp_all add: install_trans_def n_def)
  note f3 = wrote_facts(1-9) [OF s3(2)]
  let ?s3 = "s3\<lparr>lh_n := 0\<rparr>"
  have start3: "(d, log_start s) \<notin> (\<lambda>(d, n, b). (d, n)) ` set (map (\<lambda>i. (d, lh_block s i, ?C i)) [0..<n])"
    using lay by (auto simp: log_layout_def)
  have old3: "content ?s3 (log_dev ?s3) (log_start ?s3) = ?h1"
    using f3(9) [OF dev] apply_other [OF start3, of "content s2"] f2(9) [OF dev] f1(4,5) f2(4,5) f3(4,5) by (simp add: d_def disk_put_def)
  obtain s4 where s4: "write_head ?s3 = Done () s4" "wrote [(d, log_start s, head_block 0 (lh_block s) ?h1)] {} ?s3 s4"
  proof (rule write_head_spec [where s = ?s3 and P = "{}"], goal_cases)
    case (6 t)
    then show ?case using 6(1) [of t] old3 f1(3-5) f2(3-5) f3(3-5) by (simp add: d_def)
  qed (use f1 f2 f3 dev run in simp_all)
  have "commit s = Done () s4" using pos s1(1) s2(1) s3(1) s4(1) by (simp add: commit_def)
  moreover have "wrote (commit_writes s) {} (s\<lparr>lh_n := 0\<rparr>) s4"
  proof -
    have "wrote (?W1 @ [(d, log_start s, ?h1)] @ map (\<lambda>i. (d, lh_block s i, ?C i)) [0..<n]) {} s s3"
      using wrote_trans [OF s1(2) wrote_trans [OF s2(2) s3(2)]] by simp
    then have "wrote (?W1 @ [(d, log_start s, ?h1)] @ map (\<lambda>i. (d, lh_block s i, ?C i)) [0..<n]) {} (s\<lparr>lh_n := 0\<rparr>) ?s3"
      by (rule wrote_lh_n)
    from wrote_trans [OF this s4(2)] show ?thesis by (simp add: commit_writes_def d_def n_def Let_def)
  qed
  ultimately show ?thesis by blast
qed

text \<open>What recovery does to a disk with a given header.\<close>

lemma recover_spec:
  fixes r :: "'a log_state_scheme"
  assumes inv: "bc_inv {} {} r" and dev: "log_dev r \<noteq> 0" and run: "running r"
  defines "hdr \<equiv> disk r (log_dev r) (log_start r)"
  assumes n: "sint (ld32 hdr 0) = int n" and lay: "log_layout (log_start r) (\<lambda>i. ld32 hdr (Suc i)) n"
  shows "\<exists>t hd'. recover_from_log r = Done () t \<and> ld32 hd' 0 = 0 \<and>
    disk t = apply_writes (map (\<lambda>i. (log_dev r, ld32 hdr (Suc i), disk r (log_dev r) (log_blk r i))) [0..<n] @
      [(log_dev r, log_start r, hd')]) (disk r)"
proof -
  have cd: "content r (log_dev r) a = disk r (log_dev r) a" for a by (rule content_unpinned [OF inv dev]) simp
  let ?r = "r\<lparr>lh_n := int n, lh_block := (\<lambda>i. if i < n then ld32 hdr (Suc i) else lh_block r i)\<rparr>"
  obtain r1 where r1: "read_head r = Done () r1" "wrote [] {} ?r r1"
    by (rule read_head_spec [OF inv dev run, unfolded cd hdr_def [symmetric] n nat_int]) (rule that)
  note f = wrote_facts(1-9) [OF r1(2)]
  have lay1: "log_layout (log_start r1) (lh_block r1) n" using lay f(3,5) by (auto simp: log_layout_def inj_on_def)
  have "\<exists>t. install_loop True [0..<n] r1 = Done () t \<and>
      wrote (map (\<lambda>i. (log_dev r1, lh_block r1 i, content r1 (log_dev r1) (log_blk r1 i))) [0..<n]) {} r1 t"
    by (rule install_recover_loop [OF f(1) _ _ lay1]) (use f dev run in auto)
  then obtain r2 where r2: "install_loop True [0..<n] r1 = Done () r2"
      "wrote (map (\<lambda>i. (log_dev r1, lh_block r1 i, content r1 (log_dev r1) (log_blk r1 i))) [0..<n]) {} r1 r2" by blast
  note g = wrote_facts(1-9) [OF r2(2)]
  let ?r2 = "r2\<lparr>lh_n := 0\<rparr>"
  obtain t where t: "write_head ?r2 = Done () t"
      "wrote [(log_dev ?r2, log_start ?r2, head_block (lh_n ?r2) (lh_block ?r2) (content ?r2 (log_dev ?r2) (log_start ?r2)))] {} ?r2 t"
  proof (rule write_head_spec [where s = ?r2 and P = "{}"], goal_cases)
    case (6 t)
    then show ?case using 6(1) by blast
  qed (use f g dev run in simp_all)
  have "recover_from_log r = Done () t"
    using r1(1) r2(1) t(1) f(2) by (simp add: recover_from_log_def install_trans_def)
  moreover have meq: "map (\<lambda>i. (log_dev r1, lh_block r1 i, content r1 (log_dev r1) (log_blk r1 i))) [0..<n] =
      map (\<lambda>i. (log_dev r, ld32 hdr (Suc i), disk r (log_dev r) (log_blk r i))) [0..<n]"
    using f(3-5) f(9) [OF dev] by (auto simp: cd)
  have "disk t = apply_writes (map (\<lambda>i. (log_dev r, ld32 hdr (Suc i), disk r (log_dev r) (log_blk r i))) [0..<n] @
      [(log_dev r, log_start r, head_block 0 (lh_block r2) (content r2 (log_dev r2) (log_start r2)))]) (disk r)"
    using wrote_facts(7) [OF t(2)] g(4,5,7) [unfolded meq] f(4,5,7) by simp
  ultimately show ?thesis using head_block_n [of 0 "lh_block r2"] by (intro exI conjI) simp_all
qed

definition in_log :: "u32 \<Rightarrow> u32 \<Rightarrow> bool" where
  "in_log start b \<longleftrightarrow> b = start \<or> (\<exists>j < 30. b = start + of_nat j + 1)"

lemma not_in_log: "\<not> in_log start b \<Longrightarrow> b \<noteq> start" "\<not> in_log start b \<Longrightarrow> j < 30 \<Longrightarrow> b \<noteq> start + of_nat j + 1"
  by (auto simp: in_log_def)

text \<open>A machine that has just been started again with disk \<open>D\<close>: nothing is cached.\<close>

definition rebooted :: "'a log_state_scheme \<Rightarrow> disk_img \<Rightarrow> 'b log_state_scheme \<Rightarrow> bool" where
  "rebooted s D r \<longleftrightarrow> bc_inv {} {} r \<and> running r \<and> log_dev r = log_dev s \<and> log_start r = log_start s \<and> disk r = D"

text \<open>The disk at the three stages of a commit, outside the log area and at the header.\<close>

lemma commit_prefix:
  fixes s :: "'a log_state_scheme"
  assumes ready: "commit_ready P s" and pos: "0 < lh_n s" and k: "k \<le> length (commit_writes s)"
  defines "n \<equiv> nat (lh_n s)" and "d \<equiv> log_dev s" and "D \<equiv> apply_writes (take k (commit_writes s)) (disk s)"
  shows "k \<le> n \<Longrightarrow> D d (log_start s) = disk s d (log_start s) \<and> (\<forall>b. \<not> in_log (log_start s) b \<longrightarrow> D d b = disk s d b)"
    and "n < k \<Longrightarrow> k \<le> 2 * n + 1 \<Longrightarrow> D d (log_start s) = head_block (lh_n s) (lh_block s) (disk s d (log_start s)) \<and>
      (\<forall>i < n. D d (log_blk s i) = content s d (lh_block s i)) \<and>
      (\<forall>b. \<not> in_log (log_start s) b \<longrightarrow> b \<notin> lh_block s ` {..<n} \<longrightarrow> D d b = disk s d b)"
    and "2 * n + 1 < k \<Longrightarrow> ld32 (D d (log_start s)) 0 = 0 \<and>
      (\<forall>i < n. D d (lh_block s i) = content s d (lh_block s i)) \<and>
      (\<forall>b. \<not> in_log (log_start s) b \<longrightarrow> b \<notin> lh_block s ` {..<n} \<longrightarrow> D d b = disk s d b)"
proof -
  have lay: "log_layout (log_start s) (lh_block s) n" using ready by (simp add: commit_ready_def n_def)
  have n30: "n < 30" using ready unfolding commit_ready_def n_def by linarith
  define C where "C = (\<lambda>i. content s d (lh_block s i))"
  define h1 where "h1 = head_block (lh_n s) (lh_block s) (disk s d (log_start s))"
  define A where "A = map (\<lambda>i. (d, log_blk s i, C i)) [0..<n]"
  define B where "B = map (\<lambda>i. (d, lh_block s i, C i)) [0..<n]"
  have W: "commit_writes s = A @ (d, log_start s, h1) # B @ [(d, log_start s, head_block 0 (lh_block s) h1)]"
    by (simp add: commit_writes_def A_def B_def C_def h1_def n_def d_def Let_def)
  have lenA: "length A = n" "length B = n" by (simp_all add: A_def B_def)
  have inA: "apply_writes (take m A) X d b = X d b" if b: "b = log_start s \<or> \<not> in_log (log_start s) b" for b m X
    unfolding A_def
  proof (rule apply_take_map)
    fix i assume "i < n"
    then have "i < 30" using n30 by simp
    then show "log_blk s i \<noteq> b" using b log_blk_start [of i "log_start s"] not_in_log(2) [of "log_start s" b i] by metis
  qed
  have inB: "apply_writes (take m B) X d b = X d b" if b: "b \<notin> lh_block s ` {..<n}" for b m X
    unfolding B_def by (rule apply_take_map) (use b in blast)
  have hB: "log_start s \<notin> lh_block s ` {..<n}" using lay by (auto simp: log_layout_def)
  have hB': "log_blk s i \<notin> lh_block s ` {..<n}" if "i < n" for i
    using log_layout_ne [OF lay, of _ i] that n30 by (metis imageE lessThan_iff less_trans)
  have fA: "apply_writes A X d (log_blk s i) = C i" if "i < n" for i X
    unfolding A_def using that n30 log_blk_neq by (intro apply_map) auto
  have fB: "apply_writes B X d (lh_block s i) = C i" if "i < n" for i X
    unfolding B_def using that lay by (intro apply_map) (auto simp: log_layout_def inj_on_def)
  { assume "k \<le> n"
    then have "D = apply_writes (take k A) (disk s)" using lenA by (simp add: D_def W)
    then show "D d (log_start s) = disk s d (log_start s) \<and> (\<forall>b. \<not> in_log (log_start s) b \<longrightarrow> D d b = disk s d b)"
      using inA by simp }
  { assume k': "n < k" "k \<le> 2 * n + 1"
    then obtain m where m: "k = n + Suc m" "m \<le> n" by (metis add_Suc_right add_le_cancel_left less_imp_Suc_add mult_2 Suc_eq_plus1 Suc_le_mono)
    then have "take k (commit_writes s) = A @ (d, log_start s, h1) # take m B" using lenA by (simp add: W)
    then have D: "D = apply_writes (take m B) (disk_put (d, log_start s, h1) (apply_writes A (disk s)))" by (simp add: D_def)
    have "D d (log_start s) = h1" unfolding D using inB [OF hB] by (simp add: disk_put_def)
    moreover have "D d (log_blk s i) = C i" if "i < n" for i
      unfolding D using inB [OF hB' [OF that]] fA [OF that] log_blk_start [of i "log_start s"] that n30 by (simp add: disk_put_def)
    moreover have "D d b = disk s d b" if b: "\<not> in_log (log_start s) b" "b \<notin> lh_block s ` {..<n}" for b
      unfolding D using inB [OF b(2)] inA [of b n] b(1) lenA by (simp add: disk_put_def in_log_def)
    ultimately show "D d (log_start s) = head_block (lh_n s) (lh_block s) (disk s d (log_start s)) \<and>
      (\<forall>i < n. D d (log_blk s i) = content s d (lh_block s i)) \<and>
      (\<forall>b. \<not> in_log (log_start s) b \<longrightarrow> b \<notin> lh_block s ` {..<n} \<longrightarrow> D d b = disk s d b)"
      by (simp add: C_def h1_def) }
  { assume "2 * n + 1 < k"
    then have "take k (commit_writes s) = commit_writes s" using lenA by (simp add: W)
    then have D: "D = disk_put (d, log_start s, head_block 0 (lh_block s) h1)
        (apply_writes B (disk_put (d, log_start s, h1) (apply_writes A (disk s))))" by (simp add: D_def W)
    have "D d (lh_block s i) = C i" if "i < n" for i
    proof -
      have "lh_block s i \<noteq> log_start s" using lay that by (simp add: log_layout_def)
      then show ?thesis unfolding D using fB [OF that] by (simp add: disk_put_def)
    qed
    moreover have "ld32 (D d (log_start s)) 0 = 0" using head_block_n [of 0] by (simp add: D disk_put_def)
    moreover have "D d b = disk s d b" if b: "\<not> in_log (log_start s) b" "b \<notin> lh_block s ` {..<n}" for b
      unfolding D using inB [OF b(2), of n] inA [of b n] b(1) lenA by (simp add: disk_put_def in_log_def)
    ultimately show "ld32 (D d (log_start s)) 0 = 0 \<and> (\<forall>i < n. D d (lh_block s i) = content s d (lh_block s i)) \<and>
      (\<forall>b. \<not> in_log (log_start s) b \<longrightarrow> b \<notin> lh_block s ` {..<n} \<longrightarrow> D d b = disk s d b)"
      by (simp add: C_def) }
qed

text \<open>Outside the log area the contents are the disk's for every block that is not logged.\<close>

lemma content_unlogged:
  assumes "commit_ready P s" "b \<notin> lh_block s ` {..<nat (lh_n s)}"
  shows "content s (log_dev s) b = disk s (log_dev s) b"
proof (rule content_unpinned)
  fix q assume "q \<in> P"
  moreover have "pinned_for {..<nat (lh_n s)} P s" using assms(1) by (simp add: commit_ready_def)
  ultimately obtain i where "i < nat (lh_n s)" "b_blockno (buf_at s q) = lh_block s i" using pinned_forD(2) by blast
  then show "\<not> (b_dev (buf_at s q) = log_dev s \<and> b_blockno (buf_at s q) = b)" using assms(2) by auto
qed (use assms(1) in \<open>simp_all add: commit_ready_def\<close>)

lemma home_not_in_log: "commit_ready P s \<Longrightarrow> i < nat (lh_n s) \<Longrightarrow> \<not> in_log (log_start s) (lh_block s i)"
  by (auto simp: commit_ready_def log_layout_def in_log_def)

lemma recover_empty:
  fixes r :: "'b log_state_scheme"
  assumes "rebooted s D r" "log_dev s \<noteq> 0" "ld32 (D (log_dev s) (log_start s)) 0 = 0"
  shows "\<exists>t. recover_from_log r = Done () t \<and> ld32 (disk t (log_dev s) (log_start s)) 0 = 0 \<and>
    (\<forall>b. \<not> in_log (log_start s) b \<longrightarrow> disk t (log_dev s) b = D (log_dev s) b)"
proof -
  note r = assms(1) [unfolded rebooted_def]
  have "\<exists>t hd'. recover_from_log r = Done () t \<and> ld32 hd' 0 = 0 \<and>
    disk t = apply_writes (map (\<lambda>i. (log_dev r, ld32 (disk r (log_dev r) (log_start r)) (Suc i), disk r (log_dev r) (log_blk r i))) [0..<0] @
      [(log_dev r, log_start r, hd')]) (disk r)"
    by (rule recover_spec) (use r assms(2,3) in \<open>simp_all add: log_layout_def\<close>)
  then obtain t hd' where t: "recover_from_log r = Done () t" "ld32 hd' 0 = 0" "disk t = disk_put (log_dev r, log_start r, hd') (disk r)"
    by auto
  then show ?thesis using r by (intro exI [of _ t]) (simp add: disk_put_def in_log_def)
qed

lemma recover_redo:
  fixes r :: "'b log_state_scheme"
  assumes re: "rebooted s D r" and ready: "commit_ready P s"
    and h: "D (log_dev s) (log_start s) = head_block (lh_n s) (lh_block s) old"
    and l: "\<And>i. i < nat (lh_n s) \<Longrightarrow> D (log_dev s) (log_blk s i) = content s (log_dev s) (lh_block s i)"
  shows "\<exists>t. recover_from_log r = Done () t \<and> ld32 (disk t (log_dev s) (log_start s)) 0 = 0 \<and>
    (\<forall>i < nat (lh_n s). disk t (log_dev s) (lh_block s i) = content s (log_dev s) (lh_block s i)) \<and>
    (\<forall>b. \<not> in_log (log_start s) b \<longrightarrow> b \<notin> lh_block s ` {..<nat (lh_n s)} \<longrightarrow> disk t (log_dev s) b = D (log_dev s) b)"
proof -
  note r = re [unfolded rebooted_def] and c = ready [unfolded commit_ready_def]
  let ?n = "nat (lh_n s)"
  have hb: "ld32 (disk r (log_dev r) (log_start r)) (Suc i) = lh_block s i" if "i < ?n" for i
    using head_block_block [OF that] h r by simp
  have m: "map (\<lambda>i. (log_dev r, ld32 (disk r (log_dev r) (log_start r)) (Suc i), disk r (log_dev r) (log_blk r i))) [0..<?n] =
      map (\<lambda>i. (log_dev s, lh_block s i, content s (log_dev s) (lh_block s i))) [0..<?n]"
    using hb l r by auto
  have lay: "log_layout (log_start s) (lh_block s) ?n" using c by simp
  have "\<exists>t hd'. recover_from_log r = Done () t \<and> ld32 hd' 0 = 0 \<and>
    disk t = apply_writes (map (\<lambda>i. (log_dev r, ld32 (disk r (log_dev r) (log_start r)) (Suc i), disk r (log_dev r) (log_blk r i))) [0..<?n] @
      [(log_dev r, log_start r, hd')]) (disk r)"
  proof (rule recover_spec)
    have "sint (word_of_int (lh_n s) :: u32) = lh_n s" using wrap32_id [of "lh_n s"] c by (simp add: wrap32_def)
    then show "sint (ld32 (disk r (log_dev r) (log_start r)) 0) = int ?n" using h r c by (simp add: head_block_n)
    show "log_layout (log_start r) (\<lambda>i. ld32 (disk r (log_dev r) (log_start r)) (Suc i)) ?n"
      using lay hb r by (auto simp: log_layout_def inj_on_def)
  qed (use r c in simp_all)
  then obtain t hd' where t: "recover_from_log r = Done () t" "ld32 hd' 0 = 0"
    "disk t = disk_put (log_dev s, log_start s, hd')
      (apply_writes (map (\<lambda>i. (log_dev s, lh_block s i, content s (log_dev s) (lh_block s i))) [0..<?n]) D)"
    unfolding m using r by auto
  have "disk t (log_dev s) (lh_block s i) = content s (log_dev s) (lh_block s i)" if "i < ?n" for i
  proof -
    have "lh_block s i \<noteq> log_start s" using lay that by (simp add: log_layout_def)
    moreover have "apply_writes (map (\<lambda>i. (log_dev s, lh_block s i, content s (log_dev s) (lh_block s i))) [0..<?n]) D (log_dev s) (lh_block s i)
        = content s (log_dev s) (lh_block s i)"
      using lay that by (intro apply_map) (auto simp: log_layout_def inj_on_def)
    ultimately show ?thesis by (simp add: t(3) disk_put_def)
  qed
  moreover have "disk t (log_dev s) b = D (log_dev s) b" if "\<not> in_log (log_start s) b" "b \<notin> lh_block s ` {..<?n}" for b
  proof -
    have "(log_dev s, b) \<notin> (\<lambda>(d, n, b). (d, n)) ` set (map (\<lambda>i. (log_dev s, lh_block s i, content s (log_dev s) (lh_block s i))) [0..<?n])"
      using that(2) by auto
    then show ?thesis using apply_other that(1) by (simp add: t(3) disk_put_def in_log_def)
  qed
  ultimately show ?thesis using t by (intro exI [of _ t]) (simp add: disk_put_def)
qed

lemma crash_recovery:
  fixes s :: "'a log_state_scheme" and r :: "'b log_state_scheme"
  assumes ready: "commit_ready P s" and pos: "0 < lh_n s" and k: "k \<le> length (commit_writes s)"
    and r: "rebooted s (apply_writes (take k (commit_writes s)) (disk s)) r"
  shows "\<exists>r'. recover_from_log r = Done () r' \<and> ld32 (disk r' (log_dev s) (log_start s)) 0 = 0 \<and>
    (\<forall>b. \<not> in_log (log_start s) b \<longrightarrow>
      disk r' (log_dev s) b = (if k \<le> nat (lh_n s) then disk s (log_dev s) b else content s (log_dev s) b))"
proof -
  let ?n = "nat (lh_n s)" and ?d = "log_dev s" and ?D = "apply_writes (take k (commit_writes s)) (disk s)"
  have dev: "log_dev s \<noteq> 0" and old: "ld32 (disk s ?d (log_start s)) 0 = 0"
    using ready by (simp_all add: commit_ready_def)
  note cp = commit_prefix [OF ready pos k] and cu = content_unlogged [OF ready]
  have new: "disk r' ?d b = content s ?d b"
    if "\<forall>i < ?n. disk r' ?d (lh_block s i) = content s ?d (lh_block s i)" "\<not> in_log (log_start s) b"
      "\<forall>b. \<not> in_log (log_start s) b \<longrightarrow> b \<notin> lh_block s ` {..<?n} \<longrightarrow> disk r' ?d b = disk s ?d b" for r' :: "'b log_state_scheme" and b
    using that cu [of b] by (cases "b \<in> lh_block s ` {..<?n}") auto
  consider "k \<le> ?n" | "?n < k" "k \<le> 2 * ?n + 1" | "2 * ?n + 1 < k" by linarith
  then show ?thesis
  proof cases
    case 1
    then show ?thesis using recover_empty [OF r dev] cp(1) old by auto
  next
    case 2
    note c = cp(2) [OF 2]
    obtain r' where r': "recover_from_log r = Done () r'" "ld32 (disk r' ?d (log_start s)) 0 = 0"
      "\<forall>i < ?n. disk r' ?d (lh_block s i) = content s ?d (lh_block s i)"
      "\<forall>b. \<not> in_log (log_start s) b \<longrightarrow> b \<notin> lh_block s ` {..<?n} \<longrightarrow> disk r' ?d b = ?D ?d b"
      using recover_redo [OF r ready c [THEN conjunct1]] c by blast
    have "\<forall>b. \<not> in_log (log_start s) b \<longrightarrow> b \<notin> lh_block s ` {..<?n} \<longrightarrow> disk r' ?d b = disk s ?d b" using r'(4) c by simp
    then have "\<forall>b. \<not> in_log (log_start s) b \<longrightarrow> disk r' ?d b = content s ?d b" using new [OF r'(3)] by blast
    then show ?thesis using r'(1,2) 2(1) by (intro exI [of _ r']) simp
  next
    case 3
    note c = cp(3) [OF 3]
    obtain r' where r': "recover_from_log r = Done () r'" "ld32 (disk r' ?d (log_start s)) 0 = 0"
      "\<forall>b. \<not> in_log (log_start s) b \<longrightarrow> disk r' ?d b = ?D ?d b"
      using recover_empty [OF r dev] c by blast
    have h: "\<forall>i < ?n. disk r' ?d (lh_block s i) = content s ?d (lh_block s i)"
      using r'(3) c home_not_in_log [OF ready] by simp
    have "\<forall>b. \<not> in_log (log_start s) b \<longrightarrow> b \<notin> lh_block s ` {..<?n} \<longrightarrow> disk r' ?d b = disk s ?d b" using r'(3) c by simp
    then have "\<forall>b. \<not> in_log (log_start s) b \<longrightarrow> disk r' ?d b = content s ?d b" using new [OF h] by blast
    then show ?thesis using r'(1,2) 3 by (intro exI [of _ r']) simp
  qed
qed

section \<open>Inside a transaction\<close>

text \<open>
  \<open>tx H P s\<close>: a file system call is in progress, holding the buffers \<open>H\<close>; the pinned buffers \<open>P\<close> are those of
  the logged blocks.
\<close>

definition tx :: "nat set \<Rightarrow> nat set \<Rightarrow> 'a log_state_scheme \<Rightarrow> bool" where
  "tx H P s \<longleftrightarrow> bc_inv H P s \<and> running s \<and> log_dev s \<noteq> 0 \<and> 1 \<le> log_outstanding s \<and> 0 \<le> lh_n s \<and>
     pinned_for {..<nat (lh_n s)} P s \<and> inj_on (lh_block s) {..<nat (lh_n s)}"

lemma pinned_card:
  assumes "pinned_for {..<n} P s" "inj_on (lh_block s) {..<n}" "bc_inv H P s" "log_dev s \<noteq> 0"
  shows "card P = n"
proof -
  have sub: "p \<in> P \<Longrightarrow> p < NBUF" for p using bc_inv_len(4) [OF assms(3)] by auto
  have "(\<lambda>p. b_blockno (buf_at s p)) ` P = lh_block s ` {..<n}"
    using pinned_forD [OF assms(1)] by (auto simp: image_iff) (metis lessThan_iff)+
  moreover have "inj_on (\<lambda>p. b_blockno (buf_at s p)) P"
  proof (rule inj_onI)
    fix p q assume "p \<in> P" "q \<in> P" "b_blockno (buf_at s p) = b_blockno (buf_at s q)"
    then show "p = q" using bc_invD(6) [OF assms(3) sub, of p q] sub pinned_forD(2) [OF assms(1)] assms(4) by metis
  qed
  ultimately show ?thesis using assms(2) card_image [of "\<lambda>p. b_blockno (buf_at s p)" P] card_image [of "lh_block s" "{..<n}"] by simp
qed

lemma log_write_spec:
  fixes s :: "'a log_state_scheme"
  assumes tx: "tx H P s" and b: "b \<in> H" "b_dev (buf_at s b) = log_dev s" and room: "lh_n s < LOGBLOCKS"
  shows "\<exists>n f B. log_write b s = Done () ((put_buf b B s)\<lparr>lh_n := n, lh_block := f\<rparr>) \<and>
    tx H (insert b P) ((put_buf b B s)\<lparr>lh_n := n, lh_block := f\<rparr>) \<and>
    (\<forall>d m. d \<noteq> 0 \<longrightarrow> content ((put_buf b B s)\<lparr>lh_n := n, lh_block := f\<rparr>) d m = content s d m) \<and>
    (\<exists>c. B = (buf_at s b)\<lparr>b_refcnt := c\<rparr>) \<and> lh_n s \<le> n \<and> n \<le> lh_n s + 1"
proof -
  note t = tx [unfolded tx_def]
  have inv: "bc_inv H P s" and pf: "pinned_for {..<nat (lh_n s)} P s" and inj: "inj_on (lh_block s) {..<nat (lh_n s)}"
    and dev: "log_dev s \<noteq> 0" and n0: "0 \<le> lh_n s" using t by simp_all
  have lt: "b < NBUF" using b(1) bc_inv_len(3) [OF inv] by auto
  let ?bno = "b_blockno (buf_at s b)"
  have g: "\<not> LOGBLOCKS \<le> lh_n s" "\<not> log_outstanding s < 1" using t room by simp_all
  show ?thesis
  proof (cases "List.find (\<lambda>i. lh_block s i = ?bno) [0..<nat (lh_n s)]")
    case (Some i)
    then have i: "i < nat (lh_n s)" "lh_block s i = ?bno" by (simp_all add: find_upt_Some)
    obtain p where p: "p \<in> P" "b_dev (buf_at s p) = log_dev s" "b_blockno (buf_at s p) = ?bno"
      using pinned_forD(1) [OF pf, of i] i by auto
    have "p < NBUF" using p(1) bc_inv_len(4) [OF inv] by auto
    then have "p = b" using bc_invD(6) [OF inv lt, of p] p(2,3) b(2) dev by metis
    then have bP: "insert b P = P" using p(1) by blast
    have e: "(put_buf b (buf_at s b) s)\<lparr>lh_n := lh_n s, lh_block := (lh_block s)(i := ?bno)\<rparr> = s"
      using i(2) by (simp add: put_buf_def fun_upd_idem)
    have "log_write b s = Done () s" using g Some i(2) by (simp add: log_write_def Let_def fun_upd_idem)
    then show ?thesis using tx
      by (intro exI [of _ "lh_n s"] exI [of _ "(lh_block s)(i := ?bno)"] exI [of _ "buf_at s b"]) (auto simp: e bP intro: exI [of _ "b_refcnt (buf_at s b)"])
  next
    case None
    then have nl: "lh_block s i \<noteq> ?bno" if "i < nat (lh_n s)" for i using that by (simp add: find_upt_None)
    have bP: "b \<notin> P" using pinned_forD(2) [OF pf, of b] nl by (metis lessThan_iff)
    let ?B = "(buf_at s b)\<lparr>b_refcnt := b_refcnt (buf_at s b) + 1\<rparr>" and ?f = "(lh_block s)(nat (lh_n s) := ?bno)"
    let ?t = "(put_buf b ?B s)\<lparr>lh_n := lh_n s + 1, lh_block := ?f\<rparr>"
    have at: "buf_at (put_buf b ?B s) i = (if i = b then ?B else buf_at s i)" for i
      using lt bc_inv_len(1) [OF inv] by (simp add: buf_at_put)
    have pin: "bpin b s = put_buf b ?B s" by (simp add: bpin_def set_buf_put)
    have "log_write b s = Done () ?t"
      using g None by (simp add: log_write_def Let_def bpin_def set_buf_put put_buf_def)
    moreover have "tx H (insert b P) ?t"
    proof -
      have n1: "nat (lh_n s + 1) = Suc (nat (lh_n s))" using n0 by simp
      have "pinned_for {..<Suc (nat (lh_n s))} (insert b P) ?t"
        unfolding pinned_for_def
      proof (intro conjI ballI)
        fix i assume i: "i \<in> {..<Suc (nat (lh_n s))}"
        show "\<exists>p\<in>insert b P. b_dev (buf_at ?t p) = log_dev ?t \<and> b_blockno (buf_at ?t p) = lh_block ?t i"
        proof (cases "i = nat (lh_n s)")
          case True
          then show ?thesis using b(2) by (intro bexI [of _ b]) (simp_all add: at)
        next
          case False
          then obtain p where "p \<in> P" "b_dev (buf_at s p) = log_dev s" "b_blockno (buf_at s p) = lh_block s i"
            using pinned_forD(1) [OF pf, of i] i by auto
          then show ?thesis using False bP by (intro bexI [of _ p]) (auto simp: at)
        qed
      next
        fix p assume p: "p \<in> insert b P"
        show "\<exists>i\<in>{..<Suc (nat (lh_n s))}. b_dev (buf_at ?t p) = log_dev ?t \<and> b_blockno (buf_at ?t p) = lh_block ?t i"
        proof (cases "p = b")
          case True
          then show ?thesis using b(2) by (intro bexI [of _ "nat (lh_n s)"]) (simp_all add: at)
        next
          case False
          then obtain i where "i < nat (lh_n s)" "b_dev (buf_at s p) = log_dev s" "b_blockno (buf_at s p) = lh_block s i"
            using p pinned_forD(2) [OF pf, of p] by auto
          then show ?thesis using False by (intro bexI [of _ i]) (simp_all add: at)
        qed
      qed
      moreover have "inj_on ?f {..<Suc (nat (lh_n s))}"
      proof (rule inj_onI)
        fix x y assume "x \<in> {..<Suc (nat (lh_n s))}" "y \<in> {..<Suc (nat (lh_n s))}" "?f x = ?f y"
        then show "x = y" using inj nl [of x] nl [of y]
          by (cases "x = nat (lh_n s)"; cases "y = nat (lh_n s)") (auto simp: inj_on_def less_Suc_eq)
      qed
      moreover have "bc_inv H (insert b P) ?t" using bpin_spec(1) [OF inv b(1) bP] unfolding pin by simp
      ultimately show ?thesis using t n1 by (simp add: tx_def)
    qed
    moreover have "content ?t d m = content s d m" if "d \<noteq> 0" for d m
      using bpin_spec(2) [OF inv b(1) bP that] unfolding pin by simp
    ultimately show ?thesis by (intro exI [of _ "lh_n s + 1"] exI [of _ ?f] exI [of _ ?B]) (auto intro: exI [of _ "b_refcnt (buf_at s b) + 1"])
  qed
qed

section \<open>Properties\<close>

text \<open>
  C2: Atomicity of transactions with respect to crashes. When \<^verbatim>\<open>commit\<close> runs it returns, and if the
  machine stops after any number \<open>k\<close> of its disk writes and \<^verbatim>\<open>recover_from_log\<close> then runs on the disk
  that was left behind, recovery succeeds, leaves the log empty, and every block outside the log area has
  either its contents from before the transaction (when the header had not been written yet) or
  its contents after the whole transaction (from then on); no crash leaves a mixture.
\<close>

theorem commit_crash_atomic:
  fixes s :: "'a log_state_scheme"
  assumes "commit_ready P s" "0 < lh_n s"
  shows "\<exists>t. commit s = Done () t \<and> disk_writes t = disk_writes s @ commit_writes s \<and>
    (\<forall>k \<le> length (commit_writes s). \<forall>r :: 'b log_state_scheme.
      rebooted s (apply_writes (take k (commit_writes s)) (disk s)) r \<longrightarrow>
      (\<exists>r'. recover_from_log r = Done () r' \<and> ld32 (disk r' (log_dev s) (log_start s)) 0 = 0 \<and>
        (\<forall>b. \<not> in_log (log_start s) b \<longrightarrow>
          disk r' (log_dev s) b = (if k \<le> nat (lh_n s) then disk s (log_dev s) b else content s (log_dev s) b))))"
proof -
  obtain t where t: "commit s = Done () t" "wrote (commit_writes s) {} (s\<lparr>lh_n := 0\<rparr>) t"
    using commit_spec [OF assms] by blast
  have "disk_writes t = disk_writes s @ commit_writes s" using wrote_facts(8) [OF t(2)] by simp
  then show ?thesis using t(1) crash_recovery [OF assms] by blast
qed

definition ex_log :: log_state where
  "ex_log = buf_state.extend ex_cache \<lparr>log_start = 2, log_outstanding = 0, log_committing = 1, log_dev = 1, lh_n = 1, lh_block = (\<lambda>_. 100)\<rparr>"

text \<open>Block 100 has been changed and logged; its buffer is pinned. The log header on disk is empty.\<close>

definition ex_commit :: log_state where
  "ex_commit = put_buf 0 \<lparr>b_valid = 1, b_dev = 1, b_blockno = 100, b_lock = initsleeplock, b_refcnt = 1, b_data = (\<lambda>_. 7)\<rparr>
     (ex_log\<lparr>disk := (\<lambda>_ _ _. 0)\<rparr>)"

lemma ex_log_facts: "lru ex_log = lru ex_cache" "bufs ex_log = bufs ex_cache" "procs ex_log = procs ex_cache" "myproc ex_log = myproc ex_cache"
  by (simp_all add: ex_log_def buf_state.defs myproc_def mycpu_def cpuid_def)

lemma ex_log_empty: "bc_inv {} {} (ex_log\<lparr>disk := D\<rparr>)"
  using ex_cache_inv unfolding bc_inv_def buf_inv_def
  by (simp add: ex_log_facts ex_cache_empty zero_buf_def Let_def initsleeplock_def)

lemma of_nat_u32_eq: "m < 2 ^ 32 \<Longrightarrow> n < 2 ^ 32 \<Longrightarrow> (of_nat m :: u32) = of_nat n \<longleftrightarrow> m = n"
  by (simp add: word_of_nat_eq_iff take_bit_nat_eq_self)

lemma ex_commit_ready: "commit_ready {0} ex_commit"
proof -
  have "bc_inv {} {0} ex_commit"
    unfolding ex_commit_def
    by (rule bc_inv_put [OF ex_log_empty]) (simp_all add: initsleeplock_def ex_log_facts ex_cache_empty zero_buf_def)
  moreover have "running ex_commit"
    by (simp add: running_def ex_commit_def put_buf_def ex_log_def buf_state.defs ex_cache_facts myproc_def mycpu_def cpuid_def)
      (simp add: ex_cache_facts(2) [unfolded myproc_def mycpu_def cpuid_def])
  moreover have "pinned_for {..<1} {0} ex_commit"
    by (simp add: pinned_for_def ex_commit_def buf_at_put ex_log_facts ex_cache_facts)
      (simp add: ex_log_def buf_state.defs)
  moreover have "log_layout 2 (\<lambda>_. 100) 1"
  proof -
    have "2 + of_nat j + 1 \<noteq> (100 :: u32)" if "j < 30" for j
    proof
      assume "2 + of_nat j + 1 = (100 :: u32)"
      then have "of_nat (j + 3) = (of_nat 100 :: u32)" by (simp add: algebra_simps)
      then show False using that by (subst (asm) of_nat_u32_eq) simp_all
    qed
    then show ?thesis by (auto simp: log_layout_def inj_on_def)
  qed
  moreover have "log_start ex_commit = 2" "lh_block ex_commit = (\<lambda>_. 100)" "lh_n ex_commit = 1" "log_dev ex_commit = 1"
      "disk ex_commit = (\<lambda>_ _ _. 0)"
    by (simp_all add: ex_commit_def ex_log_def buf_state.defs)
  ultimately show ?thesis by (simp add: commit_ready_def ld32_def)
qed

theorem commit_crash_atomic_witness:
  "commit_ready {0} ex_commit \<and> (\<exists>t. commit ex_commit = Done () t \<and> length (disk_writes t) = 4)"
proof -
  have n: "lh_n ex_commit = 1" "disk_writes ex_commit = []"
    by (simp_all add: ex_commit_def ex_log_def buf_state.defs ex_cache_facts)
  then have "0 < lh_n ex_commit" by simp
  from commit_crash_atomic [OF ex_commit_ready this] show ?thesis
    using ex_commit_ready n by (auto simp: commit_writes_def Let_def)
qed

text \<open>
  C39: The log can hold as many blocks as the cache has buffers. When the transactions that
  \<^verbatim>\<open>begin_op\<close> admits have logged 30 different blocks, all 30 buffers are pinned, and
  \<^verbatim>\<open>commit\<close> panics because \<^verbatim>\<open>bread\<close> finds no buffer for the first log block.
\<close>

theorem commit_full_log_panics:
  fixes s :: "'a log_state_scheme"
  assumes inv: "bc_inv {} {0..<NBUF} s" and n: "0 < lh_n s"
    and log: "log_layout (log_start s) (lh_block s) (nat (lh_n s))" and pin: "pinned_for {..<nat (lh_n s)} {0..<NBUF} s"
  shows "commit s = Panic ''bget: no buffers''"
proof -
  have f1: "List.find (\<lambda>i. b_dev (buf_at s i) = log_dev s \<and> b_blockno (buf_at s i) = log_start s + 1) (lru s) = None"
    using unpinned_area(2) [OF pin log subset_refl, of _ 0] bc_inv_len(2) [OF inv] by (auto simp: find_None_iff)
  have f2: "List.find (\<lambda>i. b_refcnt (buf_at s i) = 0) (rev (lru s)) = None"
    using bc_invD(1) [OF inv] bc_inv_len(2) [OF inv] by (auto simp: find_None_iff)
  have "bget (log_dev s) (log_start s + 1) s = Panic ''bget: no buffers''"
    unfolding bget_def f1 f2 by simp
  then have "write_log_block 0 s = Panic ''bget: no buffers''" by (simp add: write_log_block_def bread_def)
  moreover have "[0..<nat (lh_n s)] = 0 # [1..<nat (lh_n s)]" using n by (simp add: upt_conv_Cons)
  ultimately show ?thesis using n by (simp add: commit_def write_log_def)
qed

text \<open>Blocks 100 to 129 of device 1 are logged.\<close>

definition ex_full :: log_state where
  "ex_full = ex_log\<lparr>lh_n := 30, lh_block := (\<lambda>i. of_nat (100 + i)),
     bufs := map (\<lambda>i. \<lparr>b_valid = 1, b_dev = 1, b_blockno = of_nat (100 + i), b_lock = initsleeplock, b_refcnt = 1, b_data = (\<lambda>_. 7)\<rparr>) [0..<NBUF]\<rparr>"

theorem commit_full_log_panics_witness:
  "bc_inv {} {0..<NBUF} ex_full \<and> commit ex_full = Panic ''bget: no buffers''"
proof -
  have at: "buf_at ex_full i = \<lparr>b_valid = 1, b_dev = 1, b_blockno = of_nat (100 + i), b_lock = initsleeplock, b_refcnt = 1, b_data = (\<lambda>_. 7)\<rparr>"
    if "i < NBUF" for i using that by (simp add: ex_full_def)
  have eq: "(of_nat (100 + i) :: u32) = of_nat (100 + j) \<longleftrightarrow> i = j" if "i < NBUF" "j < NBUF" for i j
    using that by (subst of_nat_u32_eq) simp_all
  have st: "log_start ex_full = of_nat 2" "log_dev ex_full = 1" "lh_n ex_full = 30" "lh_block ex_full = (\<lambda>i. of_nat (100 + i))"
    "length (bufs ex_full) = NBUF" "lru ex_full = lru ex_cache"
    by (simp_all add: ex_full_def ex_log_def buf_state.defs)
  have inv: "bc_inv {} {0..<NBUF} ex_full"
    unfolding bc_inv_def buf_inv_def using ex_cache_inv
    by (simp add: st at eq bc_inv_def initsleeplock_def del: of_nat_add)
  have n2: "of_nat (100 + i) \<noteq> (of_nat 2 :: u32)" "of_nat (100 + i) \<noteq> (of_nat 2 + of_nat j + 1 :: u32)" if "i < 30" "j < 30" for i j
    using that of_nat_u32_eq [of "100 + i" 2] of_nat_u32_eq [of "100 + i" "2 + j + 1"] by simp_all
  have log: "log_layout (log_start ex_full) (lh_block ex_full) (nat (lh_n ex_full))"
    using n2 eq by (simp add: log_layout_def st inj_on_def del: of_nat_add)
  have pin: "pinned_for {..<nat (lh_n ex_full)} {0..<NBUF} ex_full"
    by (auto simp: pinned_for_def st at simp del: of_nat_add)
  show ?thesis using inv commit_full_log_panics [OF inv _ log pin] by (simp add: st)
qed

end
