(* ===== verification/Fs.thy ===== *)
theory Fs
  imports Log
begin

text \<open>
  \<^verbatim>\<open>kernel/fs.c\<close>: blocks, inodes, file contents, directories and path names, on top of the buffer
  cache and the log. An inode pointer is the index of its slot in \<^verbatim>\<open>itable\<close>, a null pointer is
  \<^const>\<open>None\<close>. The functions that can wait (\<^verbatim>\<open>bread\<close>, \<^verbatim>\<open>ilock\<close>, \<^verbatim>\<open>begin_op\<close>) end in \<open>Asleep\<close> when
  they have to; what follows then is not part of the outcome.
\<close>

section \<open>Data\<close>

abbreviation ROOTDEV :: u32 where "ROOTDEV \<equiv> 1"
abbreviation ROOTINO :: u32 where "ROOTINO \<equiv> 1"
abbreviation FSMAGIC :: u32 where "FSMAGIC \<equiv> 0x10203040"
abbreviation NINODE :: nat where "NINODE \<equiv> 50"
abbreviation NDIRECT :: nat where "NDIRECT \<equiv> 12"
abbreviation NINDIRECT :: nat where "NINDIRECT \<equiv> 256"
abbreviation MAXFILE :: nat where "MAXFILE \<equiv> 268"
abbreviation IPB :: nat where "IPB \<equiv> 16"
abbreviation BPB :: nat where "BPB \<equiv> 8192"
abbreviation DIRSIZ :: nat where "DIRSIZ \<equiv> 14"
abbreviation T_DIR :: u16 where "T_DIR \<equiv> 1"
abbreviation T_FILE :: u16 where "T_FILE \<equiv> 2"
abbreviation T_DEVICE :: u16 where "T_DEVICE \<equiv> 3"

record superblock =
  sb_magic :: u32
  sb_size :: u32
  sb_nblocks :: u32
  sb_ninodes :: u32
  sb_nlog :: u32
  sb_logstart :: u32
  sb_inodestart :: u32
  sb_bmapstart :: u32

record dinode =
  di_type :: u16
  di_major :: u16
  di_minor :: u16
  di_nlink :: u16
  di_size :: u32
  di_addrs :: "u32 list"

record inode =
  i_dev :: u32
  i_inum :: u32
  i_ref :: int
  i_lock :: sleeplock
  i_valid :: int
  i_type :: u16
  i_major :: u16
  i_minor :: u16
  i_nlink :: u16
  i_size :: u32
  i_addrs :: "u32 list"

record stat =
  stat_dev :: u32
  stat_ino :: u32
  stat_type :: u16
  stat_nlink :: u16
  stat_size :: u64

record fs_state = log_state +
  sb :: superblock
  inodes :: "inode list"

abbreviation inode_at :: "'a fs_state_scheme \<Rightarrow> nat \<Rightarrow> inode" where
  "inode_at s i \<equiv> inodes s ! i"

definition set_inode :: "nat \<Rightarrow> (inode \<Rightarrow> inode) \<Rightarrow> 'a fs_state_scheme \<Rightarrow> 'a fs_state_scheme" where
  "set_inode i f s = s\<lparr>inodes := (inodes s)[i := f (inode_at s i)]\<rparr>"

abbreviation inode_lock :: "nat \<Rightarrow> 'a fs_state_scheme \<Rightarrow> sleeplock" where
  "inode_lock i s \<equiv> i_lock (inode_at s i)"

abbreviation upd_inode_lock :: "nat \<Rightarrow> (sleeplock \<Rightarrow> sleeplock) \<Rightarrow> 'a fs_state_scheme \<Rightarrow> 'a fs_state_scheme" where
  "upd_inode_lock i f s \<equiv> set_inode i (i_lock_update f) s"

definition IBLOCK :: "u32 \<Rightarrow> 'a fs_state_scheme \<Rightarrow> u32" where
  "IBLOCK i s = of_nat (unat i div IPB) + sb_inodestart (sb s)"

definition BBLOCK :: "nat \<Rightarrow> 'a fs_state_scheme \<Rightarrow> u32" where
  "BBLOCK b s = of_nat (b div BPB) + sb_bmapstart (sb s)"

text \<open>The \<open>k\<close>-th \<^verbatim>\<open>struct dinode\<close> of a block of inodes: 64 bytes, four shorts, then 32-bit words.\<close>

definition get_dinode :: "block \<Rightarrow> nat \<Rightarrow> dinode" where
  "get_dinode b k = \<lparr>di_type = ld16 b (32 * k), di_major = ld16 b (32 * k + 1), di_minor = ld16 b (32 * k + 2),
     di_nlink = ld16 b (32 * k + 3), di_size = ld32 b (16 * k + 2), di_addrs = map (\<lambda>i. ld32 b (16 * k + 3 + i)) [0..<NDIRECT + 1]\<rparr>"

definition put_dinode :: "nat \<Rightarrow> dinode \<Rightarrow> block \<Rightarrow> block" where
  "put_dinode k d b =
     (let b = st16 b (32 * k) (di_type d); b = st16 b (32 * k + 1) (di_major d); b = st16 b (32 * k + 2) (di_minor d);
          b = st16 b (32 * k + 3) (di_nlink d); b = st32 b (16 * k + 2) (di_size d)
      in fold (\<lambda>i b. st32 b (16 * k + 3 + i) (di_addrs d ! i)) [0..<NDIRECT + 1] b)"

definition upd_data :: "nat \<Rightarrow> (block \<Rightarrow> block) \<Rightarrow> 'a buf_state_scheme \<Rightarrow> 'a buf_state_scheme" where
  "upd_data b f s = set_buf b (b_data_update f) s"

section \<open>Blocks\<close>

definition readsb :: "u32 \<Rightarrow> 'a fs_state_scheme \<Rightarrow> (unit, 'a fs_state_scheme) outcome" where
  "readsb dev s =
     obind (bread dev 1 s) (\<lambda>bp s.
       let d = b_data (buf_at s bp);
           s = s\<lparr>sb := \<lparr>sb_magic = ld32 d 0, sb_size = ld32 d 1, sb_nblocks = ld32 d 2, sb_ninodes = ld32 d 3, sb_nlog = ld32 d 4,
                  sb_logstart = ld32 d 5, sb_inodestart = ld32 d 6, sb_bmapstart = ld32 d 7\<rparr>\<rparr>
       in brelse bp s)"

definition bzero :: "u32 \<Rightarrow> u32 \<Rightarrow> 'a fs_state_scheme \<Rightarrow> (unit, 'a fs_state_scheme) outcome" where
  "bzero dev bno s =
     obind (bread dev bno s) (\<lambda>bp s.
     let s = upd_data bp (\<lambda>d i. if i < BSIZE then 0 else d i) s in
     obind (log_write bp s) (\<lambda>_ s. brelse bp s))"

definition bit_mask :: "nat \<Rightarrow> u8" where
  "bit_mask bi = push_bit (bi mod 8) 1"

definition bit_free :: "block \<Rightarrow> nat \<Rightarrow> bool" where
  "bit_free d bi \<longleftrightarrow> d (bi div 8) AND bit_mask bi = 0"

text \<open>
  The loop of \<^verbatim>\<open>balloc\<close> over the bitmap blocks; its argument is the values of \<^verbatim>\<open>b\<close> still to come.
\<close>

fun balloc_loop :: "u32 \<Rightarrow> nat list \<Rightarrow> 'a fs_state_scheme \<Rightarrow> (u32, 'a fs_state_scheme) outcome" where
  "balloc_loop dev [] s = Done 0 (kprintf ''balloc: out of blocks\<newline>'' [] s)"
| "balloc_loop dev (b # bs) s =
     obind (bread dev (BBLOCK b s) s) (\<lambda>bp s.
       case List.find (\<lambda>bi. bit_free (b_data (buf_at s bp)) bi) [0..<min BPB (unat (sb_size (sb s)) - b)] of
         Some bi \<Rightarrow>
           let s = upd_data bp (\<lambda>d. d(bi div 8 := d (bi div 8) OR bit_mask bi)) s in
           obind (log_write bp s) (\<lambda>_ s.
           obind (brelse bp s) (\<lambda>_ s.
           obind (bzero dev (of_nat (b + bi)) s) (\<lambda>_ s. Done (of_nat (b + bi)) s)))
       | None \<Rightarrow> obind (brelse bp s) (\<lambda>_ s. balloc_loop dev bs s))"

definition balloc :: "u32 \<Rightarrow> 'a fs_state_scheme \<Rightarrow> (u32, 'a fs_state_scheme) outcome" where
  "balloc dev s = balloc_loop dev (map (\<lambda>k. BPB * k) [0..<(unat (sb_size (sb s)) + (BPB - 1)) div BPB]) s"

definition bfree :: "u32 \<Rightarrow> u32 \<Rightarrow> 'a fs_state_scheme \<Rightarrow> (unit, 'a fs_state_scheme) outcome" where
  "bfree dev b s =
     obind (bread dev (BBLOCK (unat b) s) s) (\<lambda>bp s.
       let bi = unat b mod BPB in
       if bit_free (b_data (buf_at s bp)) bi then Panic ''freeing free block''
       else
         let s = upd_data bp (\<lambda>d. d(bi div 8 := d (bi div 8) AND NOT (bit_mask bi))) s in
         obind (log_write bp s) (\<lambda>_ s. brelse bp s))"

section \<open>Inodes\<close>

definition iinit :: "'a fs_state_scheme \<Rightarrow> 'a fs_state_scheme" where
  "iinit s = s\<lparr>inodes := map (\<lambda>ip. ip\<lparr>i_lock := initsleeplock\<rparr>) (inodes s)\<rparr>"

definition iget :: "u32 \<Rightarrow> u32 \<Rightarrow> 'a fs_state_scheme \<Rightarrow> (nat, 'a fs_state_scheme) outcome" where
  "iget dev inum s =
     (case List.find (\<lambda>i. i_ref (inode_at s i) > 0 \<and> i_dev (inode_at s i) = dev \<and> i_inum (inode_at s i) = inum) [0..<length (inodes s)] of
        Some i \<Rightarrow> Done i (set_inode i (\<lambda>ip. ip\<lparr>i_ref := i_ref ip + 1\<rparr>) s)
      | None \<Rightarrow>
          (case List.find (\<lambda>i. i_ref (inode_at s i) = 0) [0..<length (inodes s)] of
             None \<Rightarrow> Panic ''iget: no inodes''
           | Some i \<Rightarrow> Done i (set_inode i (\<lambda>ip. ip\<lparr>i_dev := dev, i_inum := inum, i_ref := 1, i_valid := 0\<rparr>) s)))"

definition idup :: "nat \<Rightarrow> 'a fs_state_scheme \<Rightarrow> 'a fs_state_scheme" where
  "idup ip s = set_inode ip (\<lambda>i. i\<lparr>i_ref := i_ref i + 1\<rparr>) s"

fun ialloc_loop :: "u32 \<Rightarrow> u16 \<Rightarrow> nat list \<Rightarrow> 'a fs_state_scheme \<Rightarrow> (nat option, 'a fs_state_scheme) outcome" where
  "ialloc_loop dev type [] s = Done None (kprintf ''ialloc: no inodes\<newline>'' [] s)"
| "ialloc_loop dev type (inum # inums) s =
     obind (bread dev (IBLOCK (of_nat inum) s) s) (\<lambda>bp s.
       let k = inum mod IPB in
       if di_type (get_dinode (b_data (buf_at s bp)) k) = 0 then
         let s = upd_data bp (\<lambda>d. st16 (\<lambda>i. if 64 * k \<le> i \<and> i < 64 * k + 64 then 0 else d i) (32 * k) type) s in
         obind (log_write bp s) (\<lambda>_ s.
         obind (brelse bp s) (\<lambda>_ s.
         obind (iget dev (of_nat inum) s) (\<lambda>ip s. Done (Some ip) s)))
       else obind (brelse bp s) (\<lambda>_ s. ialloc_loop dev type inums s))"

definition ialloc :: "u32 \<Rightarrow> u16 \<Rightarrow> 'a fs_state_scheme \<Rightarrow> (nat option, 'a fs_state_scheme) outcome" where
  "ialloc dev type s = ialloc_loop dev type [1..<unat (sb_ninodes (sb s))] s"

definition dinode_of :: "inode \<Rightarrow> dinode" where
  "dinode_of ip = \<lparr>di_type = i_type ip, di_major = i_major ip, di_minor = i_minor ip, di_nlink = i_nlink ip,
     di_size = i_size ip, di_addrs = i_addrs ip\<rparr>"

definition iupdate :: "nat \<Rightarrow> 'a fs_state_scheme \<Rightarrow> (unit, 'a fs_state_scheme) outcome" where
  "iupdate ip s =
     (let i = inode_at s ip in
      obind (bread (i_dev i) (IBLOCK (i_inum i) s) s) (\<lambda>bp s.
      let s = upd_data bp (put_dinode (unat (i_inum i) mod IPB) (dinode_of i)) s in
      obind (log_write bp s) (\<lambda>_ s. brelse bp s)))"

definition ilock :: "nat \<Rightarrow> 'a fs_state_scheme \<Rightarrow> (unit, 'a fs_state_scheme) outcome" where
  "ilock ip s =
     (if i_ref (inode_at s ip) < 1 then Panic ''ilock''
      else
        obind (acquiresleep (ChInodeLock ip) (inode_lock ip) (upd_inode_lock ip) s) (\<lambda>_ s.
        let i = inode_at s ip in
        if i_valid i = 0 then
          obind (bread (i_dev i) (IBLOCK (i_inum i) s) s) (\<lambda>bp s.
          let d = get_dinode (b_data (buf_at s bp)) (unat (i_inum i) mod IPB);
              s = set_inode ip (\<lambda>i. i\<lparr>i_type := di_type d, i_major := di_major d, i_minor := di_minor d,
                    i_nlink := di_nlink d, i_size := di_size d, i_addrs := di_addrs d\<rparr>) s
          in obind (brelse bp s) (\<lambda>_ s.
          let s = set_inode ip (i_valid_update (\<lambda>_. 1)) s in
          if i_type (inode_at s ip) = 0 then Panic ''ilock: no type'' else Done () s))
        else Done () s))"

definition iunlock :: "nat \<Rightarrow> 'a fs_state_scheme \<Rightarrow> (unit, 'a fs_state_scheme) outcome" where
  "iunlock ip s =
     (if \<not> holdingsleep (inode_lock ip) s \<or> i_ref (inode_at s ip) < 1 then Panic ''iunlock''
      else Done () (releasesleep (ChInodeLock ip) (upd_inode_lock ip) s))"

section \<open>File contents\<close>

definition bmap :: "nat \<Rightarrow> nat \<Rightarrow> 'a fs_state_scheme \<Rightarrow> (u32, 'a fs_state_scheme) outcome" where
  "bmap ip bn s =
     (if bn < NDIRECT then
        let addr = i_addrs (inode_at s ip) ! bn in
        if addr = 0 then
          obind (balloc (i_dev (inode_at s ip)) s) (\<lambda>addr s.
            if addr = 0 then Done 0 s
            else Done addr (set_inode ip (\<lambda>i. i\<lparr>i_addrs := (i_addrs i)[bn := addr]\<rparr>) s))
        else Done addr s
      else
        let bn = bn - NDIRECT in
        if bn < NINDIRECT then
          let addr = i_addrs (inode_at s ip) ! NDIRECT in
          obind (if addr = 0 then
                   obind (balloc (i_dev (inode_at s ip)) s) (\<lambda>addr s.
                     if addr = 0 then Done 0 s
                     else Done addr (set_inode ip (\<lambda>i. i\<lparr>i_addrs := (i_addrs i)[NDIRECT := addr]\<rparr>) s))
                 else Done addr s) (\<lambda>addr s.
          if addr = 0 then Done 0 s
          else
            obind (bread (i_dev (inode_at s ip)) addr s) (\<lambda>bp s.
            let addr = ld32 (b_data (buf_at s bp)) bn in
            if addr = 0 then
              obind (balloc (i_dev (inode_at s ip)) s) (\<lambda>addr s.
              obind (if addr \<noteq> 0 then log_write bp (upd_data bp (\<lambda>a. st32 a bn addr) s) else Done () s) (\<lambda>_ s.
              obind (brelse bp s) (\<lambda>_ s. Done addr s)))
            else obind (brelse bp s) (\<lambda>_ s. Done addr s)))
        else Panic ''bmap: out of range'')"

fun itrunc_direct :: "nat \<Rightarrow> nat list \<Rightarrow> 'a fs_state_scheme \<Rightarrow> (unit, 'a fs_state_scheme) outcome" where
  "itrunc_direct ip [] s = Done () s"
| "itrunc_direct ip (i # is) s =
     (let addr = i_addrs (inode_at s ip) ! i in
      if addr \<noteq> 0 then
        obind (bfree (i_dev (inode_at s ip)) addr s) (\<lambda>_ s.
        itrunc_direct ip is (set_inode ip (\<lambda>n. n\<lparr>i_addrs := (i_addrs n)[i := 0]\<rparr>) s))
      else itrunc_direct ip is s)"

fun itrunc_indirect :: "u32 \<Rightarrow> nat \<Rightarrow> nat list \<Rightarrow> 'a fs_state_scheme \<Rightarrow> (unit, 'a fs_state_scheme) outcome" where
  "itrunc_indirect dev bp [] s = Done () s"
| "itrunc_indirect dev bp (j # js) s =
     (let a = ld32 (b_data (buf_at s bp)) j in
      if a \<noteq> 0 then obind (bfree dev a s) (\<lambda>_ s. itrunc_indirect dev bp js s) else itrunc_indirect dev bp js s)"

definition itrunc :: "nat \<Rightarrow> 'a fs_state_scheme \<Rightarrow> (unit, 'a fs_state_scheme) outcome" where
  "itrunc ip s =
     obind (itrunc_direct ip [0..<NDIRECT] s) (\<lambda>_ s.
     let dev = i_dev (inode_at s ip); addr = i_addrs (inode_at s ip) ! NDIRECT in
     obind (if addr \<noteq> 0 then
              obind (bread dev addr s) (\<lambda>bp s.
              obind (itrunc_indirect dev bp [0..<NINDIRECT] s) (\<lambda>_ s.
              obind (brelse bp s) (\<lambda>_ s.
              obind (bfree dev addr s) (\<lambda>_ s.
              Done () (set_inode ip (\<lambda>n. n\<lparr>i_addrs := (i_addrs n)[NDIRECT := 0]\<rparr>) s)))))
            else Done () s) (\<lambda>_ s.
     iupdate ip (set_inode ip (i_size_update (\<lambda>_. 0)) s)))"

definition iput :: "nat \<Rightarrow> 'a fs_state_scheme \<Rightarrow> (unit, 'a fs_state_scheme) outcome" where
  "iput ip s =
     obind (if i_ref (inode_at s ip) = 1 \<and> i_valid (inode_at s ip) \<noteq> 0 \<and> i_nlink (inode_at s ip) = 0 then
              obind (acquiresleep (ChInodeLock ip) (inode_lock ip) (upd_inode_lock ip) s) (\<lambda>_ s.
              obind (itrunc ip s) (\<lambda>_ s.
              obind (iupdate ip (set_inode ip (i_type_update (\<lambda>_. 0)) s)) (\<lambda>_ s.
              Done () (releasesleep (ChInodeLock ip) (upd_inode_lock ip) (set_inode ip (i_valid_update (\<lambda>_. 0)) s)))))
            else Done () s) (\<lambda>_ s.
     Done () (set_inode ip (\<lambda>i. i\<lparr>i_ref := i_ref i - 1\<rparr>) s))"

definition iunlockput :: "nat \<Rightarrow> 'a fs_state_scheme \<Rightarrow> (unit, 'a fs_state_scheme) outcome" where
  "iunlockput ip s = obind (iunlock ip s) (\<lambda>_ s. iput ip s)"

fun ireclaim_loop :: "u32 \<Rightarrow> nat list \<Rightarrow> 'a fs_state_scheme \<Rightarrow> (unit, 'a fs_state_scheme) outcome" where
  "ireclaim_loop dev [] s = Done () s"
| "ireclaim_loop dev (inum # inums) s =
     obind (bread dev (IBLOCK (of_nat inum) s) s) (\<lambda>bp s.
     let d = get_dinode (b_data (buf_at s bp)) (inum mod IPB) in
     obind (if di_type d \<noteq> 0 \<and> di_nlink d = 0 then
              obind (iget dev (of_nat inum) (kprintf ''ireclaim: orphaned inode %d\<newline>'' [VNum (of_nat inum)] s)) (\<lambda>ip s. Done (Some ip) s)
            else Done None s) (\<lambda>ip s.
     obind (brelse bp s) (\<lambda>_ s.
     obind (case ip of
              Some ip \<Rightarrow>
                obind (begin_op s) (\<lambda>_ s.
                obind (ilock ip s) (\<lambda>_ s.
                obind (iunlock ip s) (\<lambda>_ s.
                obind (iput ip s) (\<lambda>_ s. end_op s))))
            | None \<Rightarrow> Done () s) (\<lambda>_ s.
     ireclaim_loop dev inums s))))"

definition ireclaim :: "u32 \<Rightarrow> 'a fs_state_scheme \<Rightarrow> (unit, 'a fs_state_scheme) outcome" where
  "ireclaim dev s = ireclaim_loop dev [1..<unat (sb_ninodes (sb s))] s"

definition fsinit :: "u32 \<Rightarrow> 'a fs_state_scheme \<Rightarrow> (unit, 'a fs_state_scheme) outcome" where
  "fsinit dev s =
     obind (readsb dev s) (\<lambda>_ s.
     if sb_magic (sb s) \<noteq> FSMAGIC then Panic ''invalid file system''
     else obind (initlog dev (sb_logstart (sb s)) s) (\<lambda>_ s. ireclaim dev s))"

definition stati :: "nat \<Rightarrow> 'a fs_state_scheme \<Rightarrow> stat" where
  "stati ip s = (let i = inode_at s ip in
     \<lparr>stat_dev = i_dev i, stat_ino = i_inum i, stat_type = i_type i, stat_nlink = i_nlink i, stat_size = ucast (i_size i)\<rparr>)"

text \<open>
  The loop of \<^verbatim>\<open>readi\<close> with \<open>n\<close> bytes left. The result is the bytes it has copied to \<open>dst\<close>, or \<^const>\<open>None\<close>
  when the copy failed; \<^verbatim>\<open>tot\<close> is their number.
\<close>

function readi_loop :: "nat \<Rightarrow> place \<Rightarrow> nat \<Rightarrow> nat \<Rightarrow> 'a fs_state_scheme \<Rightarrow> (u8 list option, 'a fs_state_scheme) outcome" where
  "readi_loop ip dst off n s =
     (if n = 0 then Done (Some []) s
      else
        obind (bmap ip (off div BSIZE) s) (\<lambda>addr s.
        if addr = 0 then Done (Some []) s
        else
          obind (bread (i_dev (inode_at s ip)) addr s) (\<lambda>bp s.
          let m = min n (BSIZE - off mod BSIZE); bs = page_read (b_data (buf_at s bp)) (off mod BSIZE) m in
          obind (either_copyout dst bs s) (\<lambda>r s.
          if r = -1 then obind (brelse bp s) (\<lambda>_ s. Done None s)
          else
            obind (brelse bp s) (\<lambda>_ s.
            obind (readi_loop ip (place_add dst m) (off + m) (n - m) s) (\<lambda>rest s.
            Done (map_option (\<lambda>r. bs @ r) rest) s))))))"
  by pat_completeness auto
termination
  by (relation "measure (\<lambda>(ip, dst, off, n, s). n)") auto

declare readi_loop.simps [simp del]

definition readi :: "nat \<Rightarrow> place \<Rightarrow> u32 \<Rightarrow> u32 \<Rightarrow> 'a fs_state_scheme \<Rightarrow> (int \<times> u8 list, 'a fs_state_scheme) outcome" where
  "readi ip dst off n s =
     (let size = i_size (inode_at s ip) in
      if off > size \<or> off + n < off then Done (0, []) s
      else
        let n = (if off + n > size then size - off else n) in
        obind (readi_loop ip dst (unat off) (unat n) s) (\<lambda>r s.
        case r of None \<Rightarrow> Done (-1, []) s | Some bs \<Rightarrow> Done (wrap32 (int (length bs)), bs) s))"

text \<open>
  The loop of \<^verbatim>\<open>writei\<close>; \<open>kb\<close> are the bytes of a kernel source. The result is \<^verbatim>\<open>tot\<close>. When the copy from
  user memory fails half way, the bytes copied so far stay in the buffer.
\<close>

function writei_loop :: "nat \<Rightarrow> place \<Rightarrow> u8 list \<Rightarrow> nat \<Rightarrow> nat \<Rightarrow> 'a fs_state_scheme \<Rightarrow> (nat, 'a fs_state_scheme) outcome" where
  "writei_loop ip src kb off n s =
     (if n = 0 then Done 0 s
      else
        obind (bmap ip (off div BSIZE) s) (\<lambda>addr s.
        if addr = 0 then Done 0 s
        else
          obind (bread (i_dev (inode_at s ip)) addr s) (\<lambda>bp s.
          let m = min n (BSIZE - off mod BSIZE) in
          obind (either_copyin src kb m s) (\<lambda>(r, bs) s.
          let s = upd_data bp (\<lambda>d. page_write d (off mod BSIZE) bs) s in
          if r = -1 then obind (brelse bp s) (\<lambda>_ s. Done 0 s)
          else
            obind (log_write bp s) (\<lambda>_ s.
            obind (brelse bp s) (\<lambda>_ s.
            obind (writei_loop ip (place_add src m) (drop m kb) (off + m) (n - m) s) (\<lambda>tot s. Done (m + tot) s)))))))"
  by pat_completeness auto
termination
  by (relation "measure (\<lambda>(ip, src, kb, off, n, s). n)") auto

declare writei_loop.simps [simp del]

definition writei :: "nat \<Rightarrow> place \<Rightarrow> u8 list \<Rightarrow> u32 \<Rightarrow> u32 \<Rightarrow> 'a fs_state_scheme \<Rightarrow> (int, 'a fs_state_scheme) outcome" where
  "writei ip src kb off n s =
     (if off > i_size (inode_at s ip) \<or> off + n < off then Done (-1) s
      else if unat (off + n) > MAXFILE * BSIZE then Done (-1) s
      else
        obind (writei_loop ip src kb (unat off) (unat n) s) (\<lambda>tot s.
        let off' = off + of_nat tot;
            s = (if off' > i_size (inode_at s ip) then set_inode ip (i_size_update (\<lambda>_. off')) s else s)
        in obind (iupdate ip s) (\<lambda>_ s. Done (wrap32 (int tot)) s)))"

section \<open>Directories\<close>

type_synonym name = "nat \<Rightarrow> u8"

text \<open>Two strings as arguments of a function of \<^verbatim>\<open>string.c\<close>: the first at address 0, the second at 14.\<close>

definition two_names :: "name \<Rightarrow> name \<Rightarrow> bytes" where
  "two_names s t = (\<lambda>i. if i < DIRSIZ then s i else t (i - DIRSIZ))"

definition namecmp :: "name \<Rightarrow> name \<Rightarrow> int" where
  "namecmp s t = strncmp 0 DIRSIZ DIRSIZ (two_names s t)"

text \<open>A \<^verbatim>\<open>struct dirent\<close> as its 16 bytes.\<close>

definition de_inum :: "u8 list \<Rightarrow> u16" where
  "de_inum bs = ld16 (\<lambda>i. bs ! i) 0"

definition de_name :: "u8 list \<Rightarrow> name" where
  "de_name bs = (\<lambda>i. bs ! (2 + i))"

definition dirent :: "u16 \<Rightarrow> name \<Rightarrow> u8 list" where
  "dirent inum name = [ucast inum, ucast (drop_bit 8 inum)] @ map name [0..<DIRSIZ]"

text \<open>
  The loops over the entries of a directory; \<open>sz\<close> is \<^verbatim>\<open>dp->size\<close>, which \<^verbatim>\<open>readi\<close> does not change. The
  second result of \<^verbatim>\<open>dirlookup\<close> is what it stores in \<^verbatim>\<open>*poff\<close>.
\<close>

function dirlookup_loop :: "nat \<Rightarrow> name \<Rightarrow> nat \<Rightarrow> nat \<Rightarrow> 'a fs_state_scheme \<Rightarrow> ((nat \<times> nat) option, 'a fs_state_scheme) outcome" where
  "dirlookup_loop dp name sz off s =
     (if off < sz then
        obind (readi dp Var (of_nat off) 16 s) (\<lambda>(r, de) s.
        if r \<noteq> 16 then Panic ''dirlookup read''
        else if de_inum de = 0 then dirlookup_loop dp name sz (off + 16) s
        else if namecmp name (de_name de) = 0 then
          obind (iget (i_dev (inode_at s dp)) (ucast (de_inum de)) s) (\<lambda>ip s. Done (Some (ip, off)) s)
        else dirlookup_loop dp name sz (off + 16) s)
      else Done None s)"
  by pat_completeness auto
termination
  by (relation "measure (\<lambda>(dp, name, sz, off, s). sz - off)") auto

declare dirlookup_loop.simps [simp del]

definition dirlookup :: "nat \<Rightarrow> name \<Rightarrow> 'a fs_state_scheme \<Rightarrow> ((nat \<times> nat) option, 'a fs_state_scheme) outcome" where
  "dirlookup dp name s =
     (if i_type (inode_at s dp) \<noteq> T_DIR then Panic ''dirlookup not DIR''
      else dirlookup_loop dp name (unat (i_size (inode_at s dp))) 0 s)"

function dirlink_loop :: "nat \<Rightarrow> nat \<Rightarrow> nat \<Rightarrow> 'a fs_state_scheme \<Rightarrow> (nat, 'a fs_state_scheme) outcome" where
  "dirlink_loop dp sz off s =
     (if off < sz then
        obind (readi dp Var (of_nat off) 16 s) (\<lambda>(r, de) s.
        if r \<noteq> 16 then Panic ''dirlink read''
        else if de_inum de = 0 then Done off s
        else dirlink_loop dp sz (off + 16) s)
      else Done off s)"
  by pat_completeness auto
termination
  by (relation "measure (\<lambda>(dp, sz, off, s). sz - off)") auto

declare dirlink_loop.simps [simp del]

definition dirlink :: "nat \<Rightarrow> name \<Rightarrow> u32 \<Rightarrow> 'a fs_state_scheme \<Rightarrow> (int, 'a fs_state_scheme) outcome" where
  "dirlink dp name inum s =
     obind (dirlookup dp name s) (\<lambda>found s.
     case found of
       Some (ip, _) \<Rightarrow> obind (iput ip s) (\<lambda>_ s. Done (-1) s)
     | None \<Rightarrow>
         obind (dirlink_loop dp (unat (i_size (inode_at s dp))) 0 s) (\<lambda>off s.
         let de = dirent (ucast inum) (strncpy 0 DIRSIZ (int DIRSIZ) (two_names (\<lambda>_. 0) name)) in
         obind (writei dp Var de (of_nat off) 16 s) (\<lambda>r s. Done (if r \<noteq> 16 then -1 else 0) s)))"

section \<open>Paths\<close>

text \<open>A path is its bytes before the NUL. \<^verbatim>\<open>skipelem\<close> returns the rest of the path and the new \<^verbatim>\<open>name\<close>.\<close>

definition skipelem :: "u8 list \<Rightarrow> name \<Rightarrow> (u8 list \<times> name) option" where
  "skipelem path name =
     (let path = dropWhile (\<lambda>c. c = 47) path in
      if path = [] then None
      else
        let s = takeWhile (\<lambda>c. c \<noteq> 47) path; path = dropWhile (\<lambda>c. c \<noteq> 47) path; len = length s;
            name = (if len \<ge> DIRSIZ then page_write name 0 (take DIRSIZ s) else (page_write name 0 s)(len := 0))
        in Some (dropWhile (\<lambda>c. c = 47) path, name))"

lemma skipelem_shorter: "skipelem path name = Some (path', name') \<Longrightarrow> length path' < length path"
proof -
  assume a: "skipelem path name = Some (path', name')"
  let ?p = "dropWhile (\<lambda>c. c = 47) path"
  have ne: "?p \<noteq> []" and path': "path' = dropWhile (\<lambda>c. c = 47) (dropWhile (\<lambda>c. c \<noteq> 47) ?p)"
    using a by (auto simp: skipelem_def Let_def split: if_splits)
  have "hd ?p \<noteq> 47" using hd_dropWhile [OF ne] .
  then have "length (dropWhile (\<lambda>c. c \<noteq> 47) ?p) < length ?p" using ne by (cases ?p) (auto simp: length_dropWhile_le le_imp_less_Suc)
  then show ?thesis unfolding path' using length_dropWhile_le [of "\<lambda>c. c = 47" path] length_dropWhile_le [of "\<lambda>c. c = 47" "dropWhile (\<lambda>c. c \<noteq> 47) ?p"] by linarith
qed

function namex_loop :: "nat \<Rightarrow> u8 list \<Rightarrow> bool \<Rightarrow> name \<Rightarrow> 'a fs_state_scheme \<Rightarrow> (nat option \<times> name, 'a fs_state_scheme) outcome" where
  "namex_loop ip path parent name s =
     (case skipelem path name of
        Some (path, name) \<Rightarrow>
          obind (ilock ip s) (\<lambda>_ s.
          if i_type (inode_at s ip) \<noteq> T_DIR then obind (iunlockput ip s) (\<lambda>_ s. Done (None, name) s)
          else if parent \<and> path = [] then obind (iunlock ip s) (\<lambda>_ s. Done (Some ip, name) s)
          else
            obind (dirlookup ip name s) (\<lambda>next s.
            case next of
              None \<Rightarrow> obind (iunlockput ip s) (\<lambda>_ s. Done (None, name) s)
            | Some (next, _) \<Rightarrow> obind (iunlockput ip s) (\<lambda>_ s. namex_loop next path parent name s)))
      | None \<Rightarrow>
          if parent then obind (iput ip s) (\<lambda>_ s. Done (None, name) s)
          else Done (Some ip, name) s)"
  by pat_completeness auto
termination
  by (relation "measure (\<lambda>(ip, path, parent, name, s). length path)") (auto dest: skipelem_shorter)

declare namex_loop.simps [simp del]

text \<open>Without a current directory the kernel faults on the null pointer.\<close>

definition namex :: "u8 list \<Rightarrow> bool \<Rightarrow> name \<Rightarrow> 'a fs_state_scheme \<Rightarrow> (nat option \<times> name, 'a fs_state_scheme) outcome" where
  "namex path parent name s =
     (if path \<noteq> [] \<and> hd path = 47 then obind (iget ROOTDEV ROOTINO s) (\<lambda>ip s. namex_loop ip path parent name s)
      else
        case p_cwd (proc_at s (cur s)) of
          None \<Rightarrow> Panic ''kerneltrap''
        | Some ip \<Rightarrow> namex_loop ip path parent name (idup ip s))"

definition namei :: "u8 list \<Rightarrow> 'a fs_state_scheme \<Rightarrow> (nat option, 'a fs_state_scheme) outcome" where
  "namei path s = obind (namex path False (\<lambda>_. 0) s) (\<lambda>(ip, _) s. Done ip s)"

definition nameiparent :: "u8 list \<Rightarrow> name \<Rightarrow> 'a fs_state_scheme \<Rightarrow> (nat option \<times> name, 'a fs_state_scheme) outcome" where
  "nameiparent path name s = namex path True name s"

interpretation il: sleeplock_at "ChInodeLock i" "inode_lock i" "upd_inode_lock i" "\<lambda>s. i < length (inodes s)" for i :: nat
  by unfold_locales (simp_all add: set_inode_def)

end
