(* ===== verification/Txn.thy ===== *)
theory Txn
  imports Fs
begin

text \<open>
  Reading and changing blocks inside a transaction: what \<^verbatim>\<open>bread\<close>, a change of the buffer's data,
  \<^verbatim>\<open>log_write\<close> and \<^verbatim>\<open>brelse\<close> do to the contents of the blocks, and that nothing else of the state
  changes. The file system code is verified over the contents alone.
\<close>

section \<open>Frames\<close>

definition tx_frame :: "'a log_state_scheme \<Rightarrow> 'a log_state_scheme \<Rightarrow> bool" where
  "tx_frame s t \<longleftrightarrow> (\<exists>bs l ps out b n f. t = s\<lparr>bufs := bs, lru := l, procs := ps, uart_out := out, uart_idle := b,
     lh_n := n, lh_block := f\<rparr> \<and> same_procs s ps)"

lemma tx_frameI:
  "t = s\<lparr>bufs := bs, lru := l, procs := ps, uart_out := out, uart_idle := b, lh_n := n, lh_block := f\<rparr> \<Longrightarrow>
    same_procs s ps \<Longrightarrow> tx_frame s t"
  unfolding tx_frame_def by blast

lemma tx_frame_trans:
  assumes "tx_frame s t" "tx_frame t u"
  shows "tx_frame s u"
proof -
  obtain bs l ps out b n f where t: "t = s\<lparr>bufs := bs, lru := l, procs := ps, uart_out := out, uart_idle := b,
      lh_n := n, lh_block := f\<rparr>" "same_procs s ps"
    using assms(1) by (auto simp: tx_frame_def)
  obtain bs' l' ps' out' b' n' f' where u: "u = t\<lparr>bufs := bs', lru := l', procs := ps', uart_out := out', uart_idle := b',
      lh_n := n', lh_block := f'\<rparr>" "same_procs t ps'"
    using assms(2) by (auto simp: tx_frame_def)
  have "same_procs s ps'"
    by (rule same_procs_trans [OF t(2) u(2)]) (simp_all add: t(1) myproc_def mycpu_def cpuid_def)
  then show ?thesis
    by (intro tx_frameI [where bs = bs' and l = l' and ps = ps' and out = out' and b = b' and n = n' and f = f']) (simp_all add: t u)
qed

lemma tx_frame_refl: "tx_frame s s"
  by (rule tx_frameI [OF _ same_procs_refl, where bs = "bufs s" and l = "lru s" and out = "uart_out s" and
    b = "uart_idle s" and n = "lh_n s" and f = "lh_block s"]) simp

lemma tx_frame_put: "tx_frame s ((put_buf b B s)\<lparr>lh_n := n, lh_block := f\<rparr>)"
  by (rule tx_frameI [OF _ same_procs_refl, where bs = "(bufs s)[b := B]" and l = "lru s" and out = "uart_out s" and
    b = "uart_idle s" and n = n and f = f]) (simp add: put_buf_def)

lemma tx_frame_put_buf: "tx_frame s (put_buf b B s)"
  by (rule tx_frameI [OF _ same_procs_refl, where bs = "(bufs s)[b := B]" and l = "lru s" and out = "uart_out s" and
    b = "uart_idle s" and n = "lh_n s" and f = "lh_block s"]) (simp add: put_buf_def)

lemma tx_frame_out: "tx_frame s (s\<lparr>uart_out := out, uart_idle := b\<rparr>)"
  by (rule tx_frameI [OF _ same_procs_refl, where bs = "bufs s" and l = "lru s" and out = out and
    b = b and n = "lh_n s" and f = "lh_block s"]) simp

lemma tx_frame_io:
  assumes "io_frame s t" "disk t = disk s" "disk_writes t = disk_writes s"
  shows "tx_frame s t"
proof -
  obtain bs l ps d w out b where t: "t = s\<lparr>bufs := bs, lru := l, procs := ps, disk := d, disk_writes := w,
      uart_out := out, uart_idle := b\<rparr>" "same_procs s ps"
    using assms(1) by (auto simp: io_frame_def)
  then have "d = disk s" "w = disk_writes s" using assms(2,3) by simp_all
  then show ?thesis using t
    by (intro tx_frameI [where bs = bs and l = l and ps = ps and out = out and b = b and n = "lh_n s" and f = "lh_block s"]) simp_all
qed

lemma tx_frame_facts:
  assumes "tx_frame s t"
  shows "disk t = disk s" "disk_writes t = disk_writes s" "log_dev t = log_dev s" "log_outstanding t = log_outstanding s"
    "log_start t = log_start s" "log_committing t = log_committing s" "mem t = mem s" "myproc t = myproc s"
    "running t = running s" "length (procs t) = length (procs s)"
  using assms by (auto simp: tx_frame_def same_procs_def myproc_def mycpu_def cpuid_def running_def)

lemma tx_frame_cur: "tx_frame s t \<Longrightarrow> running s \<Longrightarrow> proc_at t (cur s) = proc_at s (cur s)"
  by (auto simp: tx_frame_def same_procs_def running_def)

lemma tx_frame_fs:
  assumes "tx_frame s t"
  shows "sb t = sb s" "inodes t = inodes s"
  using assms by (auto simp: tx_frame_def)

section \<open>Reading\<close>

text \<open>
  \<open>lg H P s\<close> is what reading needs: \<open>tx H P s\<close> apart from being inside a transaction, as in \<^verbatim>\<open>fileread\<close>.
\<close>

definition lg :: "nat set \<Rightarrow> nat set \<Rightarrow> 'a log_state_scheme \<Rightarrow> bool" where
  "lg H P s \<longleftrightarrow> bc_inv H P s \<and> running s \<and> log_dev s \<noteq> 0 \<and> 0 \<le> lh_n s \<and>
     pinned_for {..<nat (lh_n s)} P s \<and> inj_on (lh_block s) {..<nat (lh_n s)}"

lemma tx_lg: "tx H P s \<longleftrightarrow> lg H P s \<and> 1 \<le> log_outstanding s"
  by (auto simp: tx_def lg_def)

lemma lgD:
  assumes "lg H P s"
  shows "bc_inv H P s" "running s" "log_dev s \<noteq> 0" "0 \<le> lh_n s"
    "pinned_for {..<nat (lh_n s)} P s" "inj_on (lh_block s) {..<nat (lh_n s)}"
  using assms by (simp_all add: lg_def)

lemma txD:
  assumes "tx H P s"
  shows "bc_inv H P s" "running s" "log_dev s \<noteq> 0" "1 \<le> log_outstanding s" "0 \<le> lh_n s"
    "pinned_for {..<nat (lh_n s)} P s" "inj_on (lh_block s) {..<nat (lh_n s)}"
  using assms by (simp_all add: tx_def)

lemma lg_card:
  assumes "lg H P s"
  shows "int (card P) = lh_n s"
proof -
  note D = lgD [OF assms]
  have "card P = nat (lh_n s)" by (rule pinned_card [OF D(5,6,1,3)])
  then show ?thesis using D(4) by simp
qed

text \<open>A buffer for one more block: the pinned and the held buffers do not fill the cache.\<close>

lemma lg_room: "lg H P s \<Longrightarrow> lh_n s + int (card H) < 30 \<Longrightarrow> card (H \<union> P) < NBUF"
  using lg_card [of H P s] card_Un_le [of H P] by linarith

lemma pinned_for_put:
  assumes "pinned_for I P s" "b < length (bufs s)" "b \<in> P \<Longrightarrow> b_dev B = b_dev (buf_at s b) \<and> b_blockno B = b_blockno (buf_at s b)"
  shows "pinned_for I P (put_buf b B s)"
proof -
  have "pinned_for I P (put_buf b B s) = pinned_for I P s"
    using assms(2,3) by (intro pinned_for_cong) (auto simp: buf_at_put)
  then show ?thesis using assms(1) by simp
qed

lemma lg_bread:
  fixes s :: "'a log_state_scheme"
  assumes lg: "lg H P s" and room: "lh_n s + int (card H) < 30"
    and nh: "\<And>i. i \<in> H \<Longrightarrow> b_blockno (buf_at s i) \<noteq> bno"
  obtains (ok) b t where "bread (log_dev s) bno s = Done b t" "b \<notin> H" "lg (insert b H) P t" "tx_frame s t"
    "b_dev (buf_at t b) = log_dev s" "b_blockno (buf_at t b) = bno" "b_data (buf_at t b) = content s (log_dev s) bno"
    "\<And>d n. d \<noteq> 0 \<Longrightarrow> content t d n = content s d n" "lh_n t = lh_n s" "\<And>i. i \<in> H \<Longrightarrow> buf_at t i = buf_at s i"
    "b \<notin> P \<Longrightarrow> content s (log_dev s) bno = disk s (log_dev s) bno"
proof -
  note D = lgD [OF lg]
  note len = bc_inv_len(1) [OF D(1)]
  obtain b B where r: "bread (log_dev s) bno s = Done b (put_buf b B s)" "b < NBUF" "b \<notin> H"
    "bc_inv (insert b H) P (put_buf b B s)" "b_dev B = log_dev s" "b_blockno B = bno" "b_data B = content s (log_dev s) bno"
    "\<And>d n. d \<noteq> 0 \<Longrightarrow> content (put_buf b B s) d n = content s d n"
    "b \<in> P \<Longrightarrow> b_dev (buf_at s b) = log_dev s \<and> b_blockno (buf_at s b) = bno"
    by (rule bread_spec [OF D(1,3) disjI1 [OF lg_room [OF lg room]], of bno]) (use nh in blast, rule that)
  have bl: "b < length (bufs s)" using r(2) len by simp
  have at: "buf_at (put_buf b B s) i = (if i = b then B else buf_at s i)" for i by (rule buf_at_put [OF bl])
  have pf: "pinned_for {..<nat (lh_n s)} P (put_buf b B s)"
    by (rule pinned_for_put [OF D(5) bl]) (use r(5,6,9) in simp)
  have t: "lg (insert b H) P (put_buf b B s)"
    using D r(4) pf by (simp add: lg_def)
  have clean: "content s (log_dev s) bno = disk s (log_dev s) bno" if bp: "b \<notin> P"
  proof (rule content_cases [OF D(1,3), of bno], goal_cases)
    case (1 i)
    have "i = b"
    proof (rule ccontr)
      assume ne: "i \<noteq> b"
      then show False using bc_invD(6) [OF r(4,2) 1(1) ne] D(3) r(5,6) 1(3,4) by (simp add: at)
    qed
    then show ?case using bc_invD(5) [OF D(1) 1(1)] bp r(3) 1 by simp
  next
    case 2
    then show ?case by simp
  qed
  show thesis
    by (rule ok [OF r(1,3) t tx_frame_put_buf]) (use r at clean in auto)
qed

lemma tx_lgI: "tx H P s \<Longrightarrow> tx_frame s t \<Longrightarrow> lg H' P' t \<Longrightarrow> tx H' P' t"
  using tx_frame_facts(4) [of s t] by (simp add: tx_lg)

lemma tx_bread:
  fixes s :: "'a log_state_scheme"
  assumes tx: "tx H P s" and room: "lh_n s + int (card H) < 30"
    and nh: "\<And>i. i \<in> H \<Longrightarrow> b_blockno (buf_at s i) \<noteq> bno"
  obtains (ok) b t where "bread (log_dev s) bno s = Done b t" "b \<notin> H" "tx (insert b H) P t" "tx_frame s t"
    "b_dev (buf_at t b) = log_dev s" "b_blockno (buf_at t b) = bno" "b_data (buf_at t b) = content s (log_dev s) bno"
    "\<And>d n. d \<noteq> 0 \<Longrightarrow> content t d n = content s d n" "lh_n t = lh_n s" "\<And>i. i \<in> H \<Longrightarrow> buf_at t i = buf_at s i"
    "b \<notin> P \<Longrightarrow> content s (log_dev s) bno = disk s (log_dev s) bno"
proof -
  have lg: "lg H P s" using tx by (simp add: tx_lg)
  show thesis
  proof (rule lg_bread [OF lg room nh], assumption, goal_cases)
    case (1 b t)
    show thesis by (rule ok [OF 1(1,2) tx_lgI [OF tx 1(4,3)] 1(4-11)])
  qed
qed

text \<open>Changing the data of a held buffer.\<close>

lemma tx_modify:
  fixes s :: "'a log_state_scheme"
  assumes tx: "tx H P s" and b: "b \<in> H" and dev: "b_dev (buf_at s b) = log_dev s"
  shows "tx H P (upd_data b f s)" "tx_frame s (upd_data b f s)" "lh_n (upd_data b f s) = lh_n s"
    "d \<noteq> 0 \<Longrightarrow> content (upd_data b f s) d n =
      (if d = log_dev s \<and> n = b_blockno (buf_at s b) then f (b_data (buf_at s b)) else content s d n)"
    "buf_at (upd_data b f s) i = (if i = b then (buf_at s b)\<lparr>b_data := f (b_data (buf_at s b))\<rparr> else buf_at s i)"
proof -
  note D = txD [OF tx]
  have lt: "b < length (bufs s)" using b bc_inv_len(1,3) [OF D(1)] by auto
  let ?B = "(buf_at s b)\<lparr>b_data := f (b_data (buf_at s b))\<rparr>"
  have u: "upd_data b f s = put_buf b ?B s" by (cases "buf_at s b") (simp add: upd_data_def set_buf_put)
  have "pinned_for {..<nat (lh_n s)} P (put_buf b ?B s)" by (rule pinned_for_put [OF D(6) lt]) simp
  then show "tx H P (upd_data b f s)" using D modify_spec(1) [OF D(1) b] unfolding u by (simp add: tx_def)
  show "tx_frame s (upd_data b f s)" unfolding u by (rule tx_frame_put_buf)
  show "lh_n (upd_data b f s) = lh_n s" by (simp add: u)
  show "content (upd_data b f s) d n =
      (if d = log_dev s \<and> n = b_blockno (buf_at s b) then f (b_data (buf_at s b)) else content s d n)" if "d \<noteq> 0"
    using modify_spec(2) [OF D(1) b that] dev unfolding u by auto
  show "buf_at (upd_data b f s) i = (if i = b then ?B else buf_at s i)"
    unfolding u by (rule buf_at_put [OF lt])
qed

lemma tx_log_write:
  fixes s :: "'a log_state_scheme"
  assumes tx: "tx H P s" and b: "b \<in> H" and dev: "b_dev (buf_at s b) = log_dev s" and room: "lh_n s < 30"
  obtains (ok) t where "log_write b s = Done () t" "tx H (insert b P) t" "tx_frame s t"
    "\<And>d n. d \<noteq> 0 \<Longrightarrow> content t d n = content s d n" "lh_n s \<le> lh_n t" "lh_n t \<le> lh_n s + 1"
    "\<And>i. i \<noteq> b \<Longrightarrow> buf_at t i = buf_at s i"
    "b_dev (buf_at t b) = b_dev (buf_at s b)" "b_blockno (buf_at t b) = b_blockno (buf_at s b)" "b_data (buf_at t b) = b_data (buf_at s b)"
proof -
  have lt: "b < length (bufs s)" using b bc_inv_len(1,3) [OF txD(1) [OF tx]] by auto
  obtain n f B c where r: "log_write b s = Done () ((put_buf b B s)\<lparr>lh_n := n, lh_block := f\<rparr>)"
    "tx H (insert b P) ((put_buf b B s)\<lparr>lh_n := n, lh_block := f\<rparr>)"
    "\<forall>d m. d \<noteq> 0 \<longrightarrow> content ((put_buf b B s)\<lparr>lh_n := n, lh_block := f\<rparr>) d m = content s d m"
    "B = (buf_at s b)\<lparr>b_refcnt := c\<rparr>" "lh_n s \<le> n" "n \<le> lh_n s + 1"
    using log_write_spec [OF tx b dev room] by (elim exE conjE) (rule that)
  have at: "buf_at ((put_buf b B s)\<lparr>lh_n := n, lh_block := f\<rparr>) i = (if i = b then B else buf_at s i)" for i
    using lt by (simp add: put_buf_def nth_list_update)
  show thesis
    by (rule ok [OF r(1,2) tx_frame_put]) (use r(3-6) at in auto)
qed

lemma lg_brelse:
  fixes s :: "'a log_state_scheme"
  assumes lg: "lg H P s" and b: "b \<in> H" and dev: "b_dev (buf_at s b) = log_dev s"
    and clean: "b \<in> P \<or> b_data (buf_at s b) = disk s (log_dev s) (b_blockno (buf_at s b))"
  obtains (ok) t where "brelse b s = Done () t" "lg (H - {b}) P t" "tx_frame s t"
    "\<And>d n. d \<noteq> 0 \<Longrightarrow> content t d n = content s d n" "lh_n t = lh_n s" "\<And>i. i \<noteq> b \<Longrightarrow> buf_at t i = buf_at s i"
proof -
  note D = lgD [OF lg]
  have cl: "b \<in> P \<or> b_data (buf_at s b) = disk s (b_dev (buf_at s b)) (b_blockno (buf_at s b))" using clean dev by simp
  obtain t where t: "brelse b s = Done () t" "bc_inv (H - {b}) P t" "io_frame s t" "disk t = disk s" "disk_writes t = disk_writes s"
    "\<And>d n. d \<noteq> 0 \<Longrightarrow> content t d n = content s d n" "\<And>i. i \<noteq> b \<Longrightarrow> buf_at t i = buf_at s i"
    "b_dev (buf_at t b) = b_dev (buf_at s b)" "b_blockno (buf_at t b) = b_blockno (buf_at s b)"
    by (rule brelse_spec [OF D(1) b D(2) cl]) (rule that)
  note fr = io_frame_log [OF t(3)]
  have "pinned_for {..<nat (lh_n t)} P t = pinned_for {..<nat (lh_n t)} P s"
    by (rule pinned_for_cong) (use t(7-9) fr in metis)+
  then have "lg (H - {b}) P t" using D t(2) fr io_frame_running [OF t(3)] by (simp add: lg_def)
  then show thesis using t fr by (intro ok [OF t(1) _ tx_frame_io [OF t(3-5)]]) simp_all
qed

lemma tx_brelse:
  fixes s :: "'a log_state_scheme"
  assumes tx: "tx H P s" and b: "b \<in> H" and dev: "b_dev (buf_at s b) = log_dev s"
    and clean: "b \<in> P \<or> b_data (buf_at s b) = disk s (log_dev s) (b_blockno (buf_at s b))"
  obtains (ok) t where "brelse b s = Done () t" "tx (H - {b}) P t" "tx_frame s t"
    "\<And>d n. d \<noteq> 0 \<Longrightarrow> content t d n = content s d n" "lh_n t = lh_n s" "\<And>i. i \<noteq> b \<Longrightarrow> buf_at t i = buf_at s i"
proof -
  have lg: "lg H P s" using tx by (simp add: tx_lg)
  show thesis
  proof (rule lg_brelse [OF lg b dev clean], goal_cases)
    case (1 t)
    show thesis by (rule ok [OF 1(1) tx_lgI [OF tx 1(3,2)] 1(3-6)])
  qed
qed

section \<open>The two idioms of the file system code\<close>

text \<open>Read a block and give it back.\<close>

lemma lg_inspect:
  fixes s :: "'a log_state_scheme"
  assumes lg: "lg H P s" and room: "lh_n s + int (card H) < 30"
    and nh: "\<And>i. i \<in> H \<Longrightarrow> b_blockno (buf_at s i) \<noteq> bno"
  obtains (ok) b s1 t where "bread (log_dev s) bno s = Done b s1" "brelse b s1 = Done () t" "tx_frame s s1" "tx_frame s t"
    "b_data (buf_at s1 b) = content s (log_dev s) bno" "lg H P t"
    "\<And>d n. d \<noteq> 0 \<Longrightarrow> content t d n = content s d n" "lh_n t = lh_n s" "\<And>i. i \<in> H \<Longrightarrow> buf_at t i = buf_at s i"
proof -
  obtain b s1 where r: "bread (log_dev s) bno s = Done b s1" "b \<notin> H" "lg (insert b H) P s1" "tx_frame s s1"
    "b_dev (buf_at s1 b) = log_dev s" "b_blockno (buf_at s1 b) = bno" "b_data (buf_at s1 b) = content s (log_dev s) bno"
    "\<And>d n. d \<noteq> 0 \<Longrightarrow> content s1 d n = content s d n" "lh_n s1 = lh_n s" "\<And>i. i \<in> H \<Longrightarrow> buf_at s1 i = buf_at s i"
    "b \<notin> P \<Longrightarrow> content s (log_dev s) bno = disk s (log_dev s) bno"
    by (rule lg_bread [OF lg room nh]) (assumption, rule that)
  note f = tx_frame_facts [OF r(4)]
  have d1: "b_dev (buf_at s1 b) = log_dev s1" using r(5) f(3) by simp
  have cl: "b \<in> P \<or> b_data (buf_at s1 b) = disk s1 (log_dev s1) (b_blockno (buf_at s1 b))"
    using r(6,7,11) f(1,3) by auto
  obtain t where t: "brelse b s1 = Done () t" "lg (insert b H - {b}) P t" "tx_frame s1 t"
    "\<And>d n. d \<noteq> 0 \<Longrightarrow> content t d n = content s1 d n" "lh_n t = lh_n s1" "\<And>i. i \<noteq> b \<Longrightarrow> buf_at t i = buf_at s1 i"
    by (rule lg_brelse [OF r(3) insertI1 d1 cl]) (rule that)
  have H: "insert b H - {b} = H" using r(2) by auto
  show thesis
  proof (rule ok [OF r(1) t(1) r(4) tx_frame_trans [OF r(4) t(3)] r(7)])
    show "lg H P t" using t(2) by (simp add: H)
    show "content t d n = content s d n" if "d \<noteq> 0" for d n using r(8) t(4) that by simp
    show "lh_n t = lh_n s" using r(9) t(5) by simp
    show "buf_at t i = buf_at s i" if "i \<in> H" for i using that r(2,10) t(6) by metis
  qed
qed

lemma tx_inspect:
  fixes s :: "'a log_state_scheme"
  assumes tx: "tx H P s" and room: "lh_n s + int (card H) < 30"
    and nh: "\<And>i. i \<in> H \<Longrightarrow> b_blockno (buf_at s i) \<noteq> bno"
  obtains (ok) b s1 t where "bread (log_dev s) bno s = Done b s1" "brelse b s1 = Done () t" "tx_frame s s1" "tx_frame s t"
    "b_data (buf_at s1 b) = content s (log_dev s) bno" "tx H P t"
    "\<And>d n. d \<noteq> 0 \<Longrightarrow> content t d n = content s d n" "lh_n t = lh_n s" "\<And>i. i \<in> H \<Longrightarrow> buf_at t i = buf_at s i"
proof -
  have lg: "lg H P s" using tx by (simp add: tx_lg)
  show thesis
  proof (rule lg_inspect [OF lg room nh], assumption, goal_cases)
    case (1 b s1 t)
    show thesis by (rule ok [OF 1(1-5) tx_lgI [OF tx 1(4,6)] 1(7-9)])
  qed
qed

text \<open>Read a block, change it, log it and give it back.\<close>

definition update_block :: "u32 \<Rightarrow> u32 \<Rightarrow> (block \<Rightarrow> block) \<Rightarrow> 'a log_state_scheme \<Rightarrow> (unit, 'a log_state_scheme) outcome" where
  "update_block dev bno f s =
     obind (bread dev bno s) (\<lambda>bp s. obind (log_write bp (upd_data bp f s)) (\<lambda>_ s. brelse bp s))"

text \<open>What is left to do when the block is already read.\<close>

lemma tx_finish:
  fixes s :: "'a log_state_scheme"
  assumes tx: "tx (insert b H) P s" and b: "b \<notin> H" "b_dev (buf_at s b) = log_dev s" and room: "lh_n s < 30"
  obtains (ok) u t where "log_write b (upd_data b f s) = Done () u" "brelse b u = Done () t" "tx_frame s t" "tx H (insert b P) t"
    "\<And>d n. d \<noteq> 0 \<Longrightarrow> content t d n = (if d = log_dev s \<and> n = b_blockno (buf_at s b) then f (b_data (buf_at s b)) else content s d n)"
    "lh_n s \<le> lh_n t" "lh_n t \<le> lh_n s + 1" "\<And>i. i \<in> H \<Longrightarrow> buf_at t i = buf_at s i" "tx_frame s u"
proof -
  note m = tx_modify [OF tx insertI1 b(2), where f = f]
  let ?m = "upd_data b f s"
  note fm = tx_frame_facts [OF m(2)]
  have bm: "b_dev (buf_at ?m b) = log_dev ?m" using b(2) fm(3) m(5) by simp
  have rm: "lh_n ?m < 30" using room m(3) by simp
  obtain u where u: "log_write b ?m = Done () u" "tx (insert b H) (insert b P) u" "tx_frame ?m u"
    "\<And>d n. d \<noteq> 0 \<Longrightarrow> content u d n = content ?m d n" "lh_n ?m \<le> lh_n u" "lh_n u \<le> lh_n ?m + 1"
    "\<And>i. i \<noteq> b \<Longrightarrow> buf_at u i = buf_at ?m i" "b_dev (buf_at u b) = b_dev (buf_at ?m b)"
    by (rule tx_log_write [OF m(1) insertI1 bm rm]) (rule that)
  note fu = tx_frame_facts [OF u(3)]
  have bu: "b_dev (buf_at u b) = log_dev u" using u(8) bm fu(3) by simp
  obtain t where t: "brelse b u = Done () t" "tx (insert b H - {b}) (insert b P) t" "tx_frame u t"
    "\<And>d n. d \<noteq> 0 \<Longrightarrow> content t d n = content u d n" "lh_n t = lh_n u" "\<And>i. i \<noteq> b \<Longrightarrow> buf_at t i = buf_at u i"
    by (rule tx_brelse [OF u(2) insertI1 bu disjI1 [OF insertI1]]) (rule that)
  have H: "insert b H - {b} = H" using b(1) by auto
  show thesis
  proof (rule ok [OF u(1) t(1) tx_frame_trans [OF m(2) tx_frame_trans [OF u(3) t(3)]]])
    show "tx H (insert b P) t" using t(2) by (simp add: H)
    show "content t d n = (if d = log_dev s \<and> n = b_blockno (buf_at s b) then f (b_data (buf_at s b)) else content s d n)"
      if "d \<noteq> 0" for d n using t(4) u(4) m(4) that by simp
    show "lh_n s \<le> lh_n t" "lh_n t \<le> lh_n s + 1" using u(5,6) t(5) m(3) by simp_all
    show "buf_at t i = buf_at s i" if "i \<in> H" for i using that b(1) t(6) u(7) m(5) by metis
    show "tx_frame s u" by (rule tx_frame_trans [OF m(2) u(3)])
  qed
qed

lemma tx_update:
  fixes s :: "'a log_state_scheme"
  assumes tx: "tx H P s" and room: "lh_n s + int (card H) < 30"
    and nh: "\<And>i. i \<in> H \<Longrightarrow> b_blockno (buf_at s i) \<noteq> bno"
  obtains (ok) Q t where "update_block (log_dev s) bno f s = Done () t" "tx_frame s t" "tx H Q t" "P \<subseteq> Q"
    "\<And>d n. d \<noteq> 0 \<Longrightarrow> content t d n = (if d = log_dev s \<and> n = bno then f (content s (log_dev s) bno) else content s d n)"
    "lh_n s \<le> lh_n t" "lh_n t \<le> lh_n s + 1" "\<And>i. i \<in> H \<Longrightarrow> buf_at t i = buf_at s i"
proof -
  obtain b s1 where r: "bread (log_dev s) bno s = Done b s1" "b \<notin> H" "tx (insert b H) P s1" "tx_frame s s1"
    "b_dev (buf_at s1 b) = log_dev s" "b_blockno (buf_at s1 b) = bno" "b_data (buf_at s1 b) = content s (log_dev s) bno"
    "\<And>d n. d \<noteq> 0 \<Longrightarrow> content s1 d n = content s d n" "lh_n s1 = lh_n s" "\<And>i. i \<in> H \<Longrightarrow> buf_at s1 i = buf_at s i"
    "b \<notin> P \<Longrightarrow> content s (log_dev s) bno = disk s (log_dev s) bno"
    by (rule tx_bread [OF tx room nh]) (assumption, rule that)
  have d1: "b_dev (buf_at s1 b) = log_dev s1" using r(5) tx_frame_facts(3) [OF r(4)] by simp
  have rm: "lh_n s1 < 30" using room r(9) by simp
  obtain u t where t: "log_write b (upd_data b f s1) = Done () u" "brelse b u = Done () t" "tx_frame s1 t" "tx H (insert b P) t"
    "\<And>d n. d \<noteq> 0 \<Longrightarrow> content t d n = (if d = log_dev s1 \<and> n = b_blockno (buf_at s1 b) then f (b_data (buf_at s1 b)) else content s1 d n)"
    "lh_n s1 \<le> lh_n t" "lh_n t \<le> lh_n s1 + 1" "\<And>i. i \<in> H \<Longrightarrow> buf_at t i = buf_at s1 i"
    by (rule tx_finish [OF r(3,2) d1 rm]) (rule that)
  show thesis
  proof (rule ok)
    show "update_block (log_dev s) bno f s = Done () t" using r(1) t(1,2) by (simp add: update_block_def)
    show "tx_frame s t" by (rule tx_frame_trans [OF r(4) t(3)])
    show "tx H (insert b P) t" "P \<subseteq> insert b P" by (rule t(4)) auto
    show "content t d n = (if d = log_dev s \<and> n = bno then f (content s (log_dev s) bno) else content s d n)" if "d \<noteq> 0" for d n
      using t(5) [OF that] r(5-8) that d1 by simp
    show "lh_n s \<le> lh_n t" "lh_n t \<le> lh_n s + 1" using t(6,7) r(9) by simp_all
    show "buf_at t i = buf_at s i" if "i \<in> H" for i using t(8) r(10) that by simp
  qed
qed

text \<open>The table of inodes is no part of this.\<close>

lemma lg_inodes [simp]: "lg H P (s\<lparr>inodes := x\<rparr>) = lg H P s"
proof -
  have "bc_inv H P (s\<lparr>inodes := x\<rparr>) = bc_inv H P s"
    by (simp add: bc_inv_def buf_inv_def holdingsleep_iff myproc_def mycpu_def cpuid_def Let_def)
  moreover have "pinned_for I P (s\<lparr>inodes := x\<rparr>) = pinned_for I P s" for I by (simp add: pinned_for_def)
  moreover have "running (s\<lparr>inodes := x\<rparr>) = running s" by (simp add: running_def myproc_def mycpu_def cpuid_def)
  ultimately show ?thesis by (simp add: lg_def)
qed

lemma tx_inodes [simp]: "tx H P (s\<lparr>inodes := x\<rparr>) = tx H P s"
  by (simp add: tx_lg)

lemma content_inodes [simp]: "content (s\<lparr>inodes := x\<rparr>) = content s"
  by (rule content_cong) simp_all

lemma tx_set_inode [simp]: "tx H P (set_inode i f s) = tx H P s" "lg H P (set_inode i f s) = lg H P s" "content (set_inode i f s) = content s"
    "lh_n (set_inode i f s) = lh_n s" "bufs (set_inode i f s) = bufs s" "log_dev (set_inode i f s) = log_dev s"
    "sb (set_inode i f s) = sb s" "length (inodes (set_inode i f s)) = length (inodes s)"
    "disk (set_inode i f s) = disk s"
  by (simp_all add: set_inode_def)

lemma inode_at_set: "i < length (inodes s) \<Longrightarrow> inode_at (set_inode i f s) j = (if j = i then f (inode_at s i) else inode_at s j)"
  by (simp add: set_inode_def nth_list_update)

end
