(* ===== verification/Balloc.thy ===== *)
theory Balloc
  imports Txn
begin

text \<open>
  The block allocator of \<^verbatim>\<open>kernel/fs.c\<close>: \<^verbatim>\<open>balloc\<close>, \<^verbatim>\<open>bfree\<close> and \<^verbatim>\<open>bzero\<close> over the free bitmap. The
  bitmap blocks are themselves marked in use, so that they are never handed out.
\<close>

section \<open>Bits of the bitmap\<close>

definition set_used :: "nat \<Rightarrow> block \<Rightarrow> block" where
  "set_used bi d = d(bi div 8 := d (bi div 8) OR bit_mask bi)"

definition set_free :: "nat \<Rightarrow> block \<Rightarrow> block" where
  "set_free bi d = d(bi div 8 := d (bi div 8) AND NOT (bit_mask bi))"

lemma bit_free_iff: "bit_free d bi \<longleftrightarrow> \<not> bit (d (bi div 8)) (bi mod 8)"
  by (simp add: bit_free_def bit_mask_def push_bit_eq_mult and_exp_eq_0_iff_not_bit)

lemma bit_bit_mask: "bit (bit_mask bi) k \<longleftrightarrow> k = bi mod 8"
  by (auto simp: bit_mask_def push_bit_eq_mult bit_exp_iff)

lemma same_bit: "bi div 8 = bj div 8 \<Longrightarrow> bi mod 8 = bj mod 8 \<Longrightarrow> bi = (bj :: nat)"
  by (metis div_mult_mod_eq)

lemma bit_free_set_used: "bit_free (set_used bi d) bj \<longleftrightarrow> bit_free d bj \<and> bj \<noteq> bi"
  by (auto simp: bit_free_iff set_used_def bit_or_iff bit_bit_mask dest: same_bit)

lemma bit_free_set_free: "bit_free (set_free bi d) bj \<longleftrightarrow> bit_free d bj \<or> bj = bi"
  by (auto simp: bit_free_iff set_free_def bit_and_iff bit_not_iff bit_bit_mask dest: same_bit)

section \<open>The bitmap\<close>

lemma unat_u32_less: "unat (w :: u32) < 2 ^ 32"
  by (rule order_less_le_trans [OF unsigned_less]) simp

abbreviation fs_size :: "'a fs_state_scheme \<Rightarrow> nat" where
  "fs_size s \<equiv> unat (sb_size (sb s))"

text \<open>The contents of a block of the file system's device.\<close>

abbreviation blk :: "'a fs_state_scheme \<Rightarrow> u32 \<Rightarrow> block" where
  "blk s n \<equiv> content s (log_dev s) n"

definition used :: "'a fs_state_scheme \<Rightarrow> nat \<Rightarrow> bool" where
  "used s b \<longleftrightarrow> \<not> bit_free (blk s (BBLOCK b s)) (b mod BPB)"

definition bitmap_ok :: "'a fs_state_scheme \<Rightarrow> bool" where
  "bitmap_ok s \<longleftrightarrow> unat (sb_bmapstart (sb s)) + fs_size s div BPB < 2 ^ 32 \<and> 0 < fs_size s \<and> used s 0 \<and>
     (\<forall>b < fs_size s. unat (BBLOCK b s) < fs_size s \<and> used s (unat (BBLOCK b s)))"

lemma unat_BBLOCK:
  assumes "bitmap_ok s" "b < fs_size s"
  shows "unat (BBLOCK b s) = b div BPB + unat (sb_bmapstart (sb s))"
proof -
  have "b div BPB + unat (sb_bmapstart (sb s)) < 2 ^ 32"
    using assms div_le_mono [of b "fs_size s" BPB] by (simp add: bitmap_ok_def)
  then show ?thesis using assms(2) unat_u32_less [of "sb_size (sb s)"]
    unfolding BBLOCK_def by (simp add: unat_word_ariths unat_of_nat div_le_dividend le_less_trans [OF div_le_dividend])
qed

lemma BBLOCK_eq:
  assumes "bitmap_ok s" "b < fs_size s" "c < fs_size s"
  shows "BBLOCK b s = BBLOCK c s \<longleftrightarrow> b div BPB = c div BPB"
  using unat_BBLOCK [OF assms(1,2)] unat_BBLOCK [OF assms(1,3)] by (metis add_right_cancel BBLOCK_def)

lemma BBLOCK_cong: "sb t = sb s \<Longrightarrow> BBLOCK b t = BBLOCK b s"
  by (simp add: BBLOCK_def)

lemma unat_of_nat_u32: "n < 2 ^ 32 \<Longrightarrow> unat (of_nat n :: u32) = n"
  by (simp add: unat_of_nat)

lemma fs_size_less: "b < fs_size s \<Longrightarrow> b < 2 ^ 32"
  using unat_u32_less [of "sb_size (sb s)"] by simp

text \<open>What \<^verbatim>\<open>balloc\<close> does when it finds block \<open>x\<close>: mark it and clear it.\<close>

definition zeroed :: "block \<Rightarrow> block" where
  "zeroed d = (\<lambda>i. if i < BSIZE then 0 else d i)"

definition took_block :: "nat \<Rightarrow> 'a fs_state_scheme \<Rightarrow> 'a fs_state_scheme \<Rightarrow> bool" where
  "took_block x s t \<longleftrightarrow> x < fs_size s \<and> \<not> used s x \<and>
     (\<forall>d n. d \<noteq> 0 \<longrightarrow> content t d n =
       (if d = log_dev s \<and> n = of_nat x then zeroed (content s d n)
        else if d = log_dev s \<and> n = BBLOCK x s then set_used (x mod BPB) (content s d n)
        else content s d n))"

text \<open>The bitmap afterwards.\<close>

lemma took_used:
  assumes took: "took_block x s t" and ok: "bitmap_ok s" and fr: "tx_frame s t" and dev: "log_dev s \<noteq> 0" and b: "b < fs_size s"
  shows "used t b \<longleftrightarrow> used s b \<or> b = x"
proof -
  note f = tx_frame_facts(3) [OF fr] tx_frame_fs [OF fr]
  have x: "x < fs_size s" "\<not> used s x" using took by (simp_all add: took_block_def)
  have nx: "BBLOCK b s \<noteq> of_nat x"
  proof
    assume "BBLOCK b s = of_nat x"
    then have "unat (BBLOCK b s) = x" using unat_of_nat_u32 [OF fs_size_less [OF x(1)]] by simp
    then show False using ok b x by (auto simp: bitmap_ok_def)
  qed
  have c: "content t (log_dev s) (BBLOCK b s) = (if BBLOCK b s = BBLOCK x s then set_used (x mod BPB) (blk s (BBLOCK b s)) else blk s (BBLOCK b s))"
    using took nx dev by (simp add: took_block_def)
  have eq: "b = x \<longleftrightarrow> b div BPB = x div BPB \<and> b mod BPB = x mod BPB" by (metis div_mult_mod_eq)
  have "used t b \<longleftrightarrow> \<not> bit_free (content t (log_dev s) (BBLOCK b s)) (b mod BPB)"
    by (simp add: used_def f BBLOCK_cong [OF f(2)])
  also have "\<dots> \<longleftrightarrow> used s b \<or> b = x"
    unfolding c eq used_def BBLOCK_eq [OF ok b x(1)] by (auto simp: bit_free_set_used)
  finally show ?thesis .
qed

section \<open>Specifications\<close>

lemma bzero_update: "bzero dev bno s = update_block dev bno zeroed s"
  by (simp add: bzero_def update_block_def zeroed_def [abs_def] Let_def)

lemma tx_frame_kprintf: "tx_frame s (kprintf fmt ap s)"
  using kprintf_out [of fmt ap s] tx_frame_out by metis

lemma tx_kprintf: "tx H P s \<Longrightarrow> tx H P (kprintf fmt ap s)"
proof -
  assume tx: "tx H P s"
  obtain out b where k: "kprintf fmt ap s = s\<lparr>uart_out := out, uart_idle := b\<rparr>" using kprintf_out [of fmt ap s] by (elim exE)
  have "pinned_for I P (s\<lparr>uart_out := out, uart_idle := b\<rparr>) = pinned_for I P s" for I by (simp add: pinned_for_def)
  then show ?thesis using tx unfolding k by (simp add: tx_def)
qed

lemma kprintf_keeps: "content (kprintf fmt ap s) = content s" "lh_n (kprintf fmt ap s) = lh_n s" "bufs (kprintf fmt ap s) = bufs s"
proof -
  obtain out b where k: "kprintf fmt ap s = s\<lparr>uart_out := out, uart_idle := b\<rparr>" using kprintf_out [of fmt ap s] by (elim exE)
  show "content (kprintf fmt ap s) = content s" "lh_n (kprintf fmt ap s) = lh_n s" "bufs (kprintf fmt ap s) = bufs s"
    unfolding k by simp_all
qed

text \<open>The buffers held by the caller: none is a bitmap block, and their blocks are in use.\<close>

definition held_ok :: "nat set \<Rightarrow> 'a fs_state_scheme \<Rightarrow> bool" where
  "held_ok H s \<longleftrightarrow> (\<forall>i \<in> H. unat (b_blockno (buf_at s i)) < fs_size s \<and> used s (unat (b_blockno (buf_at s i))) \<and>
     (\<forall>b < fs_size s. b_blockno (buf_at s i) \<noteq> BBLOCK b s))"

text \<open>One bitmap block.\<close>

lemma balloc_found:
  fixes s :: "'a fs_state_scheme"
  assumes tx: "tx H P s" and room: "lh_n s + int (card H) + 1 < 30" and bm: "bitmap_ok s" and held: "held_ok H s"
    and b: "b mod BPB = 0" "bi < BPB" "b + bi < fs_size s"
    and find: "List.find (\<lambda>bi. bit_free (blk s (BBLOCK b s)) bi) [0..<min BPB (fs_size s - b)] = Some bi"
  obtains (ok) Q t where "balloc_loop (log_dev s) (b # bs) s = Done (of_nat (b + bi)) t" "took_block (b + bi) s t" "tx H Q t" "tx_frame s t"
    "lh_n s \<le> lh_n t" "lh_n t \<le> lh_n s + 2" "\<And>i. i \<in> H \<Longrightarrow> buf_at t i = buf_at s i"
proof -
  let ?x = "b + bi"
  have bs: "b < fs_size s" using b(3) by simp
  have x: "?x div BPB = b div BPB" "?x mod BPB = bi" using b(1,2) by (auto simp: div_add1_eq mod_add_eq [symmetric])
  then have bx: "BBLOCK ?x s = BBLOCK b s" by (simp add: BBLOCK_def)
  have free: "bit_free (blk s (BBLOCK b s)) bi" using find by (simp add: find_upt_Some)
  then have nu: "\<not> used s ?x" by (simp add: used_def x bx)
  have dev: "log_dev s \<noteq> 0" by (rule txD(3) [OF tx])
  have nh: "b_blockno (buf_at s i) \<noteq> BBLOCK b s" if "i \<in> H" for i using held that bs by (simp add: held_ok_def)
  have r1: "lh_n s + int (card H) < 30" using room by simp
  obtain bp s1 where r: "bread (log_dev s) (BBLOCK b s) s = Done bp s1" "bp \<notin> H" "tx (insert bp H) P s1" "tx_frame s s1"
    "b_dev (buf_at s1 bp) = log_dev s" "b_blockno (buf_at s1 bp) = BBLOCK b s" "b_data (buf_at s1 bp) = blk s (BBLOCK b s)"
    "\<And>d n. d \<noteq> 0 \<Longrightarrow> content s1 d n = content s d n" "lh_n s1 = lh_n s" "\<And>i. i \<in> H \<Longrightarrow> buf_at s1 i = buf_at s i"
    "bp \<notin> P \<Longrightarrow> blk s (BBLOCK b s) = disk s (log_dev s) (BBLOCK b s)"
    by (rule tx_bread [OF tx r1 nh]) (assumption, rule that)
  note f1 = tx_frame_facts(3) [OF r(4)] tx_frame_fs [OF r(4)]
  have d1: "b_dev (buf_at s1 bp) = log_dev s1" using r(5) f1(1) by simp
  have rm: "lh_n s1 < 30" using room r(9) by simp
  obtain u v where v: "log_write bp (upd_data bp (set_used bi) s1) = Done () u" "brelse bp u = Done () v" "tx_frame s1 v" "tx H (insert bp P) v"
    "\<And>d n. d \<noteq> 0 \<Longrightarrow> content v d n = (if d = log_dev s1 \<and> n = b_blockno (buf_at s1 bp) then set_used bi (b_data (buf_at s1 bp)) else content s1 d n)"
    "lh_n s1 \<le> lh_n v" "lh_n v \<le> lh_n s1 + 1" "\<And>i. i \<in> H \<Longrightarrow> buf_at v i = buf_at s1 i"
    by (rule tx_finish [OF r(3,2) d1 rm]) (rule that)
  have fv: "log_dev v = log_dev s" using tx_frame_facts(3) [OF v(3)] f1(1) by simp
  have r2: "lh_n v + int (card H) < 30" using v(7) r(9) room by simp
  have ux: "unat (of_nat ?x :: u32) = ?x" by (rule unat_of_nat_u32 [OF fs_size_less [OF b(3)]])
  have nhx: "b_blockno (buf_at v i) \<noteq> of_nat ?x" if "i \<in> H" for i
  proof
    assume "b_blockno (buf_at v i) = of_nat ?x"
    then have "unat (b_blockno (buf_at s i)) = ?x" using v(8) r(10) that ux by simp
    moreover have "used s (unat (b_blockno (buf_at s i)))" using held that by (simp add: held_ok_def)
    ultimately show False using nu by simp
  qed
  obtain Q t where t: "update_block (log_dev v) (of_nat ?x) zeroed v = Done () t" "tx_frame v t" "tx H Q t" "insert bp P \<subseteq> Q"
    "\<And>d n. d \<noteq> 0 \<Longrightarrow> content t d n = (if d = log_dev v \<and> n = of_nat ?x then zeroed (content v (log_dev v) (of_nat ?x)) else content v d n)"
    "lh_n v \<le> lh_n t" "lh_n t \<le> lh_n v + 1" "\<And>i. i \<in> H \<Longrightarrow> buf_at t i = buf_at v i"
    by (rule tx_update [OF v(4) r2 nhx]) (assumption, rule that)
  have nbx: "BBLOCK b s \<noteq> of_nat ?x"
  proof
    assume "BBLOCK b s = of_nat ?x"
    then have "used s ?x" using bm bs ux by (auto simp: bitmap_ok_def)
    then show False using nu by simp
  qed
  have run: "balloc_loop (log_dev s) (b # bs) s = Done (of_nat ?x) t"
    using find v(1,2) t(1) by (simp add: r(1,7) f1 fv bzero_update Let_def set_used_def [abs_def] del: of_nat_add)
  show thesis
  proof (rule ok [OF run _ t(3) tx_frame_trans [OF r(4) tx_frame_trans [OF v(3) t(2)]]])
    have "content t d n = (if d = log_dev s \<and> n = of_nat ?x then zeroed (content s d n)
        else if d = log_dev s \<and> n = BBLOCK ?x s then set_used (?x mod BPB) (content s d n) else content s d n)" if "d \<noteq> 0" for d n
      using t(5) [OF that] v(5) [OF that] r(8) [OF that] v(5) [OF dev] r(8) [OF dev] nbx
      by (simp add: fv f1 r(6,7) x bx del: of_nat_add)
    then show "took_block ?x s t" using b(3) nu by (simp add: took_block_def del: of_nat_add)
    show "lh_n s \<le> lh_n t" "lh_n t \<le> lh_n s + 2" using t(6,7) v(6,7) r(9) by simp_all
    show "buf_at t i = buf_at s i" if "i \<in> H" for i using that t(8) v(8) r(10) by simp
  qed
qed

text \<open>A state with the same contents has the same bitmap.\<close>

lemma used_cong:
  assumes "tx_frame s t" "\<And>d n. d \<noteq> 0 \<Longrightarrow> content t d n = content s d n" "log_dev s \<noteq> 0"
  shows "used t = used s" "bitmap_ok t = bitmap_ok s" "took_block x t u = took_block x s u"
proof -
  note f = tx_frame_facts(3) [OF assms(1)] tx_frame_fs [OF assms(1)]
  note bb = BBLOCK_cong [OF f(2)]
  show u: "used t = used s" by (rule ext) (simp add: used_def f bb assms(2,3))
  show "bitmap_ok t = bitmap_ok s" by (simp add: bitmap_ok_def u f bb)
  show "took_block x t u = took_block x s u"
    unfolding took_block_def u f bb using assms(2) by (auto simp: f)
qed

lemma held_ok_cong:
  assumes "tx_frame s t" "used t = used s" "\<And>i. i \<in> H \<Longrightarrow> buf_at t i = buf_at s i"
  shows "held_ok H t = held_ok H s"
  using assms(3) by (simp add: held_ok_def assms(2) tx_frame_fs [OF assms(1)] BBLOCK_cong [OF tx_frame_fs(1) [OF assms(1)]])

lemma block_base: "b mod BPB = 0 \<Longrightarrow> y div BPB * BPB = b \<longleftrightarrow> b \<le> y \<and> y < b + BPB"
  by (auto simp: mod_eq_0_iff_dvd elim!: dvdE)

text \<open>All bitmap blocks. The result is the first free block, if there is one.\<close>

definition balloc_result :: "nat list \<Rightarrow> u32 \<Rightarrow> 'a fs_state_scheme \<Rightarrow> 'a fs_state_scheme \<Rightarrow> bool" where
  "balloc_result bs r s t \<longleftrightarrow>
     (\<exists>x. r = of_nat x \<and> took_block x s t \<and> (\<forall>y < x. y div BPB * BPB \<in> set bs \<longrightarrow> used s y)) \<or>
     (r = 0 \<and> (\<forall>y < fs_size s. y div BPB * BPB \<in> set bs \<longrightarrow> used s y) \<and> (\<forall>d n. d \<noteq> 0 \<longrightarrow> content t d n = content s d n))"

lemma balloc_loop_spec:
  fixes s :: "'a fs_state_scheme"
  assumes "tx H P s" "lh_n s + int (card H) + 1 < 30" "bitmap_ok s" "held_ok H s" "sorted_wrt (<) bs"
    "\<forall>b \<in> set bs. b mod BPB = 0 \<and> b < fs_size s"
  shows "\<exists>r Q t. balloc_loop (log_dev s) bs s = Done r t \<and> balloc_result bs r s t \<and> tx H Q t \<and> tx_frame s t \<and>
    lh_n s \<le> lh_n t \<and> lh_n t \<le> lh_n s + 2 \<and> (\<forall>i \<in> H. buf_at t i = buf_at s i)"
  using assms
proof (induction bs arbitrary: s)
  case Nil
  have "balloc_result [] 0 s (kprintf ''balloc: out of blocks\<newline>'' [] s)" by (simp add: balloc_result_def kprintf_keeps)
  then show ?case
    using tx_kprintf [OF Nil.prems(1)] tx_frame_kprintf [of s]
    by (intro exI [of _ 0] exI [of _ P] exI [of _ "kprintf ''balloc: out of blocks\<newline>'' [] s"]) (simp add: kprintf_keeps)
next
  case (Cons b bs)
  note bm = Cons.prems(3) and held = Cons.prems(4)
  have b: "b mod BPB = 0" "b < fs_size s" "\<forall>c \<in> set bs. b < c" using Cons.prems(5,6) by simp_all
  have dev: "log_dev s \<noteq> 0" by (rule txD(3) [OF Cons.prems(1)])
  let ?find = "List.find (\<lambda>bi. bit_free (blk s (BBLOCK b s)) bi) [0..<min BPB (fs_size s - b)]"
  have bb: "BBLOCK (b + k) s = BBLOCK b s" "(b + k) mod BPB = k" if "k < BPB" for k
    using that b(1) by (auto simp: BBLOCK_def div_add1_eq mod_add_eq [symmetric])
  show ?case
  proof (cases ?find)
    case (Some bi)
    then have bi: "bi < BPB" "b + bi < fs_size s" and before: "\<And>j. j < bi \<Longrightarrow> \<not> bit_free (blk s (BBLOCK b s)) j"
      by (auto simp: find_upt_Some)
    obtain Q t where t: "balloc_loop (log_dev s) (b # bs) s = Done (of_nat (b + bi)) t" "took_block (b + bi) s t" "tx H Q t" "tx_frame s t"
      "lh_n s \<le> lh_n t" "lh_n t \<le> lh_n s + 2" "\<And>i. i \<in> H \<Longrightarrow> buf_at t i = buf_at s i"
      by (rule balloc_found [OF Cons.prems(1,2) bm held b(1) bi Some]) (rule that)
    have "used s y" if y: "y < b + bi" "y div BPB * BPB \<in> set (b # bs)" for y
    proof -
      have "b \<le> y" using y(2) b(3) div_times_less_eq_dividend [of y BPB] by force
      then show ?thesis using before [of "y - b"] bb [of "y - b"] y(1) bi(1) by (simp add: used_def)
    qed
    then have "balloc_result (b # bs) (of_nat (b + bi)) s t" unfolding balloc_result_def using t(2) by blast
    then show ?thesis using t by blast
  next
    case None
    have nh: "b_blockno (buf_at s i) \<noteq> BBLOCK b s" if "i \<in> H" for i using held that b(2) by (simp add: held_ok_def)
    have r1: "lh_n s + int (card H) < 30" using Cons.prems(2) by simp
    obtain bp s1 s2 where r: "bread (log_dev s) (BBLOCK b s) s = Done bp s1" "brelse bp s1 = Done () s2" "tx_frame s s1" "tx_frame s s2"
      "b_data (buf_at s1 bp) = blk s (BBLOCK b s)" "tx H P s2"
      "\<And>d n. d \<noteq> 0 \<Longrightarrow> content s2 d n = content s d n" "lh_n s2 = lh_n s" "\<And>i. i \<in> H \<Longrightarrow> buf_at s2 i = buf_at s i"
      by (rule tx_inspect [OF Cons.prems(1) r1 nh]) (assumption, rule that)
    note f1 = tx_frame_facts(3) [OF r(3)] tx_frame_fs [OF r(3)] and f2 = tx_frame_facts(3) [OF r(4)] tx_frame_fs [OF r(4)]
    note uc = used_cong [OF r(4,7) dev]
    have step: "balloc_loop (log_dev s) (b # bs) s = balloc_loop (log_dev s2) bs s2"
      using None r(1,2) by (simp add: r(5) f1 f2)
    have p: "lh_n s2 + int (card H) + 1 < 30" "bitmap_ok s2" "held_ok H s2" "sorted_wrt (<) bs" "\<forall>b \<in> set bs. b mod BPB = 0 \<and> b < fs_size s2"
      using Cons.prems(2,5,6) bm held r(8,9) uc(2) held_ok_cong [OF r(4) uc(1)] by (simp_all add: f2)
    obtain x Q t where t: "balloc_loop (log_dev s2) bs s2 = Done x t" "balloc_result bs x s2 t" "tx H Q t" "tx_frame s2 t"
      "lh_n s2 \<le> lh_n t" "lh_n t \<le> lh_n s2 + 2" "\<forall>i \<in> H. buf_at t i = buf_at s2 i"
      using Cons.IH [OF r(6) p] by blast
    have ub: "used s y" if y: "y < fs_size s" "y div BPB * BPB = b" for y
    proof -
      have "b \<le> y" "y < b + BPB" using y(2) block_base [OF b(1)] by blast+
      moreover have "\<not> bit_free (blk s (BBLOCK b s)) j" if "j < BPB" "b + j < fs_size s" for j
        using None that by (simp add: find_upt_None)
      ultimately show ?thesis using y(1) bb [of "y - b"] by (simp add: used_def)
    qed
    have "balloc_result (b # bs) x s t"
    proof (cases "\<exists>y. x = of_nat y \<and> took_block y s2 t \<and> (\<forall>z < y. z div BPB * BPB \<in> set bs \<longrightarrow> used s2 z)")
      case True
      then obtain y where y: "x = of_nat y" "took_block y s t" "\<forall>z < y. z div BPB * BPB \<in> set bs \<longrightarrow> used s z"
        using uc(1,3) by auto
      then have "y < fs_size s" by (simp add: took_block_def)
      then have "\<forall>z < y. z div BPB * BPB \<in> set (b # bs) \<longrightarrow> used s z" using y(3) ub by auto
      then show ?thesis using y(1,2) unfolding balloc_result_def by blast
    next
      case False
      then have "x = 0" "\<forall>y < fs_size s. y div BPB * BPB \<in> set bs \<longrightarrow> used s y" "\<forall>d n. d \<noteq> 0 \<longrightarrow> content t d n = content s d n"
        using t(2) r(7) uc(1) unfolding balloc_result_def f2 by auto
      then show ?thesis using ub unfolding balloc_result_def by auto
    qed
    then show ?thesis
      unfolding step using t tx_frame_trans [OF r(4) t(4)] r(8,9)
      by (intro exI [of _ x] exI [of _ Q] exI [of _ t]) simp
  qed
qed

lemma balloc_spec:
  fixes s :: "'a fs_state_scheme"
  assumes tx: "tx H P s" and room: "lh_n s + int (card H) + 1 < 30" and bm: "bitmap_ok s" and held: "held_ok H s"
  obtains (took) x Q t where "balloc (log_dev s) s = Done (of_nat x) t" "took_block x s t" "\<And>y. y < x \<Longrightarrow> used s y" "tx H Q t" "tx_frame s t"
      "lh_n s \<le> lh_n t" "lh_n t \<le> lh_n s + 2" "\<And>i. i \<in> H \<Longrightarrow> buf_at t i = buf_at s i"
  | (full) Q t where "balloc (log_dev s) s = Done 0 t" "\<And>y. y < fs_size s \<Longrightarrow> used s y" "\<And>d n. d \<noteq> 0 \<Longrightarrow> content t d n = content s d n"
      "tx H Q t" "tx_frame s t" "lh_n s \<le> lh_n t" "lh_n t \<le> lh_n s + 2" "\<And>i. i \<in> H \<Longrightarrow> buf_at t i = buf_at s i"
proof -
  let ?bs = "map (\<lambda>k. BPB * k) [0..<(fs_size s + (BPB - 1)) div BPB]"
  have bs: "\<forall>b \<in> set ?bs. b mod BPB = 0 \<and> b < fs_size s" by auto
  have sorted: "sorted_wrt (<) ?bs" by (simp add: sorted_wrt_map sorted_wrt_upt)
  have all: "y div BPB * BPB \<in> set ?bs" if "y < fs_size s" for y
    using that by (auto simp: image_iff mult.commute intro!: bexI [of _ "y div BPB"])
  obtain r Q t where t: "balloc (log_dev s) s = Done r t" "balloc_result ?bs r s t" "tx H Q t" "tx_frame s t"
    "lh_n s \<le> lh_n t" "lh_n t \<le> lh_n s + 2" "\<forall>i \<in> H. buf_at t i = buf_at s i"
    using balloc_loop_spec [OF tx room bm held sorted bs] unfolding balloc_def by blast
  from t(2) show thesis unfolding balloc_result_def
  proof (elim disjE exE conjE, goal_cases)
    case (1 x)
    then have "x < fs_size s" by (simp add: took_block_def)
    then have "used s y" if "y < x" for y using 1(3) all [of y] that by simp
    then show ?case using took [of x t] 1(1,2) t by simp
  next
    case 2
    then show ?case using full [of t Q] t all by simp
  qed
qed

text \<open>\<^verbatim>\<open>bfree\<close> of a block in use.\<close>

lemma bfree_spec:
  fixes s :: "'a fs_state_scheme"
  assumes tx: "tx H P s" and room: "lh_n s + int (card H) < 30" and held: "held_ok H s"
    and b: "unat b < fs_size s" "used s (unat b)"
  obtains (ok) Q t where "bfree (log_dev s) b s = Done () t" "tx H Q t" "tx_frame s t"
    "\<And>d n. d \<noteq> 0 \<Longrightarrow> content t d n =
      (if d = log_dev s \<and> n = BBLOCK (unat b) s then set_free (unat b mod BPB) (content s d n) else content s d n)"
    "lh_n s \<le> lh_n t" "lh_n t \<le> lh_n s + 1" "\<And>i. i \<in> H \<Longrightarrow> buf_at t i = buf_at s i"
proof -
  have nh: "b_blockno (buf_at s i) \<noteq> BBLOCK (unat b) s" if "i \<in> H" for i using held that b(1) by (simp add: held_ok_def)
  obtain bp s1 where r: "bread (log_dev s) (BBLOCK (unat b) s) s = Done bp s1" "bp \<notin> H" "tx (insert bp H) P s1" "tx_frame s s1"
    "b_dev (buf_at s1 bp) = log_dev s" "b_blockno (buf_at s1 bp) = BBLOCK (unat b) s" "b_data (buf_at s1 bp) = blk s (BBLOCK (unat b) s)"
    "\<And>d n. d \<noteq> 0 \<Longrightarrow> content s1 d n = content s d n" "lh_n s1 = lh_n s" "\<And>i. i \<in> H \<Longrightarrow> buf_at s1 i = buf_at s i"
    "bp \<notin> P \<Longrightarrow> blk s (BBLOCK (unat b) s) = disk s (log_dev s) (BBLOCK (unat b) s)"
    by (rule tx_bread [OF tx room nh]) (assumption, rule that)
  have f1: "log_dev s1 = log_dev s" by (rule tx_frame_facts(3) [OF r(4)])
  have d1: "b_dev (buf_at s1 bp) = log_dev s1" using r(5) f1 by simp
  have rm: "lh_n s1 < 30" using room r(9) by simp
  let ?f = "set_free (unat b mod BPB)"
  obtain u v where v: "log_write bp (upd_data bp ?f s1) = Done () u" "brelse bp u = Done () v" "tx_frame s1 v" "tx H (insert bp P) v"
    "\<And>d n. d \<noteq> 0 \<Longrightarrow> content v d n = (if d = log_dev s1 \<and> n = b_blockno (buf_at s1 bp) then ?f (b_data (buf_at s1 bp)) else content s1 d n)"
    "lh_n s1 \<le> lh_n v" "lh_n v \<le> lh_n s1 + 1" "\<And>i. i \<in> H \<Longrightarrow> buf_at v i = buf_at s1 i"
    by (rule tx_finish [OF r(3,2) d1 rm]) (rule that)
  have "bfree (log_dev s) b s = Done () v"
    using v(1,2) b(2) by (simp add: bfree_def r(1,7) used_def Let_def set_free_def [abs_def])
  then show thesis
    by (rule ok [OF _ v(4) tx_frame_trans [OF r(4) v(3)]]) (use v(5-8) r(6-10) f1 in auto)
qed

text \<open>Freeing a block that is free already is detected.\<close>

lemma bfree_free_panics:
  fixes s :: "'a fs_state_scheme"
  assumes tx: "tx H P s" and room: "lh_n s + int (card H) < 30" and held: "held_ok H s"
    and b: "unat b < fs_size s" "\<not> used s (unat b)"
  shows "bfree (log_dev s) b s = Panic ''freeing free block''"
proof -
  have nh: "b_blockno (buf_at s i) \<noteq> BBLOCK (unat b) s" if "i \<in> H" for i using held that b(1) by (simp add: held_ok_def)
  obtain bp s1 s2 where "bread (log_dev s) (BBLOCK (unat b) s) s = Done bp s1" "brelse bp s1 = Done () s2" "tx_frame s s1" "tx_frame s s2"
    "b_data (buf_at s1 bp) = blk s (BBLOCK (unat b) s)"
    by (rule tx_inspect [OF tx room nh]) (assumption, rule that)
  then show ?thesis using b(2) by (simp add: bfree_def used_def Let_def)
qed

section \<open>Properties\<close>

text \<open>
  C18: Block allocation. Inside a transaction with room for two more blocks, \<^verbatim>\<open>balloc\<close> returns the
  lowest-numbered free block, marks exactly that block in use, fills it with zeroes and changes the
  contents of no other block; it returns 0 only when every block of the file system is in use, and then changes
  nothing. \<^verbatim>\<open>bfree\<close> of the block makes the bitmap what it was.
\<close>

theorem balloc_correct:
  fixes s :: "'a fs_state_scheme"
  assumes tx: "tx {} P s" and room: "lh_n s + 2 < 30" and bm: "bitmap_ok s"
  shows "\<exists>r t. balloc (log_dev s) s = Done r t \<and>
    (if \<forall>b < fs_size s. used s b then r = 0 \<and> (\<forall>b. blk t b = blk s b)
     else r \<noteq> 0 \<and> unat r < fs_size s \<and> \<not> used s (unat r) \<and> (\<forall>b < unat r. used s b) \<and>
       (\<forall>b < fs_size s. used t b \<longleftrightarrow> used s b \<or> b = unat r) \<and> (\<forall>i < BSIZE. blk t r i = 0) \<and>
       (\<forall>b. b \<noteq> r \<longrightarrow> b \<noteq> BBLOCK (unat r) s \<longrightarrow> blk t b = blk s b) \<and>
       (\<exists>u. bfree (log_dev s) r t = Done () u \<and> (\<forall>b < fs_size s. used u b \<longleftrightarrow> used s b)))"
proof -
  have dev: "log_dev s \<noteq> 0" by (rule txD(3) [OF tx])
  have room': "lh_n s + int (card ({} :: nat set)) + 1 < 30" using room by simp
  have held: "held_ok {} s" for s :: "'a fs_state_scheme" by (simp add: held_ok_def)
  show ?thesis
  proof (rule balloc_spec [OF tx room' bm held], goal_cases)
    case (2 Q t)
    then show ?thesis using dev tx_frame_facts(3) [OF 2(5)] by (intro exI [of _ 0] exI [of _ t]) simp
  next
    case (1 x Q t)
    note took = 1(2) and fr = 1(5)
    have x: "x < fs_size s" "\<not> used s x" using took by (simp_all add: took_block_def)
    have ux: "unat (of_nat x :: u32) = x" by (rule unat_of_nat_u32 [OF fs_size_less [OF x(1)]])
    have x0: "(of_nat x :: u32) \<noteq> 0" using ux x(2) bm by (auto simp: bitmap_ok_def)
    note f = tx_frame_facts(3) [OF fr] tx_frame_fs [OF fr]
    have used: "used t b \<longleftrightarrow> used s b \<or> b = x" if "b < fs_size s" for b by (rule took_used [OF took bm fr dev that])
    have room2: "lh_n t + int (card ({} :: nat set)) < 30" using room 1(7) by simp
    obtain Q' u where u: "bfree (log_dev t) (of_nat x) t = Done () u" "tx {} Q' u" "tx_frame t u"
      "\<And>d n. d \<noteq> 0 \<Longrightarrow> content u d n =
        (if d = log_dev t \<and> n = BBLOCK x t then set_free (x mod BPB) (content t d n) else content t d n)"
      by (rule bfree_spec [OF 1(4) room2 held, where b = "of_nat x"]) (use x ux used in \<open>simp_all add: f that\<close>)
    have uu: "used u b \<longleftrightarrow> used s b" if b: "b < fs_size s" for b
    proof -
      have "b = x \<longleftrightarrow> b div BPB = x div BPB \<and> b mod BPB = x mod BPB" by (metis div_mult_mod_eq)
      then have "used u b \<longleftrightarrow> used t b \<and> b \<noteq> x"
        using u(4) [OF dev] BBLOCK_eq [OF bm b x(1)]
        by (auto simp: used_def f tx_frame_facts(3) [OF u(3)] BBLOCK_cong [OF tx_frame_fs(1) [OF u(3)]] BBLOCK_cong [OF f(2)] bit_free_set_free)
      then show ?thesis using used [OF b] x(2) by auto
    qed
    have "blk t b = blk s b" if "b \<noteq> of_nat x" "b \<noteq> BBLOCK x s" for b
      using took that dev by (simp add: took_block_def f)
    moreover have "blk t (of_nat x) i = 0" if "i < BSIZE" for i
      using took that dev by (simp add: took_block_def f zeroed_def)
    ultimately show ?thesis
      using 1(1,3) x used uu u(1) x0 by (intro exI [of _ "of_nat x"] exI [of _ t]) (auto simp: ux f)
  qed
qed

text \<open>A file system of 2000 blocks as \<^verbatim>\<open>mkfs\<close> lays it out, in a transaction, with nothing cached.\<close>

definition zero_inode :: inode where
  "zero_inode = \<lparr>i_dev = 0, i_inum = 0, i_ref = 0, i_lock = initsleeplock, i_valid = 0, i_type = 0, i_major = 0, i_minor = 0,
     i_nlink = 0, i_size = 0, i_addrs = replicate (NDIRECT + 1) 0\<rparr>"

definition ex_fs :: "(u32 \<Rightarrow> block) \<Rightarrow> fs_state" where
  "ex_fs D = log_state.extend (ex_log\<lparr>log_outstanding := 1, lh_n := 0, disk := (\<lambda>_. D)\<rparr>)
     \<lparr>sb = \<lparr>sb_magic = FSMAGIC, sb_size = 2000, sb_nblocks = 1953, sb_ninodes = 200, sb_nlog = 31, sb_logstart = 2,
        sb_inodestart = 33, sb_bmapstart = 46\<rparr>, inodes = replicate NINODE zero_inode\<rparr>"

lemma ex_fs_facts [simp]:
  "sb (ex_fs D) = \<lparr>sb_magic = FSMAGIC, sb_size = 2000, sb_nblocks = 1953, sb_ninodes = 200, sb_nlog = 31, sb_logstart = 2,
        sb_inodestart = 33, sb_bmapstart = 46\<rparr>"
  "inodes (ex_fs D) = replicate NINODE zero_inode" "lh_n (ex_fs D) = 0" "log_dev (ex_fs D) = 1" "disk (ex_fs D) = (\<lambda>_. D)"
  "bufs (ex_fs D) = bufs ex_cache" "lru (ex_fs D) = lru ex_cache" "procs (ex_fs D) = [ex_uproc]" "myproc (ex_fs D) = Some 0"
  "log_outstanding (ex_fs D) = 1"
  using ex_cache_facts(1,2)
  by (simp_all add: ex_fs_def log_state.defs ex_log_def buf_state.defs myproc_def mycpu_def cpuid_def)

lemma ex_fs_content [simp]: "content (ex_fs D) d n = D n" if "d \<noteq> 0"
  by (subst content_disk) (use that in \<open>simp_all add: ex_cache_empty zero_buf_def\<close>)

lemma ex_fs_tx: "tx {} {} (ex_fs D)"
proof -
  have "bc_inv {} {} (ex_fs D)"
    using ex_cache_inv unfolding bc_inv_def buf_inv_def
    by (simp add: ex_cache_empty zero_buf_def Let_def initsleeplock_def)
  then show ?thesis by (simp add: tx_def running_def pinned_for_def)
qed

text \<open>Blocks 0 to 46 are in use.\<close>

definition ex_bitmap :: block where
  "ex_bitmap = (\<lambda>i. if i < 5 then 255 else if i = 5 then 0x7f else 0)"

lemma ex_fs_bitmap: "D 46 = ex_bitmap \<Longrightarrow> bitmap_ok (ex_fs D)"
  by (simp add: bitmap_ok_def used_def BBLOCK_def bit_free_def bit_mask_def ex_bitmap_def)

theorem balloc_correct_witness:
  "\<exists>r t. balloc 1 (ex_fs (\<lambda>n. if n = 46 then ex_bitmap else (\<lambda>_. 9))) = Done r t \<and> r \<noteq> 0 \<and> used t (unat r) \<and> content t (log_dev t) r 1023 = 0"
proof -
  let ?s = "ex_fs (\<lambda>n. if n = 46 then ex_bitmap else (\<lambda>_. 9))"
  have bm: "bitmap_ok ?s" by (rule ex_fs_bitmap) simp
  have "\<not> used ?s 47" by (simp add: used_def BBLOCK_def bit_free_def bit_mask_def ex_bitmap_def)
  then have n: "\<not> (\<forall>b < fs_size ?s. used ?s b)" by (auto intro!: exI [of _ 47])
  have room: "lh_n ?s + 2 < 30" by simp
  obtain r t where "balloc (log_dev ?s) ?s = Done r t" "r \<noteq> 0" "unat r < fs_size ?s"
    "\<forall>b < fs_size ?s. used t b \<longleftrightarrow> used ?s b \<or> b = unat r" "\<forall>i < BSIZE. content t (log_dev t) r i = 0"
    using balloc_correct [OF ex_fs_tx room bm, unfolded if_not_P [OF n]] by (elim exE conjE) (rule that)
  then show ?thesis by (intro exI [of _ r] exI [of _ t]) simp
qed

end
