(* ===== verification/Inode.thy ===== *)
theory Inode
  imports Balloc
begin

text \<open>
  The contents of files: \<^verbatim>\<open>bmap\<close>, \<^verbatim>\<open>readi\<close> and \<^verbatim>\<open>writei\<close> of \<^verbatim>\<open>kernel/fs.c\<close> refine operations on a byte
  sequence. A block that is not allocated reads as zeroes, so that \<^verbatim>\<open>bmap\<close>, which allocates cleared blocks,
  changes no byte of the file.
\<close>

section \<open>The blocks of a file\<close>

abbreviation indirect :: "'a fs_state_scheme \<Rightarrow> nat \<Rightarrow> u32" where
  "indirect s ip \<equiv> i_addrs (inode_at s ip) ! NDIRECT"

definition faddr :: "'a fs_state_scheme \<Rightarrow> nat \<Rightarrow> nat \<Rightarrow> u32" where
  "faddr s ip bn =
     (if bn < NDIRECT then i_addrs (inode_at s ip) ! bn
      else if indirect s ip = 0 then 0 else ld32 (blk s (indirect s ip)) (bn - NDIRECT))"

text \<open>Slot 268 is the indirect block.\<close>

definition fslot :: "'a fs_state_scheme \<Rightarrow> nat \<Rightarrow> nat \<Rightarrow> u32" where
  "fslot s ip k = (if k = MAXFILE then indirect s ip else faddr s ip k)"

definition fbyte :: "'a fs_state_scheme \<Rightarrow> nat \<Rightarrow> nat \<Rightarrow> u8" where
  "fbyte s ip off = (let a = faddr s ip (off div BSIZE) in if a = 0 then 0 else blk s a (off mod BSIZE))"

definition file_data :: "'a fs_state_scheme \<Rightarrow> nat \<Rightarrow> u8 list" where
  "file_data s ip = map (fbyte s ip) [0..<unat (i_size (inode_at s ip))]"

definition inode_block :: "'a fs_state_scheme \<Rightarrow> nat \<Rightarrow> u32" where
  "inode_block s ip = IBLOCK (i_inum (inode_at s ip)) s"

definition in_use :: "'a fs_state_scheme \<Rightarrow> u32 \<Rightarrow> bool" where
  "in_use s x \<longleftrightarrow> unat x < fs_size s \<and> used s (unat x) \<and> (\<forall>b < fs_size s. x \<noteq> BBLOCK b s)"

text \<open>A locked inode whose blocks are all different, in use, and none of them a bitmap or its inode block.\<close>

definition file_wf :: "'a fs_state_scheme \<Rightarrow> nat \<Rightarrow> bool" where
  "file_wf s ip \<longleftrightarrow> ip < length (inodes s) \<and> length (i_addrs (inode_at s ip)) = NDIRECT + 1 \<and> i_dev (inode_at s ip) = log_dev s \<and>
     bitmap_ok s \<and> in_use s (inode_block s ip) \<and>
     (\<forall>k \<le> MAXFILE. fslot s ip k \<noteq> 0 \<longrightarrow> in_use s (fslot s ip k) \<and> fslot s ip k \<noteq> inode_block s ip \<and>
        (\<forall>j \<le> MAXFILE. fslot s ip j = fslot s ip k \<longrightarrow> j = k))"

lemma file_wfD:
  assumes "file_wf s ip"
  shows "ip < length (inodes s)" "length (i_addrs (inode_at s ip)) = NDIRECT + 1" "i_dev (inode_at s ip) = log_dev s"
    "bitmap_ok s" "in_use s (inode_block s ip)"
    "k \<le> MAXFILE \<Longrightarrow> fslot s ip k \<noteq> 0 \<Longrightarrow> in_use s (fslot s ip k)"
    "k \<le> MAXFILE \<Longrightarrow> fslot s ip k \<noteq> 0 \<Longrightarrow> fslot s ip k \<noteq> inode_block s ip"
    "k \<le> MAXFILE \<Longrightarrow> fslot s ip k \<noteq> 0 \<Longrightarrow> j \<le> MAXFILE \<Longrightarrow> fslot s ip j = fslot s ip k \<Longrightarrow> j = k"
  using assms unfolding file_wf_def by blast+

section \<open>Frames\<close>

definition file_frame :: "nat \<Rightarrow> 'a fs_state_scheme \<Rightarrow> 'a fs_state_scheme \<Rightarrow> bool" where
  "file_frame ip s t \<longleftrightarrow> (\<exists>bs l ps out b n f A z. t = s\<lparr>bufs := bs, lru := l, procs := ps, uart_out := out, uart_idle := b,
     lh_n := n, lh_block := f, inodes := (inodes s)[ip := (inode_at s ip)\<lparr>i_size := z, i_addrs := A\<rparr>]\<rparr> \<and> same_procs s ps)"

lemma file_frame_tx: "tx_frame s t \<Longrightarrow> file_frame ip s t"
proof -
  assume "tx_frame s t"
  then obtain bs l ps out b n f where t: "t = s\<lparr>bufs := bs, lru := l, procs := ps, uart_out := out, uart_idle := b,
     lh_n := n, lh_block := f\<rparr>" "same_procs s ps" by (auto simp: tx_frame_def)
  have "(inodes s)[ip := (inode_at s ip)\<lparr>i_size := i_size (inode_at s ip), i_addrs := i_addrs (inode_at s ip)\<rparr>] = inodes s"
    by (cases "ip < length (inodes s)") simp_all
  then show ?thesis unfolding file_frame_def using t
    by (intro exI [of _ bs] exI [of _ l] exI [of _ ps] exI [of _ out] exI [of _ b] exI [of _ n] exI [of _ f]
      exI [of _ "i_addrs (inode_at s ip)"] exI [of _ "i_size (inode_at s ip)"]) simp
qed

lemma file_frame_set: "file_frame ip s (set_inode ip (\<lambda>i. i\<lparr>i_size := z, i_addrs := A\<rparr>) s)"
  unfolding file_frame_def set_inode_def using same_procs_refl [of s]
  by (intro exI [of _ "bufs s"] exI [of _ "lru s"] exI [of _ "procs s"] exI [of _ "uart_out s"] exI [of _ "uart_idle s"]
    exI [of _ "lh_n s"] exI [of _ "lh_block s"] exI [of _ A] exI [of _ z]) simp

lemma file_frame_addrs: "file_frame ip s (set_inode ip (\<lambda>i. i\<lparr>i_addrs := A (i_addrs i)\<rparr>) s)"
proof -
  have "set_inode ip (\<lambda>i. i\<lparr>i_addrs := A (i_addrs i)\<rparr>) s =
    set_inode ip (\<lambda>i. i\<lparr>i_size := i_size (inode_at s ip), i_addrs := A (i_addrs (inode_at s ip))\<rparr>) s"
    by (simp add: set_inode_def)
  then show ?thesis using file_frame_set by metis
qed

lemma file_frame_trans:
  assumes "file_frame ip s t" "file_frame ip t u"
  shows "file_frame ip s u"
proof -
  obtain bs l ps out b n f A z where t: "t = s\<lparr>bufs := bs, lru := l, procs := ps, uart_out := out, uart_idle := b,
     lh_n := n, lh_block := f, inodes := (inodes s)[ip := (inode_at s ip)\<lparr>i_size := z, i_addrs := A\<rparr>]\<rparr>" "same_procs s ps"
    using assms(1) by (auto simp: file_frame_def)
  obtain bs' l' ps' out' b' n' f' A' z' where u: "u = t\<lparr>bufs := bs', lru := l', procs := ps', uart_out := out', uart_idle := b',
     lh_n := n', lh_block := f', inodes := (inodes t)[ip := (inode_at t ip)\<lparr>i_size := z', i_addrs := A'\<rparr>]\<rparr>" "same_procs t ps'"
    using assms(2) by (auto simp: file_frame_def)
  have "same_procs s ps'"
    by (rule same_procs_trans [OF t(2) u(2)]) (simp_all add: t(1) myproc_def mycpu_def cpuid_def)
  moreover have "(inodes t)[ip := (inode_at t ip)\<lparr>i_size := z', i_addrs := A'\<rparr>] = (inodes s)[ip := (inode_at s ip)\<lparr>i_size := z', i_addrs := A'\<rparr>]"
    by (cases "ip < length (inodes s)") (simp_all add: t(1) list_update_beyond)
  ultimately show ?thesis unfolding file_frame_def
    by (intro exI [of _ bs'] exI [of _ l'] exI [of _ ps'] exI [of _ out'] exI [of _ b'] exI [of _ n'] exI [of _ f']
      exI [of _ A'] exI [of _ z']) (simp add: u(1) t(1))
qed

lemma file_frame_facts:
  assumes "file_frame ip s t"
  shows "sb t = sb s" "log_dev t = log_dev s" "length (inodes t) = length (inodes s)" "log_outstanding t = log_outstanding s"
    "j \<noteq> ip \<Longrightarrow> inode_at t j = inode_at s j" "mem t = mem s" "myproc t = myproc s" "disk t = disk s"
    "running t = running s"
  using assms by (auto simp: file_frame_def same_procs_def myproc_def mycpu_def cpuid_def running_def)

lemma file_frame_inode:
  assumes "file_frame ip s t" "ip < length (inodes s)"
  shows "i_dev (inode_at t ip) = i_dev (inode_at s ip)" "i_inum (inode_at t ip) = i_inum (inode_at s ip)"
    "i_type (inode_at t ip) = i_type (inode_at s ip)" "i_lock (inode_at t ip) = i_lock (inode_at s ip)"
    "i_ref (inode_at t ip) = i_ref (inode_at s ip)" "i_valid (inode_at t ip) = i_valid (inode_at s ip)"
    "i_nlink (inode_at t ip) = i_nlink (inode_at s ip)" "i_major (inode_at t ip) = i_major (inode_at s ip)"
    "i_minor (inode_at t ip) = i_minor (inode_at s ip)"
  using assms by (auto simp: file_frame_def)

section \<open>Giving a file one more block\<close>

text \<open>The same contents and the same inode: the same file.\<close>

lemma file_cong:
  assumes "\<And>d n. d \<noteq> 0 \<Longrightarrow> content t d n = content s d n" "log_dev s \<noteq> 0" "log_dev t = log_dev s" "sb t = sb s"
    "inode_at t ip = inode_at s ip" "length (inodes t) = length (inodes s)"
  shows "faddr t ip = faddr s ip" "fslot t ip = fslot s ip" "fbyte t ip = fbyte s ip" "file_wf t ip = file_wf s ip"
proof -
  note bb = BBLOCK_cong [OF assms(4)]
  have c: "blk t = blk s" using assms(1-3) by (intro ext) simp
  show f: "faddr t ip = faddr s ip" by (intro ext) (simp add: faddr_def assms c [unfolded fun_eq_iff assms(3)])
  show sl: "fslot t ip = fslot s ip" by (intro ext) (simp add: fslot_def f assms)
  show "fbyte t ip = fbyte s ip" using assms(1,2) by (intro ext) (simp add: fbyte_def f assms Let_def)
  have u: "used t = used s" using assms(1,2) by (intro ext) (simp add: used_def bb assms)
  have "bitmap_ok t = bitmap_ok s" by (simp add: bitmap_ok_def u bb assms)
  moreover have "in_use t = in_use s" by (intro ext) (simp add: in_use_def u bb assms)
  moreover have "inode_block t ip = inode_block s ip" by (simp add: inode_block_def IBLOCK_def assms)
  ultimately show "file_wf t ip = file_wf s ip" by (simp add: file_wf_def sl assms)
qed

lemma file_cong_tx:
  assumes "tx_frame s t" "\<And>d n. d \<noteq> 0 \<Longrightarrow> content t d n = content s d n" "log_dev s \<noteq> 0"
  shows "faddr t ip = faddr s ip" "fslot t ip = fslot s ip" "fbyte t ip = fbyte s ip" "file_wf t ip = file_wf s ip"
  by (rule file_cong [OF assms(2,3)]; simp add: tx_frame_facts [OF assms(1)] tx_frame_fs [OF assms(1)])+

text \<open>A block that was free enters slot \<open>k\<close>.\<close>

lemma new_slot:
  assumes wf: "file_wf s ip" and x: "x < fs_size s" "\<not> used s x" and k: "k \<le> MAXFILE"
    and fr: "file_frame ip s t" "length (i_addrs (inode_at t ip)) = NDIRECT + 1"
    and used: "\<And>b. b < fs_size s \<Longrightarrow> used t b \<longleftrightarrow> used s b \<or> b = x"
    and slots: "\<And>j. j \<le> MAXFILE \<Longrightarrow> fslot t ip j = (if j = k then of_nat x else fslot s ip j)"
  shows "file_wf t ip"
proof -
  note W = file_wfD [OF wf] and f = file_frame_facts [OF fr(1)]
  note fi = file_frame_inode [OF fr(1) W(1)]
  note bb = BBLOCK_cong [OF f(1)]
  have ux: "unat (of_nat x :: u32) = x" by (rule unat_of_nat_u32 [OF fs_size_less [OF x(1)]])
  have free: "unat y \<noteq> x" if "in_use s y" for y using that x(2) by (auto simp: in_use_def)
  have bmx: "of_nat x \<noteq> BBLOCK b s" if "b < fs_size s" for b
    using W(4) that x(2) ux by (auto simp: bitmap_ok_def)
  have bm: "bitmap_ok t" using W(4) used by (simp add: bitmap_ok_def f(1) bb)
  have iu: "in_use t y" if "in_use s y" for y using that used by (simp add: in_use_def f(1) bb)
  have ux': "in_use t (of_nat x)" using x used bmx by (simp add: in_use_def f(1) bb ux)
  have ib: "inode_block t ip = inode_block s ip" by (simp add: inode_block_def IBLOCK_def f(1) fi)
  have xib: "of_nat x \<noteq> inode_block s ip" using free [OF W(5)] ux by auto
  have sl: "in_use t (fslot t ip j) \<and> fslot t ip j \<noteq> inode_block t ip \<and> (\<forall>i \<le> MAXFILE. fslot t ip i = fslot t ip j \<longrightarrow> i = j)"
    if j: "j \<le> MAXFILE" "fslot t ip j \<noteq> 0" for j
  proof (cases "j = k")
    case True
    have "fslot s ip i \<noteq> of_nat x" if "i \<le> MAXFILE" for i
      using W(6) [OF that] free ux j(2) slots [OF k] True by (cases "fslot s ip i = 0") auto
    then show ?thesis using True slots ux' xib ib k by auto
  next
    case False
    have s: "fslot t ip j = fslot s ip j" "fslot s ip j \<noteq> 0" using slots [OF j(1)] False j(2) by simp_all
    have "fslot s ip j \<noteq> of_nat x" using free [OF W(6) [OF j(1) s(2)]] ux by auto
    then show ?thesis
      using iu [OF W(6) [OF j(1) s(2)]] W(7) [OF j(1) s(2)] W(8) [OF j(1) s(2)] slots unfolding s(1) ib by auto
  qed
  show ?thesis
    unfolding file_wf_def using W(1-3) fr(2) bm iu [OF W(5)] sl by (simp add: f ib fi)
qed

lemma new_slot_bytes:
  assumes wf: "file_wf s ip" and k: "fslot s ip k = 0" and dev: "log_dev t = log_dev s"
    and slots: "\<And>j. j \<le> MAXFILE \<Longrightarrow> fslot t ip j = (if j = k then x else fslot s ip j)"
    and same: "\<And>j. j < MAXFILE \<Longrightarrow> fslot s ip j \<noteq> 0 \<Longrightarrow> blk t (fslot s ip j) = blk s (fslot s ip j)"
    and new: "\<And>i. k < MAXFILE \<Longrightarrow> i < BSIZE \<Longrightarrow> blk t x i = 0" and off: "off < MAXFILE * BSIZE"
  shows "fbyte t ip off = fbyte s ip off"
proof -
  let ?j = "off div BSIZE"
  have j: "?j < MAXFILE" using off by (simp add: div_less_iff_less_mult)
  then have f: "faddr t ip ?j = fslot t ip ?j" "faddr s ip ?j = fslot s ip ?j" by (simp_all add: fslot_def)
  show ?thesis
  proof (cases "?j = k")
    case True
    then show ?thesis using f k slots [of ?j] j new [of "off mod BSIZE"] by (simp add: fbyte_def Let_def)
  next
    case False
    then show ?thesis using f slots [of ?j] j same [OF j] by (simp add: fbyte_def Let_def)
  qed
qed

text \<open>What \<^verbatim>\<open>bmap\<close> and the loop of \<^verbatim>\<open>writei\<close> keep: the file, inside the transaction, and its bytes.\<close>

definition file_step :: "nat \<Rightarrow> 'a fs_state_scheme \<Rightarrow> 'a fs_state_scheme \<Rightarrow> bool" where
  "file_step ip s t \<longleftrightarrow> file_frame ip s t \<and> file_wf t ip \<and> (\<exists>Q. tx {} Q t) \<and> i_size (inode_at t ip) = i_size (inode_at s ip) \<and>
     (\<forall>off < MAXFILE * BSIZE. fbyte t ip off = fbyte s ip off)"

lemma file_step_trans: "file_step ip s t \<Longrightarrow> file_step ip t u \<Longrightarrow> file_step ip s u"
  unfolding file_step_def using file_frame_trans by metis

text \<open>A block \<open>x\<close> taken by \<^verbatim>\<open>balloc\<close> does not touch the file.\<close>

lemma took_slots:
  assumes wf: "file_wf s ip" and took: "took_block x s u" and dev: "log_dev s \<noteq> 0" and fr: "tx_frame s u"
    and j: "j \<le> MAXFILE" "fslot s ip j \<noteq> 0"
  shows "blk u (fslot s ip j) = blk s (fslot s ip j)"
proof -
  have x: "x < fs_size s" "\<not> used s x" using took by (simp_all add: took_block_def)
  have "in_use s (fslot s ip j)" by (rule file_wfD(6) [OF wf j])
  then have "fslot s ip j \<noteq> of_nat x" "fslot s ip j \<noteq> BBLOCK x s"
    using x unat_of_nat_u32 [OF fs_size_less [OF x(1)]] by (auto simp: in_use_def)
  then show ?thesis using took dev tx_frame_facts(3) [OF fr] by (simp add: took_block_def)
qed

lemma took_zero:
  "took_block x s u \<Longrightarrow> log_dev s \<noteq> 0 \<Longrightarrow> tx_frame s u \<Longrightarrow> i < BSIZE \<Longrightarrow> blk u (of_nat x) i = 0"
  using tx_frame_facts(3) [of s u] by (simp add: took_block_def zeroed_def)

lemma took_faddr:
  assumes wf: "file_wf s ip" and took: "took_block x s u" and dev: "log_dev s \<noteq> 0" and fr: "tx_frame s u"
  shows "faddr u ip bn = faddr s ip bn"
proof -
  have "blk u (indirect s ip) = blk s (indirect s ip)" if "indirect s ip \<noteq> 0"
    using took_slots [OF wf took dev fr, of MAXFILE] that by (simp add: fslot_def)
  then show ?thesis by (simp add: faddr_def tx_frame_fs [OF fr])
qed

text \<open>\<^verbatim>\<open>balloc\<close> for an entry of \<^verbatim>\<open>ip->addrs\<close>: a direct block, or the indirect block.\<close>

lemma alloc_addr:
  fixes s :: "'a fs_state_scheme"
  assumes tx: "tx {} P s" and room: "lh_n s + 1 < 30" and wf: "file_wf s ip" and a: "a \<le> NDIRECT" "i_addrs (inode_at s ip) ! a = 0"
  obtains (took) x t where "balloc (i_dev (inode_at s ip)) s = Done x t" "x \<noteq> 0"
      "file_step ip s (set_inode ip (\<lambda>i. i\<lparr>i_addrs := (i_addrs i)[a := x]\<rparr>) t)"
      "i_addrs (inode_at (set_inode ip (\<lambda>i. i\<lparr>i_addrs := (i_addrs i)[a := x]\<rparr>) t) ip) ! a = x"
      "\<And>bn. bn < MAXFILE \<Longrightarrow> faddr s ip bn \<noteq> 0 \<Longrightarrow> faddr (set_inode ip (\<lambda>i. i\<lparr>i_addrs := (i_addrs i)[a := x]\<rparr>) t) ip bn = faddr s ip bn"
      "lh_n t \<le> lh_n s + 2"
  | (full) t where "balloc (i_dev (inode_at s ip)) s = Done 0 t" "file_step ip s t" "lh_n t \<le> lh_n s + 2"
      "\<And>y. y < fs_size t \<Longrightarrow> used t y" "inode_at t ip = inode_at s ip" "faddr t ip = faddr s ip"
proof -
  note W = file_wfD [OF wf]
  have dev: "log_dev s \<noteq> 0" by (rule txD(3) [OF tx])
  have room': "lh_n s + int (card ({} :: nat set)) + 1 < 30" using room by simp
  have held: "held_ok {} s" by (simp add: held_ok_def)
  show thesis
  proof (rule balloc_spec [OF tx room' W(4) held], goal_cases)
    case (2 Q t)
    note f = tx_frame_facts(3) [OF 2(5)] tx_frame_fs [OF 2(5)]
    have "file_step ip s t"
      using file_cong_tx [OF 2(5,3) dev] f(3) wf 2(4) file_frame_tx [OF 2(5)] by (auto simp: file_step_def)
    then show thesis
      using full [of t] 2(1,2,7) W(3) f(2,3) used_cong(1) [OF 2(5,3) dev] file_cong_tx(1) [OF 2(5,3) dev] by simp
  next
    case (1 x Q u)
    note f = tx_frame_facts(3) [OF 1(5)] tx_frame_fs [OF 1(5)]
    have x: "x < fs_size s" "\<not> used s x" using 1(2) by (simp_all add: took_block_def)
    have ux: "unat (of_nat x :: u32) = x" by (rule unat_of_nat_u32 [OF fs_size_less [OF x(1)]])
    have x0: "(of_nat x :: u32) \<noteq> 0" using ux x(2) W(4) by (auto simp: bitmap_ok_def)
    let ?g = "\<lambda>i. i\<lparr>i_addrs := (i_addrs i)[a := of_nat x :: u32]\<rparr>"
    let ?t = "set_inode ip ?g u"
    let ?k = "if a = NDIRECT then MAXFILE else a"
    have ip: "ip < length (inodes u)" using W(1) f(3) by simp
    have at: "inode_at ?t ip = ?g (inode_at s ip)" using inode_at_set [OF ip] f(3) by simp
    have fr: "file_frame ip s ?t"
      by (rule file_frame_trans [OF file_frame_tx [OF 1(5)] file_frame_addrs])
    note z = took_zero [OF 1(2) dev 1(5)]
    have ld0: "ld32 (blk u (of_nat x)) (bn - NDIRECT) = 0" if "bn < MAXFILE" for bn
      using z that by (simp add: ld32_def)
    have slots: "fslot ?t ip j = (if j = ?k then of_nat x else fslot s ip j)" if j: "j \<le> MAXFILE" for j
    proof -
      have ind: "blk u (indirect s ip) = blk s (indirect s ip)" if "indirect s ip \<noteq> 0"
        using took_slots [OF wf 1(2) dev 1(5), of MAXFILE] that by (simp add: fslot_def)
      show ?thesis unfolding fslot_def faddr_def at tx_set_inode
        using j a W(2) ind ld0 [of j] f(1) by (auto simp: nth_list_update)
    qed
    have k0: "fslot s ip ?k = 0" "?k \<le> MAXFILE" using a by (auto simp: fslot_def faddr_def)
    have wf': "file_wf ?t ip"
    proof (rule new_slot [OF wf x k0(2) fr _ _ slots])
      show "length (i_addrs (inode_at ?t ip)) = NDIRECT + 1" using at W(2) by simp
      show "used ?t b \<longleftrightarrow> used s b \<or> b = x" if "b < fs_size s" for b
        using took_used [OF 1(2) W(4) 1(5) dev that] by (simp add: used_def BBLOCK_def)
    qed
    have "fbyte ?t ip off = fbyte s ip off" if "off < MAXFILE * BSIZE" for off
      by (rule new_slot_bytes [OF wf k0(1) _ slots _ _ that])
        (use f(1) took_slots [OF wf 1(2) dev 1(5)] z in simp_all)
    then have step: "file_step ip s ?t"
      using fr wf' 1(4) at by (auto simp: file_step_def)
    have keep: "faddr ?t ip bn = faddr s ip bn" if "bn < MAXFILE" "faddr s ip bn \<noteq> 0" for bn
      using slots [of bn] k0(1) that by (auto simp: fslot_def split: if_splits)
    show thesis
      by (rule took [OF _ x0 step]) (use 1(1,7) W(2,3) a at keep in simp_all)
  qed
qed

section \<open>bmap\<close>

text \<open>The part of \<^verbatim>\<open>bmap\<close> after the indirect block \<open>addr\<close> is known.\<close>

definition bmap_entry :: "nat \<Rightarrow> u32 \<Rightarrow> nat \<Rightarrow> 'a fs_state_scheme \<Rightarrow> (u32, 'a fs_state_scheme) outcome" where
  "bmap_entry ip addr bn s =
     obind (bread (i_dev (inode_at s ip)) addr s) (\<lambda>bp s.
       let addr = ld32 (b_data (buf_at s bp)) bn in
       if addr = 0 then
         obind (balloc (i_dev (inode_at s ip)) s) (\<lambda>addr s.
         obind (if addr \<noteq> 0 then log_write bp (upd_data bp (\<lambda>a. st32 a bn addr) s) else Done () s) (\<lambda>_ s.
         obind (brelse bp s) (\<lambda>_ s. Done addr s)))
       else obind (brelse bp s) (\<lambda>_ s. Done addr s))"

text \<open>What \<^verbatim>\<open>bmap\<close> promises for block \<open>bn\<close>; it returns 0 only when the disk is full.\<close>

definition bmap_post :: "nat \<Rightarrow> nat \<Rightarrow> u32 \<Rightarrow> 'a fs_state_scheme \<Rightarrow> 'a fs_state_scheme \<Rightarrow> bool" where
  "bmap_post ip bn r s t \<longleftrightarrow> file_step ip s t \<and> (\<forall>b < MAXFILE. faddr s ip b \<noteq> 0 \<longrightarrow> faddr t ip b = faddr s ip b) \<and>
     (r \<noteq> 0 \<longrightarrow> faddr t ip bn = r) \<and> (r = 0 \<longrightarrow> faddr t ip bn = 0 \<and> (\<forall>y < fs_size t. used t y))"

lemma pinned_same:
  assumes "tx H P s" "tx H Q u" "b \<in> H" "buf_at u b = buf_at s b"
  shows "b \<in> Q \<longleftrightarrow> b \<in> P"
proof -
  have "b < NBUF" using bc_inv_len(3) [OF txD(1) [OF assms(1)]] assms(3) by auto
  then show ?thesis
    using bc_invD(1) [OF txD(1) [OF assms(1)], of b] bc_invD(1) [OF txD(1) [OF assms(2)], of b] assms(3,4)
    by (auto split: if_splits)
qed

lemma bmap_entry_taken:
  fixes s :: "'a fs_state_scheme"
  assumes wf: "file_wf s ip" and dev: "log_dev s \<noteq> 0" and ind: "indirect s ip \<noteq> 0" and bn: "bn < NINDIRECT" "faddr s ip (NDIRECT + bn) = 0"
    and took: "took_block x s u" and fu: "tx_frame s u" and ft: "tx_frame u t" and Q: "tx {} Q t"
    and c: "\<And>d n. d \<noteq> 0 \<Longrightarrow> content t d n = (if d = log_dev s \<and> n = indirect s ip then st32 (blk s (indirect s ip)) bn (of_nat x) else content u d n)"
  shows "bmap_post ip (NDIRECT + bn) (of_nat x) s t" "(of_nat x :: u32) \<noteq> 0"
proof -
  note W = file_wfD [OF wf]
  have x: "x < fs_size s" "\<not> used s x" using took by (simp_all add: took_block_def)
  have ux: "unat (of_nat x :: u32) = x" by (rule unat_of_nat_u32 [OF fs_size_less [OF x(1)]])
  show x0: "(of_nat x :: u32) \<noteq> 0" using ux x(2) W(4) by (auto simp: bitmap_ok_def)
  have fr: "tx_frame s t" by (rule tx_frame_trans [OF fu ft])
  note f = tx_frame_facts(3) [OF fr] tx_frame_fs [OF fr] and fu' = tx_frame_facts(3) [OF fu] tx_frame_fs [OF fu]
  note bb = BBLOCK_cong [OF f(2)] and bu = BBLOCK_cong [OF fu'(2)]
  have sl268: "fslot s ip MAXFILE = indirect s ip" by (simp add: fslot_def)
  have iu: "in_use s (indirect s ip)" using W(6) [of MAXFILE] ind by (simp add: sl268)
  have xi: "of_nat x \<noteq> indirect s ip" using iu x(2) ux by (auto simp: in_use_def)
  have slots: "fslot t ip j = (if j = NDIRECT + bn then of_nat x else fslot s ip j)" if j: "j \<le> MAXFILE" for j
  proof -
    have b: "blk t (indirect s ip) = st32 (blk s (indirect s ip)) bn (of_nat x)" using c [OF dev] f(1) by simp
    show ?thesis unfolding fslot_def faddr_def f(3) b ld32_st32 using bn(1) ind j by auto
  qed
  have k0: "fslot s ip (NDIRECT + bn) = 0" using bn by (simp add: fslot_def)
  have used: "used t b \<longleftrightarrow> used s b \<or> b = x" if b: "b < fs_size s" for b
  proof -
    have "BBLOCK b s \<noteq> indirect s ip" using iu b by (auto simp: in_use_def)
    then have "used t b = used u b" using c [OF dev] by (simp add: used_def f fu' bb bu)
    then show ?thesis using took_used [OF took W(4) fu dev b] by simp
  qed
  have wf': "file_wf t ip"
    by (rule new_slot [OF wf x _ file_frame_tx [OF fr] _ used slots]) (use bn(1) W(2) f(3) in auto)
  have "fbyte t ip off = fbyte s ip off" if off: "off < MAXFILE * BSIZE" for off
  proof (rule new_slot_bytes [OF wf k0 f(1) slots _ _ off])
    fix j assume j: "j < MAXFILE" "fslot s ip j \<noteq> 0"
    have "fslot s ip j \<noteq> indirect s ip" using W(8) [of j MAXFILE] j by (auto simp: sl268)
    then show "blk t (fslot s ip j) = blk s (fslot s ip j)"
      using c [OF dev] took_slots [OF wf took dev fu, of j] j f(1) fu'(1) by simp
  next
    fix i assume "i < BSIZE"
    then show "blk t (of_nat x) i = 0" using c [OF dev] xi took_zero [OF took dev fu] f(1) fu'(1) by simp
  qed
  then have "file_step ip s t" using file_frame_tx [OF fr] wf' Q by (auto simp: file_step_def f)
  moreover have "faddr t ip b = faddr s ip b" if "b < MAXFILE" "faddr s ip b \<noteq> 0" for b
    using slots [of b] k0 that by (auto simp: fslot_def split: if_splits)
  moreover have "faddr t ip (NDIRECT + bn) = of_nat x" using slots [of "NDIRECT + bn"] bn(1) by (simp add: fslot_def)
  ultimately show "bmap_post ip (NDIRECT + bn) (of_nat x) s t" using x0 by (simp add: bmap_post_def)
qed

lemma bmap_entry_spec:
  fixes s :: "'a fs_state_scheme"
  assumes tx: "tx {} P s" and room: "lh_n s + 3 < 30" and wf: "file_wf s ip" and ind: "indirect s ip \<noteq> 0" and bn: "bn < NINDIRECT"
  obtains (ok) r t where "bmap_entry ip (indirect s ip) bn s = Done r t" "bmap_post ip (NDIRECT + bn) r s t" "lh_n t \<le> lh_n s + 3"
proof -
  note W = file_wfD [OF wf]
  have dev: "log_dev s \<noteq> 0" by (rule txD(3) [OF tx])
  have room1: "lh_n s + int (card ({} :: nat set)) < 30" using room by simp
  have fa: "faddr s ip (NDIRECT + bn) = ld32 (blk s (indirect s ip)) bn" using ind by (simp add: faddr_def)
  have sl268: "fslot s ip MAXFILE = indirect s ip" by (simp add: fslot_def)
  have iu: "in_use s (indirect s ip)" using W(6) [of MAXFILE] ind by (simp add: sl268)
  show thesis
  proof (cases "faddr s ip (NDIRECT + bn) = 0")
    case False
    show thesis
    proof (rule tx_inspect [OF tx room1, where bno = "indirect s ip"], simp, goal_cases)
      case (1 bp s1 t)
      note f = tx_frame_facts(3) [OF 1(4)] tx_frame_fs [OF 1(4)]
      note fc = file_cong_tx [OF 1(4,7) dev]
      have "bmap_entry ip (indirect s ip) bn s = Done (faddr s ip (NDIRECT + bn)) t"
        using 1(1,2,5) False W(3) by (simp add: bmap_entry_def fa Let_def)
      moreover have "bmap_post ip (NDIRECT + bn) (faddr s ip (NDIRECT + bn)) s t"
        using fc wf 1(6) file_frame_tx [OF 1(4)] f(3) False by (auto simp: bmap_post_def file_step_def)
      ultimately show thesis using ok 1(8) by simp
    qed
  next
    case True
    show thesis
    proof (rule tx_bread [OF tx room1, where bno = "indirect s ip"], simp, goal_cases)
      case (1 bp s1)
      note f1 = tx_frame_facts(3) [OF 1(4)] tx_frame_fs [OF 1(4)]
      have dev1: "log_dev s1 \<noteq> 0" using dev f1(1) by simp
      note uc = used_cong [OF 1(4,8) dev]
      have bm1: "bitmap_ok s1" using uc(2) W(4) by simp
      have held: "held_ok {bp} s1"
        using iu uc(1) by (simp add: held_ok_def 1(6) f1 in_use_def BBLOCK_cong [OF f1(2)])
      have room2: "lh_n s1 + int (card {bp}) + 1 < 30" using room 1(9) by simp
      have start: "bmap_entry ip (indirect s ip) bn s = obind (balloc (log_dev s1) s1) (\<lambda>addr s.
         obind (if addr \<noteq> 0 then log_write bp (upd_data bp (\<lambda>a. st32 a bn addr) s) else Done () s) (\<lambda>_ s.
         obind (brelse bp s) (\<lambda>_ s. Done addr s)))"
        using True W(3) by (simp add: bmap_entry_def 1(1,7) fa f1)
      show thesis
      proof (rule balloc_spec [OF 1(3) room2 bm1 held], goal_cases)
        case u: (2 Q u)
        note fu = tx_frame_facts [OF u(5)]
        have bu: "buf_at u bp = buf_at s1 bp" by (rule u(8)) simp
        have du: "b_dev (buf_at u bp) = log_dev u" using 1(5) fu(3) f1(1) by (simp add: bu)
        have cl: "bp \<in> Q \<or> b_data (buf_at u bp) = disk u (log_dev u) (b_blockno (buf_at u bp))"
          using pinned_same [OF 1(3) u(4) _ bu] 1(6,7,11) fu(1,3) f1(1) tx_frame_facts(1) [OF 1(4)] by (auto simp: bu)
        show thesis
        proof (rule tx_brelse [OF u(4) _ du cl], simp, goal_cases)
          case t: (1 t)
          have fr: "tx_frame s t" by (rule tx_frame_trans [OF 1(4) tx_frame_trans [OF u(5) t(3)]])
          note f = tx_frame_facts(3) [OF fr] tx_frame_fs [OF fr]
          have ct: "content t d n = content s d n" if "d \<noteq> 0" for d n using t(4) u(3) 1(8) that by simp
          note fc = file_cong_tx [OF fr ct dev]
          have "bmap_entry ip (indirect s ip) bn s = Done 0 t" using start u(1) t(1) by simp
          moreover have "used t y" if "y < fs_size t" for y
            using u(2) [of y] used_cong(1) [OF fr ct dev] uc(1) f(2) f1(2) that by simp
          then have "bmap_post ip (NDIRECT + bn) 0 s t"
            using fc wf t(2) file_frame_tx [OF fr] f(3) True by (auto simp: bmap_post_def file_step_def)
          ultimately show thesis using ok t(5) u(7) 1(9) by simp
        qed
      next
        case u: (1 x Q u)
        note fu = tx_frame_facts(3) [OF u(5)] tx_frame_fs [OF u(5)]
        have bu: "buf_at u bp = buf_at s1 bp" by (rule u(8)) simp
        have du: "b_dev (buf_at u bp) = log_dev u" using 1(5) fu(1) f1(1) by (simp add: bu)
        have ru: "lh_n u < 30" using u(7) 1(9) room by simp
        have txu: "tx (insert bp {}) Q u" using u(4) by simp
        show thesis
        proof (rule tx_finish [OF txu _ du ru, where f = "\<lambda>a. st32 a bn (of_nat x)"], simp, goal_cases)
          case t: (1 v t)
          have took: "took_block x s u" using u(2) uc(3) by simp
          have fsu: "tx_frame s u" by (rule tx_frame_trans [OF 1(4) u(5)])
          have ct: "content t d n = (if d = log_dev s \<and> n = indirect s ip then st32 (blk s (indirect s ip)) bn (of_nat x) else content u d n)"
            if "d \<noteq> 0" for d n using t(5) [OF that] by (simp add: bu 1(6,7) fu(1) f1(1))
          note e = bmap_entry_taken [OF wf dev ind bn True took fsu t(3,4) ct]
          have "bmap_entry ip (indirect s ip) bn s = Done (of_nat x) t" using start u(1) t(1,2) e(2) by simp
          then show thesis using ok e(1) t(7) u(7) 1(9) by simp
        qed
      qed
    qed
  qed
qed

lemma bmap_post_trans:
  "file_step ip s u \<Longrightarrow> (\<And>b. b < MAXFILE \<Longrightarrow> faddr s ip b \<noteq> 0 \<Longrightarrow> faddr u ip b = faddr s ip b) \<Longrightarrow> bmap_post ip bn r u t \<Longrightarrow> bmap_post ip bn r s t"
  unfolding bmap_post_def using file_step_trans by metis

lemma bmap_spec:
  fixes s :: "'a fs_state_scheme"
  assumes tx: "tx {} P s" and room: "lh_n s + 5 < 30" and wf: "file_wf s ip" and bn: "bn < MAXFILE"
  obtains (ok) r t where "bmap ip bn s = Done r t" "bmap_post ip bn r s t" "lh_n t \<le> lh_n s + 5"
proof -
  have refl: "file_step ip s s" using tx wf file_frame_tx [OF tx_frame_refl] by (auto simp: file_step_def)
  have room1: "lh_n s + 1 < 30" using room by simp
  show thesis
  proof (cases "bn < NDIRECT")
    case dir: True
    then have fa: "faddr s ip bn = i_addrs (inode_at s ip) ! bn" by (simp add: faddr_def)
    show thesis
    proof (cases "i_addrs (inode_at s ip) ! bn = 0")
      case False
      then show thesis using ok [of _ s] dir refl fa by (simp add: bmap_def bmap_post_def)
    next
      case True
      show thesis
      proof (rule alloc_addr [OF tx room1 wf _ True], use dir in simp, goal_cases)
        case (1 x t)
        then show thesis using dir True
          by (intro ok [of x "set_inode ip (\<lambda>i. i\<lparr>i_addrs := (i_addrs i)[bn := x]\<rparr>) t"]) (simp_all add: bmap_def bmap_post_def faddr_def)
      next
        case (2 t)
        then show thesis using dir True by (intro ok [of 0 t]) (simp_all add: bmap_def bmap_post_def fa)
      qed
    qed
  next
    case False
    then have k: "bn - NDIRECT < NINDIRECT" "NDIRECT + (bn - NDIRECT) = bn" using bn by simp_all
    have entry: thesis if u: "tx {} Q u" "file_step ip s u" "indirect u ip \<noteq> 0" "lh_n u \<le> lh_n s + 2"
      "\<And>b. b < MAXFILE \<Longrightarrow> faddr s ip b \<noteq> 0 \<Longrightarrow> faddr u ip b = faddr s ip b"
      and run: "bmap ip bn s = bmap_entry ip (indirect u ip) (bn - NDIRECT) u" for Q u
    proof -
      have r: "lh_n u + 3 < 30" and wfu: "file_wf u ip" using u(2,4) room by (simp_all add: file_step_def)
      obtain r t where t: "bmap_entry ip (indirect u ip) (bn - NDIRECT) u = Done r t" "bmap_post ip bn r u t" "lh_n t \<le> lh_n u + 3"
        by (rule bmap_entry_spec [OF u(1) r wfu u(3) k(1), unfolded k(2)]) (rule that)
      show thesis using ok [of r t] t run bmap_post_trans [OF u(2,5) t(2)] u(4) by simp
    qed
    have b: "bmap ip bn s = obind (if indirect s ip = 0 then
                   obind (balloc (i_dev (inode_at s ip)) s) (\<lambda>addr s.
                     if addr = 0 then Done 0 s
                     else Done addr (set_inode ip (\<lambda>i. i\<lparr>i_addrs := (i_addrs i)[NDIRECT := addr]\<rparr>) s))
                 else Done (indirect s ip) s) (\<lambda>addr s. if addr = 0 then Done 0 s else bmap_entry ip addr (bn - NDIRECT) s)"
      using False k(1) unfolding bmap_def Let_def bmap_entry_def by simp
    show thesis
    proof (cases "indirect s ip = 0")
      case ind: False
      then show thesis by (intro entry [OF tx refl ind]) (simp_all add: b)
    next
      case ind: True
      show thesis
      proof (rule alloc_addr [OF tx room1 wf order_refl ind], goal_cases)
        case (1 x t)
        let ?u = "set_inode ip (\<lambda>i. i\<lparr>i_addrs := (i_addrs i)[NDIRECT := x]\<rparr>) t"
        obtain Q where Q: "tx {} Q ?u" using 1(3) by (auto simp: file_step_def)
        show thesis
          by (rule entry [OF Q 1(3)]) (use 1 ind in \<open>simp_all add: b\<close>)
      next
        case (2 t)
        have "faddr s ip bn = 0" using ind False by (simp add: faddr_def)
        then show thesis using 2 ind by (intro ok [of 0 t]) (simp_all add: b bmap_post_def)
      qed
    qed
  qed
qed

text \<open>A block that is allocated is found without changing anything, also outside a transaction.\<close>

lemma bmap_mapped:
  fixes s :: "'a fs_state_scheme"
  assumes lg: "lg {} P s" and room: "lh_n s < 30" and wf: "file_wf s ip" and bn: "bn < MAXFILE" "faddr s ip bn \<noteq> 0"
  obtains (ok) t where "bmap ip bn s = Done (faddr s ip bn) t" "tx_frame s t" "lg {} P t" "\<And>d n. d \<noteq> 0 \<Longrightarrow> content t d n = content s d n"
    "lh_n t = lh_n s"
proof (cases "bn < NDIRECT")
  case True
  then show thesis using ok [of s] bn lg tx_frame_refl [of s] by (simp add: bmap_def faddr_def)
next
  case False
  have ind: "indirect s ip \<noteq> 0" "faddr s ip bn = ld32 (blk s (indirect s ip)) (bn - NDIRECT)"
    using False bn(2) by (auto simp: faddr_def split: if_splits)
  have room1: "lh_n s + int (card ({} :: nat set)) < 30" using room by simp
  show thesis
  proof (rule lg_inspect [OF lg room1, where bno = "indirect s ip"], simp, goal_cases)
    case (1 bp s1 t)
    have "bmap ip bn s = Done (faddr s ip bn) t"
      using 1(1,2,5) False bn ind file_wfD(3) [OF wf] by (simp add: bmap_def Let_def)
    then show thesis using ok 1 by simp
  qed
qed

end
