(* ===== verification/Dinode.thy ===== *)
theory Dinode
  imports Fs
begin

text \<open>
  The layout of inodes on disk: 16 inodes of 64 bytes per block. What \<^verbatim>\<open>iupdate\<close> stores, \<^verbatim>\<open>ilock\<close>
  reads back, and the other inodes of the block are unchanged.
\<close>

section \<open>Inodes on disk\<close>

lemma ld_fold_st32:
  "ld32 (fold (\<lambda>i b. st32 b (c + i) (f i)) is b) j = (if \<exists>i \<in> set is. j = c + i then f (j - c) else ld32 b j)"
  by (induction "is" arbitrary: b) (auto simp: ld32_st32)

lemma ld16_fold_st32: "j div 2 < c \<Longrightarrow> ld16 (fold (\<lambda>i b. st32 b (c + i) (f i)) is b) j = ld16 b j"
  by (induction "is" arbitrary: b) (simp_all add: ld16_st32)

lemma ld16_fold_st32_above: "\<forall>i \<in> set is. c + i < j div 2 \<Longrightarrow> ld16 (fold (\<lambda>i b. st32 b (c + i) (f i)) is b) j = ld16 b j"
  by (induction "is" arbitrary: b) (simp_all add: ld16_st32)

lemma get_put_dinode: "length (di_addrs d) = NDIRECT + 1 \<Longrightarrow> get_dinode (put_dinode k d b) k = d"
proof -
  assume len: "length (di_addrs d) = NDIRECT + 1"
  have h: "(32 * k) div 2 = 16 * k" "(32 * k + 1) div 2 = 16 * k" "(32 * k + 2) div 2 = 16 * k + 1" "(32 * k + 3) div 2 = 16 * k + 1"
    by presburger+
  have "map (\<lambda>i. ld32 (put_dinode k d b) (16 * k + 3 + i)) [0..<NDIRECT + 1] = di_addrs d"
    by (rule nth_equalityI) (simp_all add: len put_dinode_def Let_def ld_fold_st32 del: upt_Suc)
  moreover have "ld32 (put_dinode k d b) (16 * k + 2) = di_size d"
    by (auto simp: put_dinode_def Let_def ld_fold_st32 ld32_st32 simp del: upt_Suc)
  moreover have "ld16 (put_dinode k d b) (32 * k) = di_type d" "ld16 (put_dinode k d b) (32 * k + 1) = di_major d"
    "ld16 (put_dinode k d b) (32 * k + 2) = di_minor d" "ld16 (put_dinode k d b) (32 * k + 3) = di_nlink d"
    by (simp_all only: put_dinode_def Let_def) (subst ld16_fold_st32; simp add: h ld16_st32 ld16_st16)+
  ultimately show ?thesis by (cases d) (simp add: get_dinode_def)
qed

lemma same_slot: "16 * j + x = 16 * k + y \<Longrightarrow> x < 16 \<Longrightarrow> y < 16 \<Longrightarrow> j = (k :: nat)"
  by (cases j k rule: linorder_cases) linarith+

lemma half_index: "(32 * k + l) div 2 = 16 * k + l div (2 :: nat)"
  by simp

lemma get_put_dinode_other:
  assumes ne: "j \<noteq> k"
  shows "get_dinode (put_dinode k d b) j = get_dinode b j"
proof -
  have l32: "ld32 (put_dinode k d b) (16 * j + i) = ld32 b (16 * j + i)" if i: "i < 16" for i
  proof -
    have far: "16 * j + i \<noteq> 16 * k + l" if "l < 16" for l using same_slot [of j i k l] ne i that by blast
    have "\<not> (\<exists>l \<in> set [0..<NDIRECT + 1]. 16 * j + i = 16 * k + 3 + l)"
      using far [of "3 + l" for l] by (auto simp: add.assoc simp del: upt_Suc)
    then show ?thesis
      using far [of 0] far [of 1] far [of 2] by (simp add: put_dinode_def Let_def ld_fold_st32 ld32_st32 ld32_st16 half_index del: upt_Suc)
  qed
  have l16: "ld16 (put_dinode k d b) (32 * j + i) = ld16 b (32 * j + i)" if i: "i < 4" for i
  proof -
    have "16 * j + i div 2 \<noteq> 16 * k + l" if "l < 16" for l using same_slot [of j "i div 2" k l] ne i that by auto
    then have far: "(32 * j + i) div 2 \<noteq> 16 * k + l" if "l < 16" for l using that by (simp add: half_index)
    have st: "ld16 (fold (\<lambda>l b. st32 b (16 * k + 3 + l) (f l)) is c) (32 * j + i) = ld16 c (32 * j + i)"
      if "\<forall>l \<in> set is. l < 13" for "is" f c
      using that far [of "3 + l" for l] by (induction "is" arbitrary: c) (auto simp: ld16_st32 add.assoc)
    have ne: "32 * k + l \<noteq> 32 * j + i" if l: "l < 4" for l
    proof
      assume "32 * k + l = 32 * j + i"
      then have "(32 * j + i) div 2 = 16 * k + l div 2" using half_index [of k l] by simp
      moreover have "l div 2 < 16" using l by simp
      ultimately show False using far by blast
    qed
    show ?thesis unfolding put_dinode_def Let_def
      using ne [of 0] ne [of 1] ne [of 2] ne [of 3] far [of 2]
      by (subst st) (simp_all add: ld16_st32 ld16_st16 del: upt_Suc)
  qed
  have "ld32 (put_dinode k d b) (16 * j + 3 + i) = ld32 b (16 * j + 3 + i)" if "i < NDIRECT + 1" for i
    using l32 [of "3 + i"] that by (simp add: add.assoc)
  then show ?thesis using l32 [of 2] l16 [of 0] l16 [of 1] l16 [of 2] l16 [of 3] by (simp add: get_dinode_def del: upt_Suc)
qed

end
