(* ===== verification/Fileio.thy ===== *)
theory Fileio
  imports Inode Dinode
begin

text \<open>
  \<^verbatim>\<open>readi\<close> and \<^verbatim>\<open>writei\<close> of \<^verbatim>\<open>kernel/fs.c\<close> against the byte sequence of a file, with the copies to user
  memory and the inode written back to disk.
\<close>

section \<open>Reading\<close>

definition span :: "nat \<Rightarrow> nat \<Rightarrow> nat" where
  "span off n = min n (BSIZE - off mod BSIZE)"

lemma span_facts: "0 < n \<Longrightarrow> 0 < span off n" "span off n \<le> n" "off mod BSIZE + span off n \<le> BSIZE"
  by (auto simp: span_def)

lemma span_block: "i < span off n \<Longrightarrow> (off + i) div BSIZE = off div BSIZE \<and> (off + i) mod BSIZE = off mod BSIZE + i"
proof -
  assume "i < span off n"
  then have lt: "off mod BSIZE + i < BSIZE" by (auto simp: span_def)
  obtain q r where o: "off = r + BSIZE * q" "r < BSIZE" using that [of "off mod BSIZE" "off div BSIZE"] by simp
  have "off + i = (r + i) + BSIZE * q" using o(1) by simp
  then show ?thesis using o(2) lt by (simp only: o(1) div_mult_self2 mod_mult_self2) simp
qed

text \<open>All the blocks of a range of bytes are allocated.\<close>

definition range_mapped :: "'a fs_state_scheme \<Rightarrow> nat \<Rightarrow> nat \<Rightarrow> nat \<Rightarrow> bool" where
  "range_mapped s ip off n \<longleftrightarrow> off + n \<le> MAXFILE * BSIZE \<and> (\<forall>i < n. faddr s ip ((off + i) div BSIZE) \<noteq> 0)"

lemma range_mapped_next: "range_mapped s ip off n \<Longrightarrow> m \<le> n \<Longrightarrow> range_mapped s ip (off + m) (n - m)"
  unfolding range_mapped_def by (auto simp: add.assoc)

text \<open>The part of an iteration of \<^verbatim>\<open>readi\<close> before the copy.\<close>

lemma readi_step:
  fixes s :: "'a fs_state_scheme"
  assumes lg: "lg {} P s" and room: "lh_n s < 30" and wf: "file_wf s ip" and n: "0 < n" and rm: "range_mapped s ip off n"
  obtains (ok) bp s2 where "readi_loop ip dst off n s =
      obind (either_copyout dst (map (fbyte s ip) [off..<off + span off n]) s2) (\<lambda>r s.
        if r = -1 then obind (brelse bp s) (\<lambda>_ s. Done None s)
        else obind (brelse bp s) (\<lambda>_ s.
          obind (readi_loop ip (place_add dst (span off n)) (off + span off n) (n - span off n) s) (\<lambda>rest s.
          Done (map_option (\<lambda>r. map (fbyte s2 ip) [off..<off + span off n] @ r) rest) s)))"
    "tx_frame s s2" "\<And>d n. d \<noteq> 0 \<Longrightarrow> content s2 d n = content s d n" "lg {bp} P s2" "lh_n s2 = lh_n s"
    "b_dev (buf_at s2 bp) = log_dev s2" "bp \<in> P \<or> b_data (buf_at s2 bp) = disk s2 (log_dev s2) (b_blockno (buf_at s2 bp))"
proof -
  let ?bn = "off div BSIZE" and ?m = "span off n"
  have dev: "log_dev s \<noteq> 0" by (rule lgD(3) [OF lg])
  have bn: "?bn < MAXFILE" "faddr s ip ?bn \<noteq> 0"
    using rm n by (auto simp: range_mapped_def div_less_iff_less_mult)
  obtain s1 where s1: "bmap ip ?bn s = Done (faddr s ip ?bn) s1" "tx_frame s s1" "lg {} P s1"
    "\<And>d n. d \<noteq> 0 \<Longrightarrow> content s1 d n = content s d n" "lh_n s1 = lh_n s"
    by (rule bmap_mapped [OF lg room wf bn]) (rule that)
  note f1 = tx_frame_facts(3) [OF s1(2)] tx_frame_fs [OF s1(2)]
  have room1: "lh_n s1 + int (card ({} :: nat set)) < 30" using room s1(5) by simp
  show thesis
  proof (rule lg_bread [OF s1(3) room1, where bno = "faddr s ip ?bn"], simp, goal_cases)
    case (1 bp s2)
    have fr: "tx_frame s s2" by (rule tx_frame_trans [OF s1(2) 1(4)])
    note f2 = tx_frame_facts [OF fr]
    have c: "content s2 d n = content s d n" if "d \<noteq> 0" for d n using 1(8) s1(4) that by simp
    have fb: "fbyte s2 ip = fbyte s ip" by (rule file_cong_tx(3) [OF fr c dev])
    have data: "b_data (buf_at s2 bp) = blk s (faddr s ip ?bn)" using 1(7) s1(4) [OF dev] f1(1) by simp
    have bs: "page_read (b_data (buf_at s2 bp)) (off mod BSIZE) ?m = map (fbyte s ip) [off..<off + ?m]"
    proof (rule nth_equalityI)
      fix i assume "i < length (page_read (b_data (buf_at s2 bp)) (off mod BSIZE) ?m)"
      then have i: "i < ?m" by (simp add: page_read_def)
      then show "page_read (b_data (buf_at s2 bp)) (off mod BSIZE) ?m ! i = map (fbyte s ip) [off..<off + ?m] ! i"
        using span_block [OF i] bn(2) by (simp add: page_read_def data fbyte_def Let_def)
    qed (simp add: page_read_def)
    have d2: "i_dev (inode_at s1 ip) = log_dev s1" using file_wfD(3) [OF wf] by (simp add: f1)
    show thesis
    proof (rule ok [OF _ fr c])
      show "readi_loop ip dst off n s =
        obind (either_copyout dst (map (fbyte s ip) [off..<off + ?m]) s2) (\<lambda>r s.
          if r = -1 then obind (brelse bp s) (\<lambda>_ s. Done None s)
          else obind (brelse bp s) (\<lambda>_ s.
            obind (readi_loop ip (place_add dst ?m) (off + ?m) (n - ?m) s) (\<lambda>rest s.
            Done (map_option (\<lambda>r. map (fbyte s2 ip) [off..<off + ?m] @ r) rest) s)))"
        using n bn(2) by (subst readi_loop.simps) (simp add: s1(1) d2 1(1) bs span_def [symmetric] Let_def fb cong: if_cong)
      show "lg {bp} P s2" "lh_n s2 = lh_n s" "b_dev (buf_at s2 bp) = log_dev s2"
        using 1(3,5,9) s1(5) f2(3) f1(1) by simp_all
      show "bp \<in> P \<or> b_data (buf_at s2 bp) = disk s2 (log_dev s2) (b_blockno (buf_at s2 bp))"
        using 1(6,7,11) tx_frame_facts(1,3) [OF 1(4)] by auto
    qed
  qed
qed

text \<open>Reading into a variable of the kernel, as for directory entries.\<close>

lemma readi_loop_var:
  fixes s :: "'a fs_state_scheme"
  assumes "lg {} P s" "lh_n s < 30" "file_wf s ip" "range_mapped s ip off n"
  shows "\<exists>t. readi_loop ip Var off n s = Done (Some (map (fbyte s ip) [off..<off + n])) t \<and> tx_frame s t \<and> lg {} P t \<and>
    (\<forall>d m. d \<noteq> 0 \<longrightarrow> content t d m = content s d m) \<and> lh_n t = lh_n s"
  using assms
proof (induction n arbitrary: off s rule: less_induct)
  case (less n)
  show ?case
  proof (cases "n = 0")
    case True
    then show ?thesis using less.prems tx_frame_refl [of s] by (intro exI [of _ s]) (simp add: readi_loop.simps)
  next
    case False
    let ?m = "span off n"
    have n: "0 < n" using False by simp
    have dev: "log_dev s \<noteq> 0" by (rule lgD(3) [OF less.prems(1)])
    note m = span_facts(1) [OF n, of off] span_facts(2) [of off n]
    show ?thesis
    proof (rule readi_step [OF less.prems(1-3) n less.prems(4), where dst = Var], goal_cases)
      case (1 bp s2)
      show ?thesis
      proof (rule lg_brelse [OF 1(4) _ 1(6,7)], simp, goal_cases)
        case t: (1 t)
        have fr: "tx_frame s t" by (rule tx_frame_trans [OF 1(2) t(3)])
        have c: "content t d k = content s d k" if "d \<noteq> 0" for d k using t(4) 1(3) that by simp
        note fc = file_cong_tx [OF fr c dev]
        have "lg {} P t" using t(2) by simp
        moreover have "lh_n t < 30" using t(5) 1(5) less.prems(2) by simp
        moreover have "file_wf t ip" using fc(4) less.prems(3) by simp
        moreover have "range_mapped t ip (off + ?m) (n - ?m)"
          using range_mapped_next [OF less.prems(4) m(2)] by (simp add: range_mapped_def fc(1))
        ultimately obtain u where u: "readi_loop ip Var (off + ?m) (n - ?m) t = Done (Some (map (fbyte t ip) [off + ?m..<off + ?m + (n - ?m)])) u"
          "tx_frame t u" "lg {} P u" "\<forall>d k. d \<noteq> 0 \<longrightarrow> content u d k = content t d k" "lh_n u = lh_n t"
          using less.IH [of "n - ?m" t "off + ?m"] m n by auto
        have sp: "[off..<off + ?m] @ [off + ?m..<off + ?m + (n - ?m)] = [off..<off + n]"
          using m(2) by (metis le_add1 le_add_diff_inverse upt_add_eq_append add.assoc)
        have fb: "fbyte s2 ip = fbyte s ip" by (rule file_cong_tx(3) [OF 1(2,3) dev])
        have "readi_loop ip Var off n s = Done (Some (map (fbyte s ip) [off..<off + n])) u"
          using u(1) t(1) sp by (simp add: 1(1) either_copyout_def place_add_def fb fc(3) flip: map_append)
        then show ?thesis
          using tx_frame_trans [OF fr u(2)] u(3-5) c t(5) 1(5) by (intro exI [of _ u]) simp
      qed
    qed
  qed
qed

section \<open>Reading into user memory\<close>

definition rd_frame :: "'a fs_state_scheme \<Rightarrow> 'a fs_state_scheme \<Rightarrow> bool" where
  "rd_frame s t \<longleftrightarrow> (\<exists>u m f. tx_frame s u \<and> t = u\<lparr>mem := m, freelist := f\<rparr>)"

lemma tx_frame_rest:
  assumes "tx_frame s t"
  shows "tx_frame (s\<lparr>mem := m, freelist := f\<rparr>) (t\<lparr>mem := m, freelist := f\<rparr>)"
proof -
  obtain bs l ps out b n g where t: "t = s\<lparr>bufs := bs, lru := l, procs := ps, uart_out := out, uart_idle := b,
     lh_n := n, lh_block := g\<rparr>" "same_procs s ps" using assms by (auto simp: tx_frame_def)
  have "same_procs (s\<lparr>mem := m, freelist := f\<rparr>) ps" using t(2) by (simp add: same_procs_def myproc_def mycpu_def cpuid_def)
  then show ?thesis
    by (intro tx_frameI [where bs = bs and l = l and ps = ps and out = out and b = b and n = n and f = g]) (simp_all add: t(1))
qed

lemma rd_frame_trans:
  assumes "rd_frame s t" "rd_frame t v"
  shows "rd_frame s v"
proof -
  obtain u m f where u: "tx_frame s u" "t = u\<lparr>mem := m, freelist := f\<rparr>" using assms(1) by (auto simp: rd_frame_def)
  obtain w m' f' where w: "tx_frame t w" "v = w\<lparr>mem := m', freelist := f'\<rparr>" using assms(2) by (auto simp: rd_frame_def)
  have "tx_frame u (w\<lparr>mem := mem u, freelist := freelist u\<rparr>)"
    using tx_frame_rest [OF w(1), where m = "mem u" and f = "freelist u"] by (simp add: u(2))
  then have "tx_frame s (w\<lparr>mem := mem u, freelist := freelist u\<rparr>)" by (rule tx_frame_trans [OF u(1)])
  then show ?thesis unfolding rd_frame_def using w(2)
    by (intro exI [of _ "w\<lparr>mem := mem u, freelist := freelist u\<rparr>"] exI [of _ m'] exI [of _ f']) simp
qed

lemma rd_frame_tx: "tx_frame s t \<Longrightarrow> rd_frame s t"
  unfolding rd_frame_def by (intro exI [of _ t] exI [of _ "mem t"] exI [of _ "freelist t"]) simp

lemma rd_frame_rest: "same_rest s t \<Longrightarrow> rd_frame s t"
  unfolding rd_frame_def same_rest_def using tx_frame_refl by blast

lemma lg_rest:
  assumes "same_rest s t"
  shows "lg H P t = lg H P s" "content t = content s" "lh_n t = lh_n s" "bufs t = bufs s" "log_dev t = log_dev s" "disk t = disk s"
    "inodes t = inodes s" "sb t = sb s"
proof -
  obtain m f where t: "t = s\<lparr>mem := m, freelist := f\<rparr>" using assms by (auto simp: same_rest_def)
  have "bc_inv H P t = bc_inv H P s"
    by (simp add: t bc_inv_def buf_inv_def holdingsleep_iff myproc_def mycpu_def cpuid_def Let_def)
  moreover have "pinned_for I P t = pinned_for I P s" for I by (simp add: t pinned_for_def)
  moreover have "running t = running s" by (simp add: t running_def myproc_def mycpu_def cpuid_def)
  ultimately show "lg H P t = lg H P s" by (simp add: lg_def) (simp add: t)
  show "content t = content s" by (rule content_cong) (simp_all add: t)
qed (use assms in \<open>auto simp: same_rest_def\<close>)

lemma file_rest:
  assumes "same_rest s t" "log_dev s \<noteq> 0"
  shows "faddr t ip = faddr s ip" "fslot t ip = fslot s ip" "fbyte t ip = fbyte s ip" "file_wf t ip = file_wf s ip"
  by (rule file_cong [OF _ assms(2)]; simp add: lg_rest [OF assms(1)])+

text \<open>The address space of the process is untouched by the disk.\<close>

lemma uas_tx:
  assumes "tx_frame s t" "running s"
  shows "uas t xs root sz = uas s xs root sz" "own_space root sz t = own_space root sz s"
proof -
  show "uas t xs root sz = uas s xs root sz" by (rule uas_cong) (use assms(1) in \<open>auto simp: tx_frame_def\<close>)
  show "own_space root sz t = own_space root sz s"
    by (simp add: own_space_def tx_frame_facts(8) [OF assms(1)] tx_frame_cur [OF assms])
qed

text \<open>What \<^verbatim>\<open>readi\<close> leaves in user memory.\<close>

definition read_into :: "u64 \<Rightarrow> u64 \<Rightarrow> u8 list \<Rightarrow> 'a fs_state_scheme \<Rightarrow> 'a fs_state_scheme \<Rightarrow> u8 list option \<Rightarrow> bool" where
  "read_into root va bs s t r \<longleftrightarrow>
     (r = None \<or> r = Some bs \<and> (bs \<noteq> [] \<longrightarrow> unat va + length bs \<le> TFP * 4096) \<and>
        (\<forall>i < length bs. ubyte (mem t) root (va + of_nat i) = Some (bs ! i))) \<and>
     (\<forall>v b. v < MAXVA \<longrightarrow> outside va (length bs) v \<longrightarrow> ubyte (mem s) root v = Some b \<longrightarrow> ubyte (mem t) root v = Some b)"

lemma unat_add_small: "unat va + k \<le> TFP * 4096 \<Longrightarrow> unat (va + of_nat k) = unat (va :: u64) + k"
proof -
  assume "unat va + k \<le> TFP * 4096"
  then show ?thesis by (simp add: unat_word_ariths unat_of_nat)
qed

lemma below_MAXVA: "unat v < TFP * 4096 \<Longrightarrow> v < MAXVA"
  by (simp add: word_less_nat_alt)

lemma later_outside:
  assumes "unat va + n + k \<le> TFP * 4096" "i < n"
  shows "outside (va + of_nat n) k (va + of_nat i)"
  unfolding outside_def
proof (intro allI impI)
  fix j assume j: "j < k"
  have "va + of_nat n + of_nat j = va + of_nat (n + j)" by simp
  then have "unat (va + of_nat n + of_nat j) = unat va + (n + j)"
    using unat_add_small [of va "n + j"] assms j by (simp add: add.assoc)
  moreover have "unat (va + of_nat i) = unat va + i" using unat_add_small [of va i] assms by simp
  ultimately have "unat (va + of_nat i) \<noteq> unat (va + of_nat n + of_nat j)" using assms(2) by linarith
  then show "va + of_nat i \<noteq> va + of_nat n + of_nat j" by metis
qed

lemma read_into_append:
  assumes a: "read_into root va bs s t (Some bs)" and b: "read_into root (va + of_nat (length bs)) cs t u r"
  shows "read_into root va (bs @ cs) s u (map_option ((@) bs) r)"
proof -
  have va: "bs \<noteq> [] \<longrightarrow> unat va + length bs \<le> TFP * 4096" using a by (simp add: read_into_def)
  have out: "ubyte (mem u) root v = Some c" if "v < MAXVA" "outside va (length (bs @ cs)) v" "ubyte (mem s) root v = Some c" for v c
    using that outside_split [OF that(2), of "length bs"] a b by (simp add: read_into_def)
  show ?thesis
  proof (cases r)
    case None
    then show ?thesis using out by (simp add: read_into_def)
  next
    case (Some c)
    then have r: "r = Some cs" "cs \<noteq> [] \<longrightarrow> unat (va + of_nat (length bs)) + length cs \<le> TFP * 4096"
      using b by (auto simp: read_into_def)
    have top: "bs @ cs \<noteq> [] \<longrightarrow> unat va + length (bs @ cs) \<le> TFP * 4096"
      using va r(2) unat_add_small [of va "length bs"] by (cases "bs = []"; cases "cs = []") simp_all
    have "ubyte (mem u) root (va + of_nat i) = Some ((bs @ cs) ! i)" if i: "i < length (bs @ cs)" for i
    proof (cases "i < length bs")
      case True
      then have "unat va + length bs + length cs \<le> TFP * 4096" using top i by auto
      then have "outside (va + of_nat (length bs)) (length cs) (va + of_nat i)" "va + of_nat i < MAXVA"
        using True later_outside [of va "length bs" "length cs" i] unat_add_small [of va i] by (auto intro!: below_MAXVA)
      moreover have "ubyte (mem t) root (va + of_nat i) = Some (bs ! i)" using a True by (auto simp: read_into_def)
      ultimately show ?thesis using b True by (simp add: read_into_def nth_append)
    next
      case False
      then have "va + of_nat (length bs) + of_nat (i - length bs) = va + of_nat i" by (simp add: of_nat_diff)
      moreover have "i - length bs < length cs" using False i by simp
      then have "ubyte (mem u) root (va + of_nat (length bs) + of_nat (i - length bs)) = Some (cs ! (i - length bs))"
        using b r(1) unfolding read_into_def by blast
      ultimately show ?thesis using False by (simp only: nth_append if_False)
    qed
    then show ?thesis using top out r(1) by (simp add: read_into_def)
  qed
qed

lemma copyout_into:
  fixes s :: "'a fs_state_scheme"
  assumes "uas s xs root sz" "own_space root sz s"
  shows "\<exists>r t ys. copyout root va bs s = Done r t \<and> same_rest s t \<and> uas t ys root sz \<and> (r = 0 \<or> r = -1) \<and>
    read_into root va bs s t (if r = -1 then None else Some bs)"
proof -
  obtain r t ys where t: "copyout root va bs s = Done r t" "as_step s xs root t ys" "uas t ys root sz"
    "r = 0 \<and> (bs \<noteq> [] \<longrightarrow> unat va + length bs \<le> TFP * 4096) \<and> (\<forall>i < length bs. ubyte (mem t) root (va + of_nat i) = Some (bs ! i)) \<or> r = -1"
    "\<forall>v b. v < MAXVA \<longrightarrow> outside va (length bs) v \<longrightarrow> ubyte (mem s) root v = Some b \<longrightarrow> ubyte (mem t) root v = Some b"
    using copyout_spec [OF assms, of va bs] by (elim exE conjE) (rule that)
  have "same_rest s t" using t(2) by (simp add: as_step_def)
  then show ?thesis using t by (intro exI [of _ r] exI [of _ t] exI [of _ ys]) (auto simp: read_into_def)
qed

lemma read_into_mem: "mem s' = mem s \<Longrightarrow> mem t' = mem t \<Longrightarrow> read_into root va bs s' t' r = read_into root va bs s t r"
  by (simp add: read_into_def)

lemma read_into_None: "read_into root va bs s t None \<Longrightarrow> read_into root va (bs @ cs) s t None"
  using outside_split(1) [of va "length (bs @ cs)" _ "length bs"] by (simp add: read_into_def)

lemma readi_loop_user:
  fixes s :: "'a fs_state_scheme"
  assumes "lg {} P s" "lh_n s < 30" "file_wf s ip" "range_mapped s ip off n" "uas s xs root sz" "own_space root sz s"
  shows "\<exists>r t ys. readi_loop ip (User va) off n s = Done r t \<and> rd_frame s t \<and> lg {} P t \<and> uas t ys root sz \<and>
    (\<forall>d m. d \<noteq> 0 \<longrightarrow> content t d m = content s d m) \<and> lh_n t = lh_n s \<and>
    read_into root va (map (fbyte s ip) [off..<off + n]) s t r"
  using assms
proof (induction n arbitrary: off s va xs rule: less_induct)
  case (less n)
  show ?case
  proof (cases "n = 0")
    case True
    then show ?thesis using less.prems rd_frame_tx [OF tx_frame_refl [of s]]
      by (intro exI [of _ "Some []"] exI [of _ s] exI [of _ xs]) (simp add: readi_loop.simps read_into_def)
  next
    case False
    let ?m = "span off n"
    let ?bs = "map (fbyte s ip) [off..<off + ?m]" and ?cs = "map (fbyte s ip) [off + ?m..<off + ?m + (n - ?m)]"
    have n: "0 < n" using False by simp
    have dev: "log_dev s \<noteq> 0" and run: "running s" using lgD(2,3) [OF less.prems(1)] by simp_all
    note m = span_facts(1) [OF n, of off] span_facts(2) [of off n]
    have "[off..<off + ?m] @ [off + ?m..<off + ?m + (n - ?m)] = [off..<off + n]"
      using m(2) by (metis le_add1 le_add_diff_inverse upt_add_eq_append add.assoc)
    then have sp: "map (fbyte s ip) [off..<off + n] = ?bs @ ?cs" by (metis map_append)
    show ?thesis
    proof (rule readi_step [OF less.prems(1-3) n less.prems(4), where dst = "User va"], goal_cases)
      case (1 bp s2)
      have run2: "running s2" by (rule lgD(2) [OF 1(4)])
      have u2: "uas s2 xs root sz" "own_space root sz s2" using uas_tx [OF 1(2) run] less.prems(5,6) by simp_all
      have pt: "p_pagetable (proc_at s2 (cur s2)) = root" using u2(2) by (simp add: own_space_def)
      have fb: "fbyte s2 ip = fbyte s ip" by (rule file_cong_tx(3) [OF 1(2,3) dev])
      obtain r s3 ys where c: "copyout root va ?bs s2 = Done r s3" "same_rest s2 s3" "uas s3 ys root sz" "r = 0 \<or> r = -1"
        "read_into root va ?bs s2 s3 (if r = -1 then None else Some ?bs)"
        using copyout_into [OF u2, of va ?bs] by (elim exE conjE) (rule that)
      note l3 = lg_rest [OF c(2)]
      have g3: "lg {bp} P s3" "b_dev (buf_at s3 bp) = log_dev s3"
        "bp \<in> P \<or> b_data (buf_at s3 bp) = disk s3 (log_dev s3) (b_blockno (buf_at s3 bp))"
        using 1(4,6,7) by (simp_all add: l3)
      show ?thesis
      proof (rule lg_brelse [OF g3(1) _ g3(2,3)], simp, goal_cases)
        case t: (1 t)
        have run3: "running s3" by (rule lgD(2) [OF g3(1)])
        have fr: "rd_frame s t"
          by (rule rd_frame_trans [OF rd_frame_tx [OF 1(2)] rd_frame_trans [OF rd_frame_rest [OF c(2)] rd_frame_tx [OF t(3)]]])
        have ct: "content t d k = content s d k" if "d \<noteq> 0" for d k using t(4) 1(3) l3(2) that by simp
        have lt: "lg {} P t" "lh_n t = lh_n s" using t(2,5) l3(3) 1(5) by simp_all
        have dev2: "log_dev s2 \<noteq> 0" and dev3: "log_dev s3 \<noteq> 0" using lgD(3) [OF 1(4)] l3(5) by simp_all
        have fc: "faddr t ip = faddr s ip" "fbyte t ip = fbyte s ip" "file_wf t ip = file_wf s ip"
          using file_cong_tx [OF t(3,4) dev3, of ip] file_rest [OF c(2) dev2, of ip] file_cong_tx [OF 1(2,3) dev, of ip] by simp_all
        have ut: "uas t ys root sz" "own_space root sz t"
          using uas_tx [OF t(3) run3] c(3) own_space_rest [OF c(2)] u2(2) by simp_all
        have mt: "mem t = mem s3" "mem s2 = mem s" using tx_frame_facts(7) [OF t(3)] tx_frame_facts(7) [OF 1(2)] by simp_all
        have into: "read_into root va ?bs s t (if r = -1 then None else Some ?bs)"
          using c(5) read_into_mem [OF mt(2) [symmetric] mt(1)] by metis
        show ?thesis
        proof (cases "r = -1")
          case True
          then have "readi_loop ip (User va) off n s = Done None t"
            using 1(1) c(1) t(1) pt by (simp add: either_copyout_def)
          moreover have "read_into root va (map (fbyte s ip) [off..<off + n]) s t None"
            unfolding sp using into True by (intro read_into_None) simp
          ultimately show ?thesis using fr lt ut ct by (intro exI [of _ None] exI [of _ t] exI [of _ ys]) simp
        next
          case r: False
          have "lh_n t < 30" "file_wf t ip" "range_mapped t ip (off + ?m) (n - ?m)"
            using lt(2) less.prems(2,3) fc(3) range_mapped_next [OF less.prems(4) m(2)] by (simp_all add: range_mapped_def fc(1))
          then obtain r' u zs where u: "readi_loop ip (User (va + of_nat ?m)) (off + ?m) (n - ?m) t = Done r' u" "rd_frame t u" "lg {} P u"
            "uas u zs root sz" "\<forall>d k. d \<noteq> 0 \<longrightarrow> content u d k = content t d k" "lh_n u = lh_n t"
            "read_into root (va + of_nat ?m) (map (fbyte t ip) [off + ?m..<off + ?m + (n - ?m)]) t u r'"
            using less.IH [of "n - ?m" t "off + ?m" ys "va + of_nat ?m"] m n lt(1) ut by auto
          have "readi_loop ip (User va) off n s = Done (map_option ((@) ?bs) r') u"
            using 1(1) c(1) t(1) pt r u(1) by (simp add: either_copyout_def place_add_def fb)
          moreover have "read_into root va (map (fbyte s ip) [off..<off + n]) s u (map_option ((@) ?bs) r')"
            unfolding sp using into r u(7) by (intro read_into_append) (simp_all add: fc(2))
          ultimately show ?thesis
            using rd_frame_trans [OF fr u(2)] u(3-6) ct lt(2)
            by (intro exI [of _ "map_option ((@) ?bs) r'"] exI [of _ u] exI [of _ zs]) simp
        qed
      qed
    qed
  qed
qed

section \<open>Writing\<close>

text \<open>\<open>source src kb bs s\<close>: the bytes to be written are \<open>bs\<close>; in user memory they are mapped.\<close>

definition source :: "place \<Rightarrow> u8 list \<Rightarrow> u8 list \<Rightarrow> 'a fs_state_scheme \<Rightarrow> bool" where
  "source src kb bs s \<longleftrightarrow> (case src of
     User a \<Rightarrow> (\<exists>xs root sz. uas s xs root sz \<and> own_space root sz s \<and> unat a + length bs \<le> TFP * 4096 \<and>
       (\<forall>i < length bs. ubyte (mem s) root (a + of_nat i) = Some (bs ! i)))
   | _ \<Rightarrow> take (length bs) kb = bs)"

lemma source_chunk:
  assumes src: "source src kb bs s" and m: "m \<le> length bs"
  shows "either_copyin src kb m s = Done (0, take m bs) s" "source (place_add src m) (drop m kb) (drop m bs) s"
proof -
  have "either_copyin src kb m s = Done (0, take m bs) s \<and> source (place_add src m) (drop m kb) (drop m bs) s"
  proof (cases src)
    case (User a)
    then obtain xs root sz where u: "uas s xs root sz" "own_space root sz s" "unat a + length bs \<le> TFP * 4096"
      and b: "\<And>i. i < length bs \<Longrightarrow> ubyte (mem s) root (a + of_nat i) = Some (bs ! i)"
      using src by (auto simp: source_def)
    have "copyin root a m s = Done (0, map (\<lambda>i. the (ubyte (mem s) root (a + of_nat i))) [0..<m]) s"
      by (rule copyin_mapped [OF u(1,2)]) (use u(3) b m in simp_all)
    moreover have "map (\<lambda>i. the (ubyte (mem s) root (a + of_nat i))) [0..<m] = take m bs"
      by (rule nth_equalityI) (use b m in simp_all)
    moreover have "p_pagetable (proc_at s (cur s)) = root" using u(2) by (simp add: own_space_def)
    moreover have "ubyte (mem s) root (a + of_nat m + of_nat i) = Some (drop m bs ! i)" if "i < length (drop m bs)" for i
      using b [of "m + i"] that m by (simp add: add.assoc)
    moreover have "unat (a + of_nat m) + length (drop m bs) \<le> TFP * 4096"
      using unat_add_small [of a m] u(3) m by simp
    ultimately show ?thesis using u(1,2) by (auto simp: either_copyin_def source_def place_add_def User)
  next
    case (Phys a)
    then show ?thesis using src m by (auto simp: either_copyin_def source_def place_add_def) (metis take_take min.absorb1, metis drop_take take_drop)
  next
    case Var
    then show ?thesis using src m by (auto simp: either_copyin_def source_def place_add_def) (metis take_take min.absorb1, metis drop_take take_drop)
  qed
  then show "either_copyin src kb m s = Done (0, take m bs) s" "source (place_add src m) (drop m kb) (drop m bs) s" by simp_all
qed

lemma source_frame:
  assumes "file_frame ip s t" "running s"
  shows "source src kb bs t = source src kb bs s"
proof -
  have "uas t xs root sz = uas s xs root sz" for xs root sz by (rule uas_cong) (use assms(1) in \<open>auto simp: file_frame_def\<close>)
  moreover have "proc_at t (cur s) = proc_at s (cur s)" using assms by (auto simp: file_frame_def same_procs_def running_def)
  then have "own_space root sz t = own_space root sz s" for root sz
    by (simp add: own_space_def file_frame_facts(7) [OF assms(1)])
  ultimately show ?thesis by (simp add: source_def file_frame_facts(6) [OF assms(1)] split: place.split)
qed

definition write_post :: "nat \<Rightarrow> nat \<Rightarrow> u8 list \<Rightarrow> 'a fs_state_scheme \<Rightarrow> 'a fs_state_scheme \<Rightarrow> bool" where
  "write_post ip off bs s t \<longleftrightarrow> file_frame ip s t \<and> file_wf t ip \<and> (\<exists>Q. tx {} Q t) \<and> i_size (inode_at t ip) = i_size (inode_at s ip) \<and>
     (\<forall>x < MAXFILE * BSIZE. fbyte t ip x = (if off \<le> x \<and> x < off + length bs then bs ! (x - off) else fbyte s ip x)) \<and>
     (\<forall>b < MAXFILE. faddr s ip b \<noteq> 0 \<longrightarrow> faddr t ip b \<noteq> 0) \<and>
     (\<forall>i < length bs. faddr t ip ((off + i) div BSIZE) \<noteq> 0)"

lemma write_post_append:
  assumes a: "write_post ip off as s u" and b: "write_post ip (off + length as) bs u t" and top: "off + length as \<le> MAXFILE * BSIZE"
  shows "write_post ip off (as @ bs) s t"
proof -
  have "fbyte t ip x = (if off \<le> x \<and> x < off + length (as @ bs) then (as @ bs) ! (x - off) else fbyte s ip x)" if "x < MAXFILE * BSIZE" for x
    using a b that unfolding write_post_def by (auto simp: nth_append)
  moreover have "faddr t ip ((off + i) div BSIZE) \<noteq> 0" if "i < length (as @ bs)" for i
  proof (cases "i < length as")
    case True
    then have "(off + i) div BSIZE < MAXFILE" using top by (simp add: div_less_iff_less_mult)
    then show ?thesis using a b True unfolding write_post_def by blast
  next
    case False
    then have "off + i = off + length as + (i - length as)" "i - length as < length bs" using that by simp_all
    then show ?thesis using b unfolding write_post_def by metis
  qed
  moreover have "file_frame ip s t" using a b file_frame_trans unfolding write_post_def by blast
  ultimately show ?thesis using a b unfolding write_post_def by auto
qed

lemma bmap_write_post: "bmap_post ip bn r s t \<Longrightarrow> write_post ip off [] s t"
  by (auto simp: bmap_post_def file_step_def write_post_def)

text \<open>Changing the contents of one block of the file.\<close>

lemma write_block:
  assumes wf: "file_wf s ip" and dev: "log_dev s \<noteq> 0" and fr: "tx_frame s t" and Q: "tx {} Q t"
    and bn: "off div BSIZE < MAXFILE" "faddr s ip (off div BSIZE) = a" "a \<noteq> 0"
    and bs: "off mod BSIZE + length bs \<le> BSIZE"
    and c: "\<And>d n. d \<noteq> 0 \<Longrightarrow> content t d n = (if d = log_dev s \<and> n = a then page_write (blk s a) (off mod BSIZE) bs else content s d n)"
  shows "write_post ip off bs s t"
proof -
  note W = file_wfD [OF wf] and f = tx_frame_facts(3) [OF fr] tx_frame_fs [OF fr]
  note bb = BBLOCK_cong [OF f(2)]
  let ?bn = "off div BSIZE"
  have sl: "fslot s ip ?bn = a" using bn(1,2) by (simp add: fslot_def)
  have iu: "in_use s a" using W(6) [of ?bn] bn sl by simp
  have ne: "fslot s ip j \<noteq> a" if "j \<le> MAXFILE" "j \<noteq> ?bn" for j using W(8) [of ?bn j] bn sl that by auto
  have ind: "blk t (indirect s ip) = blk s (indirect s ip)"
    using c [OF dev] ne [of MAXFILE] bn(1) f(1) by (simp add: fslot_def)
  have fa: "faddr t ip = faddr s ip" by (intro ext) (simp add: faddr_def f(3) ind)
  have fs: "fslot t ip = fslot s ip" by (intro ext) (simp add: fslot_def fa f(3))
  have used: "used t b = used s b" if "b < fs_size s" for b
  proof -
    have "BBLOCK b s \<noteq> a" using iu that by (auto simp: in_use_def)
    then show ?thesis using c [OF dev] by (simp add: used_def f(1) bb)
  qed
  have bm: "bitmap_ok t" using W(4) used by (simp add: bitmap_ok_def f(2) bb)
  have iut: "in_use t x = in_use s x" for x using used by (auto simp: in_use_def f(2) bb)
  have wf': "file_wf t ip"
    using wf bm by (simp add: file_wf_def iut fs f inode_block_def IBLOCK_def)
  have fb: "fbyte t ip x = (if off \<le> x \<and> x < off + length bs then bs ! (x - off) else fbyte s ip x)" if x: "x < MAXFILE * BSIZE" for x
  proof (cases "x div BSIZE = ?bn")
    case True
    then have xe: "x = ?bn * BSIZE + x mod BSIZE" and oe: "off = ?bn * BSIZE + off mod BSIZE"
      using div_mult_mod_eq [of x BSIZE] div_mult_mod_eq [of off BSIZE] by simp_all
    have "off \<le> x \<longleftrightarrow> off mod BSIZE \<le> x mod BSIZE" "x < off + length bs \<longleftrightarrow> x mod BSIZE < off mod BSIZE + length bs"
      "x - off = x mod BSIZE - off mod BSIZE" using xe oe by linarith+
    then show ?thesis using c [OF dev, of a] bn(2,3) True by (simp add: fbyte_def fa Let_def f(1) page_write_def)
  next
    case False
    have "x div BSIZE < MAXFILE" using x by (simp add: div_less_iff_less_mult)
    then have "faddr s ip (x div BSIZE) \<noteq> a" using ne [of "x div BSIZE"] False by (simp add: fslot_def)
    moreover have "\<not> (off \<le> x \<and> x < off + length bs)"
    proof
      assume "off \<le> x \<and> x < off + length bs"
      then have "x - off < span off (length bs)" "x = off + (x - off)" using bs by (auto simp: span_def)
      then show False using span_block [of "x - off" off "length bs"] False by metis
    qed
    ultimately show ?thesis using c [OF dev] by (auto simp: fbyte_def fa Let_def f(1))
  qed
  have "faddr t ip ((off + i) div BSIZE) \<noteq> 0" if "i < length bs" for i
  proof -
    have "i < span off (length bs)" using that bs by (auto simp: span_def)
    then show ?thesis using span_block bn(2,3) fa by simp
  qed
  then show ?thesis using wf' Q fb file_frame_tx [OF fr] by (auto simp: write_post_def fa f(3))
qed

text \<open>The number of iterations of \<^verbatim>\<open>writei\<close>; each logs at most six blocks.\<close>

definition blocks :: "nat \<Rightarrow> nat \<Rightarrow> nat" where
  "blocks off n = (if n = 0 then 0 else (off mod BSIZE + n + (BSIZE - 1)) div BSIZE)"

lemma blocks_step: "0 < n \<Longrightarrow> blocks (off + span off n) (n - span off n) + 1 \<le> blocks off n"
proof -
  assume n: "0 < n"
  have lt: "off mod BSIZE < BSIZE" by simp
  show ?thesis
  proof (cases "n \<le> BSIZE - off mod BSIZE")
    case True
    then have "BSIZE \<le> off mod BSIZE + n + (BSIZE - 1)" using n by simp
    then have "1 \<le> (off mod BSIZE + n + (BSIZE - 1)) div BSIZE" by simp
    then show ?thesis using True n by (simp add: blocks_def span_def)
  next
    case False
    let ?m = "BSIZE - off mod BSIZE"
    have sp: "span off n = ?m" using False by (simp add: span_def)
    have "off + ?m = BSIZE * (off div BSIZE) + BSIZE" using lt mult_div_mod_eq [of BSIZE off] by linarith
    then have z: "(off + ?m) mod BSIZE = 0" by simp
    have "off mod BSIZE + n + (BSIZE - 1) = BSIZE + (n - ?m + (BSIZE - 1))" using False lt by linarith
    then have "(off mod BSIZE + n + (BSIZE - 1)) div BSIZE = 1 + (n - ?m + (BSIZE - 1)) div BSIZE" by simp
    then show ?thesis using False n z by (simp add: blocks_def sp)
  qed
qed

lemma writei_loop_spec:
  fixes s :: "'a fs_state_scheme"
  assumes "tx {} P s" "lh_n s + 6 * int (blocks off (length bs)) < 30" "file_wf s ip" "off + length bs \<le> MAXFILE * BSIZE" "source src kb bs s"
  shows "\<exists>tot t. writei_loop ip src kb off (length bs) s = Done tot t \<and> tot \<le> length bs \<and> write_post ip off (take tot bs) s t \<and>
    (tot < length bs \<longrightarrow> (\<forall>y < fs_size t. used t y)) \<and> lh_n t \<le> lh_n s + 6 * int (blocks off (length bs))"
  using assms
proof (induction "length bs" arbitrary: off bs s P src kb rule: less_induct)
  case less
  show ?case
  proof (cases "bs = []")
    case True
    then show ?thesis using less.prems file_frame_tx [OF tx_frame_refl [of s]]
      by (intro exI [of _ 0] exI [of _ s]) (auto simp: writei_loop.simps write_post_def)
  next
    case False
    let ?n = "length bs"
    let ?m = "span off ?n" and ?bn = "off div BSIZE"
    have n: "0 < ?n" using False by simp
    note m = span_facts(1) [OF n, of off] span_facts(2) [of off ?n] span_facts(3) [of off ?n]
    note bl = blocks_step [OF n, of off]
    have "off < MAXFILE * BSIZE" using less.prems(4) n by linarith
    then have bn: "?bn < MAXFILE" by (simp add: div_less_iff_less_mult)
    have r5: "lh_n s + 5 < 30" using less.prems(2) bl by linarith
    obtain r u where u: "bmap ip ?bn s = Done r u" "bmap_post ip ?bn r s u" "lh_n u \<le> lh_n s + 5"
      by (rule bmap_spec [OF less.prems(1) r5 less.prems(3) bn]) (rule that)
    have st: "file_step ip s u" using u(2) by (simp add: bmap_post_def)
    then obtain Q where Q: "tx {} Q u" and wfu: "file_wf u ip" and fru: "file_frame ip s u" by (auto simp: file_step_def)
    note fu = file_frame_facts [OF fru]
    have run: "running s" by (rule txD(2) [OF less.prems(1)])
    have dev: "log_dev u \<noteq> 0" by (rule txD(3) [OF Q])
    note wu = bmap_write_post [OF u(2), of off]
    show ?thesis
    proof (cases "r = 0")
      case True
      then have "writei_loop ip src kb off ?n s = Done 0 u" using n u(1) by (subst writei_loop.simps) simp
      moreover have "\<forall>y < fs_size u. used u y" using u(2) True by (simp add: bmap_post_def)
      ultimately show ?thesis using wu u(3) bl by (intro exI [of _ 0] exI [of _ u]) simp
    next
      case r: False
      have ra: "faddr u ip ?bn = r" using u(2) r by (simp add: bmap_post_def)
      have ru: "lh_n u + int (card ({} :: nat set)) < 30" using u(3) less.prems(2) bl by simp
      show ?thesis
      proof (rule tx_bread [OF Q ru, where bno = r], simp, goal_cases)
        case (1 bp v)
        note fv = tx_frame_facts [OF 1(4)]
        have srcu: "source src kb bs u" using source_frame [OF fru run] less.prems(5) by simp
        have srcv: "source src kb bs v"
          using source_frame [OF file_frame_tx [OF 1(4)] txD(2) [OF Q]] srcu by simp
        note ch = source_chunk [OF srcv m(2)]
        have dv: "b_dev (buf_at v bp) = log_dev v" using 1(5) fv(3) by simp
        have rv: "lh_n v < 30" using 1(9) ru by simp
        let ?f = "\<lambda>d. page_write d (off mod BSIZE) (take ?m bs)"
        show ?thesis
        proof (rule tx_finish [OF 1(3,2) dv rv, where f = ?f], goal_cases)
          case w: (1 x w)
          have fw: "tx_frame u w" by (rule tx_frame_trans [OF 1(4) w(3)])
          have cw: "content w d k = (if d = log_dev u \<and> k = r then page_write (blk u r) (off mod BSIZE) (take ?m bs) else content u d k)"
            if "d \<noteq> 0" for d k using w(5) [OF that] 1(6-8) fv(3) that by simp
          have pw: "write_post ip off (take ?m bs) u w"
            by (rule write_block [OF wfu dev fw w(4) bn ra r _ cw]) (use m(2,3) in simp)
          have psw: "write_post ip off (take ?m bs) s w" using write_post_append [OF wu] pw less.prems(4) by simp
          have frw: "file_frame ip s w" using psw by (simp add: write_post_def)
          have lw: "lh_n w \<le> lh_n s + 6" using w(7) 1(9) u(3) by simp
          have run': "writei_loop ip src kb off ?n s =
              obind (writei_loop ip (place_add src ?m) (drop ?m kb) (off + ?m) (?n - ?m) w) (\<lambda>tot s. Done (?m + tot) s)"
            using n r u(1) 1(1) ch(1) w(1,2) file_wfD(3) [OF wfu]
            by (subst writei_loop.simps) (simp add: span_def [symmetric] Let_def)
          have "tx {} (insert bp Q) w" using w(4) .
          moreover have "lh_n w + 6 * int (blocks (off + ?m) (length (drop ?m bs))) < 30" using lw less.prems(2) bl by simp
          moreover have "file_wf w ip" using psw by (simp add: write_post_def)
          moreover have "off + ?m + length (drop ?m bs) \<le> MAXFILE * BSIZE" using less.prems(4) m(2) by simp
          moreover have "source (place_add src ?m) (drop ?m kb) (drop ?m bs) w"
            using ch(2) source_frame [OF file_frame_tx [OF w(3)] txD(2) [OF 1(3)]] by simp
          moreover have "length (drop ?m bs) < ?n" using m(1) n by simp
          ultimately obtain tot t where t: "writei_loop ip (place_add src ?m) (drop ?m kb) (off + ?m) (?n - ?m) w = Done tot t"
            "tot \<le> ?n - ?m" "write_post ip (off + ?m) (take tot (drop ?m bs)) w t" "tot < ?n - ?m \<longrightarrow> (\<forall>y < fs_size t. used t y)"
            "lh_n t \<le> lh_n w + 6 * int (blocks (off + ?m) (?n - ?m))"
            using less.hyps [of "drop ?m bs" "insert bp Q" w "off + ?m" "place_add src ?m" "drop ?m kb"] by auto
          have "write_post ip off (take ?m bs @ take tot (drop ?m bs)) s t"
            by (rule write_post_append [OF psw]) (use t(3) m(2) less.prems(4) in simp_all)
          then have "write_post ip off (take (?m + tot) bs) s t" by (simp add: take_add)
          then show ?thesis
            using run' t m(2) lw bl by (intro exI [of _ "?m + tot"] exI [of _ t]) auto
        qed
      qed
    qed
  qed
qed

section \<open>Writing the inode back\<close>

lemma file_size_irrelevant:
  assumes "ip < length (inodes s)"
  shows "faddr (set_inode ip (i_size_update (\<lambda>_. z)) s) ip = faddr s ip" "fbyte (set_inode ip (i_size_update (\<lambda>_. z)) s) ip = fbyte s ip"
    "file_wf (set_inode ip (i_size_update (\<lambda>_. z)) s) ip = file_wf s ip"
proof -
  let ?t = "set_inode ip (i_size_update (\<lambda>_. z)) s"
  have at: "i_addrs (inode_at ?t ip) = i_addrs (inode_at s ip)" "i_dev (inode_at ?t ip) = i_dev (inode_at s ip)"
    "i_inum (inode_at ?t ip) = i_inum (inode_at s ip)" using inode_at_set [OF assms] by simp_all
  show f: "faddr ?t ip = faddr s ip" by (intro ext) (simp add: faddr_def at)
  show "fbyte ?t ip = fbyte s ip" by (intro ext) (simp add: fbyte_def f Let_def)
  have "fslot ?t ip = fslot s ip" by (intro ext) (simp add: fslot_def f at)
  moreover have "used ?t = used s" by (intro ext) (simp add: used_def BBLOCK_def)
  moreover from this have "bitmap_ok ?t = bitmap_ok s" "in_use ?t = in_use s"
    by (simp_all add: bitmap_ok_def in_use_def [abs_def] BBLOCK_def)
  moreover have "inode_block ?t ip = inode_block s ip" by (simp add: inode_block_def IBLOCK_def at)
  ultimately show "file_wf ?t ip = file_wf s ip" by (simp add: file_wf_def at)
qed

lemma iupdate_spec:
  fixes s :: "'a fs_state_scheme"
  assumes tx: "tx {} P s" and room: "lh_n s < 30" and wf: "file_wf s ip"
  obtains (ok) Q t where "iupdate ip s = Done () t" "tx {} Q t" "tx_frame s t" "file_wf t ip" "faddr t ip = faddr s ip"
    "\<And>x. x < MAXFILE * BSIZE \<Longrightarrow> fbyte t ip x = fbyte s ip x" "lh_n t \<le> lh_n s + 1"
    "blk t (inode_block s ip) = put_dinode (unat (i_inum (inode_at s ip)) mod IPB) (dinode_of (inode_at s ip)) (blk s (inode_block s ip))"
    "\<And>b. b < fs_size s \<Longrightarrow> used t b = used s b"
proof -
  note W = file_wfD [OF wf]
  have dev: "log_dev s \<noteq> 0" by (rule txD(3) [OF tx])
  have room': "lh_n s + int (card ({} :: nat set)) < 30" using room by simp
  let ?f = "put_dinode (unat (i_inum (inode_at s ip)) mod IPB) (dinode_of (inode_at s ip))"
  have run: "iupdate ip s = update_block (log_dev s) (inode_block s ip) ?f s"
    using W(3) by (simp add: iupdate_def update_block_def inode_block_def Let_def)
  show thesis
  proof (rule tx_update [OF tx room', where bno = "inode_block s ip" and f = ?f], simp, goal_cases)
    case (1 Q t)
    note f = tx_frame_facts(3) [OF 1(2)] tx_frame_fs [OF 1(2)]
    note bb = BBLOCK_cong [OF f(2)] and c = 1(5) [OF dev]
    have used: "used t b = used s b" if "b < fs_size s" for b
    proof -
      have "BBLOCK b s \<noteq> inode_block s ip" using W(5) that by (auto simp: in_use_def)
      then show ?thesis using c by (simp add: used_def f bb)
    qed
    have same: "blk t x = blk s x" if "x \<noteq> inode_block s ip" for x using c that f(1) by simp
    have ind: "blk t (indirect s ip) = blk s (indirect s ip)" if "indirect s ip \<noteq> 0"
      by (rule same) (use W(7) [of MAXFILE] that in \<open>simp add: fslot_def\<close>)
    have fa: "faddr t ip = faddr s ip" using ind by (intro ext) (simp add: faddr_def f)
    have fs: "fslot t ip = fslot s ip" by (intro ext) (simp add: fslot_def fa f)
    have iu: "in_use t x = in_use s x" for x using used by (auto simp: in_use_def f bb)
    have "bitmap_ok t" using W(4) used by (simp add: bitmap_ok_def f bb)
    then have wf': "file_wf t ip" using wf by (simp add: file_wf_def iu fs f inode_block_def IBLOCK_def)
    have "fbyte t ip x = fbyte s ip x" if "x < MAXFILE * BSIZE" for x
    proof -
      have "x div BSIZE < MAXFILE" using that by (simp add: div_less_iff_less_mult)
      then have "faddr s ip (x div BSIZE) \<noteq> 0 \<Longrightarrow> faddr s ip (x div BSIZE) \<noteq> inode_block s ip"
        using W(7) [of "x div BSIZE"] by (simp add: fslot_def)
      then show ?thesis using same by (simp add: fbyte_def fa Let_def)
    qed
    then show thesis using ok [of t Q] 1 wf' fa c used run f(1) by simp
  qed
qed

section \<open>Properties\<close>

definition file_ok :: "'a fs_state_scheme \<Rightarrow> nat \<Rightarrow> bool" where
  "file_ok s ip \<longleftrightarrow> file_wf s ip \<and> unat (i_size (inode_at s ip)) \<le> MAXFILE * BSIZE \<and>
     (\<forall>x < unat (i_size (inode_at s ip)). faddr s ip (x div BSIZE) \<noteq> 0)"

definition overwrite :: "'b list \<Rightarrow> nat \<Rightarrow> 'b list \<Rightarrow> 'b list" where
  "overwrite xs off ys = take off xs @ ys @ drop (off + length ys) xs"

lemma overwrite_nth:
  "off \<le> length xs \<Longrightarrow> i < max (length xs) (off + length ys) \<Longrightarrow>
    overwrite xs off ys ! i = (if off \<le> i \<and> i < off + length ys then ys ! (i - off) else xs ! i)"
  by (auto simp: overwrite_def nth_append min_def)

lemma length_overwrite: "off \<le> length xs \<Longrightarrow> length (overwrite xs off ys) = max (length xs) (off + length ys)"
  by (auto simp: overwrite_def)

lemma written_back:
  assumes fok: "file_ok s ip" and w: "write_post ip off cs s u" and off: "off \<le> unat (i_size (inode_at s ip))" "off + length cs \<le> MAXFILE * BSIZE"
    and t: "file_wf t ip" "faddr t ip = faddr u ip" "\<And>x. x < MAXFILE * BSIZE \<Longrightarrow> fbyte t ip x = fbyte u ip x"
    and z: "unat (i_size (inode_at t ip)) = max (unat (i_size (inode_at s ip))) (off + length cs)"
  shows "file_ok t ip \<and> file_data t ip = overwrite (file_data s ip) off cs"
proof
  let ?size = "unat (i_size (inode_at s ip))"
  have sz: "?size \<le> MAXFILE * BSIZE" and mapped: "\<And>x. x < ?size \<Longrightarrow> faddr s ip (x div BSIZE) \<noteq> 0" using fok by (simp_all add: file_ok_def)
  have ft: "off \<le> length (file_data s ip)" using off(1) by (simp add: file_data_def)
  have "faddr t ip (x div BSIZE) \<noteq> 0" if x: "x < unat (i_size (inode_at t ip))" for x
  proof (cases "x < ?size")
    case True
    then have "x div BSIZE < MAXFILE" using sz by (simp add: div_less_iff_less_mult)
    then show ?thesis using mapped [OF True] w t(2) by (simp add: write_post_def)
  next
    case False
    then have e: "x = off + (x - off)" "x - off < length cs" using x off(1) unfolding z by linarith+
    then have "faddr u ip ((off + (x - off)) div BSIZE) \<noteq> 0" using w unfolding write_post_def by blast
    then show ?thesis using t(2) e(1) by metis
  qed
  then show "file_ok t ip" using t(1) z sz off(2) by (simp add: file_ok_def)
  show "file_data t ip = overwrite (file_data s ip) off cs"
  proof (rule nth_equalityI)
    show "length (file_data t ip) = length (overwrite (file_data s ip) off cs)"
      by (simp add: length_overwrite [OF ft]) (simp add: file_data_def z)
    fix i assume "i < length (file_data t ip)"
    then have i: "i < max ?size (off + length cs)" by (simp add: file_data_def z)
    then have "i < MAXFILE * BSIZE" using sz off(2) by simp
    then have "fbyte t ip i = (if off \<le> i \<and> i < off + length cs then cs ! (i - off) else fbyte s ip i)"
      using t(3) w by (simp add: write_post_def)
    then show "file_data t ip ! i = overwrite (file_data s ip) off cs ! i"
      using i overwrite_nth [OF ft, of i cs] off(1) by (auto simp: file_data_def z)
  qed
qed

text \<open>Storing the new size is one update of the inode.\<close>

lemma set_size_max:
  "(if i_size (inode_at u ip) < z then set_inode ip (i_size_update (\<lambda>_. z)) u else u) =
    set_inode ip (i_size_update (\<lambda>_. max (i_size (inode_at u ip)) z)) u"
proof (cases "i_size (inode_at u ip) < z")
  case False
  then have "i_size_update (\<lambda>_. max (i_size (inode_at u ip)) z) (inode_at u ip) = inode_at u ip"
    by (cases "inode_at u ip") (auto simp: max_def)
  then show ?thesis using False by (simp add: set_inode_def)
qed (simp add: max_def)

text \<open>
  C3: Writing a file. Inside a transaction with room in the log, \<^verbatim>\<open>writei\<close> of the bytes \<open>bs\<close>, from
  kernel or mapped user memory, at an offset inside the file or at its end, writes a prefix of them and returns its
  length: the new contents of the file are the old ones with that prefix spliced in, extending the file where
  necessary. The prefix is shorter than \<open>bs\<close> only when every block of the disk is in use.
  The inode block holds the new inode, and no other in-memory inode changes.
\<close>

theorem writei_refines:
  fixes s :: "'a fs_state_scheme"
  assumes tx: "tx {} P s" and room: "lh_n s + 6 * int (blocks (unat off) (length bs)) + 1 < 30" and fok: "file_ok s ip"
    and src: "source src kb bs s" and off: "off \<le> i_size (inode_at s ip)" "unat off + length bs \<le> MAXFILE * BSIZE"
  shows "\<exists>tot t. writei ip src kb off (of_nat (length bs)) s = Done (int tot) t \<and> tot \<le> length bs \<and>
    (tot < length bs \<longrightarrow> (\<forall>b < fs_size t. used t b)) \<and> file_ok t ip \<and>
    file_data t ip = overwrite (file_data s ip) (unat off) (take tot bs) \<and>
    get_dinode (blk t (inode_block t ip)) (unat (i_inum (inode_at t ip)) mod IPB) = dinode_of (inode_at t ip) \<and>
    (\<forall>j. j \<noteq> ip \<longrightarrow> inode_at t j = inode_at s j)"
proof -
  have wf: "file_wf s ip" using fok by (simp add: file_ok_def)
  let ?n = "of_nat (length bs) :: u32" and ?isize = "i_size (inode_at s ip)"
  note o = off(1) [unfolded word_le_nat_alt]
  have n: "unat ?n = length bs" using off(2) by (simp add: unat_of_nat)
  have on: "unat (off + ?n) = unat off + length bs" using off(2) n by (simp add: unat_word_ariths)
  have g: "\<not> (?isize < off \<or> off + ?n < off)" using o on by (simp add: word_less_nat_alt not_less)
  have room1: "lh_n s + 6 * int (blocks (unat off) (length bs)) < 30" using room by simp
  obtain tot u where u: "writei_loop ip src kb (unat off) (length bs) s = Done tot u" "tot \<le> length bs"
    "write_post ip (unat off) (take tot bs) s u" "tot < length bs \<longrightarrow> (\<forall>y < fs_size u. used u y)"
    "lh_n u \<le> lh_n s + 6 * int (blocks (unat off) (length bs))"
    using writei_loop_spec [OF tx room1 wf off(2) src] by (elim exE conjE) (rule that)
  obtain Q where Q: "tx {} Q u" and wfu: "file_wf u ip" and fru: "file_frame ip s u" and szu: "i_size (inode_at u ip) = ?isize"
    using u(3) by (auto simp: write_post_def)
  have ipu: "ip < length (inodes u)" by (rule file_wfD(1) [OF wfu])
  define v where "v = set_inode ip (i_size_update (\<lambda>_. max ?isize (off + of_nat tot))) u"
  note vs = file_size_irrelevant [OF ipu, of "max ?isize (off + of_nat tot)", folded v_def]
  have txv: "tx {} Q v" "lh_n v < 30" "file_wf v ip" using Q u(5) room vs(3) wfu by (simp_all add: v_def)
  show ?thesis
  proof (rule iupdate_spec [OF txv], goal_cases)
    case (1 R t)
    note f = tx_frame_fs [OF 1(3)]
    have "wrap32 (int tot) = int tot" using u(2) off(2) by (intro wrap32_id) simp_all
    then have run: "writei ip src kb off ?n s = Done (int tot) t"
      using g off(2) set_size_max [of u ip "off + of_nat tot", unfolded szu] by (simp add: writei_def on n u(1) v_def [symmetric] 1(1) szu Let_def)
    have "unat (off + of_nat tot) = unat off + tot" using off(2) u(2) by (simp add: unat_word_ariths unat_of_nat)
    then have z: "unat (i_size (inode_at t ip)) = max (unat ?isize) (unat off + length (take tot bs))"
      using u(2) by (simp add: f v_def inode_at_set [OF ipu] max_def word_le_nat_alt min_def)
    have top: "unat off + length (take tot bs) \<le> MAXFILE * BSIZE" using off(2) by simp
    have data: "file_ok t ip \<and> file_data t ip = overwrite (file_data s ip) (unat off) (take tot bs)"
      by (rule written_back [OF fok u(3) o top 1(4) _ _ z]) (use 1(5,6) vs(1,2) in simp_all)
    have len13: "length (di_addrs (dinode_of (inode_at v ip))) = NDIRECT + 1"
      using file_wfD(2) [OF txv(3)] by (simp add: dinode_of_def)
    have "inode_block t ip = inode_block v ip" by (simp add: inode_block_def IBLOCK_def f)
    then have disk: "get_dinode (blk t (inode_block t ip)) (unat (i_inum (inode_at t ip)) mod IPB) = dinode_of (inode_at t ip)"
      using 1(8) get_put_dinode [OF len13] by (simp add: f(2))
    have "used t b" if "tot < length bs" "b < fs_size t" for b
      using u(4) that 1(9) [of b] f(1) by (simp add: v_def used_def [of "set_inode _ _ _"] used_def [of u] BBLOCK_def)
    moreover have "inode_at t j = inode_at s j" if "j \<noteq> ip" for j
      using inode_at_set [OF ipu] file_frame_facts(5) [OF fru] that by (simp add: f v_def)
    ultimately show ?thesis using run u(2) data disk by (intro exI [of _ tot] exI [of _ t]) simp
  qed
qed

text \<open>
  C17: Reading a file into user memory, in or outside a transaction. Unless \<^verbatim>\<open>off + n\<close> overflows, \<^verbatim>\<open>readi\<close>
  either fails with -1, because the user's buffer cannot be written, or returns the number of bytes between \<open>off\<close> and the
  end of the file, at most \<open>n\<close>, and exactly those bytes of the file stand in user memory from \<open>va\<close> on; user memory outside
  the buffer keeps its contents, and neither the file nor the disk changes.
\<close>

theorem readi_correct:
  fixes s :: "'a fs_state_scheme"
  assumes lg: "lg {} P s" and room: "lh_n s < 30" and fok: "file_ok s ip" and u: "uas s xs root sz" "own_space root sz s"
    and n: "unat off + unat n < 2 ^ 32"
  defines "data \<equiv> take (unat n) (drop (unat off) (file_data s ip))"
  shows "\<exists>r bs t ys. readi ip (User va) off n s = Done (r, bs) t \<and> uas t ys root sz \<and>
    (r = -1 \<or> r = int (length data) \<and> (\<forall>i < length data. ubyte (mem t) root (va + of_nat i) = Some (data ! i))) \<and>
    (\<forall>v b. v < MAXVA \<longrightarrow> outside va (length data) v \<longrightarrow> ubyte (mem s) root v = Some b \<longrightarrow> ubyte (mem t) root v = Some b) \<and>
    file_data t ip = file_data s ip \<and> disk t = disk s"
proof -
  let ?size = "unat (i_size (inode_at s ip))"
  have wf: "file_wf s ip" and sz: "?size \<le> MAXFILE * BSIZE" and dev: "log_dev s \<noteq> 0"
    using fok lgD(3) [OF lg] by (simp_all add: file_ok_def)
  have on: "unat (off + n) = unat off + unat n" using n by (simp add: unat_word_ariths)
  show ?thesis
  proof (cases "i_size (inode_at s ip) < off")
    case True
    then have "data = []" by (simp add: data_def file_data_def word_less_nat_alt)
    then show ?thesis using True u by (intro exI [of _ 0] exI [of _ "[]"] exI [of _ s] exI [of _ xs]) (simp add: readi_def)
  next
    case False
    let ?k = "min (unat n) (?size - unat off)"
    have o: "unat off \<le> ?size" using False by (simp add: word_less_nat_alt)
    have k: "unat (if i_size (inode_at s ip) < off + n then i_size (inode_at s ip) - off else n) = ?k"
      using on o by (auto simp: word_less_nat_alt unat_sub_if_size min_def)
    have d: "data = map (fbyte s ip) [unat off..<unat off + ?k]"
      unfolding data_def file_data_def take_map drop_map using o by (simp add: drop_upt take_upt min_def)
    have rm: "range_mapped s ip (unat off) ?k" using fok o sz by (auto simp: range_mapped_def file_ok_def)
    obtain r t ys where t: "readi_loop ip (User va) (unat off) ?k s = Done r t" "rd_frame s t" "lg {} P t" "uas t ys root sz"
      "\<forall>d m. d \<noteq> 0 \<longrightarrow> content t d m = content s d m" "lh_n t = lh_n s" "read_into root va data s t r"
      using readi_loop_user [OF lg room wf rm u, of va, folded d] by (elim exE conjE) (rule that)
    have ne: "\<not> off + n < off" using on by (simp add: word_less_nat_alt)
    have "wrap32 (int (length data)) = int (length data)" using sz o d by (intro wrap32_id) simp_all
    then have run: "readi ip (User va) off n s = (case r of None \<Rightarrow> Done (-1, []) t | Some bs \<Rightarrow> Done (wrap32 (int (length bs)), bs) t)"
      using False ne by (simp add: readi_def k t(1) Let_def)
    obtain v m f where v: "tx_frame s v" "t = v\<lparr>mem := m, freelist := f\<rparr>" using t(2) by (auto simp: rd_frame_def)
    have same: "log_dev t = log_dev s" "sb t = sb s" "inodes t = inodes s" "disk t = disk s"
      using tx_frame_facts(1,3) [OF v(1)] tx_frame_fs [OF v(1)] by (simp_all add: v(2))
    have "fbyte t ip = fbyte s ip" by (rule file_cong(3) [OF _ dev]) (use t(5) same in simp_all)
    then have "file_data t ip = file_data s ip" by (simp add: file_data_def same(3))
    then show ?thesis using run t(4,7) same(4) \<open>wrap32 _ = _\<close>
      by (cases r) (auto simp: read_into_def)
  qed
qed

text \<open>Inode 3 is a file of five bytes in block 47.\<close>

definition ex_disk :: "u32 \<Rightarrow> block" where
  "ex_disk n = (if n = 46 then (\<lambda>i. if i < 6 then 255 else 0) else if n = 47 then of_nat else (\<lambda>_. 0))"

definition ex_inode :: inode where
  "ex_inode = \<lparr>i_dev = 1, i_inum = 3, i_ref = 1, i_lock = \<lparr>sl_locked = 1, sl_pid = 7\<rparr>, i_valid = 1, i_type = T_FILE, i_major = 0,
     i_minor = 0, i_nlink = 1, i_size = 5, i_addrs = 47 # replicate NDIRECT 0\<rparr>"

definition ex_file :: fs_state where
  "ex_file = set_inode 0 (\<lambda>_. ex_inode) (ex_fs ex_disk)"

lemma ex_file_facts: "inode_at ex_file 0 = ex_inode" "0 < length (inodes ex_file)" "log_dev ex_file = 1" "lh_n ex_file = 0"
    "content ex_file 1 = ex_disk" "sb ex_file = sb (ex_fs ex_disk)" "tx {} {} ex_file"
  using ex_fs_tx [of ex_disk] by (auto simp: ex_file_def set_inode_def fun_eq_iff)

lemma ex_file_ok: "file_ok ex_file 0"
proof -
  have bb: "BBLOCK b ex_file = 46" if "b < 2000" for b using that by (simp add: BBLOCK_def ex_file_facts(6))
  have used: "used ex_file b" if "b < 48" for b
  proof -
    have "b div 8 < 6" "b mod 8 < 8" using that by auto
    moreover have "(255 :: u8) = - 1" by simp
    ultimately have "bit (255 :: u8) (b mod 8)" by (simp only: bit_minus_1_iff) (simp add: possible_bit_def)
    then show ?thesis using that bb [of b] by (simp add: used_def ex_file_facts ex_disk_def bit_free_iff)
  qed
  have bm: "bitmap_ok ex_file" using bb used by (simp add: bitmap_ok_def ex_file_facts(6))
  have iu: "in_use ex_file x" if "unat x < 48" "x \<noteq> 46" for x
    using that used bb by (simp add: in_use_def ex_file_facts(6))
  have ib: "inode_block ex_file 0 = 33" by (simp add: inode_block_def IBLOCK_def ex_file_facts(1,6) ex_inode_def)
  have sl: "fslot ex_file 0 k = (if k = 0 then 47 else 0)" if "k \<le> MAXFILE" for k
    using that by (auto simp: fslot_def faddr_def ex_file_facts(1) ex_inode_def nth_Cons')
  have "file_wf ex_file 0"
    using bm iu [of 33] iu [of 47] sl ex_file_facts(2) unfolding file_wf_def ib by (auto simp: ex_file_facts(1,3) ex_inode_def)
  moreover have "faddr ex_file 0 0 = 47" using sl [of 0] by (simp add: fslot_def)
  ultimately show ?thesis by (simp add: file_ok_def ex_file_facts(1)) (simp add: ex_inode_def)
qed

theorem writei_refines_witness:
  "\<exists>tot t. writei 0 Var [1, 2, 3] 5 3 ex_file = Done (int tot) t \<and> file_ok t 0 \<and>
    file_data t 0 = overwrite (file_data ex_file 0) 5 (take tot [1, 2, 3])"
proof -
  have src: "source Var [1, 2, 3] [1, 2, 3] ex_file" by (simp add: source_def)
  have room: "lh_n ex_file + 6 * int (blocks (unat (5 :: u32)) (length [1, 2, 3 :: u8])) + 1 < 30" by (simp add: ex_file_facts blocks_def)
  have off: "(5 :: u32) \<le> i_size (inode_at ex_file 0)" by (simp add: ex_file_facts(1) ex_inode_def)
  show ?thesis using writei_refines [OF ex_file_facts(7) room ex_file_ok src off] by auto
qed

lemma ex_file_mem: "kend ex_file = kend ex_ustate" "freelist ex_file = freelist ex_ustate" "mem ex_file = mem ex_ustate"
    "procs ex_file = procs ex_ustate" "myproc ex_file = myproc ex_ustate"
  by (simp_all add: ex_file_def set_inode_def ex_fs_def log_state.defs ex_log_def buf_state.defs ex_cache_def binit_def cons_state.defs
    with_cons_def proc_state.defs myproc_def mycpu_def cpuid_def)

theorem readi_correct_witness:
  "\<exists>r bs t. readi 0 (User 0x1000) 2 100 ex_file = Done (r, bs) t \<and> (r = -1 \<or> r = 3) \<and> file_data t 0 = file_data ex_file 0"
proof -
  have u: "uas ex_file [0x87000000, 0x87001000, 0x87002000] 0x86000000 0x3000"
    using ex_uas uas_cong [of ex_file ex_ustate] by (simp add: ex_file_mem)
  have own: "own_space 0x86000000 0x3000 ex_file" using ex_own by (simp add: own_space_def ex_file_mem)
  have lg: "lg {} {} ex_file" using ex_file_facts(7) by (simp add: tx_lg)
  have "length (take 100 (drop 2 (file_data ex_file 0))) = 3" by (simp add: file_data_def ex_file_facts(1) ex_inode_def)
  then show ?thesis
    using readi_correct [OF lg _ ex_file_ok u own, of 2 100 "0x1000"] by (auto simp: ex_file_facts(4))
qed

end
