(* ===== verification/Path.thy ===== *)
theory Path
  imports Fs
begin

text \<open>
  Path names. \<^verbatim>\<open>namex\<close> takes a path apart with \<^verbatim>\<open>skipelem\<close> while it walks down the tree; the reference cuts the path
  at its slashes beforehand and walks along the list of names.
\<close>

fun split_slash :: "u8 list \<Rightarrow> u8 list list" where
  "split_slash [] = [[]]"
| "split_slash (c # cs) =
     (if c = 47 then [] # split_slash cs else case split_slash cs of w # ws \<Rightarrow> (c # w) # ws | [] \<Rightarrow> [[c]])"

definition path_elems :: "u8 list \<Rightarrow> u8 list list" where
  "path_elems path = map (take DIRSIZ) (filter (\<lambda>e. e \<noteq> []) (split_slash path))"

definition put_name :: "u8 list \<Rightarrow> name \<Rightarrow> name" where
  "put_name e name = (if length e = DIRSIZ then page_write name 0 e else (page_write name 0 e)(length e := 0))"

fun walk_names :: "nat \<Rightarrow> u8 list list \<Rightarrow> bool \<Rightarrow> name \<Rightarrow> 'a fs_state_scheme \<Rightarrow> (nat option \<times> name, 'a fs_state_scheme) outcome" where
  "walk_names ip [] parent name s =
     (if parent then obind (iput ip s) (\<lambda>_ s. Done (None, name) s) else Done (Some ip, name) s)"
| "walk_names ip (e # es) parent name s =
     (let name = put_name e name in
      obind (ilock ip s) (\<lambda>_ s.
      if i_type (inode_at s ip) \<noteq> T_DIR then obind (iunlockput ip s) (\<lambda>_ s. Done (None, name) s)
      else if parent \<and> es = [] then obind (iunlock ip s) (\<lambda>_ s. Done (Some ip, name) s)
      else
        obind (dirlookup ip name s) (\<lambda>next s.
        case next of
          None \<Rightarrow> obind (iunlockput ip s) (\<lambda>_ s. Done (None, name) s)
        | Some (next, _) \<Rightarrow> obind (iunlockput ip s) (\<lambda>_ s. walk_names next es parent name s))))"

lemma split_slash_ne: "split_slash p \<noteq> []"
  by (induction p) (auto split: list.split)

lemma split_slash_word: "\<forall>c\<in>set w. c \<noteq> 47 \<Longrightarrow> split_slash (w @ 47 # p) = w # split_slash p" "\<forall>c\<in>set w. c \<noteq> 47 \<Longrightarrow> split_slash w = [w]"
  by (induction w) (auto split: list.split)

lemma path_elems_slashes: "path_elems (dropWhile (\<lambda>c. c = 47) p) = path_elems p"
  by (induction p) (auto simp: path_elems_def)

lemma skipelem_elems:
  "skipelem path name = (case path_elems path of
     [] \<Rightarrow> None
   | e # es \<Rightarrow> Some (dropWhile (\<lambda>c. c = 47) (dropWhile (\<lambda>c. c \<noteq> 47) (dropWhile (\<lambda>c. c = 47) path)), put_name e name))"
  "path_elems (dropWhile (\<lambda>c. c = 47) (dropWhile (\<lambda>c. c \<noteq> 47) (dropWhile (\<lambda>c. c = 47) path))) = tl (path_elems path)"
proof -
  define p where "p = dropWhile (\<lambda>c. c = 47) path"
  define w where "w = takeWhile (\<lambda>c. c \<noteq> 47) p"
  define r where "r = dropWhile (\<lambda>c. c \<noteq> 47) p"
  have p: "path_elems path = path_elems p" by (simp add: p_def path_elems_slashes)
  have pr: "p = w @ r" by (simp add: w_def r_def)
  have w: "\<forall>c\<in>set w. c \<noteq> 47" using set_takeWhileD by (fastforce simp: w_def)
  have r: "r = [] \<or> (\<exists>q. r = 47 # q)" using hd_dropWhile [of "\<lambda>c. c \<noteq> 47" p] unfolding r_def [symmetric] by (cases r) auto
  have ne: "w \<noteq> []" if "p \<noteq> []" using that hd_dropWhile [of "\<lambda>c. c = 47" path] by (cases p) (auto simp: w_def p_def)
  have e: "path_elems p = (if p = [] then [] else take DIRSIZ w # path_elems r)"
  proof (cases "p = []")
    case False
    then have "split_slash p = w # (if r = [] then [] else split_slash (tl r))"
      unfolding pr using r split_slash_word [OF w] by auto
    moreover have "filter (\<lambda>e. e \<noteq> []) (split_slash r) = (if r = [] then [] else filter (\<lambda>e. e \<noteq> []) (split_slash (tl r)))"
      using r by auto
    ultimately show ?thesis using ne [OF False] False by (simp add: path_elems_def)
  qed (simp add: path_elems_def)
  show "skipelem path name = (case path_elems path of [] \<Rightarrow> None
   | e # es \<Rightarrow> Some (dropWhile (\<lambda>c. c = 47) (dropWhile (\<lambda>c. c \<noteq> 47) (dropWhile (\<lambda>c. c = 47) path)), put_name e name))"
    unfolding p e by (simp add: skipelem_def Let_def p_def [symmetric] w_def [symmetric] r_def [symmetric] put_name_def)
  show "path_elems (dropWhile (\<lambda>c. c = 47) (dropWhile (\<lambda>c. c \<noteq> 47) (dropWhile (\<lambda>c. c = 47) path))) = tl (path_elems path)"
    unfolding p e by (simp only: p_def [symmetric] r_def [symmetric] path_elems_slashes) (simp add: path_elems_def r_def)
qed

lemma path_elems_Nil: "path_elems path = [] \<longleftrightarrow> dropWhile (\<lambda>c. c = 47) path = []"
  using skipelem_elems(1) [of path "\<lambda>_. 0"] unfolding skipelem_def Let_def
  by (cases "dropWhile (\<lambda>c. c = 47) path = []"; cases "path_elems path") (simp_all only: if_True if_False list.case option.distinct HOL.simp_thms list.distinct)

lemma namex_loop_walks:
  fixes s :: "'a fs_state_scheme"
  shows "namex_loop ip path parent name s = walk_names ip (path_elems path) parent name s"
proof (induction "length path" arbitrary: ip path name s rule: less_induct)
  case less
  let ?r = "dropWhile (\<lambda>c. c = 47) (dropWhile (\<lambda>c. c \<noteq> 47) (dropWhile (\<lambda>c. c = 47) path))"
  show ?case
  proof (cases "path_elems path")
    case Nil
    then show ?thesis using skipelem_elems(1) [of path name] by (simp add: namex_loop.simps)
  next
    case (Cons e es)
    have sk: "skipelem path name = Some (?r, put_name e name)" using skipelem_elems(1) [of path name] Cons by simp
    have es: "path_elems ?r = es" using skipelem_elems(2) [of path] Cons by simp
    have nil: "?r = [] \<longleftrightarrow> es = []" using path_elems_Nil [of ?r] es by (simp add: dropWhile_idem)
    have ih: "namex_loop next ?r parent (put_name e name) = (walk_names next es parent (put_name e name) :: 'a fs_state_scheme \<Rightarrow> _)" for "next"
      using less [OF skipelem_shorter [OF sk]] es by (intro ext) simp
    show ?thesis unfolding Cons walk_names.simps Let_def by (subst namex_loop.simps) (simp only: sk option.case prod.case nil ih)
  qed
qed

text \<open>
  C20: path lookup depends only on the names between the slashes. \<^verbatim>\<open>namex\<close>, which cuts one element at a time off the path,
  is the same as cutting the path at all slashes first, dropping empty parts, shortening every part to
  \<^verbatim>\<open>DIRSIZ\<close> bytes and walking along the list, from the root if the path starts with a slash and from
  the current directory otherwise; repeated and trailing slashes make no difference, and \<^verbatim>\<open>nameiparent\<close>
  stops before the last name.
\<close>

theorem namex_walks_names:
  fixes s :: "'a fs_state_scheme"
  shows "namex path parent name s =
     (if take 1 path = [47] then obind (iget ROOTDEV ROOTINO s) (\<lambda>ip s. walk_names ip (path_elems path) parent name s)
      else case p_cwd (proc_at s (cur s)) of None \<Rightarrow> Panic ''kerneltrap'' | Some ip \<Rightarrow> walk_names ip (path_elems path) parent name (idup ip s))"
proof -
  have "namex_loop ip path parent name = (walk_names ip (path_elems path) parent name :: 'a fs_state_scheme \<Rightarrow> _)" for ip
    by (rule ext) (rule namex_loop_walks)
  moreover have "take 1 path = [47] \<longleftrightarrow> path \<noteq> [] \<and> hd path = 47" by (cases path) simp_all
  ultimately show ?thesis by (simp only: namex_def)
qed

end
