(* ===== verification/File.thy ===== *)
theory File
  imports Fs
begin

text \<open>
  \<^verbatim>\<open>kernel/file.c\<close>, \<^verbatim>\<open>pipealloc\<close> of \<^verbatim>\<open>kernel/pipe.c\<close> and the device switch: open files with their
  reference counts. A \<^verbatim>\<open>struct file *\<close> is an index into \<^verbatim>\<open>ftable.file\<close>. The functions a driver
  can put into \<^verbatim>\<open>devsw\<close> are those of the console.
\<close>

section \<open>Data\<close>

abbreviation NFILE :: nat where "NFILE \<equiv> 100"
abbreviation NDEV :: nat where "NDEV \<equiv> 10"

datatype fd_type = FD_NONE | FD_PIPE | FD_INODE | FD_DEVICE

record kfile =
  f_type :: fd_type
  f_ref :: int
  f_readable :: u8
  f_writable :: u8
  f_pipe :: u64
  f_ip :: "nat option"
  f_off :: u32
  f_major :: u16

datatype dev_fn = Consoleread | Consolewrite

record devsw =
  dev_read :: "dev_fn option"
  dev_write :: "dev_fn option"

record file_state = fs_state +
  ftable :: "kfile list"
  devtab :: "devsw list"

abbreviation file_at :: "'a file_state_scheme \<Rightarrow> nat \<Rightarrow> kfile" where
  "file_at s f \<equiv> ftable s ! f"

definition set_file :: "nat \<Rightarrow> (kfile \<Rightarrow> kfile) \<Rightarrow> 'a file_state_scheme \<Rightarrow> 'a file_state_scheme" where
  "set_file f g s = s\<lparr>ftable := (ftable s)[f := g (file_at s f)]\<rparr>"

text \<open>A call through a pointer of \<^verbatim>\<open>devsw\<close>.\<close>

definition dev_call :: "dev_fn \<Rightarrow> place \<Rightarrow> int \<Rightarrow> 'a file_state_scheme \<Rightarrow> (int, 'a file_state_scheme) outcome" where
  "dev_call fn p n s = (case fn of Consoleread \<Rightarrow> consoleread p n s | Consolewrite \<Rightarrow> consolewrite p n s)"

section \<open>The file table\<close>

definition filealloc :: "'a file_state_scheme \<Rightarrow> nat option \<times> 'a file_state_scheme" where
  "filealloc s =
     (case List.find (\<lambda>f. f_ref (file_at s f) = 0) [0..<NFILE] of
        Some f \<Rightarrow> (Some f, set_file f (f_ref_update (\<lambda>_. 1)) s)
      | None \<Rightarrow> (None, s))"

definition filedup :: "nat \<Rightarrow> 'a file_state_scheme \<Rightarrow> (nat, 'a file_state_scheme) outcome" where
  "filedup f s =
     (if f_ref (file_at s f) < 1 then Panic ''filedup''
      else Done f (set_file f (f_ref_update (\<lambda>r. r + 1)) s))"

definition fileclose :: "nat \<Rightarrow> 'a file_state_scheme \<Rightarrow> (unit, 'a file_state_scheme) outcome" where
  "fileclose f s =
     (if f_ref (file_at s f) < 1 then Panic ''fileclose''
      else
        let s = set_file f (f_ref_update (\<lambda>r. r - 1)) s in
        if f_ref (file_at s f) > 0 then Done () s
        else
          let ff = file_at s f; s = set_file f (\<lambda>g. g\<lparr>f_ref := 0, f_type := FD_NONE\<rparr>) s in
          if f_type ff = FD_PIPE then pipeclose (f_pipe ff) (f_writable ff \<noteq> 0) s
          else if f_type ff = FD_INODE \<or> f_type ff = FD_DEVICE then
            obind (begin_op s) (\<lambda>_ s.
            obind (deref (f_ip ff) (\<lambda>ip. iput ip s)) (\<lambda>_ s. end_op s))
          else Done () s)"

text \<open>
  The bytes of a \<^verbatim>\<open>struct stat\<close>; \<open>pad\<close> is the four bytes of padding before \<^verbatim>\<open>size\<close>, which \<^verbatim>\<open>filestat\<close> takes
  from the kernel stack as it finds them.
\<close>

definition stat_bytes :: "u8 list \<Rightarrow> stat \<Rightarrow> u8 list" where
  "stat_bytes pad st = le_bytes 4 (stat_dev st) @ le_bytes 4 (stat_ino st) @ le_bytes 2 (stat_type st) @
     le_bytes 2 (stat_nlink st) @ pad @ le_bytes 8 (stat_size st)"

definition filestat :: "u8 list \<Rightarrow> nat \<Rightarrow> u64 \<Rightarrow> 'a file_state_scheme \<Rightarrow> (int, 'a file_state_scheme) outcome" where
  "filestat pad f addr s =
     (if f_type (file_at s f) = FD_INODE \<or> f_type (file_at s f) = FD_DEVICE then
        deref (f_ip (file_at s f)) (\<lambda>ip.
        obind (ilock ip s) (\<lambda>_ s.
        let st = stati ip s in
        obind (iunlock ip s) (\<lambda>_ s.
        obind (copyout (p_pagetable (proc_at s (cur s))) addr (stat_bytes pad st) s) (\<lambda>r s.
        Done (if r < 0 then -1 else 0) s))))
      else Done (-1) s)"

text \<open>\<open>f->major < 0 || f->major >= NDEV || !devsw[f->major].read\<close> and the call.\<close>

definition dev_entry :: "(devsw \<Rightarrow> dev_fn option) \<Rightarrow> u16 \<Rightarrow> 'a file_state_scheme \<Rightarrow> dev_fn option" where
  "dev_entry sel major s =
     (if sint major < 0 \<or> sint major \<ge> int NDEV then None else sel (devtab s ! nat (sint major)))"

definition fileread :: "nat \<Rightarrow> u64 \<Rightarrow> int \<Rightarrow> 'a file_state_scheme \<Rightarrow> (int, 'a file_state_scheme) outcome" where
  "fileread f addr n s =
     (if f_readable (file_at s f) = 0 then Done (-1) s
      else case f_type (file_at s f) of
        FD_PIPE \<Rightarrow> piperead (f_pipe (file_at s f)) addr n s
      | FD_DEVICE \<Rightarrow>
          (case dev_entry dev_read (f_major (file_at s f)) s of
             None \<Rightarrow> Done (-1) s
           | Some fn \<Rightarrow> dev_call fn (User addr) n s)
      | FD_INODE \<Rightarrow>
          deref (f_ip (file_at s f)) (\<lambda>ip.
          obind (ilock ip s) (\<lambda>_ s.
          obind (readi ip (User addr) (f_off (file_at s f)) (word_of_int n) s) (\<lambda>(r, _) s.
          let s = (if r > 0 then set_file f (f_off_update (\<lambda>x. x + word_of_int r)) s else s) in
          obind (iunlock ip s) (\<lambda>_ s. Done r s))))
      | FD_NONE \<Rightarrow> Panic ''fileread'')"

text \<open>The chunk size \<^verbatim>\<open>max\<close> of \<^verbatim>\<open>filewrite\<close>, and its loop from \<^verbatim>\<open>i\<close> on, which returns the final \<^verbatim>\<open>i\<close>.\<close>

definition max_chunk :: int where
  "max_chunk = (MAXOPBLOCKS - 1 - 1 - 2) div 2 * int BSIZE"

function filewrite_loop :: "nat \<Rightarrow> u64 \<Rightarrow> int \<Rightarrow> int \<Rightarrow> 'a file_state_scheme \<Rightarrow> (int, 'a file_state_scheme) outcome" where
  "filewrite_loop f addr n i s =
     (if i < n then
        let n1 = (if n - i > max_chunk then max_chunk else n - i) in
        obind (begin_op s) (\<lambda>_ s.
        deref (f_ip (file_at s f)) (\<lambda>ip.
        obind (ilock ip s) (\<lambda>_ s.
        obind (writei ip (User (addr + word_of_int i)) [] (f_off (file_at s f)) (word_of_int n1) s) (\<lambda>r s.
        let s = (if r > 0 then set_file f (f_off_update (\<lambda>x. x + word_of_int r)) s else s) in
        obind (iunlock ip s) (\<lambda>_ s.
        obind (end_op s) (\<lambda>_ s.
        if r \<noteq> n1 then Done i s else filewrite_loop f addr n (i + n1) s))))))
      else Done i s)"
  by pat_completeness auto
termination
  by (relation "measure (\<lambda>(f, addr, n, i, s). nat (n - i))") (auto simp: max_chunk_def split: if_splits)

declare filewrite_loop.simps [simp del]

definition filewrite :: "nat \<Rightarrow> u64 \<Rightarrow> int \<Rightarrow> 'a file_state_scheme \<Rightarrow> (int, 'a file_state_scheme) outcome" where
  "filewrite f addr n s =
     (if f_writable (file_at s f) = 0 then Done (-1) s
      else case f_type (file_at s f) of
        FD_PIPE \<Rightarrow> pipewrite (f_pipe (file_at s f)) addr n s
      | FD_DEVICE \<Rightarrow>
          (case dev_entry dev_write (f_major (file_at s f)) s of
             None \<Rightarrow> Done (-1) s
           | Some fn \<Rightarrow> dev_call fn (User addr) n s)
      | FD_INODE \<Rightarrow> obind (filewrite_loop f addr n 0 s) (\<lambda>i s. Done (if i = n then n else -1) s)
      | FD_NONE \<Rightarrow> Panic ''filewrite'')"

text \<open>\<^verbatim>\<open>pipealloc\<close>: the two files it stores in \<^verbatim>\<open>*f0\<close> and \<^verbatim>\<open>*f1\<close>, or \<^const>\<open>None\<close> when it returns -1.\<close>

definition pipealloc :: "'a file_state_scheme \<Rightarrow> ((nat \<times> nat) option, 'a file_state_scheme) outcome" where
  "pipealloc s =
     (case filealloc s of
        (None, s) \<Rightarrow> Done None s
      | (Some f0, s) \<Rightarrow>
          (case filealloc s of
             (None, s) \<Rightarrow> obind (fileclose f0 s) (\<lambda>_ s. Done None s)
           | (Some f1, s) \<Rightarrow>
               (case kalloc s of (pi, s) \<Rightarrow>
                if pi = 0 then obind (fileclose f0 s) (\<lambda>_ s. obind (fileclose f1 s) (\<lambda>_ s. Done None s))
                else
                  let s = set_pipe pi (\<lambda>p. p\<lparr>pi_readopen := 1, pi_writeopen := 1, pi_nwrite := 0, pi_nread := 0\<rparr>) s;
                      s = set_file f0 (\<lambda>f. f\<lparr>f_type := FD_PIPE, f_readable := 1, f_writable := 0, f_pipe := pi\<rparr>) s;
                      s = set_file f1 (\<lambda>f. f\<lparr>f_type := FD_PIPE, f_readable := 0, f_writable := 1, f_pipe := pi\<rparr>) s
                  in Done (Some (f0, f1)) s)))"

end
