(* ===== verification/Virtio.thy ===== *)
theory Virtio
  imports File
begin

text \<open>
  \<^verbatim>\<open>kernel/virtio_disk.c\<close>: the driver of the disk. The descriptor table and the two rings that the
  driver shares with the device are fields of the state; an address in a descriptor says which object
  of the kernel it points to. The device is outside this code: what its registers return is
  \<open>mmio_dev\<close>, a function of the writes it has seen. \<^verbatim>\<open>b->disk\<close> of buffer \<open>b\<close> is \<open>buf_disk s b\<close>.

  \<^verbatim>\<open>virtio_disk_rw\<close> waits for the device; it is \<open>virtio_submit\<close> up to that point and \<open>virtio_finish\<close>
  after it. The buffer cache uses it as the one step \<^const>\<open>virtio_disk_rw\<close>; theory \<open>Disk\<close> shows that this
  is what the driver does with a device that serves its requests.
\<close>

section \<open>Data\<close>

abbreviation NUM :: nat where "NUM \<equiv> 8"
abbreviation VRING_DESC_F_NEXT :: u16 where "VRING_DESC_F_NEXT \<equiv> 1"
abbreviation VRING_DESC_F_WRITE :: u16 where "VRING_DESC_F_WRITE \<equiv> 2"
abbreviation VIRTIO_BLK_T_IN :: u32 where "VIRTIO_BLK_T_IN \<equiv> 0"
abbreviation VIRTIO_BLK_T_OUT :: u32 where "VIRTIO_BLK_T_OUT \<equiv> 1"

datatype dma = Null | Ops nat | Data nat | Status nat

record virtq_desc =
  d_addr :: dma
  d_len :: u32
  d_flags :: u16
  d_next :: u16

record virtio_blk_req =
  rq_type :: u32
  rq_reserved :: u32
  rq_sector :: u64

record disk_info =
  in_b :: "nat option"
  in_status :: u8

record vio_state = file_state +
  mmio_dev :: "(nat \<times> u32) list \<Rightarrow> nat \<Rightarrow> u32"
  mmio_writes :: "(nat \<times> u32) list"
  vq_pages :: "u64 list"
  vq_desc :: "virtq_desc list"
  avail_idx :: u16
  avail_ring :: "u16 list"
  used_idx :: u16
  used_ring :: "u32 list"
  vd_free :: "u8 list"
  vd_used_idx :: u16
  vd_info :: "disk_info list"
  vd_ops :: "virtio_blk_req list"
  buf_disk :: "nat \<Rightarrow> int"

definition null_desc :: virtq_desc where
  "null_desc = \<lparr>d_addr = Null, d_len = 0, d_flags = 0, d_next = 0\<rparr>"

definition mmio_read :: "nat \<Rightarrow> 'a vio_state_scheme \<Rightarrow> u32" where
  "mmio_read r s = mmio_dev s (mmio_writes s) r"

definition mmio_write :: "nat \<Rightarrow> u32 \<Rightarrow> 'a vio_state_scheme \<Rightarrow> 'a vio_state_scheme" where
  "mmio_write r v s = s\<lparr>mmio_writes := mmio_writes s @ [(r, v)]\<rparr>"

definition set_desc :: "nat \<Rightarrow> (virtq_desc \<Rightarrow> virtq_desc) \<Rightarrow> 'a vio_state_scheme \<Rightarrow> 'a vio_state_scheme" where
  "set_desc i f s = s\<lparr>vq_desc := (vq_desc s)[i := f (vq_desc s ! i)]\<rparr>"

definition set_info :: "nat \<Rightarrow> (disk_info \<Rightarrow> disk_info) \<Rightarrow> 'a vio_state_scheme \<Rightarrow> 'a vio_state_scheme" where
  "set_info i f s = s\<lparr>vd_info := (vd_info s)[i := f (vd_info s ! i)]\<rparr>"

section \<open>Initialisation\<close>

abbreviation (input) MAGIC_VALUE :: nat where "MAGIC_VALUE \<equiv> 0x000"
abbreviation (input) VERSION :: nat where "VERSION \<equiv> 0x004"
abbreviation (input) DEVICE_ID :: nat where "DEVICE_ID \<equiv> 0x008"
abbreviation (input) VENDOR_ID :: nat where "VENDOR_ID \<equiv> 0x00c"
abbreviation (input) DEVICE_FEATURES :: nat where "DEVICE_FEATURES \<equiv> 0x010"
abbreviation (input) DRIVER_FEATURES :: nat where "DRIVER_FEATURES \<equiv> 0x020"
abbreviation (input) QUEUE_SEL :: nat where "QUEUE_SEL \<equiv> 0x030"
abbreviation (input) QUEUE_NUM_MAX :: nat where "QUEUE_NUM_MAX \<equiv> 0x034"
abbreviation (input) QUEUE_NUM :: nat where "QUEUE_NUM \<equiv> 0x038"
abbreviation (input) QUEUE_READY :: nat where "QUEUE_READY \<equiv> 0x044"
abbreviation (input) QUEUE_NOTIFY :: nat where "QUEUE_NOTIFY \<equiv> 0x050"
abbreviation (input) INTERRUPT_STATUS :: nat where "INTERRUPT_STATUS \<equiv> 0x060"
abbreviation (input) INTERRUPT_ACK :: nat where "INTERRUPT_ACK \<equiv> 0x064"
abbreviation (input) STATUS :: nat where "STATUS \<equiv> 0x070"
abbreviation (input) QUEUE_DESC_LOW :: nat where "QUEUE_DESC_LOW \<equiv> 0x080"
abbreviation (input) QUEUE_DESC_HIGH :: nat where "QUEUE_DESC_HIGH \<equiv> 0x084"
abbreviation (input) DRIVER_DESC_LOW :: nat where "DRIVER_DESC_LOW \<equiv> 0x090"
abbreviation (input) DRIVER_DESC_HIGH :: nat where "DRIVER_DESC_HIGH \<equiv> 0x094"
abbreviation (input) DEVICE_DESC_LOW :: nat where "DEVICE_DESC_LOW \<equiv> 0x0a0"
abbreviation (input) DEVICE_DESC_HIGH :: nat where "DEVICE_DESC_HIGH \<equiv> 0x0a4"

text \<open>The feature bits the driver turns off: read-only, SCSI, write-back configuration, several queues, any layout, event index, indirect descriptors.\<close>

definition refused_features :: u32 where
  "refused_features = push_bit 5 1 OR push_bit 7 1 OR push_bit 11 1 OR push_bit 12 1 OR push_bit 27 1 OR push_bit 29 1 OR push_bit 28 1"

text \<open>The first part of \<^verbatim>\<open>virtio_disk_init\<close>, up to the choice of queue 0; it returns \<^verbatim>\<open>status\<close>.\<close>

definition virtio_negotiate :: "'a vio_state_scheme \<Rightarrow> (u32, 'a vio_state_scheme) outcome" where
  "virtio_negotiate s =
     (if mmio_read MAGIC_VALUE s \<noteq> 0x74726976 \<or> mmio_read VERSION s \<noteq> 2 \<or> mmio_read DEVICE_ID s \<noteq> 2 \<or>
         mmio_read VENDOR_ID s \<noteq> 0x554d4551 then Panic ''could not find virtio disk''
      else
        let s = mmio_write STATUS 0 s;
            s = mmio_write STATUS 1 s;
            s = mmio_write STATUS (1 OR 2) s;
            s = mmio_write DRIVER_FEATURES (mmio_read DEVICE_FEATURES s AND NOT refused_features) s;
            s = mmio_write STATUS (1 OR 2 OR 8) s;
            status = mmio_read STATUS s
        in if status AND 8 = 0 then Panic ''virtio disk FEATURES_OK unset'' else Done status s)"

definition virtio_disk_init :: "'a vio_state_scheme \<Rightarrow> (unit, 'a vio_state_scheme) outcome" where
  "virtio_disk_init s =
     obind (virtio_negotiate s) (\<lambda>status s.
     let s = mmio_write QUEUE_SEL 0 s in
     if mmio_read QUEUE_READY s \<noteq> 0 then Panic ''virtio disk should not be ready''
     else
       let mx = mmio_read QUEUE_NUM_MAX s in
       if mx = 0 then Panic ''virtio disk has no queue 0''
       else if mx < of_nat NUM then Panic ''virtio disk max queue too short''
       else (case kalloc s of (desc, s) \<Rightarrow> (case kalloc s of (avail, s) \<Rightarrow> (case kalloc s of (used, s) \<Rightarrow>
         if desc = 0 \<or> avail = 0 \<or> used = 0 then Panic ''virtio disk kalloc''
         else
           let s = memset_page used 0 (memset_page avail 0 (memset_page desc 0 s));
               s = s\<lparr>vq_pages := [desc, avail, used], vq_desc := replicate NUM null_desc, avail_idx := 0,
                     avail_ring := replicate NUM 0, used_idx := 0, used_ring := replicate NUM 0\<rparr>;
               s = mmio_write QUEUE_NUM (of_nat NUM) s;
               s = mmio_write QUEUE_DESC_LOW (ucast desc) s;
               s = mmio_write QUEUE_DESC_HIGH (ucast (drop_bit 32 desc)) s;
               s = mmio_write DRIVER_DESC_LOW (ucast avail) s;
               s = mmio_write DRIVER_DESC_HIGH (ucast (drop_bit 32 avail)) s;
               s = mmio_write DEVICE_DESC_LOW (ucast used) s;
               s = mmio_write DEVICE_DESC_HIGH (ucast (drop_bit 32 used)) s;
               s = mmio_write QUEUE_READY 1 s;
               s = s\<lparr>vd_free := replicate NUM 1\<rparr>
           in Done () (mmio_write STATUS (status OR 4) s)))))"

section \<open>Descriptors\<close>

definition alloc_desc :: "'a vio_state_scheme \<Rightarrow> nat option \<times> 'a vio_state_scheme" where
  "alloc_desc s =
     (case List.find (\<lambda>i. vd_free s ! i \<noteq> 0) [0..<NUM] of
        Some i \<Rightarrow> (Some i, s\<lparr>vd_free := (vd_free s)[i := 0]\<rparr>)
      | None \<Rightarrow> (None, s))"

definition free_desc :: "nat \<Rightarrow> 'a vio_state_scheme \<Rightarrow> (unit, 'a vio_state_scheme) outcome" where
  "free_desc i s =
     (if i \<ge> NUM then Panic ''free_desc 1''
      else if vd_free s ! i \<noteq> 0 then Panic ''free_desc 2''
      else
        let s = set_desc i (\<lambda>_. null_desc) s; s = s\<lparr>vd_free := (vd_free s)[i := 1]\<rparr>
        in Done () (wakeup ChDiskFree s))"

text \<open>
  \<^verbatim>\<open>free_chain\<close> ends on a cyclic chain too, since freeing a descriptor twice panics: \<open>n\<close> bounds the number
  of descriptors in use.
\<close>

fun free_chain_loop :: "nat \<Rightarrow> nat \<Rightarrow> 'a vio_state_scheme \<Rightarrow> (unit, 'a vio_state_scheme) outcome" where
  "free_chain_loop 0 i s = free_desc i s"
| "free_chain_loop (Suc n) i s =
     (let flag = d_flags (vq_desc s ! i); nxt = d_next (vq_desc s ! i) in
      obind (free_desc i s) (\<lambda>_ s.
      if flag AND VRING_DESC_F_NEXT \<noteq> 0 then free_chain_loop n (unat nxt) s else Done () s))"

definition free_chain :: "nat \<Rightarrow> 'a vio_state_scheme \<Rightarrow> (unit, 'a vio_state_scheme) outcome" where
  "free_chain i s = free_chain_loop NUM i s"

definition alloc3_desc :: "'a vio_state_scheme \<Rightarrow> ((nat \<times> nat \<times> nat) option, 'a vio_state_scheme) outcome" where
  "alloc3_desc s =
     (case alloc_desc s of
        (None, s) \<Rightarrow> Done None s
      | (Some i0, s) \<Rightarrow>
          (case alloc_desc s of
             (None, s) \<Rightarrow> obind (free_desc i0 s) (\<lambda>_ s. Done None s)
           | (Some i1, s) \<Rightarrow>
               (case alloc_desc s of
                  (None, s) \<Rightarrow> obind (free_desc i0 s) (\<lambda>_ s. obind (free_desc i1 s) (\<lambda>_ s. Done None s))
                | (Some i2, s) \<Rightarrow> Done (Some (i0, i1, i2)) s)))"

section \<open>Requests\<close>

text \<open>\<^verbatim>\<open>virtio_disk_rw\<close> up to the wait for the device; the result is \<^verbatim>\<open>idx[0]\<close>.\<close>

definition virtio_submit :: "nat \<Rightarrow> bool \<Rightarrow> 'a vio_state_scheme \<Rightarrow> (nat, 'a vio_state_scheme) outcome" where
  "virtio_submit b write s =
     (let sector = ucast (b_blockno (buf_at s b) * of_nat (BSIZE div 512)) in
      obind (alloc3_desc s) (\<lambda>idx s.
      case idx of
        None \<Rightarrow> sleep ChDiskFree s
      | Some (i0, i1, i2) \<Rightarrow>
          let s = s\<lparr>vd_ops := (vd_ops s)[i0 := \<lparr>rq_type = (if write then VIRTIO_BLK_T_OUT else VIRTIO_BLK_T_IN),
                       rq_reserved = 0, rq_sector = sector\<rparr>]\<rparr>;
              s = set_desc i0 (\<lambda>_. \<lparr>d_addr = Ops i0, d_len = 16, d_flags = VRING_DESC_F_NEXT, d_next = of_nat i1\<rparr>) s;
              s = set_desc i1 (\<lambda>_. \<lparr>d_addr = Data b, d_len = of_nat BSIZE,
                    d_flags = (if write then 0 else VRING_DESC_F_WRITE) OR VRING_DESC_F_NEXT, d_next = of_nat i2\<rparr>) s;
              s = set_info i0 (in_status_update (\<lambda>_. 0xff)) s;
              s = set_desc i2 (\<lambda>_. \<lparr>d_addr = Status i0, d_len = 1, d_flags = VRING_DESC_F_WRITE, d_next = 0\<rparr>) s;
              s = s\<lparr>buf_disk := (buf_disk s)(b := 1)\<rparr>;
              s = set_info i0 (in_b_update (\<lambda>_. Some b)) s;
              s = s\<lparr>avail_ring := (avail_ring s)[unat (avail_idx s) mod NUM := of_nat i0]\<rparr>;
              s = s\<lparr>avail_idx := avail_idx s + 1\<rparr>
          in Done i0 (mmio_write QUEUE_NOTIFY 0 s)))"

text \<open>\<^verbatim>\<open>virtio_disk_rw\<close> from the test of \<^verbatim>\<open>b->disk\<close> on.\<close>

definition virtio_finish :: "nat \<Rightarrow> nat \<Rightarrow> 'a vio_state_scheme \<Rightarrow> (unit, 'a vio_state_scheme) outcome" where
  "virtio_finish b i0 s =
     (if buf_disk s b = 1 then sleep (ChBuf b) s
      else free_chain i0 (set_info i0 (in_b_update (\<lambda>_. None)) s))"

text \<open>
  The loop of \<^verbatim>\<open>virtio_disk_intr\<close> over the new entries of the used ring, \<open>n\<close> of them: the indices are 16 bits
  wide and count modulo \<open>2\<^sup>1\<^sup>6\<close>.
\<close>

fun virtio_intr_loop :: "nat \<Rightarrow> 'a vio_state_scheme \<Rightarrow> (unit, 'a vio_state_scheme) outcome" where
  "virtio_intr_loop 0 s = Done () s"
| "virtio_intr_loop (Suc n) s =
     (let id = unat (used_ring s ! (unat (vd_used_idx s) mod NUM)) in
      if in_status (vd_info s ! id) \<noteq> 0 then Panic ''virtio_disk_intr status''
      else
        deref (in_b (vd_info s ! id)) (\<lambda>b.
        let s = wakeup (ChBuf b) (s\<lparr>buf_disk := (buf_disk s)(b := 0)\<rparr>)
        in virtio_intr_loop n (s\<lparr>vd_used_idx := vd_used_idx s + 1\<rparr>)))"

definition virtio_disk_intr :: "'a vio_state_scheme \<Rightarrow> (unit, 'a vio_state_scheme) outcome" where
  "virtio_disk_intr s =
     (let s = mmio_write INTERRUPT_ACK (mmio_read INTERRUPT_STATUS s AND 3) s
      in virtio_intr_loop (unat (used_idx s - vd_used_idx s)) s)"

end
