(* ===== verification/Sysarg.thy ===== *)
theory Sysarg
  imports Virtio
begin

text \<open>
  The arguments of system calls, \<^verbatim>\<open>kernel/syscall.c\<close>: registers saved in the trap frame of the current
  process, and words and strings in its memory. A trap frame is a page of \<^verbatim>\<open>uint64\<close> fields; \<^verbatim>\<open>a0\<close> is its
  field 14.
\<close>

abbreviation (input) MAXPATH :: nat where "MAXPATH \<equiv> 128"
abbreviation (input) MAXARG :: nat where "MAXARG \<equiv> 32"

abbreviation (input) TF_kernel_satp :: nat where "TF_kernel_satp \<equiv> 0"
abbreviation (input) TF_kernel_sp :: nat where "TF_kernel_sp \<equiv> 1"
abbreviation (input) TF_kernel_trap :: nat where "TF_kernel_trap \<equiv> 2"
abbreviation (input) TF_epc :: nat where "TF_epc \<equiv> 3"
abbreviation (input) TF_kernel_hartid :: nat where "TF_kernel_hartid \<equiv> 4"
abbreviation (input) TF_sp :: nat where "TF_sp \<equiv> 6"
abbreviation (input) TF_a0 :: nat where "TF_a0 \<equiv> 14"
abbreviation (input) TF_a1 :: nat where "TF_a1 \<equiv> 15"
abbreviation (input) TF_a7 :: nat where "TF_a7 \<equiv> 21"

definition tf_get :: "nat \<Rightarrow> nat \<Rightarrow> 'a proc_state_scheme \<Rightarrow> u64" where
  "tf_get p k s = ld64 (mem s (p_trapframe (proc_at s p))) k"

definition tf_set :: "nat \<Rightarrow> nat \<Rightarrow> u64 \<Rightarrow> 'a proc_state_scheme \<Rightarrow> 'a proc_state_scheme" where
  "tf_set p k v s = (let tf = p_trapframe (proc_at s p) in s\<lparr>mem := (mem s)(tf := st64 (mem s tf) k v)\<rparr>)"

text \<open>A C \<^verbatim>\<open>int\<close> returned as \<^verbatim>\<open>uint64\<close>.\<close>

abbreviation ret :: "int \<Rightarrow> 's \<Rightarrow> (u64, 's) outcome" where
  "ret r s \<equiv> Done (word_of_int r) s"

text \<open>\<^verbatim>\<open>fetchaddr\<close> returns 0 and the word, or -1 (\<^const>\<open>None\<close>).\<close>

definition fetchaddr :: "u64 \<Rightarrow> 'a proc_state_scheme \<Rightarrow> (u64 option, 'a proc_state_scheme) outcome" where
  "fetchaddr addr s =
     (let p = proc_at s (cur s) in
      if addr \<ge> p_sz p \<or> addr + 8 > p_sz p then Done None s
      else obind (copyin (p_pagetable p) addr 8 s) (\<lambda>(r, bs) s.
        if r \<noteq> 0 then Done None s else Done (Some (ld64 (\<lambda>i. bs ! i) 0)) s))"

text \<open>\<^verbatim>\<open>fetchstr\<close> and \<^verbatim>\<open>argstr\<close>: the return value and the bytes stored in \<^verbatim>\<open>buf\<close> before the NUL.\<close>

definition fetchstr :: "u64 \<Rightarrow> nat \<Rightarrow> 'a proc_state_scheme \<Rightarrow> (int \<times> u8 list, 'a proc_state_scheme) outcome" where
  "fetchstr addr mx s =
     obind (copyinstr (p_pagetable (proc_at s (cur s))) addr mx s) (\<lambda>(r, bs) s.
     Done (if r < 0 then -1 else int (length bs), bs) s)"

definition argraw :: "nat \<Rightarrow> 'a proc_state_scheme \<Rightarrow> (u64, 'a proc_state_scheme) outcome" where
  "argraw n s = (if n \<le> 5 then Done (tf_get (cur s) (TF_a0 + n) s) s else Panic ''argraw'')"

definition argint :: "nat \<Rightarrow> 'a proc_state_scheme \<Rightarrow> (int, 'a proc_state_scheme) outcome" where
  "argint n s = obind (argraw n s) (\<lambda>x s. Done (sint (ucast x :: u32)) s)"

definition argaddr :: "nat \<Rightarrow> 'a proc_state_scheme \<Rightarrow> (u64, 'a proc_state_scheme) outcome" where
  "argaddr n s = argraw n s"

definition argstr :: "nat \<Rightarrow> nat \<Rightarrow> 'a proc_state_scheme \<Rightarrow> (int \<times> u8 list, 'a proc_state_scheme) outcome" where
  "argstr n mx s = obind (argaddr n s) (\<lambda>addr s. fetchstr addr mx s)"

end
