(* ===== verification/Sysfile.thy ===== *)
theory Sysfile
  imports Sysarg
begin

text \<open>
  \<^verbatim>\<open>kernel/sysfile.c\<close>: the system calls on files, apart from \<^verbatim>\<open>sys_exec\<close>, which is in \<^verbatim>\<open>Exec\<close>. The
  local arrays \<^verbatim>\<open>name\<close> start out as zeroes here; what C leaves in them lies behind the NUL that
  \<^verbatim>\<open>skipelem\<close> writes and is never read.
\<close>

section \<open>Descriptors\<close>

text \<open>\<^verbatim>\<open>argfd\<close>: the descriptor and the file, or \<^const>\<open>None\<close> when it returns -1.\<close>

definition argfd :: "nat \<Rightarrow> 'a proc_state_scheme \<Rightarrow> ((nat \<times> nat) option, 'a proc_state_scheme) outcome" where
  "argfd n s =
     obind (argint n s) (\<lambda>fd s.
     if fd < 0 \<or> fd \<ge> int NOFILE then Done None s
     else case p_ofile (proc_at s (cur s)) ! nat fd of
       None \<Rightarrow> Done None s
     | Some f \<Rightarrow> Done (Some (nat fd, f)) s)"

definition set_ofile :: "nat \<Rightarrow> nat option \<Rightarrow> 'a proc_state_scheme \<Rightarrow> 'a proc_state_scheme" where
  "set_ofile fd f s = set_proc (cur s) (\<lambda>p. p\<lparr>p_ofile := (p_ofile p)[fd := f]\<rparr>) s"

definition fdalloc :: "nat \<Rightarrow> 'a proc_state_scheme \<Rightarrow> nat option \<times> 'a proc_state_scheme" where
  "fdalloc f s =
     (case List.find (\<lambda>fd. p_ofile (proc_at s (cur s)) ! fd = None) [0..<NOFILE] of
        Some fd \<Rightarrow> (Some fd, set_ofile fd (Some f) s)
      | None \<Rightarrow> (None, s))"

definition sys_dup :: "'a file_state_scheme \<Rightarrow> (u64, 'a file_state_scheme) outcome" where
  "sys_dup s =
     obind (argfd 0 s) (\<lambda>a s.
     case a of
       None \<Rightarrow> ret (-1) s
     | Some (_, f) \<Rightarrow>
         (case fdalloc f s of
            (None, s) \<Rightarrow> ret (-1) s
          | (Some fd, s) \<Rightarrow> obind (filedup f s) (\<lambda>_ s. ret (int fd) s)))"

definition sys_read :: "'a file_state_scheme \<Rightarrow> (u64, 'a file_state_scheme) outcome" where
  "sys_read s =
     obind (argaddr 1 s) (\<lambda>p s.
     obind (argint 2 s) (\<lambda>n s.
     obind (argfd 0 s) (\<lambda>a s.
     case a of
       None \<Rightarrow> ret (-1) s
     | Some (_, f) \<Rightarrow> obind (fileread f p n s) (\<lambda>r s. ret r s))))"

definition sys_write :: "'a file_state_scheme \<Rightarrow> (u64, 'a file_state_scheme) outcome" where
  "sys_write s =
     obind (argaddr 1 s) (\<lambda>p s.
     obind (argint 2 s) (\<lambda>n s.
     obind (argfd 0 s) (\<lambda>a s.
     case a of
       None \<Rightarrow> ret (-1) s
     | Some (_, f) \<Rightarrow> obind (filewrite f p n s) (\<lambda>r s. ret r s))))"

definition sys_close :: "'a file_state_scheme \<Rightarrow> (u64, 'a file_state_scheme) outcome" where
  "sys_close s =
     obind (argfd 0 s) (\<lambda>a s.
     case a of
       None \<Rightarrow> ret (-1) s
     | Some (fd, f) \<Rightarrow> obind (fileclose f (set_ofile fd None s)) (\<lambda>_ s. ret 0 s))"

definition sys_fstat :: "u8 list \<Rightarrow> 'a file_state_scheme \<Rightarrow> (u64, 'a file_state_scheme) outcome" where
  "sys_fstat pad s =
     obind (argaddr 1 s) (\<lambda>st s.
     obind (argfd 0 s) (\<lambda>a s.
     case a of
       None \<Rightarrow> ret (-1) s
     | Some (_, f) \<Rightarrow> obind (filestat pad f st s) (\<lambda>r s. ret r s)))"

section \<open>Links\<close>

text \<open>The label \<^verbatim>\<open>bad\<close> of \<^verbatim>\<open>sys_link\<close>.\<close>

definition link_bad :: "nat \<Rightarrow> 'a file_state_scheme \<Rightarrow> (u64, 'a file_state_scheme) outcome" where
  "link_bad ip s =
     obind (ilock ip s) (\<lambda>_ s.
     obind (iupdate ip (set_inode ip (i_nlink_update (\<lambda>n. n - 1)) s)) (\<lambda>_ s.
     obind (iunlockput ip s) (\<lambda>_ s.
     obind (end_op s) (\<lambda>_ s. ret (-1) s))))"

definition sys_link :: "'a file_state_scheme \<Rightarrow> (u64, 'a file_state_scheme) outcome" where
  "sys_link s =
     obind (argstr 0 MAXPATH s) (\<lambda>(r, old) s. if r < 0 then ret (-1) s else
     obind (argstr 1 MAXPATH s) (\<lambda>(r, new) s. if r < 0 then ret (-1) s else
     obind (begin_op s) (\<lambda>_ s.
     obind (namei old s) (\<lambda>ip s.
     case ip of
       None \<Rightarrow> obind (end_op s) (\<lambda>_ s. ret (-1) s)
     | Some ip \<Rightarrow>
         obind (ilock ip s) (\<lambda>_ s.
         if i_type (inode_at s ip) = T_DIR then
           obind (iunlockput ip s) (\<lambda>_ s. obind (end_op s) (\<lambda>_ s. ret (-1) s))
         else
           obind (iupdate ip (set_inode ip (i_nlink_update (\<lambda>n. n + 1)) s)) (\<lambda>_ s.
           obind (iunlock ip s) (\<lambda>_ s.
           obind (nameiparent new (\<lambda>_. 0) s) (\<lambda>(dp, name) s.
           case dp of
             None \<Rightarrow> link_bad ip s
           | Some dp \<Rightarrow>
               obind (ilock dp s) (\<lambda>_ s.
               obind (if i_dev (inode_at s dp) \<noteq> i_dev (inode_at s ip) then Done (-1) s
                      else dirlink dp name (i_inum (inode_at s ip)) s) (\<lambda>r s.
               if r < 0 then obind (iunlockput dp s) (\<lambda>_ s. link_bad ip s)
               else
                 obind (iunlockput dp s) (\<lambda>_ s.
                 obind (iput ip s) (\<lambda>_ s.
                 obind (end_op s) (\<lambda>_ s. ret 0 s)))))))))))))"

text \<open>The loop of \<^verbatim>\<open>isdirempty\<close>; \<open>sz\<close> is \<^verbatim>\<open>dp->size\<close>.\<close>

function isdirempty_loop :: "nat \<Rightarrow> nat \<Rightarrow> nat \<Rightarrow> 'a fs_state_scheme \<Rightarrow> (bool, 'a fs_state_scheme) outcome" where
  "isdirempty_loop dp sz off s =
     (if off < sz then
        obind (readi dp Var (of_nat off) 16 s) (\<lambda>(r, de) s.
        if r \<noteq> 16 then Panic ''isdirempty: readi''
        else if de_inum de \<noteq> 0 then Done False s
        else isdirempty_loop dp sz (off + 16) s)
      else Done True s)"
  by pat_completeness auto
termination
  by (relation "measure (\<lambda>(dp, sz, off, s). sz - off)") auto

declare isdirempty_loop.simps [simp del]

definition isdirempty :: "nat \<Rightarrow> 'a fs_state_scheme \<Rightarrow> (bool, 'a fs_state_scheme) outcome" where
  "isdirempty dp s = isdirempty_loop dp (unat (i_size (inode_at s dp))) (2 * 16) s"

text \<open>The names \<^verbatim>\<open>"."\<close> and \<^verbatim>\<open>".."\<close>.\<close>

definition cstr :: "u8 list \<Rightarrow> name" where
  "cstr bs = (\<lambda>i. if i < length bs then bs ! i else 0)"

abbreviation dot :: name where "dot \<equiv> cstr [46]"
abbreviation dotdot :: name where "dotdot \<equiv> cstr [46, 46]"

text \<open>The label \<^verbatim>\<open>bad\<close> of \<^verbatim>\<open>sys_unlink\<close>, and the part after its checks.\<close>

definition unlink_bad :: "nat \<Rightarrow> 'a file_state_scheme \<Rightarrow> (u64, 'a file_state_scheme) outcome" where
  "unlink_bad dp s = obind (iunlockput dp s) (\<lambda>_ s. obind (end_op s) (\<lambda>_ s. ret (-1) s))"

definition unlink_entry :: "nat \<Rightarrow> nat \<Rightarrow> nat \<Rightarrow> 'a file_state_scheme \<Rightarrow> (u64, 'a file_state_scheme) outcome" where
  "unlink_entry dp ip off s =
     obind (writei dp Var (replicate 16 0) (of_nat off) 16 s) (\<lambda>r s.
     if r \<noteq> 16 then Panic ''unlink: writei''
     else
       obind (if i_type (inode_at s ip) = T_DIR then iupdate dp (set_inode dp (i_nlink_update (\<lambda>n. n - 1)) s) else Done () s) (\<lambda>_ s.
       obind (iunlockput dp s) (\<lambda>_ s.
       obind (iupdate ip (set_inode ip (i_nlink_update (\<lambda>n. n - 1)) s)) (\<lambda>_ s.
       obind (iunlockput ip s) (\<lambda>_ s.
       obind (end_op s) (\<lambda>_ s. ret 0 s))))))"

definition sys_unlink :: "'a file_state_scheme \<Rightarrow> (u64, 'a file_state_scheme) outcome" where
  "sys_unlink s =
     obind (argstr 0 MAXPATH s) (\<lambda>(r, path) s. if r < 0 then ret (-1) s else
     obind (begin_op s) (\<lambda>_ s.
     obind (nameiparent path (\<lambda>_. 0) s) (\<lambda>(dp, name) s.
     case dp of
       None \<Rightarrow> obind (end_op s) (\<lambda>_ s. ret (-1) s)
     | Some dp \<Rightarrow>
         obind (ilock dp s) (\<lambda>_ s.
         if namecmp name dot = 0 \<or> namecmp name dotdot = 0 then unlink_bad dp s
         else
           obind (dirlookup dp name s) (\<lambda>found s.
           case found of
             None \<Rightarrow> unlink_bad dp s
           | Some (ip, off) \<Rightarrow>
               obind (ilock ip s) (\<lambda>_ s.
               if sint (i_nlink (inode_at s ip)) < 1 then Panic ''unlink: nlink < 1''
               else
                 obind (if i_type (inode_at s ip) = T_DIR then isdirempty ip s else Done True s) (\<lambda>empty s.
                 if \<not> empty then obind (iunlockput ip s) (\<lambda>_ s. unlink_bad dp s)
                 else unlink_entry dp ip off s)))))))"

section \<open>Creating and opening\<close>

text \<open>The label \<^verbatim>\<open>fail\<close> of \<^verbatim>\<open>create\<close>, and its part after \<^verbatim>\<open>ialloc\<close> has succeeded.\<close>

definition create_fail :: "nat \<Rightarrow> nat \<Rightarrow> 'a file_state_scheme \<Rightarrow> (nat option, 'a file_state_scheme) outcome" where
  "create_fail dp ip s =
     obind (iupdate ip (set_inode ip (i_nlink_update (\<lambda>_. 0)) s)) (\<lambda>_ s.
     obind (iunlockput ip s) (\<lambda>_ s.
     obind (iunlockput dp s) (\<lambda>_ s. Done None s)))"

definition create_new :: "nat \<Rightarrow> name \<Rightarrow> nat \<Rightarrow> u16 \<Rightarrow> u16 \<Rightarrow> u16 \<Rightarrow> 'a file_state_scheme \<Rightarrow> (nat option, 'a file_state_scheme) outcome" where
  "create_new dp name ip type major minor s =
     obind (ilock ip s) (\<lambda>_ s.
     obind (iupdate ip (set_inode ip (\<lambda>i. i\<lparr>i_major := major, i_minor := minor, i_nlink := 1\<rparr>) s)) (\<lambda>_ s.
     obind (if type = T_DIR then
              obind (dirlink ip dot (i_inum (inode_at s ip)) s) (\<lambda>r s.
              if r < 0 then Done r s else dirlink ip dotdot (i_inum (inode_at s dp)) s)
            else Done 0 s) (\<lambda>r s.
     if r < 0 then create_fail dp ip s
     else
       obind (dirlink dp name (i_inum (inode_at s ip)) s) (\<lambda>r s.
       if r < 0 then create_fail dp ip s
       else
         obind (if type = T_DIR then iupdate dp (set_inode dp (i_nlink_update (\<lambda>n. n + 1)) s) else Done () s) (\<lambda>_ s.
         obind (iunlockput dp s) (\<lambda>_ s. Done (Some ip) s))))))"

definition create :: "u8 list \<Rightarrow> u16 \<Rightarrow> u16 \<Rightarrow> u16 \<Rightarrow> 'a file_state_scheme \<Rightarrow> (nat option, 'a file_state_scheme) outcome" where
  "create path type major minor s =
     obind (nameiparent path (\<lambda>_. 0) s) (\<lambda>(dp, name) s.
     case dp of
       None \<Rightarrow> Done None s
     | Some dp \<Rightarrow>
         obind (ilock dp s) (\<lambda>_ s.
         obind (dirlookup dp name s) (\<lambda>found s.
         case found of
           Some (ip, _) \<Rightarrow>
             obind (iunlockput dp s) (\<lambda>_ s.
             obind (ilock ip s) (\<lambda>_ s.
             if type = T_FILE \<and> (i_type (inode_at s ip) = T_FILE \<or> i_type (inode_at s ip) = T_DEVICE) then Done (Some ip) s
             else obind (iunlockput ip s) (\<lambda>_ s. Done None s)))
         | None \<Rightarrow>
             obind (ialloc (i_dev (inode_at s dp)) type s) (\<lambda>ip s.
             case ip of
               None \<Rightarrow> obind (iunlockput dp s) (\<lambda>_ s. Done None s)
             | Some ip \<Rightarrow> create_new dp name ip type major minor s))))"

abbreviation O_RDONLY :: u32 where "O_RDONLY \<equiv> 0"
abbreviation O_WRONLY :: u32 where "O_WRONLY \<equiv> 1"
abbreviation O_RDWR :: u32 where "O_RDWR \<equiv> 2"
abbreviation O_CREATE :: u32 where "O_CREATE \<equiv> 0x200"
abbreviation O_TRUNC :: u32 where "O_TRUNC \<equiv> 0x400"

text \<open>
  \<^verbatim>\<open>sys_open\<close>: finding the inode, which is locked when there is one; failing with the inode locked;
  and the part that makes the open file.
\<close>

definition open_inode :: "u8 list \<Rightarrow> u32 \<Rightarrow> 'a file_state_scheme \<Rightarrow> (nat option, 'a file_state_scheme) outcome" where
  "open_inode path omode s =
     (if omode AND O_CREATE \<noteq> 0 then
        obind (create path T_FILE 0 0 s) (\<lambda>ip s.
        case ip of
          None \<Rightarrow> obind (end_op s) (\<lambda>_ s. Done None s)
        | Some ip \<Rightarrow> Done (Some ip) s)
      else
        obind (namei path s) (\<lambda>ip s.
        case ip of
          None \<Rightarrow> obind (end_op s) (\<lambda>_ s. Done None s)
        | Some ip \<Rightarrow>
            obind (ilock ip s) (\<lambda>_ s.
            if i_type (inode_at s ip) = T_DIR \<and> omode \<noteq> O_RDONLY then
              obind (iunlockput ip s) (\<lambda>_ s. obind (end_op s) (\<lambda>_ s. Done None s))
            else Done (Some ip) s)))"

definition open_fail :: "nat \<Rightarrow> 'a file_state_scheme \<Rightarrow> (u64, 'a file_state_scheme) outcome" where
  "open_fail ip s = obind (iunlockput ip s) (\<lambda>_ s. obind (end_op s) (\<lambda>_ s. ret (-1) s))"

definition open_file :: "nat \<Rightarrow> nat \<Rightarrow> nat \<Rightarrow> u32 \<Rightarrow> 'a file_state_scheme \<Rightarrow> (u64, 'a file_state_scheme) outcome" where
  "open_file ip f fd omode s =
     (let i = inode_at s ip;
          s = (if i_type i = T_DEVICE then set_file f (\<lambda>g. g\<lparr>f_type := FD_DEVICE, f_major := i_major i\<rparr>) s
               else set_file f (\<lambda>g. g\<lparr>f_type := FD_INODE, f_off := 0\<rparr>) s);
          s = set_file f (\<lambda>g. g\<lparr>f_ip := Some ip,
                f_readable := (if omode AND O_WRONLY = 0 then 1 else 0),
                f_writable := (if omode AND O_WRONLY \<noteq> 0 \<or> omode AND O_RDWR \<noteq> 0 then 1 else 0)\<rparr>) s
      in obind (if omode AND O_TRUNC \<noteq> 0 \<and> i_type i = T_FILE then itrunc ip s else Done () s) (\<lambda>_ s.
         obind (iunlock ip s) (\<lambda>_ s.
         obind (end_op s) (\<lambda>_ s. ret (int fd) s))))"

definition sys_open :: "'a file_state_scheme \<Rightarrow> (u64, 'a file_state_scheme) outcome" where
  "sys_open s =
     obind (argint 1 s) (\<lambda>om s.
     let omode = word_of_int om in
     obind (argstr 0 MAXPATH s) (\<lambda>(n, path) s. if n < 0 then ret (-1) s else
     obind (begin_op s) (\<lambda>_ s.
     obind (open_inode path omode s) (\<lambda>ip s.
     case ip of
       None \<Rightarrow> ret (-1) s
     | Some ip \<Rightarrow>
         let i = inode_at s ip in
         if i_type i = T_DEVICE \<and> (sint (i_major i) < 0 \<or> sint (i_major i) \<ge> int NDEV) then open_fail ip s
         else case filealloc s of
           (None, s) \<Rightarrow> open_fail ip s
         | (Some f, s) \<Rightarrow>
             (case fdalloc f s of
                (None, s) \<Rightarrow> obind (fileclose f s) (\<lambda>_ s. open_fail ip s)
              | (Some fd, s) \<Rightarrow> open_file ip f fd omode s)))))"

definition sys_mkdir :: "'a file_state_scheme \<Rightarrow> (u64, 'a file_state_scheme) outcome" where
  "sys_mkdir s =
     obind (begin_op s) (\<lambda>_ s.
     obind (argstr 0 MAXPATH s) (\<lambda>(r, path) s.
     obind (if r < 0 then Done None s else create path T_DIR 0 0 s) (\<lambda>ip s.
     case ip of
       None \<Rightarrow> obind (end_op s) (\<lambda>_ s. ret (-1) s)
     | Some ip \<Rightarrow> obind (iunlockput ip s) (\<lambda>_ s. obind (end_op s) (\<lambda>_ s. ret 0 s)))))"

definition sys_mknod :: "'a file_state_scheme \<Rightarrow> (u64, 'a file_state_scheme) outcome" where
  "sys_mknod s =
     obind (begin_op s) (\<lambda>_ s.
     obind (argint 1 s) (\<lambda>major s.
     obind (argint 2 s) (\<lambda>minor s.
     obind (argstr 0 MAXPATH s) (\<lambda>(r, path) s.
     obind (if r < 0 then Done None s else create path T_DEVICE (word_of_int major) (word_of_int minor) s) (\<lambda>ip s.
     case ip of
       None \<Rightarrow> obind (end_op s) (\<lambda>_ s. ret (-1) s)
     | Some ip \<Rightarrow> obind (iunlockput ip s) (\<lambda>_ s. obind (end_op s) (\<lambda>_ s. ret 0 s)))))))"

definition sys_chdir :: "'a file_state_scheme \<Rightarrow> (u64, 'a file_state_scheme) outcome" where
  "sys_chdir s =
     obind (begin_op s) (\<lambda>_ s.
     obind (argstr 0 MAXPATH s) (\<lambda>(r, path) s.
     obind (if r < 0 then Done None s else namei path s) (\<lambda>ip s.
     case ip of
       None \<Rightarrow> obind (end_op s) (\<lambda>_ s. ret (-1) s)
     | Some ip \<Rightarrow>
         obind (ilock ip s) (\<lambda>_ s.
         if i_type (inode_at s ip) \<noteq> T_DIR then
           obind (iunlockput ip s) (\<lambda>_ s. obind (end_op s) (\<lambda>_ s. ret (-1) s))
         else
           obind (iunlock ip s) (\<lambda>_ s.
           obind (deref (p_cwd (proc_at s (cur s))) (\<lambda>cwd. iput cwd s)) (\<lambda>_ s.
           obind (end_op s) (\<lambda>_ s.
           ret 0 (set_proc (cur s) (p_cwd_update (\<lambda>_. Some ip)) s))))))))"

text \<open>\<^verbatim>\<open>sys_pipe\<close> gives up: the files are closed.\<close>

definition close_both :: "nat \<Rightarrow> nat \<Rightarrow> 'a file_state_scheme \<Rightarrow> (u64, 'a file_state_scheme) outcome" where
  "close_both rd wr s = obind (fileclose rd s) (\<lambda>_ s. obind (fileclose wr s) (\<lambda>_ s. ret (-1) s))"

definition sys_pipe :: "'a file_state_scheme \<Rightarrow> (u64, 'a file_state_scheme) outcome" where
  "sys_pipe s =
     obind (argaddr 0 s) (\<lambda>fdarray s.
     obind (pipealloc s) (\<lambda>fs s.
     case fs of
       None \<Rightarrow> ret (-1) s
     | Some (rd, wr) \<Rightarrow>
         (case fdalloc rd s of
            (None, s) \<Rightarrow> close_both rd wr s
          | (Some fd0, s) \<Rightarrow>
              (case fdalloc wr s of
                 (None, s) \<Rightarrow> close_both rd wr (set_ofile fd0 None s)
               | (Some fd1, s) \<Rightarrow>
                   let pt = p_pagetable (proc_at s (cur s)) in
                   obind (copyout pt fdarray (le_bytes 4 (of_nat fd0 :: u32)) s) (\<lambda>r s.
                   obind (if r < 0 then Done r s else copyout pt (fdarray + 4) (le_bytes 4 (of_nat fd1 :: u32)) s) (\<lambda>r s.
                   if r < 0 then close_both rd wr (set_ofile fd1 None (set_ofile fd0 None s))
                   else ret 0 s))))))"

end
