(* ===== verification/Exec.thy ===== *)
theory Exec
  imports Sysfile
begin

text \<open>
  \<^verbatim>\<open>kernel/exec.c\<close> and \<^verbatim>\<open>sys_exec\<close>: replacing the program of the current process. The argument vector
  is the list of its strings. The headers of the executable are read field by field from the bytes
  that \<^verbatim>\<open>readi\<close> has copied to the local variables \<^verbatim>\<open>elf\<close> and \<^verbatim>\<open>ph\<close>.
\<close>

section \<open>Headers\<close>

abbreviation ELF_MAGIC :: u32 where "ELF_MAGIC \<equiv> 0x464C457F"
abbreviation ELF_PROG_LOAD :: u32 where "ELF_PROG_LOAD \<equiv> 1"
abbreviation USERSTACK :: u64 where "USERSTACK \<equiv> 1"

record elfhdr =
  e_magic :: u32
  e_entry :: u64
  e_phoff :: u64
  e_phnum :: u16

record proghdr =
  ph_type :: u32
  ph_flags :: u32
  ph_off :: u64
  ph_vaddr :: u64
  ph_filesz :: u64
  ph_memsz :: u64

definition get_elfhdr :: "u8 list \<Rightarrow> elfhdr" where
  "get_elfhdr bs = (let b = (\<lambda>i. bs ! i) in
     \<lparr>e_magic = ld32 b 0, e_entry = ld64 b 3, e_phoff = ld64 b 4, e_phnum = ld16 b 28\<rparr>)"

definition get_proghdr :: "u8 list \<Rightarrow> proghdr" where
  "get_proghdr bs = (let b = (\<lambda>i. bs ! i) in
     \<lparr>ph_type = ld32 b 0, ph_flags = ld32 b 1, ph_off = ld64 b 1, ph_vaddr = ld64 b 2,
      ph_filesz = ld64 b 4, ph_memsz = ld64 b 5\<rparr>)"

definition flags2perm :: "u32 \<Rightarrow> u64" where
  "flags2perm flags = (if flags AND 1 \<noteq> 0 then PTE_X else 0) OR (if flags AND 2 \<noteq> 0 then PTE_W else 0)"

section \<open>Loading\<close>

text \<open>
  \<^verbatim>\<open>loadseg\<close> from the offset \<open>i\<close> on. The 32-bit counter cannot wrap: the pages of the segment have been
  allocated before, from less than 4 GB of memory.
\<close>

function loadseg_loop :: "u64 \<Rightarrow> u64 \<Rightarrow> nat \<Rightarrow> u32 \<Rightarrow> nat \<Rightarrow> nat \<Rightarrow> 'a fs_state_scheme \<Rightarrow> (int, 'a fs_state_scheme) outcome" where
  "loadseg_loop pagetable va ip offset sz i s =
     (if i < sz then
        obind (walkaddr pagetable (va + of_nat i) s) (\<lambda>pa s.
        if pa = 0 then Panic ''loadseg: address should exist''
        else
          let n = (if sz - i < 4096 then sz - i else 4096) in
          obind (readi ip (Phys pa) (offset + of_nat i) (of_nat n) s) (\<lambda>(r, _) s.
          if r \<noteq> int n then Done (-1) s
          else loadseg_loop pagetable va ip offset sz (i + 4096) s))
      else Done 0 s)"
  by pat_completeness auto
termination
  by (relation "measure (\<lambda>(pagetable, va, ip, offset, sz, i, s). sz - i)") auto

declare loadseg_loop.simps [simp del]

definition loadseg :: "u64 \<Rightarrow> u64 \<Rightarrow> nat \<Rightarrow> u32 \<Rightarrow> u32 \<Rightarrow> 'a fs_state_scheme \<Rightarrow> (int, 'a fs_state_scheme) outcome" where
  "loadseg pagetable va ip offset sz s = loadseg_loop pagetable va ip offset (unat sz) 0 s"

text \<open>
  The loop of \<^verbatim>\<open>kexec\<close> over the program headers, with the number of headers left. The result says
  whether it ended without \<^verbatim>\<open>goto bad\<close>, and the value of \<^verbatim>\<open>sz\<close>.
\<close>

definition load_segment :: "u64 \<Rightarrow> nat \<Rightarrow> proghdr \<Rightarrow> u64 \<Rightarrow> 'a fs_state_scheme \<Rightarrow> (bool \<times> u64, 'a fs_state_scheme) outcome" where
  "load_segment pagetable ip ph sz s =
     (if ph_type ph \<noteq> ELF_PROG_LOAD then Done (True, sz) s
      else if ph_memsz ph < ph_filesz ph then Done (False, sz) s
      else if ph_vaddr ph + ph_memsz ph < ph_vaddr ph then Done (False, sz) s
      else if ph_vaddr ph mod PGSIZE \<noteq> 0 then Done (False, sz) s
      else
        obind (uvmalloc pagetable sz (ph_vaddr ph + ph_memsz ph) (flags2perm (ph_flags ph)) s) (\<lambda>sz1 s.
        if sz1 = 0 then Done (False, sz) s
        else
          obind (loadseg pagetable (ph_vaddr ph) ip (ucast (ph_off ph)) (ucast (ph_filesz ph)) s) (\<lambda>r s.
          Done (r \<ge> 0, sz1) s)))"

fun load_program :: "u64 \<Rightarrow> nat \<Rightarrow> nat \<Rightarrow> u32 \<Rightarrow> u64 \<Rightarrow> 'a fs_state_scheme \<Rightarrow> (bool \<times> u64, 'a fs_state_scheme) outcome" where
  "load_program pagetable ip 0 off sz s = Done (True, sz) s"
| "load_program pagetable ip (Suc k) off sz s =
     obind (readi ip Var off 56 s) (\<lambda>(r, bs) s.
     if r \<noteq> 56 then Done (False, sz) s
     else
       obind (load_segment pagetable ip (get_proghdr bs) sz s) (\<lambda>(ok, sz) s.
       if \<not> ok then Done (False, sz) s else load_program pagetable ip k (off + 56) sz s))"

section \<open>The stack\<close>

text \<open>The strings are pushed from the first on; the results are \<^verbatim>\<open>sp\<close> and \<^verbatim>\<open>ustack\<close>, \<^const>\<open>None\<close> for \<^verbatim>\<open>goto bad\<close>.\<close>

definition align16 :: "u64 \<Rightarrow> u64" where
  "align16 sp = sp - sp mod 16"

fun push_args :: "u64 \<Rightarrow> u64 \<Rightarrow> u8 list list \<Rightarrow> u64 \<Rightarrow> u64 list \<Rightarrow> 'a proc_state_scheme \<Rightarrow>
    ((u64 \<times> u64 list) option, 'a proc_state_scheme) outcome" where
  "push_args pagetable stackbase [] sp ustack s = Done (Some (sp, ustack)) s"
| "push_args pagetable stackbase (arg # args) sp ustack s =
     (if length ustack \<ge> MAXARG then Done None s
      else
        let sp = align16 (sp - of_nat (length arg + 1)) in
        if sp < stackbase then Done None s
        else
          obind (copyout pagetable sp (arg @ [0]) s) (\<lambda>r s.
          if r < 0 then Done None s
          else push_args pagetable stackbase args sp (ustack @ [sp]) s))"

definition push_stack :: "u64 \<Rightarrow> u64 \<Rightarrow> u8 list list \<Rightarrow> u64 \<Rightarrow> 'a proc_state_scheme \<Rightarrow> (u64 option, 'a proc_state_scheme) outcome" where
  "push_stack pagetable stackbase argv sp s =
     obind (push_args pagetable stackbase argv sp [] s) (\<lambda>r s.
     case r of
       None \<Rightarrow> Done None s
     | Some (sp, ustack) \<Rightarrow>
         let sp = align16 (sp - of_nat (length ustack + 1) * 8) in
         if sp < stackbase then Done None s
         else
           obind (copyout pagetable sp (concat (map (le_bytes 8) (ustack @ [0]))) s) (\<lambda>r s.
           if r < 0 then Done None s else Done (Some sp) s))"

section \<open>exec\<close>

definition kexec_bad :: "u64 \<Rightarrow> u64 \<Rightarrow> nat option \<Rightarrow> 'a fs_state_scheme \<Rightarrow> (int, 'a fs_state_scheme) outcome" where
  "kexec_bad pagetable sz ip s =
     obind (if pagetable \<noteq> 0 then proc_freepagetable pagetable sz s else Done () s) (\<lambda>_ s.
     obind (case ip of Some ip \<Rightarrow> obind (iunlockput ip s) (\<lambda>_ s. end_op s) | None \<Rightarrow> Done () s) (\<lambda>_ s.
     Done (-1) s))"

text \<open>The part of the path behind its last slash; \<^verbatim>\<open>safestrcpy\<close> between two arrays of 16 bytes.\<close>

definition last_elem :: "u8 list \<Rightarrow> u8 list" where
  "last_elem path = rev (takeWhile (\<lambda>c. c \<noteq> 47) (rev path))"

definition copy_name :: "(nat \<Rightarrow> u8) \<Rightarrow> (nat \<Rightarrow> u8) \<Rightarrow> nat \<Rightarrow> u8" where
  "copy_name src dst = safestrcpy 0 16 16 (\<lambda>i. if i < 16 then dst i else src (i - 16))"

text \<open>From \<^verbatim>\<open>p->trapframe->a1 = sp\<close> on.\<close>

definition kexec_commit :: "u8 list \<Rightarrow> elfhdr \<Rightarrow> u64 \<Rightarrow> u64 \<Rightarrow> u64 \<Rightarrow> 'a proc_state_scheme \<Rightarrow> (unit, 'a proc_state_scheme) outcome" where
  "kexec_commit path elf pagetable sz sp s =
     (let p = cur s;
          s = tf_set p TF_a1 sp s;
          s = set_proc p (\<lambda>q. q\<lparr>p_name := copy_name (cstr (last_elem path)) (p_name q)\<rparr>) s;
          oldpagetable = p_pagetable (proc_at s p); oldsz = p_sz (proc_at s p);
          s = set_proc p (\<lambda>q. q\<lparr>p_pagetable := pagetable, p_sz := sz\<rparr>) s;
          s = tf_set p TF_epc (e_entry elf) s;
          s = tf_set p TF_sp sp s
      in proc_freepagetable oldpagetable oldsz s)"

text \<open>\<^verbatim>\<open>kexec\<close> after the program has been loaded and the inode released.\<close>

definition kexec_stack :: "u8 list \<Rightarrow> u8 list list \<Rightarrow> elfhdr \<Rightarrow> u64 \<Rightarrow> u64 \<Rightarrow> 'a fs_state_scheme \<Rightarrow> (int, 'a fs_state_scheme) outcome" where
  "kexec_stack path argv elf pagetable sz s =
     (let sz = PGROUNDUP sz in
      obind (uvmalloc pagetable sz (sz + (USERSTACK + 1) * PGSIZE) PTE_W s) (\<lambda>sz1 s.
      if sz1 = 0 then kexec_bad pagetable sz None s
      else
        obind (uvmclear pagetable (sz1 - (USERSTACK + 1) * PGSIZE) s) (\<lambda>_ s.
        obind (push_stack pagetable (sz1 - USERSTACK * PGSIZE) argv sz1 s) (\<lambda>r s.
        case r of
          None \<Rightarrow> kexec_bad pagetable sz1 None s
        | Some sp \<Rightarrow>
            obind (kexec_commit path elf pagetable sz1 sp s) (\<lambda>_ s. Done (int (length argv)) s)))))"

definition kexec :: "u8 list \<Rightarrow> u8 list list \<Rightarrow> 'a fs_state_scheme \<Rightarrow> (int, 'a fs_state_scheme) outcome" where
  "kexec path argv s =
     obind (begin_op s) (\<lambda>_ s.
     obind (namei path s) (\<lambda>ip s.
     case ip of
       None \<Rightarrow> obind (end_op s) (\<lambda>_ s. Done (-1) s)
     | Some ip \<Rightarrow>
         obind (ilock ip s) (\<lambda>_ s.
         obind (readi ip Var 0 64 s) (\<lambda>(r, bs) s.
         if r \<noteq> 64 then kexec_bad 0 PGSIZE (Some ip) s
         else
           let elf = get_elfhdr bs in
           if e_magic elf \<noteq> ELF_MAGIC then kexec_bad 0 PGSIZE (Some ip) s
           else
             obind (proc_pagetable (cur s) s) (\<lambda>pagetable s.
             if pagetable = 0 then kexec_bad 0 PGSIZE (Some ip) s
             else
               obind (load_program pagetable ip (unat (e_phnum elf)) (ucast (e_phoff elf)) PGSIZE s) (\<lambda>(ok, sz) s.
               if \<not> ok then kexec_bad pagetable sz (Some ip) s
               else
                 obind (iunlockput ip s) (\<lambda>_ s.
                 obind (end_op s) (\<lambda>_ s.
                 kexec_stack path argv elf pagetable sz s))))))))"

section \<open>The system call\<close>

text \<open>
  The loop of \<^verbatim>\<open>sys_exec\<close> over the indices still to come: the pages it has allocated, and the strings
  when it reaches the null pointer. \<^verbatim>\<open>fetchstr\<close> stores the string in the new page.
\<close>

fun sys_exec_loop :: "nat list \<Rightarrow> u64 \<Rightarrow> u64 list \<Rightarrow> u8 list list \<Rightarrow> 'a proc_state_scheme \<Rightarrow>
    (u64 list \<times> u8 list list option, 'a proc_state_scheme) outcome" where
  "sys_exec_loop [] uargv pgs strs s = Done (pgs, None) s"
| "sys_exec_loop (i # is) uargv pgs strs s =
     obind (fetchaddr (uargv + 8 * of_nat i) s) (\<lambda>uarg s.
     case uarg of
       None \<Rightarrow> Done (pgs, None) s
     | Some uarg \<Rightarrow>
         if uarg = 0 then Done (pgs, Some strs) s
         else (case kalloc s of (pa, s) \<Rightarrow>
           if pa = 0 then Done (pgs, None) s
           else
             obind (fetchstr uarg 4096 s) (\<lambda>(r, bs) s.
             if r < 0 then Done (pgs @ [pa], None) (phys_write pa bs s)
             else sys_exec_loop is uargv (pgs @ [pa]) (strs @ [bs]) (phys_write pa (bs @ [0]) s))))"

fun kfree_all :: "u64 list \<Rightarrow> 'a kmem_state_scheme \<Rightarrow> (unit, 'a kmem_state_scheme) outcome" where
  "kfree_all [] s = Done () s"
| "kfree_all (pa # pas) s = obind (kfree pa s) (\<lambda>_ s. kfree_all pas s)"

definition sys_exec :: "'a fs_state_scheme \<Rightarrow> (u64, 'a fs_state_scheme) outcome" where
  "sys_exec s =
     obind (argaddr 1 s) (\<lambda>uargv s.
     obind (argstr 0 MAXPATH s) (\<lambda>(r, path) s.
     if r < 0 then ret (-1) s
     else
       obind (sys_exec_loop [0..<MAXARG] uargv [] [] s) (\<lambda>(pgs, argv) s.
       case argv of
         None \<Rightarrow> obind (kfree_all pgs s) (\<lambda>_ s. ret (-1) s)
       | Some argv \<Rightarrow>
           obind (kexec path argv s) (\<lambda>r s. obind (kfree_all pgs s) (\<lambda>_ s. ret r s)))))"

end
