(* ===== verification/Process.thy ===== *)
theory Process
  imports Exec
begin

text \<open>
  The part of \<^verbatim>\<open>kernel/proc.c\<close> that touches files: creation, end and collection of processes. A process
  that exits gives up the CPU without a channel and never gets it back; its outcome is \<open>Asleep ChNone\<close>.
\<close>

definition userinit :: "'a fs_state_scheme \<Rightarrow> (unit, 'a fs_state_scheme) outcome" where
  "userinit s =
     obind (allocproc s) (\<lambda>p s.
     let s = s\<lparr>initproc := p\<rparr> in
     obind (namei [47] s) (\<lambda>cwd s.
     deref p (\<lambda>p. Done () (set_proc p (\<lambda>q. q\<lparr>p_cwd := cwd, p_state := RUNNABLE\<rparr>) s))))"

text \<open>The loop of \<^verbatim>\<open>kfork\<close> over the descriptors still to come.\<close>

fun dup_files :: "nat \<Rightarrow> nat \<Rightarrow> nat list \<Rightarrow> 'a file_state_scheme \<Rightarrow> (unit, 'a file_state_scheme) outcome" where
  "dup_files p np [] s = Done () s"
| "dup_files p np (i # is) s =
     (case p_ofile (proc_at s p) ! i of
        None \<Rightarrow> dup_files p np is s
      | Some f \<Rightarrow>
          obind (filedup f s) (\<lambda>g s.
          dup_files p np is (set_proc np (\<lambda>q. q\<lparr>p_ofile := (p_ofile q)[i := Some g]\<rparr>) s)))"

definition kfork :: "'a file_state_scheme \<Rightarrow> (int, 'a file_state_scheme) outcome" where
  "kfork s =
     (let p = cur s in
      obind (allocproc s) (\<lambda>np s.
      case np of
        None \<Rightarrow> Done (-1) s
      | Some np \<Rightarrow>
          obind (uvmcopy (p_pagetable (proc_at s p)) (p_pagetable (proc_at s np)) (p_sz (proc_at s p)) s) (\<lambda>r s.
          if r < 0 then obind (freeproc np s) (\<lambda>_ s. Done (-1) s)
          else
            let s = set_proc np (\<lambda>q. q\<lparr>p_sz := p_sz (proc_at s p)\<rparr>) s;
                tf = p_trapframe (proc_at s p); ntf = p_trapframe (proc_at s np);
                s = s\<lparr>mem := (mem s)(ntf := page_write (mem s ntf) 0 (page_read (mem s tf) 0 288))\<rparr>;
                s = tf_set np TF_a0 0 s
            in obind (dup_files p np [0..<NOFILE] s) (\<lambda>_ s.
               deref (p_cwd (proc_at s p)) (\<lambda>cwd.
               let s = idup cwd s;
                   s = set_proc np (\<lambda>q. q\<lparr>p_cwd := Some cwd, p_name := copy_name (p_name (proc_at s p)) (p_name q),
                         p_tickets := p_tickets (proc_at s p)\<rparr>) s;
                   pid = p_pid (proc_at s np);
                   s = set_proc np (p_parent_update (\<lambda>_. Some p)) s;
                   s = set_proc np (p_state_update (\<lambda>_. RUNNABLE)) s
               in Done pid s)))))"

fun reparent_loop :: "nat \<Rightarrow> nat list \<Rightarrow> 'a proc_state_scheme \<Rightarrow> 'a proc_state_scheme" where
  "reparent_loop p [] s = s"
| "reparent_loop p (pp # pps) s =
     reparent_loop p pps
       (if p_parent (proc_at s pp) = Some p then
          let s = set_proc pp (p_parent_update (\<lambda>_. initproc s)) s
          in (case initproc s of Some i \<Rightarrow> wakeup (ChProc i) s | None \<Rightarrow> s)
        else s)"

definition reparent :: "nat \<Rightarrow> 'a proc_state_scheme \<Rightarrow> 'a proc_state_scheme" where
  "reparent p s = reparent_loop p [0..<NPROC] s"

text \<open>The loop of \<^verbatim>\<open>kexit\<close> over the descriptors still to come.\<close>

fun close_files :: "nat \<Rightarrow> nat list \<Rightarrow> 'a file_state_scheme \<Rightarrow> (unit, 'a file_state_scheme) outcome" where
  "close_files p [] s = Done () s"
| "close_files p (fd # fds) s =
     (case p_ofile (proc_at s p) ! fd of
        None \<Rightarrow> close_files p fds s
      | Some f \<Rightarrow>
          obind (fileclose f s) (\<lambda>_ s.
          close_files p fds (set_proc p (\<lambda>q. q\<lparr>p_ofile := (p_ofile q)[fd := None]\<rparr>) s)))"

text \<open>\<^verbatim>\<open>kexit\<close> from \<^verbatim>\<open>acquire(&wait_lock)\<close> on.\<close>

definition become_zombie :: "int \<Rightarrow> 'a proc_state_scheme \<Rightarrow> ('b, 'a proc_state_scheme) outcome" where
  "become_zombie status s =
     (let p = cur s;
          s = reparent p s;
          s = (case p_parent (proc_at s p) of Some q \<Rightarrow> wakeup (ChProc q) s | None \<Rightarrow> s);
          s = set_proc p (\<lambda>q. q\<lparr>p_xstate := status, p_state := ZOMBIE\<rparr>) s
      in case sched s of Done _ s \<Rightarrow> Asleep ChNone s | Panic e \<Rightarrow> Panic e | Asleep c s \<Rightarrow> Asleep c s)"

definition kexit :: "int \<Rightarrow> 'a file_state_scheme \<Rightarrow> ('b, 'a file_state_scheme) outcome" where
  "kexit status s =
     (let p = cur s in
      if Some p = initproc s then Panic ''init exiting''
      else
        obind (close_files p [0..<NOFILE] s) (\<lambda>_ s.
        obind (begin_op s) (\<lambda>_ s.
        obind (deref (p_cwd (proc_at s p)) (\<lambda>cwd. iput cwd s)) (\<lambda>_ s.
        obind (end_op s) (\<lambda>_ s.
        become_zombie status (set_proc p (p_cwd_update (\<lambda>_. None)) s))))))"

text \<open>
  One scan of the table by \<^verbatim>\<open>kwait\<close>: it stops at the first child that is a zombie. \<open>is_child\<close> and \<open>zombie_child\<close>
  are the two conditions of the loop.
\<close>

definition is_child :: "nat \<Rightarrow> 'a proc_state_scheme \<Rightarrow> nat \<Rightarrow> bool" where
  "is_child p s pp \<longleftrightarrow> p_parent (proc_at s pp) = Some p"

definition zombie_child :: "nat \<Rightarrow> 'a proc_state_scheme \<Rightarrow> nat \<Rightarrow> bool" where
  "zombie_child p s pp \<longleftrightarrow> is_child p s pp \<and> p_state (proc_at s pp) = ZOMBIE"

definition kwait :: "u64 \<Rightarrow> 'a proc_state_scheme \<Rightarrow> (int, 'a proc_state_scheme) outcome" where
  "kwait addr s =
     (let p = cur s in
      case List.find (zombie_child p s) [0..<NPROC] of
        Some pp \<Rightarrow>
          let pid = p_pid (proc_at s pp) in
          obind (if addr \<noteq> 0
                 then copyout (p_pagetable (proc_at s p)) addr (le_bytes 4 (word_of_int (p_xstate (proc_at s pp)) :: u32)) s
                 else Done 0 s) (\<lambda>r s.
          if r < 0 then Done (-1) s
          else obind (freeproc pp s) (\<lambda>_ s. Done pid s))
      | None \<Rightarrow>
          if \<not> list_ex (is_child p s) [0..<NPROC] \<or> killed p s \<noteq> 0 then Done (-1) s
          else sleep (ChProc p) s)"

end
