(* ===== verification/Syscall.thy ===== *)
theory Syscall
  imports Process
begin

text \<open>
  \<^verbatim>\<open>kernel/sysproc.c\<close> and the dispatcher of \<^verbatim>\<open>kernel/syscall.c\<close> with its counters. The stack contents
  that \<^verbatim>\<open>sys_fstat\<close> copies out with the padding of \<^verbatim>\<open>struct stat\<close> are the parameter \<open>pad\<close>.
\<close>

record kern_state = vio_state +
  ticks :: u32
  syscall_counts :: "int list"

section \<open>System calls on processes\<close>

definition sys_exit :: "'a file_state_scheme \<Rightarrow> (u64, 'a file_state_scheme) outcome" where
  "sys_exit s = obind (argint 0 s) (\<lambda>n s. kexit n s)"

definition sys_getpid :: "'a proc_state_scheme \<Rightarrow> (u64, 'a proc_state_scheme) outcome" where
  "sys_getpid s = ret (p_pid (proc_at s (cur s))) s"

definition sys_fork :: "'a file_state_scheme \<Rightarrow> (u64, 'a file_state_scheme) outcome" where
  "sys_fork s = obind (kfork s) (\<lambda>r s. ret r s)"

definition sys_wait :: "'a proc_state_scheme \<Rightarrow> (u64, 'a proc_state_scheme) outcome" where
  "sys_wait s = obind (argaddr 0 s) (\<lambda>p s. obind (kwait p s) (\<lambda>r s. ret r s))"

abbreviation (input) SBRK_EAGER :: int where "SBRK_EAGER \<equiv> 1"

definition sys_sbrk :: "'a proc_state_scheme \<Rightarrow> (u64, 'a proc_state_scheme) outcome" where
  "sys_sbrk s =
     obind (argint 0 s) (\<lambda>n s.
     obind (argint 1 s) (\<lambda>t s.
     let addr = p_sz (proc_at s (cur s)) in
     if t = SBRK_EAGER \<or> n < 0 then
       obind (growproc n s) (\<lambda>r s. if r < 0 then ret (-1) s else Done addr s)
     else if addr + word_of_int n < addr then ret (-1) s
     else if addr + word_of_int n > TRAPFRAME then ret (-1) s
     else Done addr (set_proc (cur s) (p_sz_update (\<lambda>sz. sz + word_of_int n)) s)))"

text \<open>
  \<^verbatim>\<open>sys_pause\<close>: the test of its loop, and the call. The comparison of \<^verbatim>\<open>uint\<close> with \<^verbatim>\<open>int\<close> is unsigned.
\<close>

definition pause_check :: "u32 \<Rightarrow> int \<Rightarrow> 'a kern_state_scheme \<Rightarrow> (u64, 'a kern_state_scheme) outcome" where
  "pause_check ticks0 n s =
     (if ticks s - ticks0 < word_of_int n then
        if killed (cur s) s \<noteq> 0 then ret (-1) s else sleep ChTicks s
      else ret 0 s)"

definition sys_pause :: "'a kern_state_scheme \<Rightarrow> (u64, 'a kern_state_scheme) outcome" where
  "sys_pause s =
     obind (argint 0 s) (\<lambda>n s.
     let n = (if n < 0 then 0 else n) in pause_check (ticks s) n s)"

definition sys_kill :: "'a proc_state_scheme \<Rightarrow> (u64, 'a proc_state_scheme) outcome" where
  "sys_kill s = obind (argint 0 s) (\<lambda>pid s. case kkill pid s of (r, s) \<Rightarrow> ret r s)"

definition sys_uptime :: "'a kern_state_scheme \<Rightarrow> (u64, 'a kern_state_scheme) outcome" where
  "sys_uptime s = Done (ucast (ticks s)) s"

definition sys_settickets :: "'a proc_state_scheme \<Rightarrow> (u64, 'a proc_state_scheme) outcome" where
  "sys_settickets s = obind (argint 0 s) (\<lambda>n s. case ksettickets n s of (r, s) \<Rightarrow> ret r s)"

text \<open>The bytes of a \<^verbatim>\<open>struct pstat\<close>: four arrays of \<^verbatim>\<open>int\<close>. The local variable \<^verbatim>\<open>st\<close> is not at address 0.\<close>

definition pstat_bytes :: "pstat \<Rightarrow> u8 list" where
  "pstat_bytes st = concat (map (\<lambda>i. le_bytes 4 (word_of_int i :: u32)) (inuse st @ st_tickets st @ st_pid st @ st_ticks st))"

definition sys_getpinfo :: "u64 \<Rightarrow> 'a proc_state_scheme \<Rightarrow> (u64, 'a proc_state_scheme) outcome" where
  "sys_getpinfo st s =
     obind (argaddr 0 s) (\<lambda>addr s.
     if addr = 0 then ret (-1) s
     else case kgetpinfo st s of
       (r, None) \<Rightarrow> ret (-1) s
     | (r, Some v) \<Rightarrow>
         if r < 0 then ret (-1) s
         else
           obind (copyout (p_pagetable (proc_at s (cur s))) addr (pstat_bytes v) s) (\<lambda>r s.
           if r < 0 then ret (-1) s else ret 0 s))"

section \<open>The dispatcher\<close>

abbreviation (input) NSYSCALLS :: nat where "NSYSCALLS \<equiv> 25"

definition sys_getcnt :: "'a kern_state_scheme \<Rightarrow> (u64, 'a kern_state_scheme) outcome" where
  "sys_getcnt s =
     obind (argint 0 s) (\<lambda>n s.
     if n \<le> 0 \<or> n \<ge> int NSYSCALLS then ret (-1) s else ret (syscall_counts s ! nat n) s)"

text \<open>
  The table \<^verbatim>\<open>syscalls\<close>, with the numbers of \<^verbatim>\<open>kernel/syscall.h\<close>. \<open>pad\<close> and \<open>st\<close> are the stack of
  \<^verbatim>\<open>sys_fstat\<close> and the address of the local variable of \<^verbatim>\<open>sys_getpinfo\<close>.
\<close>

definition syscalls :: "u8 list \<Rightarrow> u64 \<Rightarrow> ('a kern_state_scheme \<Rightarrow> (u64, 'a kern_state_scheme) outcome) option list" where
  "syscalls pad st =
     [None, Some sys_fork, Some sys_exit, Some sys_wait, Some sys_pipe, Some sys_read, Some sys_kill,
      Some sys_exec, Some (sys_fstat pad), Some sys_chdir, Some sys_dup, Some sys_getpid, Some sys_sbrk,
      Some sys_pause, Some sys_uptime, Some sys_open, Some sys_write, Some sys_mknod, Some sys_unlink,
      Some sys_link, Some sys_mkdir, Some sys_close, Some sys_getcnt, Some sys_settickets, Some (sys_getpinfo st)]"

text \<open>
  \<^verbatim>\<open>syscall_counts[num]++\<close>: a load and a store. No lock protects them, so that another hart can come between; \<open>count_call\<close> is the
  increment when none does. Theory \<open>Counters\<close> interleaves the two.
\<close>

definition count_load :: "nat \<Rightarrow> 'a kern_state_scheme \<Rightarrow> int" where
  "count_load num s = syscall_counts s ! num"

definition count_store :: "nat \<Rightarrow> int \<Rightarrow> 'a kern_state_scheme \<Rightarrow> 'a kern_state_scheme" where
  "count_store num v s = s\<lparr>syscall_counts := (syscall_counts s)[num := wrap32 (v + 1)]\<rparr>"

definition count_call :: "nat \<Rightarrow> 'a kern_state_scheme \<Rightarrow> 'a kern_state_scheme" where
  "count_call num s = count_store num (count_load num s) s"

definition syscall :: "u8 list \<Rightarrow> u64 \<Rightarrow> 'a kern_state_scheme \<Rightarrow> (unit, 'a kern_state_scheme) outcome" where
  "syscall pad st s =
     (let p = cur s; num = sint (ucast (tf_get p TF_a7 s) :: u32);
          entry = (if num > 0 \<and> num < int NSYSCALLS then syscalls pad st ! nat num else None)
      in case entry of
           Some f \<Rightarrow> obind (f (count_call (nat num) s)) (\<lambda>r s. Done () (tf_set p TF_a0 r s))
         | None \<Rightarrow>
             let s = kprintf ''%d %s: unknown sys call %d\<newline>''
                       [VNum (word_of_int (p_pid (proc_at s p))), VStr (Some (takeWhile (\<lambda>c. c \<noteq> 0) (map (p_name (proc_at s p)) [0..<16]))),
                        VNum (word_of_int num)] s
             in Done () (tf_set p TF_a0 (-1) s))"

text \<open>The table has an entry for every number from 1 to 24.\<close>

lemma length_syscalls: "length (syscalls pad st) = NSYSCALLS"
  by (simp add: syscalls_def)

lemma all_calls_present: "0 < i \<Longrightarrow> i < 25 \<Longrightarrow> \<exists>f. syscalls pad st ! i = Some f"
  by (simp add: syscalls_def nth_Cons numeral_eq_Suc split: nat.split)

end
