(* ===== verification/Trap.thy ===== *)
theory Trap
  imports Syscall
begin

text \<open>
  \<^verbatim>\<open>kernel/trap.c\<close> and \<^verbatim>\<open>kernel/plic.c\<close>: system calls, faults and interrupts. The control registers
  are those of the hart that runs. What the interrupt controller answers to a claim is \<open>plic_claims\<close>, one
  entry per claim; writes to it are recorded in \<open>plic_writes\<close>. \<open>time\<close> is the clock. Addresses of code
  (\<^verbatim>\<open>kernelvec\<close>, \<^verbatim>\<open>usertrap\<close> and the offsets of \<^verbatim>\<open>uservec\<close> and \<^verbatim>\<open>userret\<close> in the trampoline page) are fields
  that nothing changes.

  When a trap ends in \<^verbatim>\<open>yield\<close> the outcome is \<open>Asleep ChNone\<close>, and \<open>usertrap_return\<close> or \<open>kerneltrap_return\<close> is what
  the process does when it runs again.
\<close>

section \<open>Registers\<close>

record hart_state = kern_state +
  r_sstatus :: u64
  r_scause :: u64
  r_sepc :: u64
  r_stval :: u64
  r_stvec :: u64
  r_satp :: u64
  r_stimecmp :: u64
  time :: u64
  plic_claims :: "u32 list"
  plic_writes :: "(u64 \<times> u32) list"
  kernelvec_pc :: u64
  usertrap_pc :: u64
  uservec_off :: u64
  userret_off :: u64
  kernel_pagetable :: u64
  fork_first :: bool

abbreviation SSTATUS_SPP :: u64 where "SSTATUS_SPP \<equiv> 0x100"
abbreviation SSTATUS_SPIE :: u64 where "SSTATUS_SPIE \<equiv> 0x20"
abbreviation SSTATUS_SIE :: u64 where "SSTATUS_SIE \<equiv> 2"

definition intr_on :: "'a hart_state_scheme \<Rightarrow> 'a hart_state_scheme" where
  "intr_on s = s\<lparr>r_sstatus := r_sstatus s OR SSTATUS_SIE\<rparr>"

definition intr_off :: "'a hart_state_scheme \<Rightarrow> 'a hart_state_scheme" where
  "intr_off s = s\<lparr>r_sstatus := r_sstatus s AND NOT SSTATUS_SIE\<rparr>"

definition intr_get :: "'a hart_state_scheme \<Rightarrow> bool" where
  "intr_get s \<longleftrightarrow> r_sstatus s AND SSTATUS_SIE \<noteq> 0"

definition MAKE_SATP :: "u64 \<Rightarrow> u64" where
  "MAKE_SATP pagetable = push_bit 60 8 OR drop_bit 12 pagetable"

section \<open>Interrupt controller\<close>

abbreviation UART0_IRQ :: u32 where "UART0_IRQ \<equiv> 10"
abbreviation VIRTIO0_IRQ :: u32 where "VIRTIO0_IRQ \<equiv> 1"

definition PLIC_SENABLE :: "nat \<Rightarrow> u64" where "PLIC_SENABLE hart = PLIC + 0x2080 + of_nat hart * 0x100"
definition PLIC_SPRIORITY :: "nat \<Rightarrow> u64" where "PLIC_SPRIORITY hart = PLIC + 0x201000 + of_nat hart * 0x2000"
definition PLIC_SCLAIM :: "nat \<Rightarrow> u64" where "PLIC_SCLAIM hart = PLIC + 0x201004 + of_nat hart * 0x2000"

definition plic_write :: "u64 \<Rightarrow> u32 \<Rightarrow> 'a hart_state_scheme \<Rightarrow> 'a hart_state_scheme" where
  "plic_write a v s = s\<lparr>plic_writes := plic_writes s @ [(a, v)]\<rparr>"

definition plicinit :: "'a hart_state_scheme \<Rightarrow> 'a hart_state_scheme" where
  "plicinit s = plic_write (PLIC + ucast VIRTIO0_IRQ * 4) 1 (plic_write (PLIC + ucast UART0_IRQ * 4) 1 s)"

definition plicinithart :: "'a hart_state_scheme \<Rightarrow> 'a hart_state_scheme" where
  "plicinithart s =
     plic_write (PLIC_SPRIORITY (cpuid s)) 0
       (plic_write (PLIC_SENABLE (cpuid s)) (push_bit (unat UART0_IRQ) 1 OR push_bit (unat VIRTIO0_IRQ) 1) s)"

definition plic_claim :: "'a hart_state_scheme \<Rightarrow> u32 \<times> 'a hart_state_scheme" where
  "plic_claim s = (case plic_claims s of [] \<Rightarrow> (0, s) | irq # irqs \<Rightarrow> (irq, s\<lparr>plic_claims := irqs\<rparr>))"

definition plic_complete :: "u32 \<Rightarrow> 'a hart_state_scheme \<Rightarrow> 'a hart_state_scheme" where
  "plic_complete irq s = plic_write (PLIC_SCLAIM (cpuid s)) irq s"

section \<open>Interrupts\<close>

definition trapinithart :: "'a hart_state_scheme \<Rightarrow> 'a hart_state_scheme" where
  "trapinithart s = s\<lparr>r_stvec := kernelvec_pc s\<rparr>"

definition clockintr :: "'a hart_state_scheme \<Rightarrow> 'a hart_state_scheme" where
  "clockintr s =
     (let s = (if cpuid s = 0 then wakeup ChTicks (s\<lparr>ticks := ticks s + 1\<rparr>) else s)
      in s\<lparr>r_stimecmp := time s + 1000000\<rparr>)"

definition devintr :: "'a hart_state_scheme \<Rightarrow> (nat, 'a hart_state_scheme) outcome" where
  "devintr s =
     (if r_scause s = 0x8000000000000009 then
        (case plic_claim s of (irq, s) \<Rightarrow>
         obind (if irq = UART0_IRQ then Done () (uartintr s)
                else if irq = VIRTIO0_IRQ then virtio_disk_intr s
                else if irq \<noteq> 0 then Done () (kprintf ''unexpected interrupt irq=%d\<newline>'' [VNum (ucast irq)] s)
                else Done () s) (\<lambda>_ s.
         Done 1 (if irq \<noteq> 0 then plic_complete irq s else s)))
      else if r_scause s = 0x8000000000000005 then Done 2 (clockintr s)
      else Done 0 s)"

section \<open>Traps from user space\<close>

definition prepare_return :: "'a hart_state_scheme \<Rightarrow> 'a hart_state_scheme" where
  "prepare_return s =
     (let p = cur s;
          s = intr_off s;
          s = s\<lparr>r_stvec := TRAMPOLINE + uservec_off s\<rparr>;
          s = tf_set p TF_kernel_satp (r_satp s) s;
          s = tf_set p TF_kernel_sp (p_kstack (proc_at s p) + PGSIZE) s;
          s = tf_set p TF_kernel_trap (usertrap_pc s) s;
          s = tf_set p TF_kernel_hartid (of_nat (tp s)) s;
          s = s\<lparr>r_sstatus := (r_sstatus s AND NOT SSTATUS_SPP) OR SSTATUS_SPIE\<rparr>
      in s\<lparr>r_sepc := tf_get p TF_epc s\<rparr>)"

definition usertrap_return :: "'a hart_state_scheme \<Rightarrow> u64 \<times> 'a hart_state_scheme" where
  "usertrap_return s = (let s = prepare_return s in (MAKE_SATP (p_pagetable (proc_at s (cur s))), s))"

text \<open>The branches of \<^verbatim>\<open>usertrap\<close> on the cause of the trap; the result is \<^verbatim>\<open>which_dev\<close>.\<close>

definition usertrap_cause :: "u8 list \<Rightarrow> u64 \<Rightarrow> 'a hart_state_scheme \<Rightarrow> (nat, 'a hart_state_scheme) outcome" where
  "usertrap_cause pad st s =
     (let p = cur s in
      if r_scause s = 8 then
        if killed p s \<noteq> 0 then kexit (-1) s
        else
          let s = tf_set p TF_epc (tf_get p TF_epc s + 4) s
          in obind (syscall pad st (intr_on s)) (\<lambda>_ s. Done 0 s)
      else
        obind (devintr s) (\<lambda>which_dev s.
        if which_dev \<noteq> 0 then Done which_dev s
        else if (r_scause s = 13 \<or> r_scause s = 15 \<or> r_scause s = 12) \<and> r_stval s < PGSIZE then
          let s = kprintf ''usertrap(): null pointer dereference pid=%d\<newline>'' [VNum (word_of_int (p_pid (proc_at s p)))] s;
              s = kprintf ''            scause=0x%lx sepc=0x%lx stval=0x%lx\<newline>'' [VNum (r_scause s), VNum (r_sepc s), VNum (r_stval s)] s
          in Done 0 (setkilled p s)
        else
          obind (if r_scause s = 15 \<or> r_scause s = 13 then vmfault (p_pagetable (proc_at s p)) (r_stval s) s else Done 0 s) (\<lambda>pa s.
          if pa \<noteq> 0 then Done 0 s
          else
            let s = kprintf ''usertrap(): unexpected scause 0x%lx pid=%d\<newline>'' [VNum (r_scause s), VNum (word_of_int (p_pid (proc_at s p)))] s;
                s = kprintf ''            sepc=0x%lx stval=0x%lx\<newline>'' [VNum (r_sepc s), VNum (r_stval s)] s
            in Done 0 (setkilled p s))))"

definition usertrap :: "u8 list \<Rightarrow> u64 \<Rightarrow> 'a hart_state_scheme \<Rightarrow> (u64, 'a hart_state_scheme) outcome" where
  "usertrap pad st s =
     (if r_sstatus s AND SSTATUS_SPP \<noteq> 0 then Panic ''usertrap: not from user mode''
      else
        let p = cur s;
            s = s\<lparr>r_stvec := kernelvec_pc s\<rparr>;
            s = tf_set p TF_epc (r_sepc s) s
        in obind (usertrap_cause pad st s) (\<lambda>which_dev s.
           if killed p s \<noteq> 0 then kexit (-1) s
           else if which_dev = 2 then obind (yield s) (\<lambda>_ s. Asleep ChNone s)
           else case usertrap_return s of (satp, s) \<Rightarrow> Done satp s))"

section \<open>Traps from the kernel\<close>

definition kerneltrap_return :: "u64 \<Rightarrow> u64 \<Rightarrow> 'a hart_state_scheme \<Rightarrow> 'a hart_state_scheme" where
  "kerneltrap_return sepc sstatus s = s\<lparr>r_sepc := sepc, r_sstatus := sstatus\<rparr>"

text \<open>What \<^verbatim>\<open>printf\<close> writes before the panic is in no later state: a panic ends the run.\<close>

definition kerneltrap :: "'a hart_state_scheme \<Rightarrow> (unit, 'a hart_state_scheme) outcome" where
  "kerneltrap s =
     (let sepc = r_sepc s; sstatus = r_sstatus s; scause = r_scause s in
      if sstatus AND SSTATUS_SPP = 0 then Panic ''kerneltrap: not from supervisor mode''
      else if intr_get s then Panic ''kerneltrap: interrupts enabled''
      else
        obind (devintr s) (\<lambda>which_dev s.
        if which_dev = 0 then
          let s = kprintf ''scause=0x%lx sepc=0x%lx stval=0x%lx\<newline>'' [VNum scause, VNum (r_sepc s), VNum (r_stval s)] s
          in Panic ''kerneltrap''
        else if which_dev = 2 \<and> myproc s \<noteq> None then obind (yield s) (\<lambda>_ s. Asleep ChNone s)
        else Done () (kerneltrap_return sepc sstatus s)))"

section \<open>The first run of a process\<close>

text \<open>\<^verbatim>\<open>forkret\<close>: the result is the address it jumps to and the argument it passes.\<close>

abbreviation init_path :: "u8 list" where "init_path \<equiv> map of_char ''/init''"

definition forkret :: "'a hart_state_scheme \<Rightarrow> (u64 \<times> u64, 'a hart_state_scheme) outcome" where
  "forkret s =
     (let p = cur s in
      obind (if fork_first s then
               obind (fsinit ROOTDEV s) (\<lambda>_ s.
               obind (kexec init_path [init_path] (s\<lparr>fork_first := False\<rparr>)) (\<lambda>r s.
               let s = tf_set p TF_a0 (word_of_int r) s in
               if tf_get p TF_a0 s = -1 then Panic ''exec'' else Done () s))
             else Done () s) (\<lambda>_ s.
      let s = prepare_return s
      in Done (TRAMPOLINE + userret_off s, MAKE_SATP (p_pagetable (proc_at s p))) s))"

end
