(* ===== verification/Boot.thy ===== *)
theory Boot
  imports Trap
begin

text \<open>
  \<^verbatim>\<open>kernel/start.c\<close>, \<^verbatim>\<open>kernel/main.c\<close> and the initialisation of the console: from machine mode to the
  scheduler, on the first hart and on the others. The control registers of machine mode and the
  writes to the UART's control registers are fields of the state.
\<close>

record boot_state = hart_state +
  r_mstatus :: u64
  r_mepc :: u64
  r_medeleg :: u64
  r_mideleg :: u64
  r_sie :: u64
  r_mie :: u64
  r_menvcfg :: u64
  r_mcounteren :: u64
  r_pmpaddr0 :: u64
  r_pmpcfg0 :: u64
  r_mhartid :: u64
  main_pc :: u64
  uart_ctl :: "(nat \<times> u8) list"
  started :: bool

section \<open>Machine mode\<close>

definition timerinit :: "'a boot_state_scheme \<Rightarrow> 'a boot_state_scheme" where
  "timerinit s =
     (let s = s\<lparr>r_mie := r_mie s OR push_bit 5 1\<rparr>;
          s = s\<lparr>r_menvcfg := r_menvcfg s OR push_bit 63 1\<rparr>;
          s = s\<lparr>r_mcounteren := r_mcounteren s OR 2\<rparr>
      in s\<lparr>r_stimecmp := time s + 1000000\<rparr>)"

definition start :: "'a boot_state_scheme \<Rightarrow> 'a boot_state_scheme" where
  "start s =
     (let x = r_mstatus s AND NOT (push_bit 11 3);
          s = s\<lparr>r_mstatus := x OR push_bit 11 1\<rparr>;
          s = s\<lparr>r_mepc := main_pc s\<rparr>;
          s = s\<lparr>r_satp := 0\<rparr>;
          s = s\<lparr>r_medeleg := 0xffff, r_mideleg := 0xffff\<rparr>;
          s = s\<lparr>r_sie := r_sie s OR push_bit 9 1 OR push_bit 5 1\<rparr>;
          s = s\<lparr>r_pmpaddr0 := 0x3fffffffffffff, r_pmpcfg0 := 0xf\<rparr>;
          s = timerinit s
      in s\<lparr>tp := unat (r_mhartid s)\<rparr>)"

section \<open>Console and paging\<close>

definition uartinit :: "'a boot_state_scheme \<Rightarrow> 'a boot_state_scheme" where
  "uartinit s = s\<lparr>uart_ctl := uart_ctl s @
     [(1, 0), (3, push_bit 7 1), (0, 3), (1, 0), (3, 3), (2, 1 OR push_bit 1 3), (1, 2 OR 1)]\<rparr>"

abbreviation CONSOLE :: nat where "CONSOLE \<equiv> 1"

definition consoleinit :: "'a boot_state_scheme \<Rightarrow> 'a boot_state_scheme" where
  "consoleinit s =
     (let s = uartinit s
      in s\<lparr>devtab := (devtab s)[CONSOLE := (devtab s ! CONSOLE)\<lparr>dev_read := Some Consoleread, dev_write := Some Consolewrite\<rparr>]\<rparr>)"

definition kvminit :: "'a hart_state_scheme \<Rightarrow> (unit, 'a hart_state_scheme) outcome" where
  "kvminit s = obind (kvmmake s) (\<lambda>pt s. Done () (s\<lparr>kernel_pagetable := pt\<rparr>))"

definition kvminithart :: "'a hart_state_scheme \<Rightarrow> 'a hart_state_scheme" where
  "kvminithart s = s\<lparr>r_satp := MAKE_SATP (kernel_pagetable s)\<rparr>"

section \<open>main\<close>

text \<open>
  \<^verbatim>\<open>main\<close> up to the call of \<^verbatim>\<open>scheduler\<close>. A hart other than the first spins until \<^verbatim>\<open>started\<close> is set: \<^const>\<open>None\<close>.
\<close>

definition main_first :: "'a boot_state_scheme \<Rightarrow> (unit, 'a boot_state_scheme) outcome" where
  "main_first s =
     (let s = consoleinit s;
          s = kprintf ''\<newline>'' [] s;
          s = kprintf ''xv6 kernel is booting\<newline>'' [] s;
          s = kprintf ''\<newline>'' [] s
      in obind (kinit s) (\<lambda>_ s.
         obind (kvminit s) (\<lambda>_ s.
         let s = kvminithart s;
             s = procinit s;
             s = trapinithart s;
             s = plicinit s;
             s = plicinithart s;
             s = binit s;
             s = iinit s
         in obind (virtio_disk_init s) (\<lambda>_ s.
            obind (userinit s) (\<lambda>_ s. Done () (s\<lparr>started := True\<rparr>))))))"

definition main_other :: "'a boot_state_scheme \<Rightarrow> 'a boot_state_scheme option" where
  "main_other s =
     (if started s then
        let s = kprintf ''hart %d starting\<newline>'' [VNum (of_nat (cpuid s))] s;
            s = kvminithart s;
            s = trapinithart s
        in Some (plicinithart s)
      else None)"

end
