(* ===== verification/Frames.thy ===== *)
theory Frames
  imports Syscall
begin

text \<open>
  What the kernel leaves alone. Most operations change memory, buffers, inodes and the like, and leave
  other parts of the state as they were. A \<^emph>\<open>view\<close> is a function of the state that does not depend on
  what the memory allocator, the page tables, the buffer cache, the log and the file system change;
  the locale shows once that those operations keep every view. \<open>keeps v s m\<close> says that \<open>m\<close> returns, if it
  does, in a state with the same view as \<open>s\<close>, that it goes to sleep, if it does, in such a state, and that it does not end the process.
\<close>

definition slept :: "('a proc_state_scheme \<Rightarrow> 'v) \<Rightarrow> 'a proc_state_scheme \<Rightarrow> 'a proc_state_scheme \<Rightarrow> bool" where
  "slept v s t \<longleftrightarrow> (\<exists>c u. t = asleep c u \<and> v u = v s)"

definition keeps :: "('a proc_state_scheme \<Rightarrow> 'v) \<Rightarrow> 'a proc_state_scheme \<Rightarrow> ('b, 'a proc_state_scheme) outcome \<Rightarrow> bool" where
  "keeps v s m \<longleftrightarrow> (case m of Done a t \<Rightarrow> v t = v s | Panic e \<Rightarrow> True | Asleep c t \<Rightarrow> c \<noteq> ChNone \<and> slept v s t)"

lemma keeps_simps [simp]: "keeps v s (Done a t) \<longleftrightarrow> v t = v s" "keeps v s (Panic e)" "keeps v s (Asleep c t) \<longleftrightarrow> c \<noteq> ChNone \<and> slept v s t"
  by (simp_all add: keeps_def)

lemma slept_asleep: "v t = v s \<Longrightarrow> slept v s (asleep c t)"
  unfolding slept_def by blast

named_theorems frame_intros "introduction rules for operations that keep a view"

lemma keeps_Done [frame_intros]: "v t = v s \<Longrightarrow> keeps v s (Done a t)"
  by simp

lemma keeps_Panic [frame_intros]: "keeps v s (Panic e)"
  by simp

lemma keeps_obind [frame_intros]:
  "keeps v s m \<Longrightarrow> (\<And>a t. m = Done a t \<Longrightarrow> v t = v s \<Longrightarrow> keeps v s (f a t)) \<Longrightarrow> keeps v s (obind m f)"
  by (cases m) auto

lemma keeps_deref [frame_intros]: "(\<And>i. p = Some i \<Longrightarrow> keeps v s (f i)) \<Longrightarrow> keeps v s (deref p f)"
  by (cases p) auto

lemma keeps_if [frame_intros]: "(b \<Longrightarrow> keeps v s m) \<Longrightarrow> (\<not> b \<Longrightarrow> keeps v s m') \<Longrightarrow> keeps v s (if b then m else m')"
  by simp

lemma keeps_option [frame_intros]:
  "(p = None \<Longrightarrow> keeps v s m) \<Longrightarrow> (\<And>x. p = Some x \<Longrightarrow> keeps v s (f x)) \<Longrightarrow> keeps v s (case p of None \<Rightarrow> m | Some x \<Rightarrow> f x)"
  by (cases p) auto

lemma keeps_fd_type [frame_intros]:
  "keeps v s a \<Longrightarrow> keeps v s b \<Longrightarrow> keeps v s c \<Longrightarrow> keeps v s d \<Longrightarrow>
    keeps v s (case k of FD_NONE \<Rightarrow> a | FD_PIPE \<Rightarrow> b | FD_INODE \<Rightarrow> c | FD_DEVICE \<Rightarrow> d)"
  by (cases k) auto

lemma keeps_prod_app [frame_intros]:
  "(\<And>x y. p = (x, y) \<Longrightarrow> keeps v s (f x y t)) \<Longrightarrow> keeps v s ((case p of (x, y) \<Rightarrow> f x y) t)"
  by (cases p) auto

lemma keeps_prod: "(\<And>x y. p = (x, y) \<Longrightarrow> keeps v s (f x y)) \<Longrightarrow> keeps v s (case p of (x, y) \<Rightarrow> f x y)"
  by (cases p) auto

text \<open>The same for the loops that can stop half way: a loop that stops to wait has lost the CPU.\<close>

definition ret_keeps :: "('a proc_state_scheme \<Rightarrow> 'v) \<Rightarrow> 'a proc_state_scheme \<Rightarrow> (progress, 'a proc_state_scheme) outcome \<Rightarrow> bool" where
  "ret_keeps v s m \<longleftrightarrow> (case m of Done (Ret r) t \<Rightarrow> v t = v s | Done (Blocked n) t \<Rightarrow> slept v s t | Panic e \<Rightarrow> True
    | Asleep c t \<Rightarrow> c \<noteq> ChNone \<and> slept v s t)"

lemma ret_keeps_simps [simp]: "ret_keeps v s (Done (Ret r) t) \<longleftrightarrow> v t = v s" "ret_keeps v s (Done (Blocked n) t) \<longleftrightarrow> slept v s t"
  "ret_keeps v s (Panic e)" "ret_keeps v s (Asleep c t) \<longleftrightarrow> c \<noteq> ChNone \<and> slept v s t"
  by (simp_all add: ret_keeps_def)

definition dead :: "proc \<Rightarrow> bool" where
  "dead p \<longleftrightarrow> p_state p = UNUSED \<or> p_state p = ZOMBIE"

text \<open>The operations on memory and page tables keep every view that does not depend on the pages and the free list.\<close>

locale mem_view =
  fixes view :: "'a proc_state_scheme \<Rightarrow> 'v"
  assumes view_mem [frame_intros]: "\<And>f s t. view t = view s \<Longrightarrow> view (mem_update f t) = view s"
    and view_freelist [frame_intros]: "\<And>f s t. view t = view s \<Longrightarrow> view (freelist_update f t) = view s"
begin

lemma view_if [frame_intros]: "(b \<Longrightarrow> view t = view s) \<Longrightarrow> (\<not> b \<Longrightarrow> view t' = view s) \<Longrightarrow> view (if b then t else t') = view s"
  by simp

section \<open>Memory\<close>

lemma view_memset_page [frame_intros]: "view t = view s \<Longrightarrow> view (memset_page pa c t) = view s"
  unfolding memset_page_def by (intro frame_intros)

lemma view_pte_set [frame_intros]: "view t = view s \<Longrightarrow> view (pte_set p v t) = view s"
  unfolding pte_set_def by (intro frame_intros)

lemma keeps_kfree [frame_intros]: "view t = view s \<Longrightarrow> keeps view s (kfree pa t)"
  unfolding kfree_def Let_def by (intro frame_intros)

lemma view_snd_kalloc: "view t = view s \<Longrightarrow> view (snd (kalloc t)) = view s"
  unfolding kalloc_def Let_def if_distrib [of snd] snd_conv by (intro frame_intros)

lemma view_kalloc: "view t = view s \<Longrightarrow> kalloc t = (pa, t') \<Longrightarrow> view t' = view s"
  using view_snd_kalloc [of t s] by simp

lemma keeps_kalloc [frame_intros]:
  "view t = view s \<Longrightarrow> (\<And>pa t'. kalloc t = (pa, t') \<Longrightarrow> view t' = view s \<Longrightarrow> keeps view s (f pa t')) \<Longrightarrow>
    keeps view s (case kalloc t of (pa, t') \<Rightarrow> f pa t')"
  by (rule keeps_prod) (blast intro: view_kalloc)

lemma view_walk_loop: "view t = view s \<Longrightarrow> walk_loop l pt va al t = (r, t') \<Longrightarrow> view t' = view s"
proof (induction l pt va al t rule: walk_loop.induct)
  case (2 l pt va al t)
  show ?case
  proof (cases "pte_get (pt, PX (Suc l) va) t AND PTE_V \<noteq> 0")
    case True
    then show ?thesis using "2.IH"(1) "2.prems" by simp
  next
    case False
    obtain pg u where k: "kalloc t = (pg, u)" by (cases "kalloc t")
    have "view u = view s" using "2.prems"(1) k by (rule view_kalloc)
    then have "view (pte_set (pt, PX (Suc l) va) (PA2PTE pg OR PTE_V) (memset_page pg 0 u)) = view s" by (intro frame_intros)
    then show ?thesis using "2.IH"(2) [OF refl] "2.prems" False k \<open>view u = view s\<close> by (auto split: if_splits)
  qed
qed auto

lemma keeps_walk [frame_intros]: "view t = view s \<Longrightarrow> keeps view s (walk pt va al t)"
  unfolding walk_def by (auto split: prod.split intro: view_walk_loop)

lemma keeps_walkaddr [frame_intros]: "view t = view s \<Longrightarrow> keeps view s (walkaddr pt va t)"
  unfolding walkaddr_def by (intro frame_intros)

lemma keeps_mappages_loop [frame_intros]: "view t = view s \<Longrightarrow> keeps view s (mappages_loop n pt a pa perm t)"
proof (induction n arbitrary: a pa t)
  case (Suc n)
  show ?case unfolding mappages_loop.simps by (intro frame_intros Suc)
qed simp

lemma keeps_mappages [frame_intros]: "view t = view s \<Longrightarrow> keeps view s (mappages pt va sz pa perm t)"
  unfolding mappages_def by (intro frame_intros)


lemma keeps_uvmunmap_page [frame_intros]: "view t = view s \<Longrightarrow> keeps view s (uvmunmap_page pt a df t)"
  unfolding uvmunmap_page_def by (intro frame_intros)

lemma keeps_uvmunmap_loop [frame_intros]: "view t = view s \<Longrightarrow> keeps view s (uvmunmap_loop n pt a df t)"
proof (induction n arbitrary: a t)
  case (Suc n)
  show ?case unfolding uvmunmap_loop.simps by (intro frame_intros Suc)
qed simp

lemma keeps_uvmunmap [frame_intros]: "view t = view s \<Longrightarrow> keeps view s (uvmunmap pt va n df t)"
  unfolding uvmunmap_def Let_def by (intro frame_intros)

lemma keeps_uvmdealloc [frame_intros]: "view t = view s \<Longrightarrow> keeps view s (uvmdealloc pt old new t)"
  unfolding uvmdealloc_def Let_def by (intro frame_intros)

lemma keeps_uvmalloc_loop [frame_intros]: "view t = view s \<Longrightarrow> keeps view s (uvmalloc_loop n pt a old new xp t)"
proof (induction n arbitrary: a t)
  case (Suc n)
  show ?case unfolding uvmalloc_loop.simps by (intro frame_intros Suc)
qed simp

lemma keeps_uvmalloc [frame_intros]: "view t = view s \<Longrightarrow> keeps view s (uvmalloc pt old new xp t)"
  unfolding uvmalloc_def Let_def by (intro frame_intros)

lemma keeps_freewalk:
  "view t = view s \<Longrightarrow> keeps view s (freewalk d pt t)"
  "view u = view s \<Longrightarrow> keeps view s (freewalk_loop d' pt' is u)"
proof (induction d pt t and d' pt' "is" u rule: freewalk_freewalk_loop.induct)
  case (2 d pt t)
  show ?case unfolding freewalk.simps by (intro frame_intros 2)
next
  case (4 d pt i "is" u)
  show ?case unfolding freewalk_loop.simps Let_def
    by (rule keeps_if) (rule keeps_obind | rule keeps_if | rule 4 | rule refl | intro frame_intros | assumption)+
qed simp_all

lemma keeps_uvmfree [frame_intros]: "view t = view s \<Longrightarrow> keeps view s (uvmfree pt sz t)"
  unfolding uvmfree_def by (intro frame_intros keeps_freewalk)

lemma keeps_uvmcopy_loop [frame_intros]: "view t = view s \<Longrightarrow> keeps view s (uvmcopy_loop n old new i t)"
proof (induction n arbitrary: i t)
  case (Suc n)
  show ?case unfolding uvmcopy_loop.simps Let_def by (intro frame_intros Suc)
qed simp

lemma keeps_uvmcopy [frame_intros]: "view t = view s \<Longrightarrow> keeps view s (uvmcopy old new sz t)"
  unfolding uvmcopy_def by (intro frame_intros)

lemma keeps_uvmclear [frame_intros]: "view t = view s \<Longrightarrow> keeps view s (uvmclear pt va t)"
  unfolding uvmclear_def by (intro frame_intros)

lemma keeps_ismapped [frame_intros]: "view t = view s \<Longrightarrow> keeps view s (ismapped pt va t)"
  unfolding ismapped_def by (intro frame_intros)

lemma keeps_uvmcreate [frame_intros]:
  assumes "view t = view s" and f: "\<And>pt t'. view t' = view s \<Longrightarrow> keeps view s (f pt t')"
  shows "keeps view s (case uvmcreate t of (pt, t') \<Rightarrow> f pt t')"
proof -
  obtain pa u where k: "kalloc t = (pa, u)" by (cases "kalloc t")
  have u: "view u = view s" using assms(1) k by (rule view_kalloc)
  show ?thesis using f [OF u, of 0] f [OF view_memset_page [OF u], of pa pa 0] by (simp add: uvmcreate_def k)
qed

lemma keeps_proc_pagetable [frame_intros]: "view t = view s \<Longrightarrow> keeps view s (proc_pagetable p t)"
  unfolding proc_pagetable_def by (intro frame_intros)

lemma keeps_proc_freepagetable [frame_intros]: "view t = view s \<Longrightarrow> keeps view s (proc_freepagetable pt sz t)"
  unfolding proc_freepagetable_def by (intro frame_intros)

end

text \<open>The other operations also change processes, pipes, the console, buffers, the log, inodes and files.\<close>

locale state_view = mem_view view for view :: "'a file_state_scheme \<Rightarrow> 'v" +
  assumes view_nextpid [frame_intros]: "\<And>f s t. view t = view s \<Longrightarrow> view (nextpid_update f t) = view s"
    and view_wakeup [frame_intros]: "\<And>c s t. view t = view s \<Longrightarrow> view (wakeup c t) = view s"
    and view_proc: "\<And>i f s t. view t = view s \<Longrightarrow> (\<And>p. p_ofile (f p) = p_ofile p \<and> dead (f p) = dead p) \<Longrightarrow>
      view (set_proc i f t) = view s"
    and view_file: "\<And>i g s t. view t = view s \<Longrightarrow> (\<And>f. f_ref (g f) = f_ref f) \<Longrightarrow> view (set_file i g t) = view s"
    and view_pipes [frame_intros]: "\<And>f s t. view t = view s \<Longrightarrow> view (pipes_update f t) = view s"
    and view_uart_out [frame_intros]: "\<And>f s t. view t = view s \<Longrightarrow> view (uart_out_update f t) = view s"
    and view_uart_idle [frame_intros]: "\<And>f s t. view t = view s \<Longrightarrow> view (uart_idle_update f t) = view s"
    and view_tx_busy [frame_intros]: "\<And>f s t. view t = view s \<Longrightarrow> view (tx_busy_update f t) = view s"
    and view_cons_r [frame_intros]: "\<And>f s t. view t = view s \<Longrightarrow> view (cons_r_update f t) = view s"
    and view_bufs [frame_intros]: "\<And>f s t. view t = view s \<Longrightarrow> view (bufs_update f t) = view s"
    and view_lru [frame_intros]: "\<And>f s t. view t = view s \<Longrightarrow> view (lru_update f t) = view s"
    and view_disk [frame_intros]: "\<And>f s t. view t = view s \<Longrightarrow> view (disk_update f t) = view s"
    and view_disk_writes [frame_intros]: "\<And>f s t. view t = view s \<Longrightarrow> view (disk_writes_update f t) = view s"
    and view_outstanding [frame_intros]: "\<And>f s t. view t = view s \<Longrightarrow> view (log_outstanding_update f t) = view s"
    and view_committing [frame_intros]: "\<And>f s t. view t = view s \<Longrightarrow> view (log_committing_update f t) = view s"
    and view_lh_n [frame_intros]: "\<And>f s t. view t = view s \<Longrightarrow> view (lh_n_update f t) = view s"
    and view_lh_block [frame_intros]: "\<And>f s t. view t = view s \<Longrightarrow> view (lh_block_update f t) = view s"
    and view_inodes [frame_intros]: "\<And>f s t. view t = view s \<Longrightarrow> view (inodes_update f t) = view s"
begin

lemma keeps_sleep [frame_intros]: "view t = view s \<Longrightarrow> c \<noteq> ChNone \<Longrightarrow> keeps view s (sleep c t)"
  using slept_asleep [of view t s c] by (simp add: sleep_def sched_def asleep_def)

lemma keeps_growproc [frame_intros]: "view t = view s \<Longrightarrow> keeps view s (growproc n t)"
  unfolding growproc_def Let_def by (intro frame_intros view_proc) (simp_all add: dead_def)

section \<open>Copying\<close>

lemma keeps_vmfault [frame_intros]: "view t = view s \<Longrightarrow> keeps view s (vmfault pt va t)"
  unfolding vmfault_def Let_def by (intro frame_intros)

lemma keeps_user_page [frame_intros]: "view t = view s \<Longrightarrow> keeps view s (user_page pt va t)"
  unfolding user_page_def by (intro frame_intros)

lemma keeps_copyout [frame_intros]: "view t = view s \<Longrightarrow> keeps view s (copyout pt va src t)"
proof (induction pt va src t rule: copyout.induct)
  case (1 pt va src t)
  show ?case by (subst copyout.simps, unfold Let_def) (intro frame_intros "1.prems" "1.IH" refl | rule keeps_prod | assumption)+
qed

lemma keeps_copyin [frame_intros]: "view t = view s \<Longrightarrow> keeps view s (copyin pt va len t)"
proof (induction len arbitrary: va t rule: less_induct)
  case (less len)
  show ?case by (subst copyin.simps, unfold Let_def) (intro frame_intros less | simp add: chunk_pos)+
qed

lemma keeps_copyinstr [frame_intros]: "view t = view s \<Longrightarrow> keeps view s (copyinstr pt va mx t)"
proof (induction mx arbitrary: va t rule: less_induct)
  case (less mx)
  show ?case by (subst copyinstr.simps, unfold Let_def) (intro frame_intros less | rule keeps_prod | simp add: chunk_pos)+
qed

lemma view_phys_write [frame_intros]: "view t = view s \<Longrightarrow> view (phys_write pa bs t) = view s"
  unfolding phys_write_def by (intro frame_intros)

lemma keeps_either_copyout [frame_intros]: "view t = view s \<Longrightarrow> keeps view s (either_copyout dst src t)"
  unfolding either_copyout_def by (cases dst) (simp_all add: frame_intros)

lemma keeps_either_copyin [frame_intros]: "view t = view s \<Longrightarrow> keeps view s (either_copyin src kb len t)"
  unfolding either_copyin_def by (cases src) (simp_all add: frame_intros)

section \<open>Pipes and the console\<close>

lemma view_set_pipe [frame_intros]: "view t = view s \<Longrightarrow> view (set_pipe pi f t) = view s"
  unfolding set_pipe_def by (intro frame_intros)

lemma keeps_pipeclose [frame_intros]: "view t = view s \<Longrightarrow> keeps view s (pipeclose pi w t)"
  unfolding pipeclose_def Let_def by (intro frame_intros)

lemma keeps_piperead_loop [frame_intros]: "view t = view s \<Longrightarrow> keeps view s (piperead_loop pi addr i n t)"
proof (induction n arbitrary: i t)
  case (Suc n)
  show ?case unfolding piperead_loop.simps by (intro frame_intros Suc | rule keeps_prod)+
qed simp

lemma keeps_piperead [frame_intros]: "view t = view s \<Longrightarrow> keeps view s (piperead pi addr n t)"
  unfolding piperead_def by (intro frame_intros) simp_all

lemma ret_keeps_obind:
  "keeps view s m \<Longrightarrow> (\<And>a t. m = Done a t \<Longrightarrow> view t = view s \<Longrightarrow> ret_keeps view s (f a t)) \<Longrightarrow> ret_keeps view s (obind m f)"
  by (cases m) auto

lemma ret_keeps_blocked:
  "view t = view s \<Longrightarrow> ret_keeps view s (case sleep c t of Asleep c t \<Rightarrow> Done (Blocked n) t | Panic e \<Rightarrow> Panic e | Done r t \<Rightarrow> Done r t)"
  using slept_asleep [of view t s c] by (simp add: sleep_def sched_def asleep_def)

lemma keeps_ret: "ret_keeps view s m \<Longrightarrow> c \<noteq> ChNone \<Longrightarrow> keeps view s (obind m (\<lambda>r t. case r of Ret v \<Rightarrow> Done v t | Blocked i \<Rightarrow> Asleep c t))"
  by (cases m) (auto split: progress.splits simp: ret_keeps_def)

lemma ret_keeps_pipewrite_loop: "view t = view s \<Longrightarrow> ret_keeps view s (pipewrite_loop pi addr i n t)"
proof (induction n arbitrary: i t)
  case 0
  then show ?case by (simp add: view_wakeup)
next
  case (Suc n)
  have "ret_keeps view s (obind (copyin (p_pagetable (proc_at t (cur t))) (addr + of_nat i) 1 t) (\<lambda>(r, ch) t.
      if r = -1 then Done (Ret (int i)) (wakeup (ChPipeRead pi) t) else pipewrite_loop pi addr (Suc i) n (set_pipe pi (pipe_put (hd ch)) t)))"
    by (rule ret_keeps_obind, rule keeps_copyin [OF Suc.prems]) (auto intro!: Suc.IH [OF view_set_pipe] simp: view_wakeup)
  then show ?case using Suc.prems by (simp add: ret_keeps_blocked view_wakeup)
qed

lemma keeps_pipewrite [frame_intros]: "view t = view s \<Longrightarrow> keeps view s (pipewrite pi addr n t)"
  unfolding pipewrite_def by (rule keeps_ret [OF ret_keeps_pipewrite_loop]) simp_all

lemma ret_keeps_consoleread_loop: "view t = view s \<Longrightarrow> ret_keeps view s (consoleread_loop dst target n t)"
proof (induction n arbitrary: t)
  case (Suc n)
  have r: "view (cons_r_update f t) = view s" for f using Suc.prems by (rule view_cons_r)
  have "ret_keeps view s (obind (either_copyout (place_add dst (target - Suc n)) [c] (t\<lparr>cons_r := x\<rparr>)) (\<lambda>r t.
      if r = -1 then Done (Ret (int (target - Suc n))) t else if c = NL then Done (Ret (int (target - n))) t
      else consoleread_loop dst target n t))" for c x
    by (rule ret_keeps_obind, rule keeps_either_copyout [OF r]) (auto intro: Suc.IH)
  then show ?case using Suc.prems by (simp add: ret_keeps_blocked Let_def r view_cons_r)
qed simp

lemma keeps_consoleread [frame_intros]: "view t = view s \<Longrightarrow> keeps view s (consoleread dst n t)"
  unfolding consoleread_def by (intro keeps_if keeps_Done keeps_ret ret_keeps_consoleread_loop) simp_all

lemma view_write_THR [frame_intros]: "view t = view s \<Longrightarrow> view (write_THR c t) = view s"
  unfolding write_THR_def by (intro frame_intros)

lemma view_consputc: "view t = view s \<Longrightarrow> view (consputc c t) = view s"
  unfolding consputc_def uartputc_sync_def uart_sent_def by (intro frame_intros)

lemma view_kprintf [frame_intros]: "view t = view s \<Longrightarrow> view (kprintf fmt ap t) = view s"
proof -
  have "view t = view s \<Longrightarrow> view (fold consputc out t) = view s" for out
    by (induction out arbitrary: t) (simp_all add: view_consputc)
  then show "view t = view s \<Longrightarrow> ?thesis" by (simp add: kprintf_def split: option.split)
qed

lemma uartwrite_keeps: "view t = view s \<Longrightarrow> uartwrite buf t = Done rest t' \<Longrightarrow> if rest = [] then view t' = view s else slept view s t'"
proof (induction buf arbitrary: t)
  case (Cons b buf)
  have v: "view ((write_THR b t)\<lparr>tx_busy := 1\<rparr>) = view s" by (intro frame_intros Cons.prems)
  have "slept view s (asleep ChUart t)" using Cons.prems(1) by (rule slept_asleep)
  then show ?case using Cons.prems(2) Cons.IH [OF v] by (auto simp: sleep_def sched_def asleep_def split: if_splits)
qed simp

lemma uartwrite_done: "\<exists>rest t'. uartwrite buf t = Done rest t' \<or> (\<exists>e. uartwrite buf t = Panic e)"
  by (induction buf arbitrary: t) (auto simp: sleep_def sched_def)

lemma consolewrite_from_keeps:
  assumes "view t = view s"
  shows "case consolewrite_from src n i buf t of Done (CRet r) t' \<Rightarrow> view t' = view s | Done (CBlocked j b) t' \<Rightarrow> slept view s t'
    | Panic e \<Rightarrow> True | Asleep c t' \<Rightarrow> c \<noteq> ChNone \<and> slept view s t'"
  using assms
proof (induction "n - i" arbitrary: i buf t rule: less_induct)
  case less
  show ?case
  proof (cases "uartwrite buf t")
    case (Done rest u)
    show ?thesis
    proof (cases "rest = [] \<and> i < n")
      case False
      then show ?thesis using Done uartwrite_keeps [OF less.prems, of buf rest u] by (subst consolewrite_from.simps) auto
    next
      case True
      have u: "view u = view s" using uartwrite_keeps [OF less.prems, of buf rest u] Done True by simp
      have k: "keeps view s (either_copyin (place_add src i) [] (min 32 (n - i)) u)" by (rule keeps_either_copyin [OF u])
      show ?thesis
        using Done True k less.hyps [of "i + min 32 (n - i)"]
        by (subst consolewrite_from.simps) (cases "either_copyin (place_add src i) [] (min 32 (n - i)) u"; auto simp: Let_def)
    qed
  qed (use uartwrite_done [of buf t] in \<open>auto simp: consolewrite_from.simps [of src n i buf t]\<close>)
qed

lemma keeps_consolewrite [frame_intros]: "view t = view s \<Longrightarrow> keeps view s (consolewrite src n t)"
  unfolding consolewrite_def using consolewrite_from_keeps [of t s src "nat n" 0 "[]"]
  by (auto split: outcome.splits cons_progress.splits)

section \<open>Buffers and the log\<close>

lemma view_set_buf [frame_intros]: "view t = view s \<Longrightarrow> view (set_buf b f t) = view s"
  unfolding set_buf_def by (intro frame_intros)

lemma view_virtio_disk_rw [frame_intros]: "view t = view s \<Longrightarrow> view (virtio_disk_rw b w t) = view s"
  unfolding virtio_disk_rw_def Let_def by (intro frame_intros)

lemma keeps_acquire_buf [frame_intros]: "view t = view s \<Longrightarrow> keeps view s (acquiresleep (ChBufLock b) lk (upd_buf_lock b) t)"
  unfolding acquiresleep_def by (intro frame_intros) simp_all

lemma view_release_buf [frame_intros]: "view t = view s \<Longrightarrow> view (releasesleep c (upd_buf_lock b) t) = view s"
  unfolding releasesleep_def by (intro frame_intros)

lemma keeps_bget [frame_intros]: "view t = view s \<Longrightarrow> keeps view s (bget dev bno t)"
  unfolding bget_def Let_def by (intro frame_intros)

lemma keeps_bread [frame_intros]: "view t = view s \<Longrightarrow> keeps view s (bread dev bno t)"
  unfolding bread_def by (intro frame_intros)

lemma keeps_bwrite [frame_intros]: "view t = view s \<Longrightarrow> keeps view s (bwrite b t)"
  unfolding bwrite_def by (intro frame_intros)

lemma keeps_brelse [frame_intros]: "view t = view s \<Longrightarrow> keeps view s (brelse b t)"
  unfolding brelse_def Let_def by (intro frame_intros)

lemma view_pin [frame_intros]: "view t = view s \<Longrightarrow> view (bpin b t) = view s" "view t = view s \<Longrightarrow> view (bunpin b t) = view s"
  unfolding bpin_def bunpin_def by (intro frame_intros; assumption)+

lemma view_upd_data [frame_intros]: "view t = view s \<Longrightarrow> view (upd_data b f t) = view s"
  unfolding upd_data_def by (intro frame_intros)

lemma keeps_install_block [frame_intros]: "view t = view s \<Longrightarrow> keeps view s (install_block r k t)"
  unfolding install_block_def Let_def by (intro frame_intros)

lemma keeps_install_loop [frame_intros]: "view t = view s \<Longrightarrow> keeps view s (install_loop r tls t)"
proof (induction tls arbitrary: t)
  case (Cons k tls)
  show ?case unfolding install_loop.simps by (intro frame_intros Cons)
qed simp

lemma keeps_install_trans [frame_intros]: "view t = view s \<Longrightarrow> keeps view s (install_trans r t)"
  unfolding install_trans_def by (intro frame_intros)

lemma keeps_write_head [frame_intros]: "view t = view s \<Longrightarrow> keeps view s (write_head t)"
  unfolding write_head_def Let_def by (intro frame_intros)

lemma keeps_write_log_block [frame_intros]: "view t = view s \<Longrightarrow> keeps view s (write_log_block k t)"
  unfolding write_log_block_def Let_def by (intro frame_intros)

lemma keeps_write_log_loop [frame_intros]: "view t = view s \<Longrightarrow> keeps view s (write_log_loop tls t)"
proof (induction tls arbitrary: t)
  case (Cons k tls)
  show ?case unfolding write_log_loop.simps by (intro frame_intros Cons)
qed simp

lemma keeps_commit [frame_intros]: "view t = view s \<Longrightarrow> keeps view s (commit t)"
  unfolding commit_def write_log_def by (intro frame_intros)

lemma keeps_begin_op [frame_intros]: "view t = view s \<Longrightarrow> keeps view s (begin_op t)"
  unfolding begin_op_def by (intro frame_intros) simp_all

lemma keeps_end_op [frame_intros]: "view t = view s \<Longrightarrow> keeps view s (end_op t)"
  unfolding end_op_def Let_def by (intro frame_intros)

lemma keeps_log_write [frame_intros]: "view t = view s \<Longrightarrow> keeps view s (log_write b t)"
  unfolding log_write_def Let_def by (intro frame_intros)

section \<open>The file system\<close>

lemma view_set_inode [frame_intros]: "view t = view s \<Longrightarrow> view (set_inode i f t) = view s"
  unfolding set_inode_def by (intro frame_intros)

lemma keeps_bzero [frame_intros]: "view t = view s \<Longrightarrow> keeps view s (bzero dev bno t)"
  unfolding bzero_def Let_def by (intro frame_intros)

lemma keeps_balloc_loop [frame_intros]: "view t = view s \<Longrightarrow> keeps view s (balloc_loop dev bs t)"
proof (induction bs arbitrary: t)
  case (Cons b bs)
  show ?case unfolding balloc_loop.simps Let_def by (intro frame_intros Cons)
qed (simp add: view_kprintf)

lemma keeps_balloc [frame_intros]: "view t = view s \<Longrightarrow> keeps view s (balloc dev t)"
  unfolding balloc_def by (intro frame_intros)

lemma keeps_bfree [frame_intros]: "view t = view s \<Longrightarrow> keeps view s (bfree dev b t)"
  unfolding bfree_def Let_def by (intro frame_intros)

lemma keeps_iget [frame_intros]: "view t = view s \<Longrightarrow> keeps view s (iget dev inum t)"
  unfolding iget_def by (intro frame_intros)

lemma view_idup [frame_intros]: "view t = view s \<Longrightarrow> view (idup ip t) = view s"
  unfolding idup_def by (intro frame_intros)

lemma keeps_ialloc_loop [frame_intros]: "view t = view s \<Longrightarrow> keeps view s (ialloc_loop dev ty is t)"
proof (induction "is" arbitrary: t)
  case (Cons i "is")
  show ?case unfolding ialloc_loop.simps Let_def by (intro frame_intros Cons)
qed (simp add: view_kprintf)

lemma keeps_ialloc [frame_intros]: "view t = view s \<Longrightarrow> keeps view s (ialloc dev ty t)"
  unfolding ialloc_def by (intro frame_intros)

lemma keeps_iupdate [frame_intros]: "view t = view s \<Longrightarrow> keeps view s (iupdate ip t)"
  unfolding iupdate_def Let_def by (intro frame_intros)

lemma keeps_acquire_inode [frame_intros]: "view t = view s \<Longrightarrow> keeps view s (acquiresleep (ChInodeLock b) lk (upd_inode_lock b) t)"
  unfolding acquiresleep_def by (intro frame_intros) simp_all

lemma view_release_inode [frame_intros]: "view t = view s \<Longrightarrow> view (releasesleep c (upd_inode_lock b) t) = view s"
  unfolding releasesleep_def by (intro frame_intros)

lemma keeps_ilock [frame_intros]: "view t = view s \<Longrightarrow> keeps view s (ilock ip t)"
  unfolding ilock_def Let_def by (intro frame_intros)

lemma keeps_iunlock [frame_intros]: "view t = view s \<Longrightarrow> keeps view s (iunlock ip t)"
  unfolding iunlock_def by (intro frame_intros)

lemma keeps_bmap [frame_intros]: "view t = view s \<Longrightarrow> keeps view s (bmap ip bn t)"
  unfolding bmap_def Let_def by (intro frame_intros)

lemma keeps_itrunc_direct [frame_intros]: "view t = view s \<Longrightarrow> keeps view s (itrunc_direct ip is t)"
proof (induction "is" arbitrary: t)
  case (Cons i "is")
  show ?case unfolding itrunc_direct.simps Let_def by (intro frame_intros Cons)
qed simp

lemma keeps_itrunc_indirect [frame_intros]: "view t = view s \<Longrightarrow> keeps view s (itrunc_indirect dev bp js t)"
proof (induction js arbitrary: t)
  case (Cons j js)
  show ?case unfolding itrunc_indirect.simps Let_def by (intro frame_intros Cons)
qed simp

lemma keeps_itrunc [frame_intros]: "view t = view s \<Longrightarrow> keeps view s (itrunc ip t)"
  unfolding itrunc_def Let_def by (intro frame_intros)

lemma keeps_iput [frame_intros]: "view t = view s \<Longrightarrow> keeps view s (iput ip t)"
  unfolding iput_def by (intro frame_intros)

lemma keeps_iunlockput [frame_intros]: "view t = view s \<Longrightarrow> keeps view s (iunlockput ip t)"
  unfolding iunlockput_def by (intro frame_intros)

lemma keeps_readi_loop [frame_intros]: "view t = view s \<Longrightarrow> keeps view s (readi_loop ip dst off n t)"
proof (induction n arbitrary: dst off t rule: less_induct)
  case (less n)
  show ?case by (subst readi_loop.simps, unfold Let_def) (intro frame_intros less | simp)+
qed

lemma keeps_readi [frame_intros]: "view t = view s \<Longrightarrow> keeps view s (readi ip dst off n t)"
  unfolding readi_def Let_def by (intro frame_intros)

lemma keeps_writei_loop [frame_intros]: "view t = view s \<Longrightarrow> keeps view s (writei_loop ip src kb off n t)"
proof (induction n arbitrary: src kb off t rule: less_induct)
  case (less n)
  show ?case by (subst writei_loop.simps, unfold Let_def) (intro frame_intros less | simp)+
qed

lemma keeps_writei [frame_intros]: "view t = view s \<Longrightarrow> keeps view s (writei ip src kb off n t)"
  unfolding writei_def Let_def by (intro frame_intros)

lemma keeps_dirlookup_loop [frame_intros]: "view t = view s \<Longrightarrow> keeps view s (dirlookup_loop dp nm sz off t)"
proof (induction "sz - off" arbitrary: off t rule: less_induct)
  case less
  show ?case by (subst dirlookup_loop.simps) (intro frame_intros less | simp)+
qed

lemma keeps_dirlookup [frame_intros]: "view t = view s \<Longrightarrow> keeps view s (dirlookup dp nm t)"
  unfolding dirlookup_def by (intro frame_intros)

lemma keeps_dirlink_loop [frame_intros]: "view t = view s \<Longrightarrow> keeps view s (dirlink_loop dp sz off t)"
proof (induction "sz - off" arbitrary: off t rule: less_induct)
  case less
  show ?case by (subst dirlink_loop.simps) (intro frame_intros less | simp)+
qed

lemma keeps_dirlink [frame_intros]: "view t = view s \<Longrightarrow> keeps view s (dirlink dp nm inum t)"
  unfolding dirlink_def Let_def by (intro frame_intros | assumption | rule keeps_prod)+

lemma keeps_namex_loop [frame_intros]: "view t = view s \<Longrightarrow> keeps view s (namex_loop ip path par nm t)"
proof (induction path arbitrary: ip nm t rule: length_induct)
  case (1 path)
  have IH: "length p < length path \<Longrightarrow> view t = view s \<Longrightarrow> keeps view s (namex_loop ip p par nm t)" for p ip nm t
    using "1.IH" by blast
  show ?case by (subst namex_loop.simps) (intro frame_intros "1.prems" IH | rule keeps_prod | simp add: skipelem_shorter)+
qed

lemma keeps_namex [frame_intros]: "view t = view s \<Longrightarrow> keeps view s (namex path par nm t)"
  unfolding namex_def by (intro frame_intros)

lemma keeps_namei [frame_intros]: "view t = view s \<Longrightarrow> keeps view s (namei path t)"
  unfolding namei_def by (intro frame_intros)

lemma keeps_nameiparent [frame_intros]: "view t = view s \<Longrightarrow> keeps view s (nameiparent path nm t)"
  unfolding nameiparent_def by (intro frame_intros)

section \<open>Files and programs\<close>

lemma keeps_fetchaddr [frame_intros]: "view t = view s \<Longrightarrow> keeps view s (fetchaddr addr t)"
  unfolding fetchaddr_def Let_def by (intro frame_intros)

lemma keeps_fetchstr [frame_intros]: "view t = view s \<Longrightarrow> keeps view s (fetchstr addr mx t)"
  unfolding fetchstr_def by (intro frame_intros)

lemma keeps_argraw [frame_intros]: "view t = view s \<Longrightarrow> keeps view s (argraw n t)"
  unfolding argraw_def by (intro frame_intros)

lemma keeps_args [frame_intros]:
  "view t = view s \<Longrightarrow> keeps view s (argint n t)" "view t = view s \<Longrightarrow> keeps view s (argaddr n t)"
  "view t = view s \<Longrightarrow> keeps view s (argstr n mx t)" "view t = view s \<Longrightarrow> keeps view s (argfd n t)"
  unfolding argint_def argaddr_def argstr_def argfd_def by (intro frame_intros; assumption)+

lemma view_tf_set [frame_intros]: "view t = view s \<Longrightarrow> view (tf_set p k v t) = view s"
  unfolding tf_set_def Let_def by (intro frame_intros)

lemma keeps_dev_call [frame_intros]: "view t = view s \<Longrightarrow> keeps view s (dev_call fn p n t)"
  unfolding dev_call_def by (cases fn) (simp_all add: frame_intros)

lemma keeps_filestat [frame_intros]: "view t = view s \<Longrightarrow> keeps view s (filestat pad f addr t)"
  unfolding filestat_def Let_def by (intro frame_intros)

lemma keeps_isdirempty_loop [frame_intros]: "view t = view s \<Longrightarrow> keeps view s (isdirempty_loop dp sz off t)"
proof (induction "sz - off" arbitrary: off t rule: less_induct)
  case less
  show ?case by (subst isdirempty_loop.simps) (intro frame_intros less | simp)+
qed

lemma keeps_create_fail [frame_intros]: "view t = view s \<Longrightarrow> keeps view s (create_fail dp ip t)"
  unfolding create_fail_def by (intro frame_intros)

lemma keeps_create_new [frame_intros]: "view t = view s \<Longrightarrow> keeps view s (create_new dp nm ip ty ma mi t)"
  unfolding create_new_def by (intro frame_intros)

lemma keeps_create [frame_intros]: "view t = view s \<Longrightarrow> keeps view s (create path ty ma mi t)"
  unfolding create_def by (intro frame_intros | assumption | rule keeps_prod)+

lemma keeps_link_bad [frame_intros]: "view t = view s \<Longrightarrow> keeps view s (link_bad ip t)"
  unfolding link_bad_def by (intro frame_intros)

lemma keeps_sys_link [frame_intros]: "view t = view s \<Longrightarrow> keeps view s (sys_link t)"
  unfolding sys_link_def by (intro frame_intros)

lemma keeps_unlink [frame_intros]: "view t = view s \<Longrightarrow> keeps view s (unlink_bad dp t)"
  "view t = view s \<Longrightarrow> keeps view s (unlink_entry dp ip off t)"
  unfolding unlink_bad_def unlink_entry_def by (intro frame_intros; assumption)+

lemma keeps_sys_unlink [frame_intros]: "view t = view s \<Longrightarrow> keeps view s (sys_unlink t)"
  unfolding sys_unlink_def isdirempty_def by (intro frame_intros | assumption | rule keeps_prod)+

lemma keeps_open_inode [frame_intros]: "view t = view s \<Longrightarrow> keeps view s (open_inode path om t)"
  unfolding open_inode_def by (intro frame_intros)

lemma keeps_open_fail [frame_intros]: "view t = view s \<Longrightarrow> keeps view s (open_fail ip t)"
  unfolding open_fail_def by (intro frame_intros)

lemma keeps_sys_mkdir [frame_intros]: "view t = view s \<Longrightarrow> keeps view s (sys_mkdir t)"
  unfolding sys_mkdir_def by (intro frame_intros)

lemma keeps_sys_mknod [frame_intros]: "view t = view s \<Longrightarrow> keeps view s (sys_mknod t)"
  unfolding sys_mknod_def by (intro frame_intros)

lemma keeps_sys_chdir [frame_intros]: "view t = view s \<Longrightarrow> keeps view s (sys_chdir t)"
  unfolding sys_chdir_def by (intro frame_intros view_proc) (simp_all add: dead_def)

lemma keeps_loadseg_loop [frame_intros]: "view t = view s \<Longrightarrow> keeps view s (loadseg_loop pt va ip off sz i t)"
proof (induction "sz - i" arbitrary: i t rule: less_induct)
  case less
  show ?case by (subst loadseg_loop.simps, unfold Let_def) (intro frame_intros less | simp)+
qed

lemma keeps_load_segment [frame_intros]: "view t = view s \<Longrightarrow> keeps view s (load_segment pt ip ph sz t)"
  unfolding load_segment_def loadseg_def by (intro frame_intros)

lemma keeps_load_program [frame_intros]: "view t = view s \<Longrightarrow> keeps view s (load_program pt ip k off sz t)"
proof (induction k arbitrary: off sz t)
  case (Suc k)
  show ?case unfolding load_program.simps by (intro frame_intros Suc)
qed simp

lemma keeps_push_args [frame_intros]: "view t = view s \<Longrightarrow> keeps view s (push_args pt base args sp us t)"
proof (induction args arbitrary: sp us t)
  case (Cons a args)
  show ?case unfolding push_args.simps Let_def by (intro frame_intros Cons)
qed simp

lemma keeps_push_stack [frame_intros]: "view t = view s \<Longrightarrow> keeps view s (push_stack pt base argv sp t)"
  unfolding push_stack_def Let_def by (intro frame_intros | assumption | rule keeps_prod)+

lemma keeps_kexec_bad [frame_intros]: "view t = view s \<Longrightarrow> keeps view s (kexec_bad pt sz ip t)"
  unfolding kexec_bad_def by (intro frame_intros)

lemma keeps_kexec_commit [frame_intros]: "view t = view s \<Longrightarrow> keeps view s (kexec_commit path elf pt sz sp t)"
  unfolding kexec_commit_def Let_def by (intro frame_intros view_proc) (simp_all add: dead_def)

lemma keeps_kexec_stack [frame_intros]: "view t = view s \<Longrightarrow> keeps view s (kexec_stack path argv elf pt sz t)"
  unfolding kexec_stack_def Let_def by (intro frame_intros)

lemma keeps_kexec [frame_intros]: "view t = view s \<Longrightarrow> keeps view s (kexec path argv t)"
  unfolding kexec_def Let_def by (intro frame_intros)

lemma keeps_sys_exec_loop [frame_intros]: "view t = view s \<Longrightarrow> keeps view s (sys_exec_loop is ua pgs strs t)"
proof (induction "is" arbitrary: pgs strs t)
  case (Cons i "is")
  show ?case unfolding sys_exec_loop.simps by (intro frame_intros Cons)
qed simp

lemma keeps_kfree_all [frame_intros]: "view t = view s \<Longrightarrow> keeps view s (kfree_all pas t)"
proof (induction pas arbitrary: t)
  case (Cons pa pas)
  show ?case unfolding kfree_all.simps by (intro frame_intros Cons)
qed simp

lemma keeps_sys_exec [frame_intros]: "view t = view s \<Longrightarrow> keeps view s (sys_exec t)"
  unfolding sys_exec_def by (intro frame_intros)

section \<open>System calls that change neither files nor descriptors\<close>

lemma keeps_sys_fstat [frame_intros]: "view t = view s \<Longrightarrow> keeps view s (sys_fstat pad t)"
  unfolding sys_fstat_def by (intro frame_intros | assumption | rule keeps_prod)+

lemma keeps_sys_getpid [frame_intros]: "view t = view s \<Longrightarrow> keeps view s (sys_getpid t)"
  unfolding sys_getpid_def by (intro frame_intros)

lemma keeps_sys_sbrk [frame_intros]: "view t = view s \<Longrightarrow> keeps view s (sys_sbrk t)"
  unfolding sys_sbrk_def Let_def by (intro frame_intros view_proc) (simp_all add: dead_def)

lemma keeps_sys_kill [frame_intros]: "view t = view s \<Longrightarrow> keeps view s (sys_kill t)"
  unfolding sys_kill_def kkill_def
  by (intro frame_intros | assumption)+ (auto split: option.split prod.split if_splits intro!: view_proc simp: dead_def)

lemma keeps_sys_settickets [frame_intros]: "view t = view s \<Longrightarrow> keeps view s (sys_settickets t)"
  unfolding sys_settickets_def ksettickets_def
  by (intro frame_intros | assumption)+ (auto intro!: view_proc simp: dead_def)

lemma keeps_sys_getpinfo [frame_intros]: "view t = view s \<Longrightarrow> keeps view s (sys_getpinfo st t)"
  unfolding sys_getpinfo_def by (intro frame_intros | assumption | rule keeps_prod)+

lemma keeps_fileread [frame_intros]: "view t = view s \<Longrightarrow> keeps view s (fileread f addr n t)"
  unfolding fileread_def Let_def
  by (intro frame_intros view_file; (assumption | simp))

lemma keeps_filewrite_loop [frame_intros]: "view t = view s \<Longrightarrow> keeps view s (filewrite_loop f addr n i t)"
proof (induction "nat (n - i)" arbitrary: i t rule: less_induct)
  case less
  have "i < n \<Longrightarrow> nat (n - (i + (if n - i > max_chunk then max_chunk else n - i))) < nat (n - i)" by (simp add: max_chunk_def)
  then show ?case
    by (subst filewrite_loop.simps, unfold Let_def) (intro frame_intros view_file less.hyps less.prems; (assumption | simp))
qed

lemma keeps_filewrite [frame_intros]: "view t = view s \<Longrightarrow> keeps view s (filewrite f addr n t)"
  unfolding filewrite_def
  by (intro frame_intros)

lemma keeps_sys_read [frame_intros]: "view t = view s \<Longrightarrow> keeps view s (sys_read t)"
  unfolding sys_read_def by (intro frame_intros | assumption | rule keeps_prod)+

lemma keeps_sys_write [frame_intros]: "view t = view s \<Longrightarrow> keeps view s (sys_write t)"
  unfolding sys_write_def by (intro frame_intros | assumption | rule keeps_prod)+

lemma keeps_open_file [frame_intros]: "view t = view s \<Longrightarrow> keeps view s (open_file ip f fd om t)"
  unfolding open_file_def Let_def by (intro frame_intros view_file; (assumption | simp))

end

end
