(* ===== verification/Samples.thy ===== *)
theory Samples
  imports Trap Balloc
begin

text \<open>
  Concrete states of the whole kernel, on which the properties of system calls and traps are applied:
  process 0 runs and has file 0 open as descriptor 0; the other slots of the tables are free. The
  trap frame of the process is the page \<open>0x87FF0000\<close>.
\<close>

definition free_file :: kfile where
  "free_file = \<lparr>f_type = FD_NONE, f_ref = 0, f_readable = 0, f_writable = 0, f_pipe = 0, f_ip = None, f_off = 0, f_major = 0\<rparr>"

definition free_slot :: proc where
  "free_slot = ex_uproc\<lparr>p_state := UNUSED, p_pid := 0\<rparr>"

definition sample_proc :: proc where
  "sample_proc = ex_uproc\<lparr>p_trapframe := 0x87FF0000, p_ofile := Some 0 # replicate 15 None, p_cwd := Some 0\<rparr>"

definition sample_fs :: file_state where
  "sample_fs = fs_state.extend ((ex_fs (\<lambda>_ _. 0))\<lparr>procs := sample_proc # replicate 63 free_slot\<rparr>)
     \<lparr>ftable = free_file\<lparr>f_type := FD_PIPE, f_ref := 1\<rparr> # replicate 99 free_file, devtab = replicate NDEV \<lparr>dev_read = None, dev_write = None\<rparr>\<rparr>"

definition sample_vio :: vio_state where
  "sample_vio = file_state.extend sample_fs
     \<lparr>mmio_dev = (\<lambda>_ _. 0), mmio_writes = [], vq_pages = [], vq_desc = replicate NUM null_desc, avail_idx = 0,
      avail_ring = replicate NUM 0, used_idx = 0, used_ring = replicate NUM 0, vd_free = replicate NUM 1, vd_used_idx = 0,
      vd_info = replicate NUM \<lparr>in_b = None, in_status = 0\<rparr>,
      vd_ops = replicate NUM \<lparr>rq_type = 0, rq_reserved = 0, rq_sector = 0\<rparr>, buf_disk = (\<lambda>_. 0)\<rparr>"

text \<open>\<open>sample_kern tf\<close> has the trap frame \<open>tf\<close>.\<close>

definition sample_kern :: "page \<Rightarrow> kern_state" where
  "sample_kern tf = vio_state.extend (sample_vio\<lparr>mem := (mem sample_vio)(0x87FF0000 := tf)\<rparr>)
     \<lparr>ticks = 0, syscall_counts = replicate NSYSCALLS 0\<rparr>"

definition sample_hart :: "page \<Rightarrow> hart_state" where
  "sample_hart tf = kern_state.extend (sample_kern tf)
     \<lparr>r_sstatus = 0, r_scause = 8, r_sepc = 0x1000, r_stval = 0, r_stvec = 0, r_satp = 0, r_stimecmp = 0, time = 0,
      plic_claims = [], plic_writes = [], kernelvec_pc = 0x80004000, usertrap_pc = 0x80005000, uservec_off = 0, userret_off = 0x90,
      kernel_pagetable = 0, fork_first = False\<rparr>"

lemma sample_fs_simps:
  "procs sample_fs = sample_proc # replicate 63 free_slot"
  "ftable sample_fs = free_file\<lparr>f_type := FD_PIPE, f_ref := 1\<rparr> # replicate 99 free_file" "myproc sample_fs = Some 0"
  using ex_fs_facts(9) [of "\<lambda>_ _. 0"] by (simp_all add: sample_fs_def fs_state.defs myproc_def mycpu_def cpuid_def)

lemma sample_vio_simps:
  "procs sample_vio = sample_proc # replicate 63 free_slot" "ftable sample_vio = ftable sample_fs" "myproc sample_vio = Some 0"
  using sample_fs_simps by (simp_all add: sample_vio_def file_state.defs myproc_def mycpu_def cpuid_def)

lemma sample_kern_simps [simp]:
  "procs (sample_kern tf) = sample_proc # replicate 63 free_slot" "ftable (sample_kern tf) = free_file\<lparr>f_type := FD_PIPE, f_ref := 1\<rparr> # replicate 99 free_file"
  "myproc (sample_kern tf) = Some 0" "mem (sample_kern tf) 0x87FF0000 = tf" "syscall_counts (sample_kern tf) = replicate NSYSCALLS 0"
  using sample_fs_simps sample_vio_simps by (simp_all add: sample_kern_def vio_state.defs myproc_def mycpu_def cpuid_def)

lemma sample_hart_simps [simp]:
  "procs (sample_hart tf) = sample_proc # replicate 63 free_slot" "ftable (sample_hart tf) = free_file\<lparr>f_type := FD_PIPE, f_ref := 1\<rparr> # replicate 99 free_file"
  "myproc (sample_hart tf) = Some 0" "mem (sample_hart tf) 0x87FF0000 = tf"
  "r_sstatus (sample_hart tf) = 0" "r_scause (sample_hart tf) = 8"
  using sample_kern_simps [of tf] by (simp_all add: sample_hart_def kern_state.defs myproc_def mycpu_def cpuid_def)

end
