(* ===== verification/Descriptors.thy ===== *)
theory Descriptors
  imports Frames Samples
begin

text \<open>
  Reference counts of open files. The count of a file in \<^verbatim>\<open>ftable\<close> is the number of descriptors, of all
  processes, that refer to it; a process slot that is unused or a zombie has no descriptors. This is
  an invariant of every system call, \<^verbatim>\<open>exit\<close> included. In the middle of a call the counts may be off by a
  reference that a local variable holds, or that has been handed out and is not counted yet: \<open>fd_bal d\<close>
  is the invariant with the difference \<open>d f\<close> for file \<open>f\<close>.
\<close>

section \<open>Invariant\<close>

definition fd_view :: "'a file_state_scheme \<Rightarrow> int list \<times> (nat option list \<times> bool) list \<times> nat option" where
  "fd_view s = (map f_ref (ftable s), map (\<lambda>p. (p_ofile p, dead p)) (procs s), myproc s)"

definition fd_count :: "nat \<Rightarrow> (nat option list \<times> bool) list \<Rightarrow> int" where
  "fd_count f ps = sum_list (map (\<lambda>p. sum_list (map (\<lambda>x. if x = Some f then 1 else 0) (fst p))) ps)"

definition fds_ok :: "nat option list \<times> bool \<Rightarrow> bool" where
  "fds_ok p \<longleftrightarrow> length (fst p) = NOFILE \<and> (\<forall>f. Some f \<in> set (fst p) \<longrightarrow> f < NFILE) \<and> (snd p \<longrightarrow> fst p = replicate NOFILE None)"

definition fd_bal :: "(nat \<Rightarrow> int) \<Rightarrow> nat option \<Rightarrow> 'a file_state_scheme \<Rightarrow> bool" where
  "fd_bal d c s \<longleftrightarrow> (case fd_view s of (rs, ps, c') \<Rightarrow>
     length rs = NFILE \<and> length ps = NPROC \<and> c' = c \<and> (\<forall>p \<in> set ps. fds_ok p) \<and>
     (\<forall>f < NFILE. rs ! f = fd_count f ps + d f) \<and>
     (\<forall>i. c = Some i \<longrightarrow> i < NPROC \<and> \<not> snd (ps ! i)))"

definition fd_inv :: "'a file_state_scheme \<Rightarrow> bool" where
  "fd_inv s \<longleftrightarrow> fd_bal (\<lambda>_. 0) (myproc s) s"

lemma map_set_same: "(\<And>x. g (f x) = g x) \<Longrightarrow> map g (xs[i := f (xs ! i)]) = map g xs"
  by (cases "i < length xs") (simp_all add: map_update list_update_same_conv list_update_beyond)

definition bump :: "nat \<Rightarrow> int \<Rightarrow> (nat \<Rightarrow> int) \<Rightarrow> nat \<Rightarrow> int" where
  "bump f k d = (\<lambda>g. d g + (if g = f then k else 0))"

lemma bump_simps [simp]: "bump f j (bump f k d) = bump f (j + k) d" "bump f 0 d = d"
  by (simp_all add: bump_def fun_eq_iff)

interpretation fv: state_view fd_view
proof
  fix c and s t :: "'a file_state_scheme"
  assume "fd_view t = fd_view s"
  moreover have "fd_view (wakeup c t) = fd_view t"
    by (auto simp: fd_view_def wakeup_def myproc_def mycpu_def cpuid_def Let_def dead_def intro!: nth_equalityI)
  ultimately show "fd_view (wakeup c t) = fd_view s" by simp
next
  fix i f and s t :: "'a file_state_scheme"
  assume "fd_view t = fd_view s" and f: "\<And>p. p_ofile (f p) = p_ofile p \<and> dead (f p) = dead p"
  moreover have "fd_view (set_proc i f t) = fd_view t" using f
    by (simp add: fd_view_def set_proc_def myproc_def mycpu_def cpuid_def map_set_same)
  ultimately show "fd_view (set_proc i f t) = fd_view s" by simp
next
  fix i and g :: "kfile \<Rightarrow> kfile" and s t :: "'a file_state_scheme"
  assume "fd_view t = fd_view s" and g: "\<And>f. f_ref (g f) = f_ref f"
  moreover have "fd_view (set_file i g t) = fd_view t" using g
    by (simp add: fd_view_def set_file_def myproc_def mycpu_def cpuid_def map_set_same)
  ultimately show "fd_view (set_file i g t) = fd_view s" by simp
qed (simp_all add: fd_view_def myproc_def mycpu_def cpuid_def)

lemma sum_list_set: "i < length xs \<Longrightarrow> sum_list (xs[i := v]) = sum_list xs - xs ! i + v" for v :: int
  by (induction xs arbitrary: i) (auto split: nat.split)

lemma fd_count_set:
  assumes "i < length ps" "ps ! i = (fds, b)" "k < length fds"
  shows "fd_count f (ps[i := (fds[k := v], b')]) =
    fd_count f ps - (if fds ! k = Some f then 1 else 0) + (if v = Some f then 1 else 0)"
  using assms by (simp add: fd_count_def map_update sum_list_set)

lemma fd_count_same: "i < length ps \<Longrightarrow> fst (ps ! i) = fds \<Longrightarrow> fd_count f (ps[i := (fds, b)]) = fd_count f ps"
  by (auto simp: fd_count_def map_update sum_list_set)

lemma fd_bal_iff:
  "fd_view s = (rs, ps, c') \<Longrightarrow> fd_bal d c s \<longleftrightarrow> length rs = NFILE \<and> length ps = NPROC \<and> c' = c \<and> (\<forall>p \<in> set ps. fds_ok p) \<and>
     (\<forall>f < NFILE. rs ! f = fd_count f ps + d f) \<and> (\<forall>i. c = Some i \<longrightarrow> i < NPROC \<and> \<not> snd (ps ! i))"
  by (simp add: fd_bal_def)

lemma fd_bal_view: "fd_view t = fd_view s \<Longrightarrow> fd_bal d c s \<Longrightarrow> fd_bal d c t"
  by (simp add: fd_bal_def)

lemma fd_balD:
  assumes "fd_bal d c s"
  shows "length (ftable s) = NFILE" "length (procs s) = NPROC" "myproc s = c"
    and "i < NPROC \<Longrightarrow> length (p_ofile (proc_at s i)) = NOFILE"
    and "i < NPROC \<Longrightarrow> dead (proc_at s i) \<Longrightarrow> p_ofile (proc_at s i) = replicate NOFILE None"
    and "i < NPROC \<Longrightarrow> k < NOFILE \<Longrightarrow> p_ofile (proc_at s i) ! k = Some f \<Longrightarrow> f < NFILE"
    and "c = Some j \<Longrightarrow> j < NPROC \<and> \<not> dead (proc_at s j)"
  using assms by (auto simp: fd_bal_def fd_view_def fds_ok_def) (metis nth_mem)

section \<open>Elementary steps\<close>

lemma bal_ref:
  assumes b: "fd_bal d c s" and f: "f < NFILE" and g: "f_ref (g (file_at s f)) = f_ref (file_at s f) + k"
  shows "fd_bal (bump f k d) c (set_file f g s)"
proof -
  have "map f_ref (ftable (set_file f g s)) = (map f_ref (ftable s))[f := f_ref (file_at s f) + k]"
    using g by (simp add: set_file_def map_update)
  moreover have "procs (set_file f g s) = procs s" "myproc (set_file f g s) = myproc s"
    by (simp_all add: set_file_def myproc_def mycpu_def cpuid_def)
  ultimately show ?thesis using b f by (auto simp: fd_bal_def fd_view_def nth_list_update bump_def)
qed

lemma bal_proc:
  assumes b: "fd_bal d c s" and i: "i < NPROC" and k: "k < NOFILE"
    and g: "\<And>p. p_ofile (g p) = (p_ofile p)[k := v] \<and> p_state (g p) = p_state p"
    and live: "\<not> dead (proc_at s i)" and v: "\<And>f. v = Some f \<Longrightarrow> f < NFILE"
    and d': "\<And>f. d' f = d f + (if p_ofile (proc_at s i) ! k = Some f then 1 else 0) - (if v = Some f then 1 else 0)"
  shows "fd_bal d' c (set_proc i g s)"
proof -
  let ?ps = "map (\<lambda>p. (p_ofile p, dead p)) (procs s)" and ?o = "p_ofile (proc_at s i)"
  note D = fd_balD [OF b]
  have ps: "map (\<lambda>p. (p_ofile p, dead p)) (procs (set_proc i g s)) = ?ps[i := (?o[k := v], False)]"
    using g live by (simp add: set_proc_def map_update dead_def)
  have m: "myproc (set_proc i g s) = myproc s" "ftable (set_proc i g s) = ftable s" by (simp_all add: set_proc_def myproc_def mycpu_def cpuid_def)
  have cnt: "fd_count f (?ps[i := (?o[k := v], False)]) =
      fd_count f ?ps - (if ?o ! k = Some f then 1 else 0) + (if v = Some f then 1 else 0)" for f
    using D(2,4) i k by (intro fd_count_set) auto
  have "f < NFILE" if "k' < NOFILE" "?o[k := v] ! k' = Some f" for k' f
    using that v D(4) [OF i] D(6) [OF i, of k' f] by (cases "k' = k") auto
  then have "fds_ok (?o[k := v], False)" using D(4) [OF i] by (auto simp: fds_ok_def in_set_conv_nth)
  moreover have "set ?ps \<subseteq> Collect fds_ok" using b by (auto simp: fd_bal_def fd_view_def)
  ultimately have ok: "set (?ps[i := (?o[k := v], False)]) \<subseteq> Collect fds_ok" by (intro set_update_subsetI) auto
  have eq: "fd_view (set_proc i g s) = (map f_ref (ftable s), ?ps[i := (?o[k := v], False)], myproc s)"
    by (simp only: fd_view_def ps m)
  show ?thesis
    using b i subsetD [OF ok] unfolding fd_bal_iff [OF eq] fd_bal_iff [OF fd_view_def [of s]]
    by (auto simp: cnt d' nth_list_update)
qed

section \<open>Operations on files\<close>

text \<open>\<open>ends_in Q m\<close>: if \<open>m\<close> returns, \<open>Q\<close> holds of the result; \<open>m\<close> does not end the process.\<close>

primrec ends_in :: "('b \<Rightarrow> 's \<Rightarrow> bool) \<Rightarrow> ('b, 's) outcome \<Rightarrow> bool" where
  "ends_in Q (Done a t) \<longleftrightarrow> Q a t"
| "ends_in Q (Panic e) \<longleftrightarrow> True"
| "ends_in Q (Asleep ch t) \<longleftrightarrow> ch \<noteq> ChNone"

abbreviation ends :: "(nat \<Rightarrow> int) \<Rightarrow> nat option \<Rightarrow> ('b, 'a file_state_scheme) outcome \<Rightarrow> bool" where
  "ends d c \<equiv> ends_in (\<lambda>_. fd_bal d c)"

lemma ends_keeps: "keeps fd_view s m \<Longrightarrow> fd_bal d c s \<Longrightarrow> ends d c m"
  by (cases m) (auto intro: fd_bal_view)

lemma ends_obind:
  "ends_in P m \<Longrightarrow> (\<And>a t. m = Done a t \<Longrightarrow> P a t \<Longrightarrow> ends_in Q (f a t)) \<Longrightarrow> ends_in Q (obind m f)"
  by (cases m) auto

lemma ends_obind_keeps:
  assumes "keeps fd_view s m" "fd_bal d c s" "\<And>a t. m = Done a t \<Longrightarrow> fd_view t = fd_view s \<Longrightarrow> fd_bal d c t \<Longrightarrow> ends_in Q (f a t)"
  shows "ends_in Q (obind m f)"
  using assms by (cases m) (auto intro: fd_bal_view)

lemma filealloc_bal:
  assumes "fd_bal d c s" "filealloc s = (r, s')"
  obtains "r = None" "s' = s" | f where "r = Some f" "f < NFILE" "fd_bal (bump f 1 d) c s'"
proof (cases "List.find (\<lambda>f. f_ref (file_at s f) = 0) [0..<NFILE]")
  case None
  then show ?thesis using assms(2) that(1) by (simp add: filealloc_def)
next
  case (Some f)
  then have f: "f < NFILE" "f_ref (file_at s f) = 0" by (auto simp: find_Some_iff)
  have "fd_bal (bump f 1 d) c (set_file f (f_ref_update (\<lambda>_. 1)) s)" using f by (intro bal_ref [OF assms(1)]) auto
  moreover have "r = Some f" "s' = set_file f (f_ref_update (\<lambda>_. 1)) s" using assms(2) Some by (simp_all add: filealloc_def)
  ultimately show ?thesis using f(1) that(2) by blast
qed

lemma filedup_ends: "fd_bal d c s \<Longrightarrow> f < NFILE \<Longrightarrow> ends (bump f 1 d) c (filedup f s)"
  by (simp add: filedup_def bal_ref)

lemma fileclose_ends:
  assumes b: "fd_bal d c s" and f: "f < NFILE"
  shows "ends (bump f (-1) d) c (fileclose f s)"
proof (cases "f_ref (file_at s f) < 1")
  case False
  let ?s1 = "set_file f (f_ref_update (\<lambda>r. r - 1)) s"
  let ?s2 = "set_file f (\<lambda>g. g\<lparr>f_ref := 0, f_type := FD_NONE\<rparr>) ?s1"
  have b1: "fd_bal (bump f (-1) d) c ?s1" using bal_ref [OF b f, of "f_ref_update (\<lambda>r. r - 1)" "-1"] by simp
  have r1: "f_ref (file_at ?s1 f) = f_ref (file_at s f) - 1" using fd_balD(1) [OF b] f by (simp add: set_file_def)
  show ?thesis
  proof (cases "f_ref (file_at s f) - 1 > 0")
    case True
    then show ?thesis using False b1 by (simp add: fileclose_def Let_def r1)
  next
    case last: False
    have b2: "fd_bal (bump f (-1) d) c ?s2"
      using bal_ref [OF b1 f, of "\<lambda>g. g\<lparr>f_ref := 0, f_type := FD_NONE\<rparr>" 0] last False r1 by simp
    have "keeps fd_view ?s2 (if f_type (file_at ?s1 f) = FD_PIPE then pipeclose (f_pipe (file_at ?s1 f)) (f_writable (file_at ?s1 f) \<noteq> 0) ?s2
          else if f_type (file_at ?s1 f) = FD_INODE \<or> f_type (file_at ?s1 f) = FD_DEVICE then
            obind (begin_op ?s2) (\<lambda>_ s. obind (deref (f_ip (file_at ?s1 f)) (\<lambda>ip. iput ip s)) (\<lambda>_ s. end_op s))
          else Done () ?s2)"
      by (intro frame_intros refl)
    from ends_keeps [OF this b2] show ?thesis using False last by (simp add: fileclose_def Let_def r1)
  qed
qed (simp add: fileclose_def)

lemma cur_Some: "fd_bal d (Some p) s \<Longrightarrow> cur s = p \<and> p < NPROC \<and> \<not> dead (proc_at s p)"
  using fd_balD(3) [of d "Some p" s] fd_balD(7) [of d "Some p" s] by simp

lemma fdalloc_bal:
  assumes b: "fd_bal d (Some p) s" and f: "f < NFILE" and r: "fdalloc f s = (r, s')"
  obtains "r = None" "s' = s"
    | fd where "r = Some fd" "fd < NOFILE" "fd_bal (bump f (-1) d) (Some p) s'" "p_ofile (proc_at s' p) = (p_ofile (proc_at s p))[fd := Some f]"
proof (cases "List.find (\<lambda>fd. p_ofile (proc_at s (cur s)) ! fd = None) [0..<NOFILE]")
  case None
  then show ?thesis using r that(1) by (simp add: fdalloc_def)
next
  case (Some fd)
  note p = cur_Some [OF b]
  have fd: "fd < NOFILE" "p_ofile (proc_at s p) ! fd = None" using Some p by (auto simp: find_Some_iff)
  have s': "r = Some fd" "s' = set_ofile fd (Some f) s" using r Some by (simp_all add: fdalloc_def)
  have "fd_bal (bump f (-1) d) (Some p) s'" unfolding s' set_ofile_def
    using fd f p by (intro bal_proc [OF b]) (auto simp: conjunct1 [OF p] bump_def)
  moreover have "p_ofile (proc_at s' p) = (p_ofile (proc_at s p))[fd := Some f]"
    using p fd_balD(2) [OF b] by (simp add: s' set_ofile_def set_proc_def)
  ultimately show ?thesis using that(2) s'(1) fd(1) by blast
qed

lemma set_ofile_bal:
  assumes b: "fd_bal d (Some p) s" and "fd < NOFILE" "p_ofile (proc_at s p) ! fd = Some f"
  shows "fd_bal (bump f 1 d) (Some p) (set_ofile fd None s)"
  using assms cur_Some [OF b] unfolding set_ofile_def by (intro bal_proc [OF b]) (auto simp: bump_def)

lemma argfd_Done:
  assumes "argfd n s = Done a t"
  shows "t = s" and "a = Some (fd, f) \<Longrightarrow> fd < NOFILE \<and> p_ofile (proc_at s (cur s)) ! fd = Some f"
  using assms by (auto simp: argfd_def argint_def argraw_def split: if_splits option.splits)

section \<open>System calls\<close>

lemma sys_dup_ends:
  assumes b: "fd_bal d (Some p) s"
  shows "ends d (Some p) (sys_dup s)"
  unfolding sys_dup_def
proof (rule ends_obind_keeps [OF fv.keeps_args(4) [OF refl] b])
  fix a t assume a: "argfd 0 s = Done a t"
  have t: "t = s" using argfd_Done(1) [OF a] .
  show "ends d (Some p) (case a of None \<Rightarrow> ret (-1) t | Some (_, f) \<Rightarrow>
      (case fdalloc f t of (None, s) \<Rightarrow> ret (-1) s | (Some fd, s) \<Rightarrow> obind (filedup f s) (\<lambda>_ s. ret (int fd) s)))"
  proof (cases a)
    case (Some x)
    obtain fd0 f where x: "x = (fd0, f)" by (cases x)
    have "p_ofile (proc_at s p) ! fd0 = Some f" "fd0 < NOFILE" using argfd_Done(2) [OF a, of fd0 f] Some x cur_Some [OF b] by auto
    then have f: "f < NFILE" using fd_balD(6) [OF b] cur_Some [OF b] by blast
    obtain r s' where r: "fdalloc f s = (r, s')" by (cases "fdalloc f s")
    from b f r show ?thesis
    proof (cases rule: fdalloc_bal)
      case (2 fd)
      have "ends (bump f 1 (bump f (-1) d)) (Some p) (filedup f s')" using 2(3) f by (rule filedup_ends)
      then have "ends d (Some p) (filedup f s')" by simp
      then show ?thesis using Some x t r 2(1) by (auto intro: ends_obind)
    qed (use Some x t r b in simp)
  qed (use t b in simp)
qed

lemma sys_close_ends:
  assumes b: "fd_bal d (Some p) s"
  shows "ends d (Some p) (sys_close s)"
  unfolding sys_close_def
proof (rule ends_obind_keeps [OF fv.keeps_args(4) [OF refl] b])
  fix a t assume a: "argfd 0 s = Done a t"
  have t: "t = s" using argfd_Done(1) [OF a] .
  show "ends d (Some p) (case a of None \<Rightarrow> ret (-1) t | Some (fd, f) \<Rightarrow> obind (fileclose f (set_ofile fd None t)) (\<lambda>_ s. ret 0 s))"
  proof (cases a)
    case (Some x)
    obtain fd f where x: "x = (fd, f)" by (cases x)
    have o: "p_ofile (proc_at s p) ! fd = Some f" "fd < NOFILE" using argfd_Done(2) [OF a, of fd f] Some x cur_Some [OF b] by auto
    then have f: "f < NFILE" using fd_balD(6) [OF b] cur_Some [OF b] by blast
    have "ends d (Some p) (fileclose f (set_ofile fd None s))"
      using fileclose_ends [OF set_ofile_bal [OF b o(2,1)] f] by simp
    then show ?thesis using Some x t by (auto intro: ends_obind)
  qed (use t b in simp)
qed

lemma open_slot_ends:
  assumes t: "fd_bal d (Some p) t"
  shows "ends d (Some p) (case filealloc t of (None, s) \<Rightarrow> open_fail ip s | (Some f, s) \<Rightarrow>
    (case fdalloc f s of (None, s) \<Rightarrow> obind (fileclose f s) (\<lambda>_ s. open_fail ip s) | (Some fd, s) \<Rightarrow> open_file ip f fd om s))"
proof -
  obtain r s' where r: "filealloc t = (r, s')" by (cases "filealloc t")
  have fail: "fd_bal d (Some p) u \<Longrightarrow> ends d (Some p) (open_fail ip u)" for u
    by (rule ends_keeps [OF fv.keeps_open_fail [OF refl]])
  from t r show ?thesis
  proof (cases rule: filealloc_bal)
    case 1
    then show ?thesis using r fail t by simp
  next
    case f: (2 f)
    obtain q u where q: "fdalloc f s' = (q, u)" by (cases "fdalloc f s'")
    from f(3,2) q show ?thesis
    proof (cases rule: fdalloc_bal)
      case 1
      have "ends d (Some p) (fileclose f s')" using fileclose_ends [OF f(3,2)] by simp
      then show ?thesis using r q 1 f(1) fail by (auto intro: ends_obind)
    next
      case (2 fd)
      then have "fd_bal d (Some p) u" by simp
      then have "ends d (Some p) (open_file ip f fd om u)" by (rule ends_keeps [OF fv.keeps_open_file [OF refl]])
      then show ?thesis using r q 2(1) f(1) by simp
    qed
  qed
qed

lemma ends_case:
  "(b \<Longrightarrow> ends_in Q m) \<Longrightarrow> (\<not> b \<Longrightarrow> ends_in Q m') \<Longrightarrow> ends_in Q (if b then m else m')"
  "ends_in Q m \<Longrightarrow> (\<And>x. a = Some x \<Longrightarrow> ends_in Q (f x)) \<Longrightarrow> ends_in Q (case a of None \<Rightarrow> m | Some x \<Rightarrow> f x)"
  "(\<And>x y. q = (x, y) \<Longrightarrow> ends_in Q (g x y t)) \<Longrightarrow> ends_in Q ((case q of (x, y) \<Rightarrow> g x y) t)"
  by (auto split: option.split prod.split)

lemma sys_open_ends:
  assumes b: "fd_bal d (Some p) s"
  shows "ends d (Some p) (sys_open s)"
  unfolding sys_open_def Let_def
  by (rule ends_obind_keeps [OF fv.keeps_args(1) [OF refl] b], rule ends_obind_keeps [OF fv.keeps_args(3) [OF refl]], assumption,
      intro ends_case, simp, rule ends_obind_keeps [OF fv.keeps_begin_op [OF refl]], assumption,
      rule ends_obind_keeps [OF fv.keeps_open_inode [OF refl]], assumption, intro ends_case)
    (simp_all add: open_slot_ends ends_keeps [OF fv.keeps_open_fail [OF refl]])

lemma close_two_ends:
  assumes b: "fd_bal (bump f1 1 (bump f0 1 d)) c s" and f: "f0 < NFILE" "f1 < NFILE" and m: "\<And>t. fd_bal d c t \<Longrightarrow> ends_in Q (m t)"
  shows "ends_in Q (obind (fileclose f0 s) (\<lambda>_ s. obind (fileclose f1 s) (\<lambda>_ s. m s)))"
proof -
  have "bump f0 (-1) (bump f1 1 (bump f0 1 d)) = bump f1 1 d" by (auto simp: bump_def)
  then have "ends (bump f1 1 d) c (fileclose f0 s)" using fileclose_ends [OF b f(1)] by simp
  moreover have "fd_bal (bump f1 1 d) c t \<Longrightarrow> ends d c (fileclose f1 t)" for t using fileclose_ends [of "bump f1 1 d" c t f1] f(2) by simp
  ultimately show ?thesis by (auto intro!: ends_obind m)
qed

definition piped :: "(nat \<Rightarrow> int) \<Rightarrow> nat option \<Rightarrow> (nat \<times> nat) option \<Rightarrow> 'a file_state_scheme \<Rightarrow> bool" where
  "piped d c r s \<longleftrightarrow> (case r of None \<Rightarrow> fd_bal d c s
     | Some (f0, f1) \<Rightarrow> f0 < NFILE \<and> f1 < NFILE \<and> fd_bal (bump f1 1 (bump f0 1 d)) c s)"

lemma pipealloc_ends:
  assumes b: "fd_bal d c s"
  shows "ends_in (piped d c) (pipealloc s)"
proof -
  obtain r0 s0 where r0: "filealloc s = (r0, s0)" by (cases "filealloc s")
  from b r0 show ?thesis
  proof (cases rule: filealloc_bal)
    case f0: (2 f0)
    obtain r1 s1 where r1: "filealloc s0 = (r1, s1)" by (cases "filealloc s0")
    from f0(3) r1 show ?thesis
    proof (cases rule: filealloc_bal)
      case 1
      have "ends d c (fileclose f0 s0)" using fileclose_ends [OF f0(3,2)] by simp
      then show ?thesis using r0 r1 1 f0(1) by (auto simp: pipealloc_def piped_def intro: ends_obind)
    next
      case f1: (2 f1)
      obtain pi s2 where k: "kalloc s1 = (pi, s2)" by (cases "kalloc s1")
      have b2: "fd_bal (bump f1 1 (bump f0 1 d)) c s2" using fd_bal_view [OF fv.view_kalloc [OF refl k] f1(3)] .
      let ?t = "set_file f1 (\<lambda>f. f\<lparr>f_type := FD_PIPE, f_readable := 0, f_writable := 1, f_pipe := pi\<rparr>)
        (set_file f0 (\<lambda>f. f\<lparr>f_type := FD_PIPE, f_readable := 1, f_writable := 0, f_pipe := pi\<rparr>)
          (set_pipe pi (\<lambda>p. p\<lparr>pi_readopen := 1, pi_writeopen := 1, pi_nwrite := 0, pi_nread := 0\<rparr>) s2))"
      have "fd_view ?t = fd_view s2" by (intro frame_intros fv.view_file refl) simp_all
      then have "fd_bal (bump f1 1 (bump f0 1 d)) c ?t" using b2 by (rule fd_bal_view)
      moreover have "ends_in (piped d c) (obind (fileclose f0 s2) (\<lambda>_ s. obind (fileclose f1 s) (\<lambda>_ s. Done None s)))"
        by (rule close_two_ends [OF b2 f0(2) f1(2)]) (simp add: piped_def)
      ultimately show ?thesis using r0 r1 k f0(1,2) f1(1,2) by (simp add: pipealloc_def Let_def piped_def)
    qed
  qed (use r0 b in \<open>simp add: pipealloc_def piped_def\<close>)
qed

lemma close_both_ends:
  "fd_bal (bump f1 1 (bump f0 1 d)) c s \<Longrightarrow> f0 < NFILE \<Longrightarrow> f1 < NFILE \<Longrightarrow> ends d c (close_both f0 f1 s)"
  unfolding close_both_def by (rule close_two_ends) simp_all

lemma pipe_copyout_ends:
  assumes b: "fd_bal d (Some p) s" and o: "fd0 < NOFILE" "fd1 < NOFILE" "fd0 \<noteq> fd1"
      "p_ofile (proc_at s p) ! fd0 = Some f0" "p_ofile (proc_at s p) ! fd1 = Some f1" and f: "f0 < NFILE" "f1 < NFILE"
  shows "ends d (Some p) (obind (copyout pt a bs s) (\<lambda>r s. obind (if r < 0 then Done r s else copyout pt a' bs' s) (\<lambda>r s.
    if r < 0 then close_both f0 f1 (set_ofile fd1 None (set_ofile fd0 None s)) else ret 0 s)))"
proof -
  have undo: "ends d (Some p) (close_both f0 f1 (set_ofile fd1 None (set_ofile fd0 None t)))" if t: "fd_view t = fd_view s" for t
  proof -
    have bt: "fd_bal d (Some p) t" using t b by (rule fd_bal_view)
    have "map (\<lambda>q. (p_ofile q, dead q)) (procs t) ! p = map (\<lambda>q. (p_ofile q, dead q)) (procs s) ! p" using t by (simp add: fd_view_def)
    then have ot: "p_ofile (proc_at t p) = p_ofile (proc_at s p)" using cur_Some [OF b] fd_balD(2) [OF b] fd_balD(2) [OF bt] by simp
    have b0: "fd_bal (bump f0 1 d) (Some p) (set_ofile fd0 None t)" using set_ofile_bal [OF bt o(1)] ot o(4) by simp
    have "p_ofile (proc_at (set_ofile fd0 None t) p) ! fd1 = Some f1"
      using cur_Some [OF bt] fd_balD(2) [OF bt] ot o by (simp add: set_ofile_def set_proc_def)
    from set_ofile_bal [OF b0 o(2) this] f show ?thesis by (intro close_both_ends)
  qed
  show ?thesis
    by (rule ends_obind_keeps [OF fv.keeps_copyout [OF refl] b], rule ends_obind_keeps [OF keeps_if], rule keeps_Done, rule refl,
        rule fv.keeps_copyout, rule refl, assumption) (auto intro!: undo)
qed

lemma sys_pipe_ends:
  assumes b: "fd_bal d (Some p) s"
  shows "ends d (Some p) (sys_pipe s)"
  unfolding sys_pipe_def
proof (rule ends_obind_keeps [OF fv.keeps_args(2) [OF refl] b], rule ends_obind [OF pipealloc_ends], assumption, goal_cases)
  case (1 fda t1 r t)
  show ?case
  proof (cases r)
    case (Some x)
    obtain rd wr where x: "x = (rd, wr)" by (cases x)
    have f: "rd < NFILE" "wr < NFILE" and bt: "fd_bal (bump wr 1 (bump rd 1 d)) (Some p) t" using 1 Some x by (simp_all add: piped_def)
    obtain q0 s0 where q0: "fdalloc rd t = (q0, s0)" by (cases "fdalloc rd t")
    from bt f(1) q0 show ?thesis
    proof (cases rule: fdalloc_bal)
      case 1
      then show ?thesis using Some x q0 close_both_ends [OF bt f] by simp
    next
      case fd0: (2 fd0)
      obtain q1 s1 where q1: "fdalloc wr s0 = (q1, s1)" by (cases "fdalloc wr s0")
      have eq: "bump rd (-1) (bump wr 1 (bump rd 1 d)) = bump wr 1 d" by (auto simp: bump_def)
      have b0: "fd_bal (bump wr 1 d) (Some p) s0" using fd0(3) eq by simp
      have ln: "length (p_ofile (proc_at t p)) = NOFILE" "length (p_ofile (proc_at s0 p)) = NOFILE"
        using fd_balD(4) [OF bt] fd_balD(4) [OF b0] cur_Some [OF bt] by auto
      have o0: "p_ofile (proc_at s0 p) ! fd0 = Some rd" using fd0(2,4) ln by simp
      from b0 f(2) q1 show ?thesis
      proof (cases rule: fdalloc_bal)
        case 1
        have "fd_bal (bump rd 1 (bump wr 1 d)) (Some p) (set_ofile fd0 None s0)" by (rule set_ofile_bal [OF b0 fd0(2) o0])
        moreover have "bump rd 1 (bump wr 1 d) = bump wr 1 (bump rd 1 d)" by (auto simp: bump_def)
        ultimately show ?thesis using Some x q0 q1 1 fd0(1) close_both_ends f by simp
      next
        case fd1: (2 fd1)
        have b1: "fd_bal d (Some p) s1" using fd1(3) by simp
        have "p_ofile (proc_at s0 p) ! fd1 = None" using q1 cur_Some [OF b0] fd1(1) by (auto simp: fdalloc_def find_Some_iff split: option.splits)
        then have ne: "fd0 \<noteq> fd1" using o0 by auto
        have o1: "p_ofile (proc_at s1 p) ! fd0 = Some rd" "p_ofile (proc_at s1 p) ! fd1 = Some wr"
          using fd1(2,4) o0 ne ln by simp_all
        show ?thesis using Some x q0 q1 fd0(1) fd1(1) pipe_copyout_ends [OF b1 fd0(2) fd1(2) ne o1 f] by (simp add: Let_def)
      qed
    qed
  qed (use 1 in \<open>simp add: piped_def\<close>)
qed

section \<open>Processes\<close>

text \<open>The part of the view that closing a file leaves alone.\<close>

definition fd_procs :: "'a file_state_scheme \<Rightarrow> (nat option list \<times> bool) list \<times> nat option" where
  "fd_procs s = snd (fd_view s)"

lemma fd_procs_view: "fd_view t = fd_view s \<Longrightarrow> fd_procs t = fd_procs s"
  by (simp add: fd_procs_def)

interpretation pv: state_view fd_procs
proof
  fix c and s t :: "'a file_state_scheme"
  assume "fd_procs t = fd_procs s"
  then show "fd_procs (wakeup c t) = fd_procs s" using fd_procs_view [OF fv.view_wakeup [of t t c, OF refl]] by simp
next
  fix i f and s t :: "'a file_state_scheme"
  assume "fd_procs t = fd_procs s" and f: "\<And>p. p_ofile (f p) = p_ofile p \<and> dead (f p) = dead p"
  then show "fd_procs (set_proc i f t) = fd_procs s" using fd_procs_view [OF fv.view_proc [of t t f i, OF refl f]] by simp
qed (simp_all add: fd_procs_def fd_view_def myproc_def mycpu_def cpuid_def set_file_def)

lemma fileclose_procs: "keeps fd_procs s (fileclose f s)"
proof -
  have st: "fd_procs t = fd_procs s \<Longrightarrow> fd_procs (set_file f g t) = fd_procs s" for t and g :: "kfile \<Rightarrow> kfile"
    by (simp add: fd_procs_def fd_view_def set_file_def myproc_def mycpu_def cpuid_def)
  show ?thesis unfolding fileclose_def Let_def by (intro frame_intros st refl)
qed

lemma ofile_procs:
  assumes "fd_procs t = fd_procs s" "fd_bal d c s" "i < NPROC"
  shows "p_ofile (proc_at t i) = p_ofile (proc_at s i)" "dead (proc_at t i) = dead (proc_at s i)"
proof -
  have eq: "map (\<lambda>q. (p_ofile q, dead q)) (procs t) = map (\<lambda>q. (p_ofile q, dead q)) (procs s)" using assms(1) by (simp add: fd_procs_def fd_view_def)
  then have "length (procs t) = length (procs s)" by (rule map_eq_imp_length_eq)
  then show "p_ofile (proc_at t i) = p_ofile (proc_at s i)" "dead (proc_at t i) = dead (proc_at s i)"
    using arg_cong [OF eq, of "\<lambda>l. l ! i"] fd_balD(2) [OF assms(2)] assms(3) by simp_all
qed

lemma bal_dead:
  assumes b: "fd_bal d c s" and i: "i < NPROC" and g: "\<And>p. p_ofile (g p) = p_ofile p"
    and dead: "dead (g (proc_at s i)) \<Longrightarrow> p_ofile (proc_at s i) = replicate NOFILE None \<and> c \<noteq> Some i"
  shows "fd_bal d c (set_proc i g s)"
proof -
  let ?ps = "map (\<lambda>p. (p_ofile p, dead p)) (procs s)" and ?x = "(p_ofile (proc_at s i), dead (g (proc_at s i)))"
  note D = fd_balD [OF b]
  have eq: "fd_view (set_proc i g s) = (map f_ref (ftable s), ?ps[i := ?x], myproc s)"
    using g by (simp add: fd_view_def set_proc_def map_update myproc_def mycpu_def cpuid_def)
  have "set ?ps \<subseteq> Collect fds_ok" using b by (auto simp: fd_bal_def fd_view_def)
  moreover have "fds_ok ?x" using dead b i D(2,4) by (auto simp: fds_ok_def fd_bal_def fd_view_def)
  ultimately have ok: "set (?ps[i := ?x]) \<subseteq> Collect fds_ok" by (intro set_update_subsetI) auto
  have cnt: "fd_count f (?ps[i := ?x]) = fd_count f ?ps" for f using i D(2) by (intro fd_count_same) auto
  show ?thesis
    using b i dead subsetD [OF ok] unfolding fd_bal_iff [OF eq] fd_bal_iff [OF fd_view_def [of s]]
    by (auto simp: cnt nth_list_update)
qed

definition fresh :: "nat option \<Rightarrow> nat \<Rightarrow> 'a file_state_scheme \<Rightarrow> bool" where
  "fresh c np s \<longleftrightarrow> np < NPROC \<and> c \<noteq> Some np \<and> \<not> dead (proc_at s np) \<and> p_ofile (proc_at s np) = replicate NOFILE None"

lemma fresh_view: "fd_view t = fd_view s \<Longrightarrow> fd_bal d c s \<Longrightarrow> fresh c np s \<Longrightarrow> fresh c np t"
  using ofile_procs [OF fd_procs_view, of t s d c np] by (simp add: fresh_def)

lemma freeproc_ends:
  assumes b: "fd_bal d c s" and i: "i < NPROC" "p_ofile (proc_at s i) = replicate NOFILE None" "c \<noteq> Some i"
  shows "ends d c (freeproc i s)"
proof -
  let ?pre = "obind (if p_trapframe (proc_at s i) \<noteq> 0 then kfree (p_trapframe (proc_at s i)) s else Done () s) (\<lambda>_ s.
     let s = set_proc i (p_trapframe_update (\<lambda>_. 0)) s in
     if p_pagetable (proc_at s i) \<noteq> 0 then proc_freepagetable (p_pagetable (proc_at s i)) (p_sz (proc_at s i)) s else Done () s)"
  have eq: "freeproc i s = obind ?pre (\<lambda>_ s. Done () (set_proc i (\<lambda>q. q\<lparr>p_pagetable := 0, p_sz := 0, p_pid := 0, p_parent := None,
       p_name := (p_name q)(0 := 0), p_chan := None, p_killed := 0, p_xstate := 0, p_state := UNUSED\<rparr>) s))"
    by (simp add: freeproc_def Let_def obind_assoc)
  have "keeps fd_view s ?pre" unfolding Let_def by (intro frame_intros fv.view_proc refl) (simp_all add: dead_def)
  then show ?thesis unfolding eq
  proof (rule ends_obind_keeps [OF _ b], goal_cases)
    case (1 a t)
    have "p_ofile (proc_at t i) = replicate NOFILE None" using ofile_procs(1) [OF fd_procs_view [OF 1(2)] b i(1)] i(2) by simp
    then show ?case unfolding ends_in.simps using i(3) by (intro bal_dead [OF 1(3) i(1)]) simp_all
  qed
qed

lemma freeproc_fresh: "fd_bal d c s \<Longrightarrow> fresh c np s \<Longrightarrow> ends d c (freeproc np s)"
  by (rule freeproc_ends) (simp_all add: fresh_def)

definition new_proc :: "(nat \<Rightarrow> int) \<Rightarrow> nat option \<Rightarrow> nat option \<Rightarrow> 'a file_state_scheme \<Rightarrow> bool" where
  "new_proc d c r s \<longleftrightarrow> fd_bal d c s \<and> (\<forall>np. r = Some np \<longrightarrow> fresh c np s)"

lemma free_new_proc: "fd_bal d c s \<Longrightarrow> fresh c np s \<Longrightarrow> ends_in (new_proc d c) (obind (freeproc np s) (\<lambda>_ s. Done None s))"
  by (rule ends_obind [OF freeproc_fresh]) (simp_all add: new_proc_def)

lemma allocproc_ends:
  assumes b: "fd_bal d c s"
  shows "ends_in (new_proc d c) (allocproc s)"
proof (cases "List.find (\<lambda>i. p_state (proc_at s i) = UNUSED) [0..<NPROC]")
  case None
  then show ?thesis using b by (simp add: allocproc_def new_proc_def)
next
  case (Some p)
  then have p: "p < NPROC" "p_state (proc_at s p) = UNUSED" by (auto simp: find_Some_iff)
  let ?s1 = "s\<lparr>nextpid := wrap32 (nextpid s + 1)\<rparr>"
  let ?s2 = "set_proc p (\<lambda>q. q\<lparr>p_pid := nextpid s, p_state := USED\<rparr>) ?s1"
  obtain tf s3 where k: "kalloc ?s2 = (tf, s3)" by (cases "kalloc ?s2")
  let ?s4 = "set_proc p (p_trapframe_update (\<lambda>_. tf)) s3"
  have b1: "fd_bal d c ?s1" by (rule fd_bal_view [OF fv.view_nextpid [OF refl] b])
  have b2: "fd_bal d c ?s2" using p(1) by (intro bal_dead [OF b1]) (simp_all add: dead_def)
  have "dead (proc_at s p)" using p(2) by (simp add: dead_def)
  then have "p_ofile (proc_at s p) = replicate NOFILE None" "c \<noteq> Some p" using fd_balD(5,7) [OF b] p(1) by auto
  then have f2: "fresh c p ?s2" using p(1) fd_balD(2) [OF b] by (simp add: fresh_def set_proc_def dead_def)
  have v4: "fd_view ?s4 = fd_view ?s2"
    by (rule fv.view_proc [OF fv.view_kalloc [OF refl k]]) (simp add: dead_def)
  have b4: "fd_bal d c ?s4" and f4: "fresh c p ?s4" using fd_bal_view [OF v4 b2] fresh_view [OF v4 b2 f2] .
  have "ends_in (new_proc d c) (obind (proc_pagetable p ?s4) (\<lambda>pt s.
      let s = set_proc p (p_pagetable_update (\<lambda>_. pt)) s in
      if pt = 0 then obind (freeproc p s) (\<lambda>_ s. Done None s)
      else Done (Some p) (set_proc p (\<lambda>q. q\<lparr>p_context := zero_context\<lparr>c_ra := forkret_pc s, c_sp := p_kstack q + PGSIZE\<rparr>,
        p_tickets := 1, p_ticks := 0\<rparr>) s)))"
  proof (rule ends_obind_keeps [OF fv.keeps_proc_pagetable [OF refl] b4], goal_cases)
    case (1 pt t)
    let ?t = "set_proc p (p_pagetable_update (\<lambda>_. pt)) t"
    let ?u = "set_proc p (\<lambda>q. q\<lparr>p_context := zero_context\<lparr>c_ra := forkret_pc ?t, c_sp := p_kstack q + PGSIZE\<rparr>,
        p_tickets := 1, p_ticks := 0\<rparr>) ?t"
    have t: "fd_view ?t = fd_view ?s4" by (rule fv.view_proc [OF 1(2)]) (simp add: dead_def)
    have u: "fd_view ?u = fd_view ?s4" by (rule fv.view_proc [OF t]) (simp add: dead_def)
    show ?case
      using free_new_proc [OF fd_bal_view [OF t b4] fresh_view [OF t b4 f4]] fd_bal_view [OF u b4] fresh_view [OF u b4 f4]
      by (cases "pt = 0") (simp_all add: Let_def new_proc_def)
  qed
  then show ?thesis using Some k free_new_proc [OF b4 f4] by (cases "tf = 0") (simp_all add: allocproc_def allocpid_def Let_def)
qed

lemma dup_files_ends:
  assumes "fd_bal d c s" "p < NPROC" "np < NPROC" "\<not> dead (proc_at s np)" "distinct is"
    "\<And>i. i \<in> set is \<Longrightarrow> i < NOFILE \<and> p_ofile (proc_at s np) ! i = None"
  shows "ends d c (dup_files p np is s)"
  using assms
proof (induction "is" arbitrary: s)
  case (Cons i "is")
  show ?case
  proof (cases "p_ofile (proc_at s p) ! i")
    case (Some f)
    have i: "i < NOFILE" "p_ofile (proc_at s np) ! i = None" using Cons.prems(6) [of i] by auto
    have f: "f < NFILE" using fd_balD(6) [OF Cons.prems(1,2) i(1) Some] .
    show ?thesis
    proof (cases "f_ref (file_at s f) < 1")
      case False
      let ?s1 = "set_file f (f_ref_update (\<lambda>r. r + 1)) s"
      let ?s2 = "set_proc np (\<lambda>q. q\<lparr>p_ofile := (p_ofile q)[i := Some f]\<rparr>) ?s1"
      have b1: "fd_bal (bump f 1 d) c ?s1" using f by (intro bal_ref [OF Cons.prems(1)]) auto
      have s1: "procs ?s1 = procs s" by (simp add: set_file_def)
      have b2: "fd_bal d c ?s2"
        using Cons.prems(3,4) i f by (intro bal_proc [OF b1]) (auto simp: s1 bump_def)
      have o2: "p_ofile (proc_at ?s2 np) = (p_ofile (proc_at s np))[i := Some f]" "\<not> dead (proc_at ?s2 np)"
        using Cons.prems(3,4) fd_balD(2) [OF Cons.prems(1)] by (simp_all add: set_proc_def s1 dead_def)
      have rest: "j < NOFILE \<and> p_ofile (proc_at ?s2 np) ! j = None" if "j \<in> set is" for j
        using Cons.prems(5) Cons.prems(6) [of j] that o2(1) by (cases "j = i") auto
      have "ends d c (dup_files p np is ?s2)"
        using Cons.prems(5) o2(2) by (intro Cons.IH [OF b2 Cons.prems(2,3) _ _ rest]) auto
      then show ?thesis using Some False by (simp add: filedup_def)
    qed (use Some in \<open>simp add: filedup_def\<close>)
  qed (use Cons in auto)
qed simp

lemma sys_fork_ends:
  assumes b: "fd_bal d (Some p) s"
  shows "ends d (Some p) (kfork s)"
  unfolding kfork_def Let_def
proof (rule ends_obind [OF allocproc_ends [OF b]], goal_cases)
  case (1 r t)
  have bt: "fd_bal d (Some p) t" and fr: "\<And>np. r = Some np \<Longrightarrow> fresh (Some p) np t" using 1(2) by (simp_all add: new_proc_def)
  show ?case
  proof (cases r)
    case (Some np)
    note f = fr [OF Some]
    have np: "np < NPROC" using f by (simp add: fresh_def)
    have p: "p < NPROC" "cur s = p" using cur_Some [OF b] by auto
    show ?thesis unfolding Some option.case p(2)
    proof (rule ends_obind_keeps [OF fv.keeps_uvmcopy [OF refl] bt], goal_cases)
      case (1 a u)
      note fu = fresh_view [OF 1(2) bt f]
      show ?case
      proof (cases "a < 0")
        case True
        then show ?thesis using ends_obind [OF freeproc_fresh [OF 1(3) fu], of "\<lambda>_. fd_bal d (Some p)" "\<lambda>_. Done (-1)"] by simp
      next
        case False
        let ?u1 = "set_proc np (\<lambda>q. q\<lparr>p_sz := p_sz (proc_at u p)\<rparr>) u"
        let ?u2 = "tf_set np TF_a0 0 (?u1\<lparr>mem := (mem ?u1)(p_trapframe (proc_at ?u1 np) :=
          page_write (mem ?u1 (p_trapframe (proc_at ?u1 np))) 0 (page_read (mem ?u1 (p_trapframe (proc_at ?u1 p))) 0 288))\<rparr>)"
        have "fd_view ?u2 = fd_view u" by (intro frame_intros fv.view_proc refl) (simp add: dead_def)
        from fd_bal_view [OF this 1(3)] fresh_view [OF this 1(3) fu]
        have "ends d (Some p) (dup_files p np [0..<NOFILE] ?u2)"
          using p(1) by (intro dup_files_ends) (auto simp: fresh_def)
        then show ?thesis using False
          by (simp only: if_False) (erule ends_obind, auto simp: deref_def split: option.split
              intro!: bal_dead [OF _ np] fd_bal_view [OF fv.view_proc [OF fv.view_proc [OF fv.view_idup [OF refl]]]] simp: dead_def)
      qed
    qed
  qed (use bt in simp)
qed

lemma kwait_ends:
  assumes b: "fd_bal d (Some p) s"
  shows "ends d (Some p) (kwait addr s)"
proof (cases "List.find (zombie_child p s) [0..<NPROC]")
  case None
  then show ?thesis using b cur_Some [OF b] by (auto simp: kwait_def Let_def sleep_def sched_def)
next
  case (Some pp)
  then have pp: "pp < NPROC" "p_state (proc_at s pp) = ZOMBIE" by (auto simp: find_Some_iff zombie_child_def)
  then have "dead (proc_at s pp)" by (simp add: dead_def)
  then have o: "p_ofile (proc_at s pp) = replicate NOFILE None" "Some p \<noteq> Some pp"
    using fd_balD(5) [OF b pp(1)] cur_Some [OF b] by auto
  let ?m = "if addr \<noteq> 0 then copyout (p_pagetable (proc_at s p)) addr (le_bytes 4 (word_of_int (p_xstate (proc_at s pp)) :: u32)) s else Done 0 s"
  have eq: "kwait addr s = obind ?m (\<lambda>r t. if r < 0 then Done (-1) t else obind (freeproc pp t) (\<lambda>_ t. Done (p_pid (proc_at s pp)) t))"
    using Some cur_Some [OF b] by (simp add: kwait_def Let_def)
  have "keeps fd_view s ?m" by (intro frame_intros refl)
  then show ?thesis unfolding eq
  proof (rule ends_obind_keeps [OF _ b], goal_cases)
    case (1 a t)
    have "p_ofile (proc_at t pp) = replicate NOFILE None" using ofile_procs(1) [OF fd_procs_view [OF 1(2)] b pp(1)] o by simp
    from freeproc_ends [OF 1(3) pp(1) this o(2)] 1(3) show ?case by (auto intro: ends_obind)
  qed
qed

lemma close_files_ends:
  assumes "fd_bal d (Some p) s" "\<And>i. i \<in> set fds \<Longrightarrow> i < NOFILE"
  shows "ends_in (\<lambda>_ t. fd_bal d (Some p) t \<and>
    (\<forall>i < NOFILE. i \<in> set fds \<or> p_ofile (proc_at s p) ! i = None \<longrightarrow> p_ofile (proc_at t p) ! i = None)) (close_files p fds s)"
  using assms
proof (induction fds arbitrary: s)
  case (Cons fd fds)
  have p: "p < NPROC" "\<not> dead (proc_at s p)" "length (p_ofile (proc_at s p)) = NOFILE"
    using cur_Some [OF Cons.prems(1)] fd_balD(4) [OF Cons.prems(1)] by auto
  show ?case
  proof (cases "p_ofile (proc_at s p) ! fd")
    case None
    have "ends_in (\<lambda>_ t. fd_bal d (Some p) t \<and>
      (\<forall>i < NOFILE. i \<in> set fds \<or> p_ofile (proc_at s p) ! i = None \<longrightarrow> p_ofile (proc_at t p) ! i = None)) (close_files p fds s)"
      using Cons.prems by (intro Cons.IH) auto
    then show ?thesis using None by (cases "close_files p fds s") auto
  next
    case (Some f)
    have fd: "fd < NOFILE" using Cons.prems(2) by simp
    have f: "f < NFILE" using fd_balD(6) [OF Cons.prems(1) p(1) fd Some] .
    have cl: "ends (bump f (-1) d) (Some p) (fileclose f s)" by (rule fileclose_ends [OF Cons.prems(1) f])
    show ?thesis
    proof (cases "fileclose f s")
      case (Done a t)
      have bt: "fd_bal (bump f (-1) d) (Some p) t" and "fd_procs t = fd_procs s" using cl fileclose_procs [of s f] Done by simp_all
      note o = ofile_procs [OF this(2) Cons.prems(1) p(1)]
      let ?u = "set_proc p (\<lambda>q. q\<lparr>p_ofile := (p_ofile q)[fd := None]\<rparr>) t"
      have u: "fd_bal d (Some p) ?u" using p fd Some o by (intro bal_proc [OF bt]) (auto simp: bump_def)
      have ou: "p_ofile (proc_at ?u p) = (p_ofile (proc_at s p))[fd := None]"
        using p(1) fd_balD(2) [OF bt] o by (simp add: set_proc_def)
      have "ends_in (\<lambda>_ t. fd_bal d (Some p) t \<and>
        (\<forall>i < NOFILE. i \<in> set fds \<or> p_ofile (proc_at ?u p) ! i = None \<longrightarrow> p_ofile (proc_at t p) ! i = None)) (close_files p fds ?u)"
        using Cons.prems(2) by (intro Cons.IH [OF u]) auto
      then show ?thesis using Some Done p(3) fd by (cases "close_files p fds ?u") (auto simp: ou nth_list_update split: if_splits)
    qed (use cl Some in auto)
  qed
qed simp

lemma reparent_view: "fd_view (reparent p s) = fd_view s" for s :: "'a file_state_scheme"
proof -
  have "fd_view (reparent_loop p pps t) = fd_view s" if "fd_view t = fd_view s" for pps and t :: "'a file_state_scheme"
    using that
  proof (induction pps arbitrary: t)
    case (Cons q pps)
    have v: "fd_view (set_proc q (p_parent_update (\<lambda>_. x)) t) = fd_view s" for x
      using Cons.prems by (rule fv.view_proc) (simp add: dead_def)
    show ?case unfolding reparent_loop.simps Let_def
      by (rule Cons.IH) (auto simp: v Cons.prems split: option.split intro: fv.view_wakeup)
  qed simp
  then show ?thesis unfolding reparent_def by blast
qed

text \<open>What a system call may do to the descriptors: keep the invariant, also when it ends the process.\<close>

definition fd_safe :: "('b, 'a file_state_scheme) outcome \<Rightarrow> bool" where
  "fd_safe m \<longleftrightarrow> (case m of Done a t \<Rightarrow> fd_inv t | Panic e \<Rightarrow> True | Asleep c t \<Rightarrow> c = ChNone \<longrightarrow> fd_inv t)"

lemma fd_inv_bal: "fd_bal (\<lambda>_. 0) c s \<Longrightarrow> fd_inv s"
  using fd_balD(3) [of "\<lambda>_. 0" c s] by (simp add: fd_inv_def)

lemma zombie_safe:
  assumes b: "fd_bal (\<lambda>_. 0) (Some p) s" and o: "p_ofile (proc_at s p) = replicate NOFILE None"
  shows "fd_safe (become_zombie status s)"
proof -
  have p: "cur s = p" "p < NPROC" using cur_Some [OF b] by auto
  let ?s1 = "reparent p s"
  let ?s2 = "case p_parent (proc_at ?s1 p) of Some q \<Rightarrow> wakeup (ChProc q) ?s1 | None \<Rightarrow> ?s1"
  let ?g = "\<lambda>q. q\<lparr>p_xstate := status, p_state := ZOMBIE\<rparr>"
  have v: "fd_view ?s2 = fd_view s" by (simp add: reparent_view fv.view_wakeup split: option.split)
  note b2 = fd_bal_view [OF v b]
  have m: "myproc ?s2 = Some p" using fd_balD(3) [OF b2] .
  have st: "p_state (proc_at (set_proc p ?g ?s2) p) = ZOMBIE" using p fd_balD(2) [OF b2] by (simp add: set_proc_def)
  have o2: "p_ofile (proc_at ?s2 p) = replicate NOFILE None" using ofile_procs(1) [OF fd_procs_view [OF v] b p(2)] o by simp
  have cpu: "fd_bal (\<lambda>_. 0) None (set_cpu_proc None ?s2)"
    using b2 by (auto simp: fd_bal_def fd_view_def set_cpu_proc_def myproc_def mycpu_def cpuid_def)
  have "set_cpu_proc None (set_proc p ?g ?s2) = set_proc p ?g (set_cpu_proc None ?s2)" by (simp add: set_cpu_proc_def set_proc_def)
  moreover have "fd_bal (\<lambda>_. 0) None (set_proc p ?g (set_cpu_proc None ?s2))"
    by (rule bal_dead [OF cpu p(2)]) (use o2 in \<open>simp_all add: set_cpu_proc_def\<close>)
  moreover have "cur (set_proc p ?g ?s2) = p" using m by (simp add: set_proc_def myproc_def mycpu_def cpuid_def)
  ultimately show ?thesis using p st by (simp add: become_zombie_def Let_def sched_def fd_safe_def fd_inv_bal)
qed

lemma fd_safe_ends: "ends (\<lambda>_. 0) c m \<Longrightarrow> fd_safe m"
  by (cases m) (simp_all add: fd_safe_def fd_inv_bal)

lemma fd_safe_obind: "ends_in Q m \<Longrightarrow> (\<And>a t. m = Done a t \<Longrightarrow> Q a t \<Longrightarrow> fd_safe (f a t)) \<Longrightarrow> fd_safe (obind m f)"
  by (cases m) (auto simp: fd_safe_def)

lemma kexit_safe:
  assumes b: "fd_bal (\<lambda>_. 0) (Some p) s"
  shows "fd_safe (kexit status s)"
proof (cases "Some p = initproc s")
  case False
  have p: "cur s = p" "p < NPROC" using cur_Some [OF b] by auto
  let ?rest = "\<lambda>s. obind (begin_op s) (\<lambda>_ s. obind (deref (p_cwd (proc_at s p)) (\<lambda>cwd. iput cwd s)) (\<lambda>_ s. end_op s))"
  have eq: "kexit status s = obind (close_files p [0..<NOFILE] s) (\<lambda>_ s. obind (?rest s) (\<lambda>_ s.
      become_zombie status (set_proc p (p_cwd_update (\<lambda>_. None)) s)))"
    using False p(1) by (simp add: kexit_def Let_def obind_assoc)
  show ?thesis unfolding eq
  proof (rule fd_safe_obind [OF close_files_ends [OF b]], simp, goal_cases)
    case (1 a t)
    then have bt: "fd_bal (\<lambda>_. 0) (Some p) t" and "\<forall>i<NOFILE. p_ofile (proc_at t p) ! i = None" by auto
    then have ot: "p_ofile (proc_at t p) = replicate NOFILE None" using fd_balD(4) [OF bt p(2)] by (intro nth_equalityI) auto
    have k: "keeps fd_view t (?rest t)" by (intro frame_intros refl)
    show ?case
    proof (cases "?rest t")
      case (Done x u)
      let ?v = "set_proc p (p_cwd_update (\<lambda>_. None)) u"
      have v: "fd_view ?v = fd_view t" by (rule fv.view_proc) (use k Done in \<open>simp_all add: dead_def\<close>)
      have "p_ofile (proc_at ?v p) = replicate NOFILE None" using ofile_procs(1) [OF fd_procs_view [OF v] bt p(2)] ot by simp
      then show ?thesis using Done zombie_safe [OF fd_bal_view [OF v bt]] by simp
    qed (use k in \<open>auto simp: fd_safe_def\<close>)
  qed
qed (use cur_Some [OF b] in \<open>simp add: kexit_def fd_safe_def\<close>)

section \<open>Every system call\<close>

lemma keeps_kern_calls [frame_intros]:
  fixes s t :: "'a kern_state_scheme"
  shows "fd_view t = fd_view s \<Longrightarrow> keeps fd_view s (sys_pause t)" "fd_view t = fd_view s \<Longrightarrow> keeps fd_view s (sys_uptime t)"
    "fd_view t = fd_view s \<Longrightarrow> keeps fd_view s (sys_getcnt t)"
  unfolding sys_pause_def pause_check_def Let_def sys_uptime_def sys_getcnt_def by (intro frame_intros; simp)+

lemma table_safe:
  fixes s :: "'a kern_state_scheme"
  assumes f: "Some f \<in> set (syscalls pad st)" and b: "fd_bal (\<lambda>_. 0) (Some p) s"
  shows "fd_safe (f s)"
proof -
  have view: "keeps fd_view s m \<Longrightarrow> fd_safe m" for m :: "(u64, 'a kern_state_scheme) outcome"
    by (rule fd_safe_ends [OF ends_keeps [OF _ b]])
  have "fd_safe (sys_exit s)" unfolding sys_exit_def
    by (rule fd_safe_obind [of "\<lambda>_. fd_bal (\<lambda>_. 0) (Some p)"]) (auto intro: ends_keeps [OF fv.keeps_args(1) [OF refl] b] kexit_safe)
  moreover have "fd_safe (sys_fork s)" unfolding sys_fork_def
    by (rule fd_safe_ends, rule ends_obind [OF sys_fork_ends [OF b]]) simp
  moreover have "fd_safe (sys_wait s)" unfolding sys_wait_def
    by (rule fd_safe_ends, rule ends_obind_keeps [OF fv.keeps_args(2) [OF refl] b], rule ends_obind [OF kwait_ends], assumption) simp
  ultimately show ?thesis
    by (insert f fd_safe_ends [OF sys_pipe_ends [OF b]] fd_safe_ends [OF sys_dup_ends [OF b]] fd_safe_ends [OF sys_close_ends [OF b]]
      fd_safe_ends [OF sys_open_ends [OF b]], unfold syscalls_def) (auto; rule view; intro frame_intros refl)
qed

text \<open>
  C1: every system call keeps the reference counts of open files exact: when the call returns, or when
  it has ended the process, the count of each of the 100 files is the number of descriptors that
  refer to it, over all processes, and unused and exited processes have no descriptors. So a file that
  a descriptor refers to is never free, and a file nobody refers to is free again.
\<close>

theorem syscall_keeps_descriptors:
  fixes s :: "'a kern_state_scheme"
  assumes inv: "fd_inv s" and run: "myproc s = Some p"
  shows "fd_safe (syscall pad st s)"
proof -
  let ?num = "sint (ucast (tf_get (cur s) TF_a7 s) :: u32)" 
  let ?e = "\<lambda>n. (syscalls pad st :: ('a kern_state_scheme \<Rightarrow> (u64, 'a kern_state_scheme) outcome) option list) ! nat n"
  have b: "fd_bal (\<lambda>_. 0) (Some p) s" using inv run by (simp add: fd_inv_def)
  have tf: "fd_safe (Done () (tf_set q k v t))" if "fd_inv t" for q k v and t :: "'a kern_state_scheme"
    using fd_bal_view [OF fv.view_tf_set [OF refl], of "\<lambda>_. 0" "myproc t" t q k v] that
    by (simp add: fd_safe_def fd_inv_def tf_set_def Let_def myproc_def mycpu_def cpuid_def)
  have call: "fd_safe (obind (f (count_call n s)) (\<lambda>r s. Done () (tf_set q TF_a0 r s)))" if "Some f \<in> set (syscalls pad st)" for f n q
  proof -
    have "fd_bal (\<lambda>_. 0) (Some p) (count_call n s)"
      using b by (rule fd_bal_view [rotated]) (simp add: fd_view_def count_call_def count_store_def myproc_def mycpu_def cpuid_def)
    from table_safe [OF that this] tf show ?thesis by (cases "f (count_call n s)") (auto simp: fd_safe_def)
  qed
  have e: "Some f \<in> set (syscalls pad st)" if "?num > 0" "?num < 25" "?e ?num = Some f" for f
    unfolding that(3) [symmetric] by (rule nth_mem) (use that in \<open>simp add: length_syscalls\<close>)
  have k: "fd_inv (kprintf fmt ap s)" for fmt ap using fd_inv_bal [OF fd_bal_view [OF fv.view_kprintf [OF refl] b]] .
  show ?thesis
  proof (cases "?num > 0 \<and> ?num < 25 \<and> (\<exists>f. ?e ?num = Some f)")
    case True
    then obtain f where f: "?e ?num = Some f" by blast
    then show ?thesis using call [OF e [OF _ _ f], of "nat ?num" "cur s"] True by (simp add: syscall_def Let_def)
  next
    case False
    then show ?thesis using tf [OF k] by (auto simp: syscall_def Let_def split: option.split)
  qed
qed

lemma sample_fd_inv: "fd_inv (sample_kern tf)"
  by (auto simp: fd_inv_def fd_bal_def fd_view_def fds_ok_def dead_def fd_count_def sample_proc_def free_slot_def free_file_def ex_uproc_def
      sum_list_replicate nth_Cons nth_append split: nat.split if_splits)


theorem syscall_keeps_descriptors_witness:
  "\<exists>t. syscall [] 1 (sample_kern (st64 (\<lambda>_. 0) TF_a7 10)) = Done () t \<and> f_ref (file_at t 0) = 2 \<and> fd_inv t"
proof -
  let ?s = "sample_kern (st64 (\<lambda>_. 0) TF_a7 10)"
  have ld: "ld64 (\<lambda>_. 0) k = 0" for k by (simp add: ld64_def)
  have o: "p_ofile sample_proc = Some 0 # replicate 15 None" "p_trapframe sample_proc = 0x87FF0000" by (simp_all add: sample_proc_def)
  have tf: "tf_get 0 TF_a7 ?s = 10" "tf_get 0 TF_a0 ?s = 0" by (simp_all add: tf_get_def o ld64_st64 ld)
  let ?c = "count_call 10 ?s"
  have c: "procs ?c = procs ?s" "myproc ?c = Some 0" "tf_get 0 TF_a0 ?c = 0" "ftable ?c = ftable ?s"
    using tf(2) sample_kern_simps(3) [of "st64 (\<lambda>_. 0) TF_a7 10"] by (simp_all add: count_call_def count_store_def tf_get_def myproc_def mycpu_def cpuid_def)
  have a: "argfd 0 ?c = Done (Some (0, 0)) ?c" by (simp add: argfd_def argint_def argraw_def c o)
  have "List.find (\<lambda>fd. p_ofile (proc_at ?c (cur ?c)) ! fd = None) [0..<NOFILE] = Some 1"
    by (simp add: c o upt_rec)
  then have "fdalloc 0 ?c = (Some 1, set_ofile 1 (Some 0) ?c)" by (simp add: fdalloc_def)
  then have "\<exists>t. sys_dup ?c = Done 1 t \<and> f_ref (file_at t 0) = 2"
    by (simp add: sys_dup_def a filedup_def set_ofile_def set_proc_def set_file_def c)
  then obtain t where t: "sys_dup ?c = Done 1 t" "f_ref (file_at t 0) = 2" by blast
  have "syscall [] 1 ?s = Done () (tf_set 0 TF_a0 1 t)" using tf t by (simp add: syscall_def syscalls_def)
  moreover have "fd_safe (syscall [] 1 ?s)" by (rule syscall_keeps_descriptors [OF sample_fd_inv]) simp
  ultimately show ?thesis using t(2) by (simp add: fd_safe_def tf_set_def Let_def)
qed

end
