(* ===== verification/Counters.thy ===== *)
theory Counters
  imports Frames Samples
begin

text \<open>
  The counters of system calls. Views that depend neither on the file table nor on the process table are kept by all system calls;
  the counters are such a view, so that the dispatcher is the only place that changes them. It does so without a lock: the last
  part lets the harts interleave the load and the store of the increment.
\<close>

locale global_view = state_view view for view :: "'a file_state_scheme \<Rightarrow> 'v" +
  assumes view_any_proc [frame_intros]: "\<And>i f s t. view t = view s \<Longrightarrow> view (set_proc i f t) = view s"
    and view_any_file [frame_intros]: "\<And>i g s t. view t = view s \<Longrightarrow> view (set_file i g t) = view s"
begin

lemma keeps_freeproc [frame_intros]: "view t = view s \<Longrightarrow> keeps view s (freeproc p t)"
  unfolding freeproc_def Let_def by (intro frame_intros)

lemma keeps_allocproc [frame_intros]: "view t = view s \<Longrightarrow> keeps view s (allocproc t)"
  unfolding allocproc_def allocpid_def Let_def prod.case by (intro frame_intros)

lemma keeps_filealloc [frame_intros]:
  "view t = view s \<Longrightarrow> (\<And>r t'. view t' = view s \<Longrightarrow> keeps view s (f r t')) \<Longrightarrow> keeps view s (case filealloc t of (r, t') \<Rightarrow> f r t')"
  unfolding filealloc_def by (auto split: option.split simp: view_any_file)

lemma keeps_fdalloc [frame_intros]:
  "view t = view s \<Longrightarrow> (\<And>r t'. view t' = view s \<Longrightarrow> keeps view s (g r t')) \<Longrightarrow> keeps view s (case fdalloc f t of (r, t') \<Rightarrow> g r t')"
  unfolding fdalloc_def set_ofile_def by (auto split: option.split simp: view_any_proc)

lemma view_set_ofile [frame_intros]: "view t = view s \<Longrightarrow> view (set_ofile fd f t) = view s"
  unfolding set_ofile_def by (intro frame_intros)

lemma keeps_filedup [frame_intros]: "view t = view s \<Longrightarrow> keeps view s (filedup f t)"
  unfolding filedup_def by (intro frame_intros)

lemma keeps_fileclose [frame_intros]: "view t = view s \<Longrightarrow> keeps view s (fileclose f t)"
  unfolding fileclose_def Let_def by (intro frame_intros)

lemma keeps_option_app [frame_intros]:
  "(r = None \<Longrightarrow> keeps view s (m t)) \<Longrightarrow> (\<And>x. r = Some x \<Longrightarrow> keeps view s (f x t)) \<Longrightarrow> keeps view s ((case r of None \<Rightarrow> m | Some x \<Rightarrow> f x) t)"
  by (cases r) auto

lemma keeps_pipealloc [frame_intros]: "view t = view s \<Longrightarrow> keeps view s (pipealloc t)"
  unfolding pipealloc_def Let_def by (intro frame_intros)

lemma keeps_sys_dup [frame_intros]: "view t = view s \<Longrightarrow> keeps view s (sys_dup t)"
  unfolding sys_dup_def by (intro frame_intros | assumption | rule keeps_prod)+

lemma keeps_sys_close [frame_intros]: "view t = view s \<Longrightarrow> keeps view s (sys_close t)"
  unfolding sys_close_def by (intro frame_intros | assumption | rule keeps_prod)+

lemma keeps_sys_open [frame_intros]: "view t = view s \<Longrightarrow> keeps view s (sys_open t)"
  unfolding sys_open_def Let_def by (intro frame_intros)

lemma keeps_sys_pipe [frame_intros]: "view t = view s \<Longrightarrow> keeps view s (sys_pipe t)"
  unfolding sys_pipe_def close_both_def Let_def by (intro frame_intros | assumption | rule keeps_prod)+

lemma keeps_dup_files [frame_intros]: "view t = view s \<Longrightarrow> keeps view s (dup_files p np is t)"
proof (induction "is" arbitrary: t)
  case (Cons i "is")
  show ?case unfolding dup_files.simps by (intro frame_intros Cons)
qed simp

lemma keeps_kfork [frame_intros]: "view t = view s \<Longrightarrow> keeps view s (kfork t)"
  unfolding kfork_def Let_def by (intro frame_intros)

lemma keeps_kwait [frame_intros]: "view t = view s \<Longrightarrow> keeps view s (kwait addr t)"
  unfolding kwait_def Let_def by (intro frame_intros) simp_all

lemma keeps_close_files [frame_intros]: "view t = view s \<Longrightarrow> keeps view s (close_files p fds t)"
proof (induction fds arbitrary: t)
  case (Cons fd fds)
  show ?case unfolding close_files.simps by (intro frame_intros Cons)
qed simp

lemma view_reparent_loop: "view t = view s \<Longrightarrow> view (reparent_loop p pps t) = view s"
  by (induction pps arbitrary: t) (simp_all add: view_wakeup view_any_proc Let_def split: option.split)

lemma keeps_sys_fork [frame_intros]: "view t = view s \<Longrightarrow> keeps view s (sys_fork t)"
  unfolding sys_fork_def by (intro frame_intros)

lemma keeps_sys_wait [frame_intros]: "view t = view s \<Longrightarrow> keeps view s (sys_wait t)"
  unfolding sys_wait_def by (intro frame_intros)

end

lemma kexit_not_Done: "kexit status s \<noteq> Done a t"
  by (auto simp: kexit_def Let_def become_zombie_def sched_def outcome_simps split: if_splits outcome.splits)

interpretation cnt: global_view "syscall_counts :: 'a kern_state_scheme \<Rightarrow> int list"
  by unfold_locales (simp_all add: wakeup_def set_proc_def set_file_def)

lemma counts_kern_calls [frame_intros]:
  fixes s t :: "'a kern_state_scheme"
  shows "syscall_counts t = syscall_counts s \<Longrightarrow> keeps syscall_counts s (sys_pause t)"
    "syscall_counts t = syscall_counts s \<Longrightarrow> keeps syscall_counts s (sys_uptime t)"
    "syscall_counts t = syscall_counts s \<Longrightarrow> keeps syscall_counts s (sys_getcnt t)"
  unfolding sys_pause_def pause_check_def Let_def sys_uptime_def sys_getcnt_def by (intro frame_intros; simp)+

lemma counts_asleep: "syscall_counts (asleep c u) = syscall_counts u" for u :: "'a kern_state_scheme"
  by (simp add: asleep_def set_proc_def set_cpu_proc_def)

lemma keeps_counts:
  fixes s :: "'a kern_state_scheme"
  assumes "keeps syscall_counts s m" "m = Done r t \<or> m = Asleep c t"
  shows "syscall_counts t = syscall_counts s"
  using assms by (auto simp: slept_def counts_asleep)

lemma counts_become_zombie:
  fixes s :: "'a kern_state_scheme"
  assumes "become_zombie status s = Asleep c t"
  shows "syscall_counts t = syscall_counts s"
proof -
  let ?p = "cur s"
  define u where "u = (case p_parent (proc_at (reparent ?p s) ?p) of Some q \<Rightarrow> wakeup (ChProc q) (reparent ?p s) | None \<Rightarrow> reparent ?p s)"
  have "syscall_counts (reparent ?p s) = syscall_counts s" unfolding reparent_def by (rule cnt.view_reparent_loop [OF refl])
  then have "syscall_counts u = syscall_counts s" by (simp add: u_def cnt.view_wakeup split: option.split)
  moreover have "t = set_cpu_proc None (set_proc ?p (\<lambda>q. q\<lparr>p_xstate := status, p_state := ZOMBIE\<rparr>) u)"
    using assms by (auto simp: become_zombie_def Let_def u_def [symmetric] sched_def split: if_splits)
  ultimately show ?thesis by (simp add: set_cpu_proc_def set_proc_def)
qed

lemma counts_kexit:
  fixes s :: "'a kern_state_scheme"
  assumes "kexit status s = (Asleep c t :: ('b, 'a kern_state_scheme) outcome)"
  shows "syscall_counts t = syscall_counts s"
proof -
  let ?p = "cur s"
  define m where "m = obind (close_files ?p [0..<NOFILE] s) (\<lambda>_ s. obind (begin_op s) (\<lambda>_ s.
        obind (deref (p_cwd (proc_at s ?p)) (\<lambda>cwd. iput cwd s)) (\<lambda>_ s. end_op s)))"
  have k: "keeps syscall_counts s m" unfolding m_def by (intro frame_intros refl)
  have "(kexit status s :: ('b, 'a kern_state_scheme) outcome) = (if Some ?p = initproc s then Panic ''init exiting''
      else obind m (\<lambda>_ s. become_zombie status (set_proc ?p (p_cwd_update (\<lambda>_. None)) s)))"
    by (simp only: kexit_def Let_def m_def obind_assoc)
  then consider "m = Asleep c t" | a u where "m = Done a u" "become_zombie status (set_proc ?p (p_cwd_update (\<lambda>_. None)) u) = (Asleep c t :: ('b, _) outcome)"
    using assms by (cases m) (auto split: if_splits)
  then show ?thesis
  proof cases
    case 1
    then show ?thesis using keeps_counts [OF k] by blast
  next
    case 2
    then show ?thesis using counts_become_zombie [OF 2(2)] keeps_counts [OF k] by (simp add: set_proc_def)
  qed
qed

text \<open>No system call changes the counters, whether it returns, goes to sleep or ends the process.\<close>

lemma table_counts:
  fixes s :: "'a kern_state_scheme"
  assumes f: "Some f \<in> set (syscalls pad st)" and d: "f s = Done r t \<or> f s = Asleep c t"
  shows "syscall_counts t = syscall_counts s"
proof (cases "f = sys_exit")
  case True
  then show ?thesis using d counts_kexit by (auto simp: sys_exit_def outcome_simps kexit_not_Done argint_def argraw_def)
next
  case False
  have "keeps syscall_counts s (f s)"
    by (insert f False, unfold syscalls_def, simp only: list.set insert_iff empty_iff option.inject option.distinct HOL.simp_thms)
      (elim disjE; hypsubst?; intro frame_intros refl)
  then show ?thesis using d by (rule keeps_counts)
qed

section \<open>Counting on several harts\<close>

text \<open>
  The kernel state that all harts share, for each hart the increment it is in the middle of, with the value it has loaded, and how
  many increments of each counter have been carried out, which the code does not record.
\<close>

record 's counting =
  kst :: 's
  pend :: "nat \<Rightarrow> (nat \<times> int) option"
  calls :: "nat \<Rightarrow> nat"

text \<open>
  The steps: a hart that enters \<^verbatim>\<open>syscall\<close> loads the counter and later stores it; a call from the table runs until it returns or goes
  to sleep; and all other code of the kernel, which does not name the counters. In a \<open>serial\<close> run no hart begins an increment of a
  counter that another one is in the middle of.
\<close>

inductive count_step :: "bool \<Rightarrow> 'a kern_state_scheme counting \<Rightarrow> 'a kern_state_scheme counting \<Rightarrow> bool" for serial where
  load: "pend m c = None \<Longrightarrow> 0 < num \<Longrightarrow> num < NSYSCALLS \<Longrightarrow> (serial \<longrightarrow> (\<forall>d v. pend m d \<noteq> Some (num, v))) \<Longrightarrow>
    count_step serial m (m\<lparr>pend := (pend m)(c \<mapsto> (num, count_load num (kst m)))\<rparr>)"
| store: "pend m c = Some (num, v) \<Longrightarrow>
    count_step serial m (m\<lparr>kst := count_store num v (kst m), pend := (pend m)(c := None), calls := (calls m)(num := Suc (calls m num))\<rparr>)"
| call: "Some f \<in> set (syscalls pad st) \<Longrightarrow> f (kst m) = Done r t \<or> f (kst m) = Asleep ch t \<Longrightarrow> count_step serial m (m\<lparr>kst := t\<rparr>)"
| other: "syscall_counts t = syscall_counts (kst m) \<Longrightarrow> count_step serial m (m\<lparr>kst := t\<rparr>)"

inductive count_reach :: "bool \<Rightarrow> 'a kern_state_scheme counting \<Rightarrow> bool" for serial where
  start: "syscall_counts (kst m) = replicate NSYSCALLS 0 \<Longrightarrow> pend m = (\<lambda>_. None) \<Longrightarrow> calls m = (\<lambda>_. 0) \<Longrightarrow> count_reach serial m"
| step: "count_reach serial m \<Longrightarrow> count_step serial m m' \<Longrightarrow> count_reach serial m'"

text \<open>A call of \<^verbatim>\<open>syscall\<close> on a hart, up to its return or to where it sleeps, is such a run: load, store, call, and the result into \<open>a0\<close>.\<close>

lemma syscall_run:
  fixes m :: "'a kern_state_scheme counting"
  defines "num \<equiv> sint (ucast (tf_get (cur (kst m)) TF_a7 (kst m)) :: u32)"
  assumes reach: "count_reach serial m" and c: "pend m c = None" and free: "serial \<longrightarrow> (\<forall>d v. pend m d \<noteq> Some (nat num, v))"
    and num: "0 < num" "num < 25" and call: "syscall pad st (kst m) = Done () t \<or> syscall pad st (kst m) = Asleep ch t"
  shows "count_reach serial (m\<lparr>calls := (calls m)(nat num := Suc (calls m (nat num))), kst := t\<rparr>)"
proof -
  let ?sys = "syscalls pad st :: ('a kern_state_scheme \<Rightarrow> (u64, 'a kern_state_scheme) outcome) option list"
  let ?n = "nat num" and ?s = "kst m"
  have "\<exists>f. ?sys ! ?n = Some f" by (rule all_calls_present) (use num in auto)
  then obtain f where f: "?sys ! ?n = Some f" by blast
  then have mem: "Some f \<in> set ?sys" unfolding f [symmetric] by (intro nth_mem) (use num in \<open>auto simp: length_syscalls\<close>)
  let ?u = "count_call ?n ?s"
  have sc: "syscall pad st ?s = obind (f ?u) (\<lambda>r s. Done () (tf_set (cur ?s) TF_a0 r s))"
    using num f by (simp add: syscall_def Let_def num_def)
  let ?m1 = "m\<lparr>pend := (pend m)(c \<mapsto> (?n, count_load ?n ?s))\<rparr>"
  let ?m2 = "m\<lparr>calls := (calls m)(?n := Suc (calls m ?n)), kst := ?u\<rparr>"
  have r1: "count_reach serial ?m1" by (rule count_reach.step [OF reach], rule count_step.load) (use c free num in auto)
  have "?m2 = ?m1\<lparr>kst := count_store ?n (count_load ?n ?s) (kst ?m1), pend := (pend ?m1)(c := None), calls := (calls ?m1)(?n := Suc (calls ?m1 ?n))\<rparr>"
    using c by (simp add: count_call_def fun_upd_idem)
  then have r2: "count_reach serial ?m2" using count_reach.step [OF r1 count_step.store [of ?m1 c ?n "count_load ?n ?s"]] by simp
  have r3: "count_reach serial (?m2\<lparr>kst := v\<rparr>)" if "f ?u = Done r v \<or> f ?u = Asleep ch v" for r v ch
    by (rule count_reach.step [OF r2], rule count_step.call [OF mem]) (use that in auto)
  from call sc consider r v where "f ?u = Done r v" "t = tf_set (cur ?s) TF_a0 r v" | "f ?u = Asleep ch t" by (auto simp: outcome_simps)
  then show ?thesis
  proof cases
    case 1
    have "syscall_counts t = syscall_counts (kst (?m2\<lparr>kst := v\<rparr>))" using 1(2) cnt.view_tf_set [OF refl] by simp
    from count_reach.step [OF r3 [OF disjI1 [OF 1(1)]] count_step.other [OF this]] show ?thesis by simp
  next
    case 2
    from r3 [OF disjI2 [OF 2]] show ?thesis by simp
  qed
qed

definition count_inv :: "bool \<Rightarrow> nat \<Rightarrow> 'a kern_state_scheme counting \<Rightarrow> bool" where
  "count_inv serial num m \<longleftrightarrow> length (syscall_counts (kst m)) = NSYSCALLS \<and>
     (calls m num < 2 ^ 31 \<longrightarrow>
       0 \<le> count_load num (kst m) \<and> count_load num (kst m) \<le> int (calls m num) \<and> (0 < calls m num \<longrightarrow> 0 < count_load num (kst m)) \<and>
       (\<forall>c v. pend m c = Some (num, v) \<longrightarrow> 0 \<le> v \<and> v \<le> int (calls m num)) \<and>
       (serial \<longrightarrow> count_load num (kst m) = int (calls m num) \<and> (\<forall>c v. pend m c = Some (num, v) \<longrightarrow> v = int (calls m num)) \<and>
         (\<forall>c d v w. pend m c = Some (num, v) \<longrightarrow> pend m d = Some (num, w) \<longrightarrow> c = d)))"

lemma count_inv_counts:
  assumes "syscall_counts t = syscall_counts (kst m)" "count_inv serial num m"
  shows "count_inv serial num (m\<lparr>kst := t\<rparr>)"
  using assms by (simp add: count_inv_def count_load_def)

lemma count_inv_step:
  assumes "count_step serial m m'" "count_inv serial num m" "num < NSYSCALLS"
  shows "count_inv serial num m'"
  using assms(1)
proof (cases rule: count_step.cases)
  case (load c n)
  then show ?thesis using assms(2) by (auto simp: count_inv_def)
next
  case (store c n v)
  show ?thesis
  proof (cases "n = num")
    case False
    then show ?thesis using store assms(2) by (auto simp: count_inv_def count_load_def count_store_def)
  next
    case True
    have l: "length (syscall_counts (kst m)) = NSYSCALLS" using assms(2) by (simp add: count_inv_def)
    have k: "calls m num < 2 ^ 31 - 1 \<Longrightarrow> 0 \<le> v \<Longrightarrow> v \<le> int (calls m num) \<Longrightarrow> wrap32 (v + 1) = v + 1" by (intro wrap32_id) auto
    have w: "0 \<le> x \<and> x \<le> int (Suc (calls m num))" if "pend m d = Some (num, x)" "calls m num < 2 ^ 31 - 1" for d x
      using assms(2) that by (fastforce simp: count_inv_def)
    show ?thesis using store True assms(2,3) k l w by (auto simp: count_inv_def count_load_def count_store_def)
  qed
next
  case (call f pad st r t ch)
  then show ?thesis using count_inv_counts [OF table_counts assms(2)] by blast
next
  case (other t)
  then show ?thesis using count_inv_counts assms(2) by blast
qed

lemma count_reach_inv: "count_reach serial m \<Longrightarrow> num < NSYSCALLS \<Longrightarrow> count_inv serial num m"
proof (induction rule: count_reach.induct)
  case (start m)
  then show ?case by (simp add: count_inv_def count_load_def)
next
  case (step m m')
  then show ?case using count_inv_step by blast
qed


text \<open>One hart makes the call \<^verbatim>\<open>getcnt(22)\<close>.\<close>

definition counting_start :: "'s \<Rightarrow> 's counting" where
  "counting_start s = \<lparr>kst = s, pend = (\<lambda>_. None), calls = (\<lambda>_. 0)\<rparr>"


text \<open>The increments are not exact in general: two harts that make call 1 at the same time can count it once.\<close>

lemma count_lost:
  fixes s :: "'a kern_state_scheme"
  assumes "syscall_counts s = replicate NSYSCALLS 0"
  shows "\<exists>m :: 'a kern_state_scheme counting. count_reach False m \<and> calls m 1 = 2 \<and> count_load 1 (kst m) = 1"
proof -
  let ?m0 = "counting_start s"
  have 0: "count_reach False ?m0" by (rule count_reach.start) (simp_all add: counting_start_def assms)
  let ?m1 = "?m0\<lparr>pend := [0 \<mapsto> (1, 0)]\<rparr>" and ?m2 = "?m0\<lparr>pend := [0 \<mapsto> (1, 0), 1 \<mapsto> (1, 0)]\<rparr>"
  let ?t = "count_store 1 0 s"
  have 1: "count_reach False ?m1" using count_reach.step [OF 0 count_step.load [of ?m0 0 1]] assms by (simp add: counting_start_def count_load_def)
  have 2: "count_reach False ?m2" using count_reach.step [OF 1 count_step.load [of ?m1 1 1]] assms by (simp add: counting_start_def count_load_def)
  let ?m3 = "\<lparr>kst = ?t, pend = [1 \<mapsto> (1, 0)], calls = (\<lambda>_. 0)(1 := 1)\<rparr>"
  have "(([0 \<mapsto> (1, 0), 1 \<mapsto> (1, 0)] :: nat \<Rightarrow> (nat \<times> int) option))(0 := None) = [1 \<mapsto> (1, 0)]" by auto
  then have 3: "count_reach False ?m3" using count_reach.step [OF 2 count_step.store [of ?m2 0 1 0]] by (simp add: counting_start_def)
  let ?m4 = "\<lparr>kst = count_store 1 0 ?t, pend = (\<lambda>_. None), calls = (\<lambda>_. 0)(1 := 2)\<rparr>"
  have "([1 \<mapsto> (1, 0)] :: nat \<Rightarrow> (nat \<times> int) option)(1 := None) = (\<lambda>_. None)" by auto
  then have 4: "count_reach False ?m4" using count_reach.step [OF 3 count_step.store [of ?m3 1 1 0]] by (simp add: numeral_2_eq_2)
  have "count_load 1 (kst ?m4) = 1" using assms by (simp add: count_load_def count_store_def wrap32_def)
  then show ?thesis using 4 by (intro exI [of _ ?m4]) simp
qed

end
