(* ===== verification/Faults.thy ===== *)
theory Faults
  imports Counters
begin

text \<open>
  What becomes of a process that uses a null pointer: \<^verbatim>\<open>usertrap\<close> marks it as killed and ends it, whatever
  is mapped, and it becomes a zombie with exit status -1. The last section shows two traps in which the
  kernel does not do what it should: \<^verbatim>\<open>kill(0)\<close>, and \<^verbatim>\<open>exec\<close> of a program with a segment below the first page.
\<close>

section \<open>The end of a process\<close>

text \<open>Which process runs on which hart, and the size of the process table, are kept by the operations that \<^verbatim>\<open>kexit\<close> calls.\<close>

definition cpu_view :: "'a proc_state_scheme \<Rightarrow> (nat \<Rightarrow> cpu) \<times> nat \<times> nat" where
  "cpu_view s = (cpus s, tp s, length (procs s))"

interpretation cpu: global_view "cpu_view :: 'a file_state_scheme \<Rightarrow> _"
  by unfold_locales (simp_all add: cpu_view_def wakeup_def set_proc_def set_file_def)

lemma cpu_view_myproc: "cpu_view t = cpu_view s \<Longrightarrow> myproc t = myproc s \<and> length (procs t) = length (procs s)"
  by (simp add: cpu_view_def myproc_def mycpu_def cpuid_def)

lemma cpu_view_wakeup: "cpu_view (wakeup c t) = cpu_view t"
  by (simp add: cpu_view_def wakeup_def)

lemma cpu_view_set_proc: "cpu_view (set_proc i f t) = cpu_view t"
  by (simp add: cpu_view_def set_proc_def)

lemma cpu_view_reparent: "cpu_view (reparent_loop p pps t) = cpu_view t"
  by (induction pps arbitrary: t) (simp_all add: cpu_view_wakeup cpu_view_set_proc Let_def split: option.split)

lemma become_zombie_result:
  assumes "become_zombie status s = Asleep c t" "cur s < length (procs s)"
  shows "p_state (proc_at t (cur s)) = ZOMBIE \<and> p_xstate (proc_at t (cur s)) = status \<and> myproc t = None"
proof -
  let ?p = "cur s"
  define u where "u = (case p_parent (proc_at (reparent ?p s) ?p) of Some q \<Rightarrow> wakeup (ChProc q) (reparent ?p s) | None \<Rightarrow> reparent ?p s)"
  have "cpu_view u = cpu_view s" by (simp add: u_def cpu_view_wakeup reparent_def cpu_view_reparent split: option.split)
  then have l: "?p < length (procs u)" using assms(2) cpu_view_myproc [of u s] by simp
  have "t = set_cpu_proc None (set_proc ?p (\<lambda>q. q\<lparr>p_xstate := status, p_state := ZOMBIE\<rparr>) u)"
    using assms(1) by (auto simp: become_zombie_def Let_def u_def [symmetric] sched_def split: if_splits)
  then show ?thesis using l by (simp add: set_cpu_proc_def set_proc_def myproc_def mycpu_def cpuid_def)
qed

lemma kexit_result:
  fixes s :: "'a file_state_scheme"
  assumes "kexit status s = (Asleep ChNone t :: ('b, _) outcome)" and p: "myproc s = Some p" "p < length (procs s)"
  shows "p_state (proc_at t p) = ZOMBIE \<and> p_xstate (proc_at t p) = status \<and> myproc t = None"
proof -
  define m where "m = obind (close_files p [0..<NOFILE] s) (\<lambda>_ s. obind (begin_op s) (\<lambda>_ s.
        obind (deref (p_cwd (proc_at s p)) (\<lambda>cwd. iput cwd s)) (\<lambda>_ s. end_op s)))"
  have k: "keeps cpu_view s m" unfolding m_def by (intro frame_intros refl)
  have "(kexit status s :: ('b, 'a file_state_scheme) outcome) = (if Some p = initproc s then Panic ''init exiting''
      else obind m (\<lambda>_ s. become_zombie status (set_proc p (p_cwd_update (\<lambda>_. None)) s)))"
    by (simp only: kexit_def Let_def p option.sel m_def obind_assoc)
  then obtain a u where u: "m = Done a u" "become_zombie status (set_proc p (p_cwd_update (\<lambda>_. None)) u) = (Asleep ChNone t :: ('b, _) outcome)"
    using assms(1) k by (cases m) (auto split: if_splits)
  have "cpu_view (set_proc p (p_cwd_update (\<lambda>_. None)) u) = cpu_view s" using k u(1) by (simp add: cpu_view_set_proc)
  from cpu_view_myproc [OF this] become_zombie_result [OF u(2)] p show ?thesis by simp
qed

section \<open>Null pointers\<close>

lemma kprintf_only_uart: "\<exists>out idle. kprintf fmt ap s = s\<lparr>uart_out := out, uart_idle := idle\<rparr>"
proof -
  have one: "\<exists>out idle. consputc c t = t\<lparr>uart_out := out, uart_idle := idle\<rparr>" for c and t :: "'a cons_state_scheme"
    by (simp add: consputc_def uartputc_sync_def write_THR_def uart_sent_def) blast
  have "\<exists>out idle. fold consputc cs t = t\<lparr>uart_out := out, uart_idle := idle\<rparr>" for cs and t :: "'a cons_state_scheme"
  proof (induction cs arbitrary: t)
    case Nil
    show ?case by (intro exI [of _ "uart_out t"] exI [of _ "uart_idle t"]) simp
  next
    case (Cons c cs)
    obtain o1 i1 where "consputc c t = t\<lparr>uart_out := o1, uart_idle := i1\<rparr>" using one by blast
    then show ?case using Cons [of "consputc c t"] by auto
  qed
  moreover have "kprintf fmt ap s = fold consputc (case printf (bytes_of fmt) ap of None \<Rightarrow> [] | Some out \<Rightarrow> out) s"
    by (simp add: kprintf_def split: option.split)
  ultimately show ?thesis by simp
qed

lemma usertrap_cause_null:
  assumes "r_scause s \<in> {12, 13, 15}" "r_stval s < PGSIZE"
  shows "\<exists>out idle. usertrap_cause pad st s = Done 0 (setkilled (cur s) (s\<lparr>uart_out := out, uart_idle := idle\<rparr>))"
proof -
  have d: "devintr s = Done 0 s" using assms(1) by (auto simp: devintr_def)
  obtain o1 i1 where 1: "kprintf ''usertrap(): null pointer dereference pid=%d\<newline>'' [VNum (word_of_int (p_pid (proc_at s (cur s))))] s
      = s\<lparr>uart_out := o1, uart_idle := i1\<rparr>"
    using kprintf_only_uart by blast
  let ?s = "s\<lparr>uart_out := o1, uart_idle := i1\<rparr>"
  obtain o2 i2 where 2: "kprintf ''            scause=0x%lx sepc=0x%lx stval=0x%lx\<newline>'' [VNum (r_scause ?s), VNum (r_sepc ?s), VNum (r_stval ?s)] ?s
      = ?s\<lparr>uart_out := o2, uart_idle := i2\<rparr>"
    using kprintf_only_uart by blast
  show ?thesis using assms
    by (intro exI [of _ o2] exI [of _ i2]) (auto simp: usertrap_cause_def Let_def d 1 2 [simplified])
qed

text \<open>
  C10: a user program that reads, writes or executes an address of the first page is ended. \<^verbatim>\<open>usertrap\<close> does not
  return to it and maps no page: it marks the process as killed and continues with \<^verbatim>\<open>kexit(-1)\<close>, having changed
  nothing else in memory than the saved program counter and taken no page from the allocator. When
  \<^verbatim>\<open>kexit\<close> is through, the process is a zombie with status -1 and the hart is free.
\<close>

theorem usertrap_null_pointer:
  fixes s :: "'a hart_state_scheme"
  assumes "r_sstatus s AND SSTATUS_SPP = 0" "r_scause s \<in> {12, 13, 15}" "r_stval s < PGSIZE"
    and p: "myproc s = Some p" "p < length (procs s)"
  shows "usertrap pad st s \<noteq> Done satp t \<and>
    (\<exists>u. usertrap pad st s = kexit (-1) u \<and> killed p u = 1 \<and> myproc u = Some p \<and> freelist u = freelist s \<and>
      mem u = mem (tf_set p TF_epc (r_sepc s) s)) \<and>
    (usertrap pad st s = Asleep ChNone t \<longrightarrow> p_state (proc_at t p) = ZOMBIE \<and> p_xstate (proc_at t p) = -1 \<and> myproc t = None)"
proof -
  let ?s = "tf_set p TF_epc (r_sepc s) (s\<lparr>r_stvec := kernelvec_pc s\<rparr>)"
  have s: "r_scause ?s = r_scause s" "r_stval ?s = r_stval s" "myproc ?s = Some p" "freelist ?s = freelist s" "procs ?s = procs s"
    "mem ?s = mem (tf_set p TF_epc (r_sepc s) s)"
    using p by (simp_all add: tf_set_def Let_def myproc_def mycpu_def cpuid_def)
  obtain out idle where c: "usertrap_cause pad st ?s = Done 0 (setkilled (cur ?s) (?s\<lparr>uart_out := out, uart_idle := idle\<rparr>))"
    using usertrap_cause_null [of ?s pad st] assms(2,3) s(1,2) by auto
  define u where "u = setkilled (cur ?s) (?s\<lparr>uart_out := out, uart_idle := idle\<rparr>)"
  have u: "killed p u = 1" "myproc u = Some p" "freelist u = freelist s" "mem u = mem (tf_set p TF_epc (r_sepc s) s)" "length (procs u) = length (procs s)"
    using s p(2) by (simp_all add: u_def setkilled_def killed_def set_proc_def myproc_def mycpu_def cpuid_def)
  have e: "usertrap pad st s = kexit (-1) u"
    using assms(1) p(1) c u(1) by (simp add: usertrap_def Let_def u_def myproc_def mycpu_def cpuid_def)
  moreover have "kexit (-1) u \<noteq> Done satp t" by (rule kexit_not_Done)
  moreover have "kexit (-1) u = (Asleep ChNone t :: (u64, _) outcome) \<Longrightarrow> p_state (proc_at t p) = ZOMBIE \<and> p_xstate (proc_at t p) = -1 \<and> myproc t = None"
    using kexit_result [of "-1" u t p] u(2,5) p(2) by simp
  ultimately show ?thesis using u by metis
qed

theorem usertrap_null_pointer_witness:
  "\<exists>u. usertrap [] 1 (sample_hart (\<lambda>_. 0)\<lparr>r_scause := 13, r_stval := 8\<rparr>) = kexit (-1) u \<and> killed 0 u = 1 \<and> myproc u = Some 0"
proof -
  let ?s = "sample_hart (\<lambda>_. 0)\<lparr>r_scause := 13, r_stval := 8\<rparr>"
  have m: "myproc ?s = Some 0" using sample_hart_simps(3) [of "\<lambda>_. 0"] by (simp add: myproc_def mycpu_def cpuid_def)
  then show ?thesis using usertrap_null_pointer [of ?s 0 "[]" 1] by simp blast
qed

section \<open>Two defects\<close>

interpretation tab: mem_view "procs :: 'a proc_state_scheme \<Rightarrow> proc list"
  by unfold_locales simp_all

text \<open>
  \<^verbatim>\<open>kkill\<close> compares process ids without looking at the state, and a free slot has the id 0: \<^verbatim>\<open>kill(0)\<close> succeeds and
  marks the first free slot as killed. \<^verbatim>\<open>allocproc\<close> does not reset the mark, so that the process which gets
  the slot next is killed at its first system call.
\<close>

lemma kill_zero_poisons_slot:
  assumes i: "List.find (\<lambda>i. p_pid (proc_at s i) = 0) [0..<NPROC] = Some i" "i < length (procs s)"
    and a: "allocproc (snd (kkill 0 s)) = Done (Some i) u"
  shows "fst (kkill 0 s) = 0 \<and> p_killed (proc_at u i) = 1"
proof -
  define s1 where "s1 = snd (kkill 0 s)"
  have s1: "fst (kkill 0 s) = 0" "p_killed (proc_at s1 i) = 1" "i < length (procs s1)"
    using i by (simp_all add: kkill_def s1_def set_proc_def)
  obtain j where j: "List.find (\<lambda>i. p_state (proc_at s1 i) = UNUSED) [0..<NPROC] = Some j"
    using a by (auto simp: allocproc_def s1_def [symmetric] split: option.splits)
  obtain pid s1' where al: "allocpid s1 = (pid, s1')" by (cases "allocpid s1")
  define s2 where "s2 = set_proc j (\<lambda>q. q\<lparr>p_pid := pid, p_state := USED\<rparr>) s1'"
  obtain tf s3 where k: "kalloc s2 = (tf, s3)" by (cases "kalloc s2")
  define s4 where "s4 = set_proc j (p_trapframe_update (\<lambda>_. tf)) s3"
  have p3: "procs s3 = procs s2" using tab.view_kalloc [OF refl k] .
  have p4: "p_killed (proc_at s4 i) = 1" "i < length (procs s4)"
    using s1 al by (cases "i = j"; auto simp: s4_def p3 s2_def allocpid_def set_proc_def)+
  have "tab": "keeps procs s4 (proc_pagetable j s4)" by (rule tab.keeps_proc_pagetable [OF refl])
  have "(if tf = 0 then obind (freeproc j s4) (\<lambda>_ s. Done None s)
      else obind (proc_pagetable j s4) (\<lambda>pt s.
        let s = set_proc j (p_pagetable_update (\<lambda>_. pt)) s in
        if pt = 0 then obind (freeproc j s) (\<lambda>_ s. Done None s)
        else Done (Some j) (set_proc j (\<lambda>q. q\<lparr>p_context := zero_context\<lparr>c_ra := forkret_pc s, c_sp := p_kstack q + PGSIZE\<rparr>,
          p_tickets := 1, p_ticks := 0\<rparr>) s))) = Done (Some i) u"
    using a by (simp only: allocproc_def s1_def [symmetric] j option.case al prod.case Let_def s2_def [symmetric] k s4_def [symmetric])
  then obtain pt s5 where "proc_pagetable j s4 = Done pt s5" and u: "u = set_proc j (\<lambda>q. q\<lparr>p_context := zero_context\<lparr>c_ra := forkret_pc s5, c_sp := p_kstack q + PGSIZE\<rparr>,
          p_tickets := 1, p_ticks := 0\<rparr>) (set_proc j (p_pagetable_update (\<lambda>_. pt)) s5)"
    by (auto simp: outcome_simps Let_def set_proc_def split: if_splits)
  then have "procs s5 = procs s4" using "tab" by simp
  then show ?thesis using p4 s1(1) by (cases "i = j"; simp add: u set_proc_def)
qed

text \<open>
  \<^verbatim>\<open>kexec\<close> starts with a size of one page, so that \<^verbatim>\<open>uvmalloc\<close> maps nothing below it. A program header that asks for
  the first page passes all checks, and \<^verbatim>\<open>loadseg\<close> then panics because the page is not mapped: a user
  can stop the kernel with a file.
\<close>

lemma exec_low_segment_panics:
  assumes "ph_type ph = ELF_PROG_LOAD" "ph_vaddr ph = 0" "0 < ph_filesz ph" "ph_filesz ph < 0x1000" "ph_filesz ph \<le> ph_memsz ph" "ph_memsz ph < 0x1000"
    and w: "walkaddr pagetable 0 s = Done 0 s"
  shows "load_segment pagetable ip ph PGSIZE s = Panic ''loadseg: address should exist''"
proof -
  have "uvmalloc pagetable PGSIZE (ph_memsz ph) (flags2perm (ph_flags ph)) s = Done PGSIZE s"
    using assms(6) by (simp add: uvmalloc_def)
  moreover have "0 < unat (ucast (ph_filesz ph) :: u32)"
    using assms(3,4) by (simp add: unsigned_ucast_eq unsigned_take_bit_eq take_bit_nat_def word_less_nat_alt)
  ultimately show ?thesis
    using assms w by (simp add: load_segment_def loadseg_def loadseg_loop.simps linorder_not_less)
qed

end
