(* ===== verification/Disk.thy ===== *)
theory Disk
  imports Samples
begin

text \<open>
  The disk driver against the one-step transfer that the buffer cache uses. The device is a parameter \<open>dev\<close>: \<open>dev seen\<close> is what
  it does to memory and disk when it has taken \<open>seen\<close> entries from the available ring so far. It learns of requests only through
  the ring, its index and the notification register. The hypothesis \<open>virtio_device\<close> is what the virtio standard says of a
  block device; the theorem shows that the driver builds and publishes such a request and that request, service, interrupt and
  completion together transfer the block.
\<close>

text \<open>
  A request as the standard describes it: a header the device reads, 1024 bytes it reads or, for a read of the disk,
  writes, and a status byte it writes. The result is whether it is a write, the sector, the buffer and
  where the status byte is.
\<close>

definition request_at :: "nat \<Rightarrow> 'a vio_state_scheme \<Rightarrow> (bool \<times> u64 \<times> nat \<times> nat) option" where
  "request_at h s =
     (let d0 = vq_desc s ! h; d1 = vq_desc s ! unat (d_next d0); d2 = vq_desc s ! unat (d_next d1) in
      case (d_addr d0, d_addr d1, d_addr d2) of
        (Ops k, Data b, Status k') \<Rightarrow>
          let write = (rq_type (vd_ops s ! k) = VIRTIO_BLK_T_OUT) in
          if d_flags d0 = VRING_DESC_F_NEXT \<and> d_flags d2 = VRING_DESC_F_WRITE \<and>
             d_flags d1 = (if write then 0 else VRING_DESC_F_WRITE) OR VRING_DESC_F_NEXT \<and>
             d_len d0 = 16 \<and> d_len d1 = of_nat BSIZE \<and> d_len d2 = 1
          then Some (write, rq_sector (vd_ops s ! k), b, k') else None
      | _ \<Rightarrow> None)"

text \<open>The request is served: the block is transferred, the status is 0 and the used ring has a new entry.\<close>

definition served :: "nat \<Rightarrow> bool \<times> u64 \<times> nat \<times> nat \<Rightarrow> 'a vio_state_scheme \<Rightarrow> 'a vio_state_scheme" where
  "served h r s =
     (case r of (write, sector, b, k) \<Rightarrow>
      let blk = ucast (sector div 2);
          s = (if write then s\<lparr>disk := (disk s)(ROOTDEV := (disk s ROOTDEV)(blk := b_data (buf_at s b))),
                               disk_writes := disk_writes s @ [(ROOTDEV, blk, b_data (buf_at s b))]\<rparr>
               else set_buf b (b_data_update (\<lambda>_. disk s ROOTDEV blk)) s)
      in set_info k (in_status_update (\<lambda>_. 0))
           (s\<lparr>used_ring := (used_ring s)[unat (used_idx s) mod NUM := of_nat h], used_idx := used_idx s + 1\<rparr>))"

text \<open>The next entry of the available ring for a device that has taken \<open>seen\<close> entries, and that the driver has just notified the device.\<close>

definition next_head :: "u16 \<Rightarrow> 'a vio_state_scheme \<Rightarrow> nat" where
  "next_head seen s = unat (avail_ring s ! (unat seen mod NUM))"

definition notified :: "'a vio_state_scheme \<Rightarrow> bool" where
  "notified s \<longleftrightarrow> mmio_writes s \<noteq> [] \<and> last (mmio_writes s) = (QUEUE_NOTIFY, 0)"

text \<open>
  When it is notified and the index of the driver is ahead of its own, the device serves the request at the next entry, if that is
  a well-formed one. Nothing is known of it otherwise.
\<close>

definition virtio_device :: "(u16 \<Rightarrow> 'a vio_state_scheme \<Rightarrow> 'a vio_state_scheme) \<Rightarrow> bool" where
  "virtio_device dev \<longleftrightarrow> (\<forall>seen r s. notified s \<longrightarrow> seen \<noteq> avail_idx s \<longrightarrow> request_at (next_head seen s) s = Some r \<longrightarrow>
     dev seen s = served (next_head seen s) r s)"

text \<open>The tables have their size, and the driver has seen all completions.\<close>

definition vq_ok :: "'a vio_state_scheme \<Rightarrow> bool" where
  "vq_ok s \<longleftrightarrow> length (vq_desc s) = NUM \<and> length (vd_info s) = NUM \<and> length (vd_ops s) = NUM \<and> length (vd_free s) = NUM \<and>
     length (avail_ring s) = NUM \<and> length (used_ring s) = NUM \<and> used_idx s = vd_used_idx s \<and> set (vd_free s) \<subseteq> {0, 1}"

lemma alloc_desc_Some: "alloc_desc s = (Some i, t) \<Longrightarrow> i < NUM \<and> vd_free s ! i \<noteq> 0 \<and> t = s\<lparr>vd_free := (vd_free s)[i := 0]\<rparr>"
  by (auto simp: alloc_desc_def find_upt_Some split: option.splits)

lemma alloc3_desc_Some:
  assumes "alloc3_desc s = Done (Some (i0, i1, i2)) t" "length (vd_free s) = NUM"
  shows "i0 < NUM" "i1 < NUM" "i2 < NUM" "distinct [i0, i1, i2]" "vd_free s ! i0 \<noteq> 0" "vd_free s ! i1 \<noteq> 0" "vd_free s ! i2 \<noteq> 0"
    "t = s\<lparr>vd_free := (vd_free s)[i0 := 0, i1 := 0, i2 := 0]\<rparr>"
proof -
  obtain s1 s2 where a: "alloc_desc s = (Some i0, s1)" "alloc_desc s1 = (Some i1, s2)" "alloc_desc s2 = (Some i2, t)"
    using assms(1) by (auto simp: alloc3_desc_def outcome_simps split: prod.splits option.splits)
  note 1 = alloc_desc_Some [OF a(1)] and 2 = alloc_desc_Some [OF a(2)] and 3 = alloc_desc_Some [OF a(3)]
  show "i0 < NUM" "i1 < NUM" "i2 < NUM" using 1 2 3 by simp_all
  have d: "i1 \<noteq> i0" using 1 2 assms(2) by auto
  moreover have d': "i2 \<noteq> i0" "i2 \<noteq> i1" using 1 2 3 assms(2) d by (auto simp: nth_list_update split: if_splits)
  ultimately show "distinct [i0, i1, i2]" by auto
  show "vd_free s ! i0 \<noteq> 0" using 1 by simp
  show "vd_free s ! i1 \<noteq> 0" using 1 2 d by simp
  show "vd_free s ! i2 \<noteq> 0" using 1 2 3 d' by simp
  show "t = s\<lparr>vd_free := (vd_free s)[i0 := 0, i1 := 0, i2 := 0]\<rparr>" using 1 2 3 by simp
qed

lemma virtio_submit_Done:
  assumes sub: "virtio_submit b write s = Done i0 t" and ok: "vq_ok s"
  obtains i1 i2 where "i0 < NUM" "i1 < NUM" "i2 < NUM" "distinct [i0, i1, i2]" "vd_free s ! i0 \<noteq> 0" "vd_free s ! i1 \<noteq> 0" "vd_free s ! i2 \<noteq> 0"
    "vd_free t = (vd_free s)[i0 := 0, i1 := 0, i2 := 0]"
    "vq_desc t = (vq_desc s)[i0 := \<lparr>d_addr = Ops i0, d_len = 16, d_flags = VRING_DESC_F_NEXT, d_next = of_nat i1\<rparr>,
       i1 := \<lparr>d_addr = Data b, d_len = of_nat BSIZE, d_flags = (if write then 0 else VRING_DESC_F_WRITE) OR VRING_DESC_F_NEXT, d_next = of_nat i2\<rparr>,
       i2 := \<lparr>d_addr = Status i0, d_len = 1, d_flags = VRING_DESC_F_WRITE, d_next = 0\<rparr>]"
    "vd_ops t = (vd_ops s)[i0 := \<lparr>rq_type = (if write then VIRTIO_BLK_T_OUT else VIRTIO_BLK_T_IN), rq_reserved = 0,
       rq_sector = ucast (b_blockno (buf_at s b) * 2)\<rparr>]"
    "in_b (vd_info t ! i0) = Some b" "length (vd_info t) = NUM" "length (avail_ring t) = NUM" "buf_disk t = (buf_disk s)(b := 1)"
    "used_ring t = used_ring s" "used_idx t = used_idx s" "vd_used_idx t = vd_used_idx s" "bufs t = bufs s" "disk t = disk s" "disk_writes t = disk_writes s"
proof -
  obtain i1 i2 u where a: "alloc3_desc s = Done (Some (i0, i1, i2)) u"
    using sub by (auto simp: virtio_submit_def Let_def outcome_simps sleep_def split: option.splits outcome.splits)
  note al = alloc3_desc_Some [OF a]
  show thesis
  proof (rule that [of i1 i2])
  qed (use sub a al ok in \<open>auto simp: virtio_submit_def Let_def vq_ok_def set_desc_def set_info_def mmio_write_def\<close>)
qed

lemma unat_small: "i < NUM \<Longrightarrow> unat (of_nat i :: u16) = i" "i < NUM \<Longrightarrow> unat (of_nat i :: u32) = i"
  by (simp_all add: unat_of_nat)

text \<open>The sector is the block times two, in 32 bits.\<close>

lemma sector_block: "n < 0x80000000 \<Longrightarrow> ucast (ucast (n * 2 :: u32) div 2 :: u64) = n"
proof -
  assume n: "n < 0x80000000"
  then have "unat (n * 2) = unat n * 2" by (simp add: unat_word_ariths word_less_nat_alt)
  then have "unat (ucast (n * 2 :: u32) :: u64) = unat n * 2" using n by (simp add: unsigned_ucast_eq unsigned_take_bit_eq take_bit_nat_def word_less_nat_alt)
  then have "unat (ucast (n * 2 :: u32) div 2 :: u64) = unat n" by (simp add: unat_div)
  then have "unat (ucast (ucast (n * 2 :: u32) div 2 :: u64) :: u32) = unat n"
    using n by (simp add: unsigned_ucast_eq unsigned_take_bit_eq take_bit_nat_def word_less_nat_alt)
  then show ?thesis by (rule word_unat_eq_iff [THEN iffD2])
qed

lemma chain_freed:
  assumes i: "i0 < NUM" "i1 < NUM" "i2 < NUM" "distinct [i0, i1, i2]" and len: "length (vq_desc t) = NUM" "length (vd_free t) = NUM"
    and f: "vd_free t ! i0 = 0" "vd_free t ! i1 = 0" "vd_free t ! i2 = 0"
    and d0: "d_flags (vq_desc t ! i0) AND 1 \<noteq> 0" "d_next (vq_desc t ! i0) = of_nat i1"
    and d1: "d_flags (vq_desc t ! i1) AND 1 \<noteq> 0" "d_next (vq_desc t ! i1) = of_nat i2" and d2: "d_flags (vq_desc t ! i2) AND 1 = 0"
  shows "\<exists>ps. free_chain i0 t = Done () (t\<lparr>procs := ps, vq_desc := (vq_desc t)[i0 := null_desc, i1 := null_desc, i2 := null_desc],
    vd_free := (vd_free t)[i0 := 1, i1 := 1, i2 := 1]\<rparr>)"
proof -
  have wk: "\<exists>ps. wakeup c u = u\<lparr>procs := ps\<rparr>" for c and u :: "'a vio_state_scheme" unfolding wakeup_def by blast
  have free: "\<exists>ps. free_desc i u = Done () (u\<lparr>procs := ps, vq_desc := (vq_desc u)[i := null_desc], vd_free := (vd_free u)[i := 1]\<rparr>)"
    if "i < NUM" "vd_free u ! i = 0" for i and u :: "'a vio_state_scheme"
  proof -
    let ?u = "set_desc i (\<lambda>_. null_desc) u\<lparr>vd_free := (vd_free (set_desc i (\<lambda>_. null_desc) u))[i := 1]\<rparr>"
    obtain ps where "wakeup ChDiskFree ?u = ?u\<lparr>procs := ps\<rparr>" using wk by blast
    then show ?thesis using that by (intro exI [of _ ps]) (simp add: free_desc_def Let_def set_desc_def)
  qed
  define t1 where "t1 ps = t\<lparr>procs := ps, vq_desc := (vq_desc t)[i0 := null_desc], vd_free := (vd_free t)[i0 := 1]\<rparr>" for ps
  define t2 where "t2 ps = t\<lparr>procs := ps, vq_desc := (vq_desc t)[i0 := null_desc, i1 := null_desc], vd_free := (vd_free t)[i0 := 1, i1 := 1]\<rparr>" for ps
  obtain p1 where 1: "free_desc i0 t = Done () (t1 p1)" using free [OF i(1) f(1)] by (auto simp: t1_def)
  have "vd_free (t1 p1) ! i1 = 0" using f i by (simp add: t1_def)
  then obtain p2 where 2: "free_desc i1 (t1 p1) = Done () (t2 p2)" using free [of i1 "t1 p1"] i by (auto simp: t1_def t2_def)
  have "vd_free (t2 p2) ! i2 = 0" using f i by (simp add: t2_def)
  then obtain p3 where 3: "free_desc i2 (t2 p2) = Done () (t2 p2\<lparr>procs := p3, vq_desc := (vq_desc (t2 p2))[i2 := null_desc], vd_free := (vd_free (t2 p2))[i2 := 1]\<rparr>)"
    using free [of i2 "t2 p2"] i by auto
  have n1: "vq_desc (t1 p1) ! i1 = vq_desc t ! i1" and n2: "vq_desc (t2 p2) ! i2 = vq_desc t ! i2" using i by (simp_all add: t1_def t2_def)
  have "free_chain_loop 8 i0 t = free_chain_loop 7 i1 (t1 p1)"
    using 1 d0 i unat_small(1) [of i1] by (simp add: eval_nat_numeral)
  also have "\<dots> = free_chain_loop 6 i2 (t2 p2)"
    using 2 d1 n1 i unat_small(1) [of i2] by (simp add: eval_nat_numeral)
  also have "\<dots> = free_desc i2 (t2 p2)"
    using 3 d2 n2 by (simp add: eval_nat_numeral)
  finally show ?thesis using 3 by (auto simp: free_chain_def t2_def)
qed

lemma request_built:
  assumes sub: "virtio_submit b write s = Done i0 t" and ok: "vq_ok s"
  shows "request_at i0 t = Some (write, ucast (b_blockno (buf_at s b) * 2), b, i0)"
  using sub ok by (rule virtio_submit_Done) (use ok in \<open>auto simp: request_at_def Let_def unat_small vq_ok_def\<close>)

text \<open>The request is published: a device that has taken all earlier entries finds it.\<close>

lemma request_published:
  assumes sub: "virtio_submit b write s = Done i0 t" and ok: "vq_ok s"
  shows "notified t" "avail_idx t = avail_idx s + 1" "next_head (avail_idx s) t = i0"
proof -
  obtain i1 i2 u where a: "alloc3_desc s = Done (Some (i0, i1, i2)) u"
    using sub by (auto simp: virtio_submit_def Let_def outcome_simps sleep_def split: option.splits outcome.splits)
  note al = alloc3_desc_Some [OF a]
  have len: "length (vd_free s) = NUM" "length (avail_ring s) = NUM" using ok by (simp_all add: vq_ok_def)
  have "mmio_writes t = mmio_writes s @ [(QUEUE_NOTIFY, 0)]" "avail_idx t = avail_idx s + 1"
    and ring: "avail_ring t = (avail_ring s)[unat (avail_idx s) mod NUM := of_nat i0]"
    using sub a al(8) [OF len(1)] by (auto simp: virtio_submit_def Let_def set_desc_def set_info_def mmio_write_def)
  then show "notified t" "avail_idx t = avail_idx s + 1" by (simp_all add: notified_def)
  show "next_head (avail_idx s) t = i0" using ring len al(1) [OF len(1)] by (simp add: next_head_def unat_small)
qed

lemma intr_one:
  assumes "unat (used_idx u - vd_used_idx u) = 1" "used_ring u ! (unat (vd_used_idx u) mod NUM) = of_nat i0" "i0 < NUM"
    "in_status (vd_info u ! i0) = 0" "in_b (vd_info u ! i0) = Some b"
  shows "\<exists>ps ws. virtio_disk_intr u = Done () (u\<lparr>procs := ps, mmio_writes := ws, buf_disk := (buf_disk u)(b := 0), vd_used_idx := vd_used_idx u + 1\<rparr>)"
proof -
  let ?v = "mmio_write INTERRUPT_ACK (mmio_read INTERRUPT_STATUS u AND 3) u"
  obtain ps where w: "wakeup (ChBuf b) (?v\<lparr>buf_disk := (buf_disk ?v)(b := 0)\<rparr>) = ?v\<lparr>buf_disk := (buf_disk ?v)(b := 0), procs := ps\<rparr>"
    unfolding wakeup_def by fastforce
  have v: "used_idx ?v = used_idx u" "vd_used_idx ?v = vd_used_idx u" "used_ring ?v = used_ring u" "vd_info ?v = vd_info u"
    by (simp_all add: mmio_write_def)
  have "virtio_disk_intr u = Done () ((?v\<lparr>buf_disk := (buf_disk ?v)(b := 0), procs := ps\<rparr>)\<lparr>vd_used_idx := vd_used_idx u + 1\<rparr>)"
    using assms w v unat_small(2) [OF assms(3)] by (simp add: virtio_disk_intr_def Let_def)
  then show ?thesis
    by (intro exI [of _ ps] exI [of _ "mmio_writes u @ [(INTERRUPT_ACK, mmio_read INTERRUPT_STATUS u AND 3)]"]) (simp add: mmio_write_def)
qed

lemma bits01_restored:
  assumes "set fs \<subseteq> {0, 1 :: u8}" "length fs = NUM" "i0 < NUM" "i1 < NUM" "i2 < NUM" "fs ! i0 \<noteq> 0" "fs ! i1 \<noteq> 0" "fs ! i2 \<noteq> 0"
  shows "fs[i0 := 0, i1 := 0, i2 := 0, i0 := 1, i1 := 1, i2 := 1] = fs"
proof (rule nth_equalityI)
  have "fs ! i \<in> set fs" if "i < NUM" for i using that assms(2) by simp
  then have one: "fs ! i = 1" if "i < NUM" "fs ! i \<noteq> 0" for i using assms(1) that by blast
  show "fs[i0 := 0, i1 := 0, i2 := 0, i0 := 1, i1 := 1, i2 := 1] ! i = fs ! i" if "i < length (fs[i0 := 0, i1 := 0, i2 := 0, i0 := 1, i1 := 1, i2 := 1])" for i
    using that one assms(2-) by (auto simp: nth_list_update)
qed simp

text \<open>
  C11: the disk driver implements the transfer that the buffer cache relies on. With a device that serves the requests of the available ring
  as the virtio standard says and has taken all earlier entries, a request that \<^verbatim>\<open>virtio_disk_rw\<close> submits is a well-formed chain
  of descriptors, entered in the ring and notified; after the device has served it, \<^verbatim>\<open>virtio_disk_intr\<close> and the rest of \<^verbatim>\<open>virtio_disk_rw\<close>
  neither panic nor wait, the buffer and the disk are as after the one-step transfer, and the descriptors are free again.
\<close>

theorem driver_transfers_block:
  assumes dev: "virtio_device dev" and ok: "vq_ok s" and sub: "virtio_submit b write s = Done i0 t"
    and b: "b_dev (buf_at s b) = ROOTDEV" "b_blockno (buf_at s b) < 0x80000000"
  shows "\<exists>u v. virtio_disk_intr (dev (avail_idx s) t) = Done () u \<and> virtio_finish b i0 u = Done () v \<and> vq_ok v \<and> vd_free v = vd_free s \<and>
    avail_idx v = avail_idx s + 1 \<and>
    bufs v = bufs (virtio_disk_rw b write s) \<and> disk v = disk (virtio_disk_rw b write s) \<and> disk_writes v = disk_writes (virtio_disk_rw b write s)"
proof -
  obtain i1 i2 where i: "i0 < NUM" "i1 < NUM" "i2 < NUM" "distinct [i0, i1, i2]"
    and f: "vd_free s ! i0 \<noteq> 0" "vd_free s ! i1 \<noteq> 0" "vd_free s ! i2 \<noteq> 0" "vd_free t = (vd_free s)[i0 := 0, i1 := 0, i2 := 0]"
    and d: "vq_desc t = (vq_desc s)[i0 := \<lparr>d_addr = Ops i0, d_len = 16, d_flags = VRING_DESC_F_NEXT, d_next = of_nat i1\<rparr>,
       i1 := \<lparr>d_addr = Data b, d_len = of_nat BSIZE, d_flags = (if write then 0 else VRING_DESC_F_WRITE) OR VRING_DESC_F_NEXT, d_next = of_nat i2\<rparr>,
       i2 := \<lparr>d_addr = Status i0, d_len = 1, d_flags = VRING_DESC_F_WRITE, d_next = 0\<rparr>]"
    and t: "vd_ops t = (vd_ops s)[i0 := \<lparr>rq_type = (if write then VIRTIO_BLK_T_OUT else VIRTIO_BLK_T_IN), rq_reserved = 0,
       rq_sector = ucast (b_blockno (buf_at s b) * 2)\<rparr>]"
      "in_b (vd_info t ! i0) = Some b" "length (vd_info t) = NUM" "length (avail_ring t) = NUM" "buf_disk t = (buf_disk s)(b := 1)"
      "used_ring t = used_ring s" "used_idx t = used_idx s" "vd_used_idx t = vd_used_idx s" "bufs t = bufs s" "disk t = disk s" "disk_writes t = disk_writes s"
    using sub ok by (rule virtio_submit_Done)
  define r where "r = dev (avail_idx s) t"
  note pub = request_published [OF sub ok]
  have r: "r = served i0 (write, ucast (b_blockno (buf_at s b) * 2), b, i0) t"
    using dev request_built [OF sub ok] pub unfolding virtio_device_def r_def by simp
  have rf: "vq_desc r = vq_desc t" "vd_free r = vd_free t" "vd_ops r = vd_ops t" "avail_ring r = avail_ring t" "avail_idx r = avail_idx t" "vd_used_idx r = vd_used_idx t"
      "used_idx r = used_idx t + 1" "used_ring r = (used_ring t)[unat (used_idx t) mod NUM := of_nat i0]" "length (vd_info r) = NUM"
      "in_status (vd_info r ! i0) = 0" "in_b (vd_info r ! i0) = Some b" "buf_disk r = buf_disk t"
    and eff: "bufs r = bufs (virtio_disk_rw b write s)" "disk r = disk (virtio_disk_rw b write s)" "disk_writes r = disk_writes (virtio_disk_rw b write s)"
    using i t b sector_block [OF b(2)] by (simp_all add: r served_def Let_def set_info_def set_buf_def virtio_disk_rw_def)
  have "unat (used_idx r - vd_used_idx r) = 1" using rf t ok by (simp add: vq_ok_def)
  moreover have "used_ring r ! (unat (vd_used_idx r) mod NUM) = of_nat i0" using rf t ok by (simp add: vq_ok_def)
  ultimately obtain ps ws where u: "virtio_disk_intr r = Done () (r\<lparr>procs := ps, mmio_writes := ws, buf_disk := (buf_disk r)(b := 0), vd_used_idx := vd_used_idx r + 1\<rparr>)"
    using intr_one [of r i0 b] i rf by blast
  define u' where "u' = set_info i0 (in_b_update (\<lambda>_. None)) (r\<lparr>procs := ps, mmio_writes := ws, buf_disk := (buf_disk r)(b := 0), vd_used_idx := vd_used_idx r + 1\<rparr>)"
  have "\<exists>ps. free_chain i0 u' = Done () (u'\<lparr>procs := ps, vq_desc := (vq_desc u')[i0 := null_desc, i1 := null_desc, i2 := null_desc],
      vd_free := (vd_free u')[i0 := 1, i1 := 1, i2 := 1]\<rparr>)"
    by (rule chain_freed) (use i rf d f ok in \<open>auto simp: u'_def set_info_def vq_ok_def\<close>)
  then obtain ps' where v: "free_chain i0 u' = Done () (u'\<lparr>procs := ps', vq_desc := (vq_desc u')[i0 := null_desc, i1 := null_desc, i2 := null_desc],
      vd_free := (vd_free u')[i0 := 1, i1 := 1, i2 := 1]\<rparr>)" by blast
  have fr: "(vd_free u')[i0 := 1, i1 := 1, i2 := 1] = vd_free s"
    using bits01_restored [of "vd_free s" i0 i1 i2] i f rf ok by (simp add: u'_def set_info_def vq_ok_def)
  show ?thesis unfolding r_def [symmetric]
    using u v fr eff rf d t ok pub(2) by (auto simp: virtio_finish_def u'_def [symmetric] vq_ok_def u'_def set_info_def)
qed

text \<open>Buffer 3 holds block 5 full of sevens and is written.\<close>

definition sample_disk :: vio_state where
  "sample_disk = set_buf 3 (\<lambda>b. b\<lparr>b_dev := ROOTDEV, b_blockno := 5, b_data := (\<lambda>_. 7)\<rparr>) sample_vio"

lemma sample_disk_facts:
  "vq_ok sample_disk" "b_dev (buf_at sample_disk 3) = ROOTDEV" "b_blockno (buf_at sample_disk 3) = 5" "b_data (buf_at sample_disk 3) = (\<lambda>_. 7)"
  "vd_free sample_disk = replicate NUM 1"
proof -
  have "length (bufs sample_vio) = NBUF"
    by (simp add: sample_vio_def sample_fs_def file_state.defs fs_state.defs ex_cache_facts)
  then show "vq_ok sample_disk" "b_dev (buf_at sample_disk 3) = ROOTDEV" "b_blockno (buf_at sample_disk 3) = 5" "b_data (buf_at sample_disk 3) = (\<lambda>_. 7)"
    "vd_free sample_disk = replicate NUM 1"
    by (simp_all add: sample_disk_def set_buf_def vq_ok_def sample_vio_def file_state.defs)
qed

definition sample_dev :: "u16 \<Rightarrow> vio_state \<Rightarrow> vio_state" where
  "sample_dev seen s =
     (if notified s \<and> seen \<noteq> avail_idx s then
        case request_at (next_head seen s) s of Some r \<Rightarrow> served (next_head seen s) r s | None \<Rightarrow> s
      else s)"

theorem driver_transfers_block_witness:
  "\<exists>i0 t u v. virtio_submit 3 True sample_disk = Done i0 t \<and> virtio_disk_intr (sample_dev (avail_idx sample_disk) t) = Done () u \<and>
     virtio_finish 3 i0 u = Done () v \<and> disk v ROOTDEV 5 0 = 7 \<and> vd_free v = replicate NUM 1"
proof -
  have "alloc3_desc sample_disk = Done (Some (0, 1, 2)) (sample_disk\<lparr>vd_free := [0, 0, 0, 1, 1, 1, 1, 1]\<rparr>)"
    using sample_disk_facts(5) by (simp add: alloc3_desc_def alloc_desc_def upt_rec eval_nat_numeral)
  then have "\<exists>t. virtio_submit 3 True sample_disk = Done 0 t" by (simp add: virtio_submit_def Let_def)
  then obtain t where t: "virtio_submit 3 True sample_disk = Done 0 t" by blast
  have "virtio_device sample_dev" by (simp add: virtio_device_def sample_dev_def)
  from driver_transfers_block [OF this sample_disk_facts(1) t] sample_disk_facts t show ?thesis
    by (fastforce simp: virtio_disk_rw_def)
qed

end
