(* ===== verification/Grep.thy ===== *)
theory Grep
  imports Prelude
begin

text \<open>
  \<^verbatim>\<open>user/grep.c\<close>: the matcher of regular expressions and the loop over the lines of a file. A string is the list of its
  bytes before the NUL. The reference reads the expression as a sequence of items first and says
  declaratively which texts contain a match.
\<close>

abbreviation (input) star :: u8 where "star \<equiv> 42"
abbreviation (input) dot :: u8 where "dot \<equiv> 46"
abbreviation (input) dollar :: u8 where "dollar \<equiv> 36"
abbreviation (input) caret :: u8 where "caret \<equiv> 94"
abbreviation (input) newline :: u8 where "newline \<equiv> 10"

section \<open>The matcher\<close>

function matchhere :: "u8 list \<Rightarrow> u8 list \<Rightarrow> bool"
  and matchstar :: "u8 \<Rightarrow> u8 list \<Rightarrow> u8 list \<Rightarrow> bool" where
  "matchhere re tx =
     (case re of
        [] \<Rightarrow> True
      | c # re1 \<Rightarrow>
          if take 1 re1 = [star] then matchstar c (tl re1) tx
          else if c = dollar \<and> re1 = [] then tx = []
          else case tx of [] \<Rightarrow> False | x # tx1 \<Rightarrow> (c = dot \<or> c = x) \<and> matchhere re1 tx1)"
| "matchstar c re tx =
     (matchhere re tx \<or> (case tx of [] \<Rightarrow> False | x # tx1 \<Rightarrow> (x = c \<or> c = dot) \<and> matchstar c re tx1))"
  by pat_completeness auto
termination
proof (relation "measure (case_sum (\<lambda>(re, tx). 2 * (length re + length tx)) (\<lambda>(c, re, tx). 2 * (length re + length tx) + 1))")
  fix re tx :: "u8 list" and c :: u8 and re1
  assume "re = c # re1" "take 1 re1 = [star]"
  then show "(Inr (c, tl re1, tx), Inl (re, tx))
    \<in> measure (case_sum (\<lambda>(re, tx). 2 * (length re + length tx)) (\<lambda>(c, re, tx). 2 * (length re + length tx) + 1))"
    by (cases re1) auto
qed auto

declare matchhere.simps [simp del] matchstar.simps [simp del]

text \<open>The loop of \<^verbatim>\<open>match\<close> over the suffixes of the text, down to the empty one.\<close>

fun match_from :: "u8 list \<Rightarrow> u8 list \<Rightarrow> bool" where
  "match_from re [] \<longleftrightarrow> matchhere re []"
| "match_from re (x # tx) \<longleftrightarrow> matchhere re (x # tx) \<or> match_from re tx"

definition match :: "u8 list \<Rightarrow> u8 list \<Rightarrow> bool" where
  "match re tx = (if take 1 re = [caret] then matchhere (tl re) tx else match_from re tx)"

section \<open>What an expression means\<close>

datatype sym = Any | Only u8

datatype item = One sym | Many sym

primrec fits :: "sym \<Rightarrow> u8 \<Rightarrow> bool" where
  "fits Any x \<longleftrightarrow> True"
| "fits (Only c) x \<longleftrightarrow> x = c"

definition sym_of :: "u8 \<Rightarrow> sym" where
  "sym_of c = (if c = dot then Any else Only c)"

definition prepend :: "item \<Rightarrow> item list \<times> bool \<Rightarrow> item list \<times> bool" where
  "prepend i e = (i # fst e, snd e)"

text \<open>The items of an expression, and whether it ends in \<^verbatim>\<open>$\<close>. A star needs a character before it.\<close>

function items_of :: "u8 list \<Rightarrow> item list \<times> bool" where
  "items_of re =
     (case re of
        [] \<Rightarrow> ([], False)
      | c # re1 \<Rightarrow>
          if take 1 re1 = [star] then prepend (Many (sym_of c)) (items_of (tl re1))
          else if re1 = [] \<and> c = dollar then ([], True)
          else prepend (One (sym_of c)) (items_of re1))"
  by pat_completeness auto
termination by (relation "measure length") (auto simp: less_Suc_eq_le)

declare items_of.simps [simp del]

inductive matches :: "item list \<Rightarrow> u8 list \<Rightarrow> bool" where
  matches_Nil: "matches [] []"
| matches_One: "fits y x \<Longrightarrow> matches its w \<Longrightarrow> matches (One y # its) (x # w)"
| matches_Many: "list_all (fits y) u \<Longrightarrow> matches its w \<Longrightarrow> matches (Many y # its) (u @ w)"

inductive_simps matches_simps [simp]: "matches [] v" "matches (One y # its) v" "matches (Many y # its) v"

text \<open>\<open>starts\<close>: a match at the beginning of the text; \<open>occurs\<close>: a match anywhere, or at the beginning when the
  expression starts with \<^verbatim>\<open>^\<close>.\<close>

definition starts :: "item list \<times> bool \<Rightarrow> u8 list \<Rightarrow> bool" where
  "starts e tx \<longleftrightarrow> (\<exists>v w. tx = v @ w \<and> matches (fst e) v \<and> (snd e \<longrightarrow> w = []))"

definition occurs :: "u8 list \<Rightarrow> u8 list \<Rightarrow> bool" where
  "occurs re tx \<longleftrightarrow>
     (if take 1 re = [caret] then starts (items_of (tl re)) tx
      else \<exists>u t. tx = u @ t \<and> starts (items_of re) t)"

lemma starts_Nil: "starts ([], False) tx" "starts ([], True) tx \<longleftrightarrow> tx = []"
  by (auto simp: starts_def)

lemma starts_One:
  "starts (One y # its, d) tx \<longleftrightarrow> (case tx of [] \<Rightarrow> False | x # t \<Rightarrow> fits y x \<and> starts (its, d) t)"
  by (cases tx) (auto simp: starts_def Cons_eq_append_conv)

lemma starts_ManyI: "list_all (fits y) u \<Longrightarrow> matches its w \<Longrightarrow> (d \<Longrightarrow> r = []) \<Longrightarrow> starts (Many y # its, d) (u @ w @ r)"
  unfolding starts_def by (intro exI [of _ "u @ w"] exI [of _ r]) auto

lemma starts_ManyE:
  assumes "starts (Many y # its, d) tx"
  obtains u w r where "tx = u @ w @ r" "list_all (fits y) u" "matches its w" "d \<longrightarrow> r = []"
proof -
  from assms obtain v r where v: "tx = v @ r" "matches (Many y # its) v" and d: "d \<longrightarrow> r = []" by (auto simp: starts_def)
  from v(2) obtain u w where "v = u @ w" "list_all (fits y) u" "matches its w" by auto
  with v d show thesis using that [of u w r] by simp
qed

lemma starts_Many:
  "starts (Many y # its, d) tx \<longleftrightarrow> starts (its, d) tx \<or> (case tx of [] \<Rightarrow> False | x # t \<Rightarrow> fits y x \<and> starts (Many y # its, d) t)"
  (is "?l = (?a \<or> ?b)")
proof
  assume ?l
  then obtain u w r where t: "tx = u @ w @ r" and u: "list_all (fits y) u" and m: "matches its w" "d \<longrightarrow> r = []" by (rule starts_ManyE)
  show "?a \<or> ?b"
  proof (cases u)
    case Nil
    then have ?a using t m by (auto simp: starts_def)
    then show ?thesis ..
  next
    case (Cons x u1)
    then have "starts (Many y # its, d) (u1 @ w @ r)" using u m by (intro starts_ManyI) auto
    then show ?thesis using Cons t u by simp
  qed
next
  assume "?a \<or> ?b"
  then show ?l
  proof
    assume ?a
    then obtain v w where "tx = v @ w" "matches its v" "d \<longrightarrow> w = []" by (auto simp: starts_def)
    then show ?l using starts_ManyI [of y "[]" its v d w] by auto
  next
    assume ?b
    then obtain x t where x: "tx = x # t" "fits y x" "starts (Many y # its, d) t" by (cases tx) auto
    from x(3) obtain u w r where "t = u @ w @ r" "list_all (fits y) u" "matches its w" "d \<longrightarrow> r = []" by (rule starts_ManyE)
    note this x
    then show ?l using starts_ManyI [of y "x # u" its w d r] by auto
  qed
qed

lemma fits_sym_of: "fits (sym_of c) x \<longleftrightarrow> c = dot \<or> c = x"
  by (auto simp: sym_of_def)

lemma match_starts:
  "matchhere re tx \<longleftrightarrow> starts (items_of re) tx"
  "matchstar c re' tx' \<longleftrightarrow> starts (prepend (Many (sym_of c)) (items_of re')) tx'"
proof (induction re tx and c re' tx' rule: matchhere_matchstar.induct)
  case (1 re tx)
  show ?case
  proof (cases re)
    case Nil
    then show ?thesis by (simp add: matchhere.simps items_of.simps starts_Nil)
  next
    case (Cons c re1)
    show ?thesis
    proof (cases "take 1 re1 = [star] \<or> c = dollar \<and> re1 = []")
      case True
      then show ?thesis using 1(1) [OF Cons] Cons
        by (subst matchhere.simps, subst items_of.simps) (auto simp: starts_Nil)
    next
      case False
      obtain its d where i: "items_of re1 = (its, d)" by (cases "items_of re1")
      have "matchhere re tx \<longleftrightarrow> (case tx of [] \<Rightarrow> False | x # t \<Rightarrow> fits (sym_of c) x \<and> starts (its, d) t)"
        using False Cons 1(2) [OF Cons] i by (subst matchhere.simps) (auto simp: fits_sym_of split: list.split)
      moreover have "items_of re = (One (sym_of c) # its, d)" using False Cons i by (subst items_of.simps) (auto simp: prepend_def)
      ultimately show ?thesis by (simp add: starts_One)
    qed
  qed
next
  case (2 c re tx)
  obtain its d where i: "items_of re = (its, d)" by (cases "items_of re")
  then show ?case using 2 by (subst matchstar.simps) (auto simp: prepend_def starts_Many [of _ _ _ tx] fits_sym_of split: list.split)
qed

lemma match_from_suffix: "match_from re tx \<longleftrightarrow> (\<exists>u t. tx = u @ t \<and> starts (items_of re) t)"
proof (induction tx)
  case (Cons x tx)
  then show ?case by (auto simp: match_starts Cons_eq_append_conv)
qed (simp add: match_starts)

text \<open>
  \<^verbatim>\<open>match(re, text)\<close> holds exactly when some part of the text is matched by the sequence of items that the
  expression denotes; the part begins at the start of the text if the expression starts with \<^verbatim>\<open>^\<close> and ends at
  its end if the expression ends with \<^verbatim>\<open>$\<close>.
\<close>

lemma match_meaning: "match re tx \<longleftrightarrow> occurs re tx"
  by (simp add: match_def occurs_def match_starts match_from_suffix)

section \<open>The loop over the lines\<close>

text \<open>
  The inner loop of \<^verbatim>\<open>grep\<close> on the bytes of \<^verbatim>\<open>buf\<close>: what it writes, and what is left behind the last newline. \<^verbatim>\<open>strchr\<close>
  stops at a NUL byte. A line is matched with its newline replaced by NUL.
\<close>

function scan :: "u8 list \<Rightarrow> u8 list \<Rightarrow> u8 list \<times> u8 list" where
  "scan re p =
     (let line = takeWhile (\<lambda>c. c \<noteq> newline \<and> c \<noteq> 0) p; q = dropWhile (\<lambda>c. c \<noteq> newline \<and> c \<noteq> 0) p in
      if take 1 q = [newline] then
        case scan re (tl q) of (out, rest) \<Rightarrow> ((if match re line then line @ [newline] else []) @ out, rest)
      else ([], p))"
  by pat_completeness auto
termination
proof (relation "measure (\<lambda>(re, p). length p)")
  fix re p line q :: "u8 list"
  assume "q = dropWhile (\<lambda>c. c \<noteq> newline \<and> c \<noteq> 0) p" "take 1 q = [newline]"
  then show "((re, tl q), re, p) \<in> measure (\<lambda>(re, p). length p)"
    using length_dropWhile_le [of "\<lambda>c. c \<noteq> newline \<and> c \<noteq> 0" p] by (cases q) (auto simp flip: \<open>q = _\<close>)
qed simp

declare scan.simps [simp del]

text \<open>
  \<^verbatim>\<open>grep\<close> from any turn of its outer loop, with the bytes that are in \<^verbatim>\<open>buf\<close>. \<open>rd s k\<close> is the system call \<^verbatim>\<open>read\<close> for \<open>k\<close> bytes;
  it returns no bytes at the end of the file and on errors, and both end the loop. The result is
  what \<^verbatim>\<open>grep\<close> writes.
\<close>

partial_function (option) grep :: "('s \<Rightarrow> nat \<Rightarrow> u8 list \<times> 's) \<Rightarrow> u8 list \<Rightarrow> u8 list \<Rightarrow> 's \<Rightarrow> (u8 list \<times> 's) option" where
  "grep rd re buf s =
     (case rd s (1024 - length buf - 1) of (bs, s) \<Rightarrow>
      if bs = [] then Some ([], s)
      else
        case scan re (buf @ bs) of (out, rest) \<Rightarrow>
          Option.bind (grep rd re rest s) (\<lambda>(outs, s). Some (out @ outs, s)))"

text \<open>
  What \<^verbatim>\<open>read\<close> does on a file or pipe of which the bytes \<open>left s\<close> are still to come: it returns a part of
  them, none only at the end or when none is asked for.
\<close>

definition reads :: "('s \<Rightarrow> nat \<Rightarrow> u8 list \<times> 's) \<Rightarrow> ('s \<Rightarrow> u8 list) \<Rightarrow> bool" where
  "reads rd left \<longleftrightarrow> (\<forall>s k bs s'. rd s k = (bs, s') \<longrightarrow>
     left s = bs @ left s' \<and> length bs \<le> k \<and> (bs = [] \<longrightarrow> k = 0 \<or> left s = []))"

text \<open>The lines that end in a newline, and what follows the last newline.\<close>

fun lines :: "u8 list \<Rightarrow> u8 list list \<times> u8 list" where
  "lines [] = ([], [])"
| "lines (c # cs) = (case lines cs of (ls, r) \<Rightarrow>
     if c = newline then ([] # ls, r) else case ls of [] \<Rightarrow> ([], c # r) | l # ls \<Rightarrow> ((c # l) # ls, r))"

lemma lines_line: "newline \<notin> set l \<Longrightarrow> lines (l @ newline # p) = (l # fst (lines p), snd (lines p))"
  by (induction l) (auto split: prod.split)

lemma lines_rest: "newline \<notin> set l \<Longrightarrow> lines l = ([], l)"
  by (induction l) auto

lemma lines_prefix:
  "newline \<notin> set buf \<Longrightarrow> lines (buf @ x) = (case fst (lines x) of [] \<Rightarrow> ([], buf @ snd (lines x)) | l # ls \<Rightarrow> ((buf @ l) # ls, snd (lines x)))"
proof (cases "lines x")
  case (Pair ls r)
  then show "newline \<notin> set buf \<Longrightarrow> ?thesis" by (induction buf) (auto split: list.splits)
qed

lemma lines_snd: "newline \<notin> set (snd (lines p))"
  by (induction p) (auto split: prod.splits list.splits)

lemma lines_append: "lines (p @ q) = (fst (lines p) @ fst (lines (snd (lines p) @ q)), snd (lines (snd (lines p) @ q)))"
  by (induction p) (auto split: prod.splits list.splits)

lemma lines_subset: "set (snd (lines p)) \<subseteq> set p"
  by (induction p) (auto split: prod.splits list.splits)

definition hits :: "u8 list \<Rightarrow> u8 list list \<Rightarrow> u8 list" where
  "hits re ls = concat (map (\<lambda>l. l @ [newline]) (filter (match re) ls))"

lemma hits_append [simp]: "hits re (ls @ ls') = hits re ls @ hits re ls'"
  by (simp add: hits_def)

lemma scan_lines: "0 \<notin> set p \<Longrightarrow> scan re p = (hits re (fst (lines p)), snd (lines p))"
proof (induction "length p" arbitrary: p rule: less_induct)
  case less
  let ?P = "\<lambda>c. c \<noteq> newline \<and> c \<noteq> (0 :: u8)"
  have l: "newline \<notin> set (takeWhile ?P p)" using set_takeWhileD by fastforce
  show ?case
  proof (cases "dropWhile ?P p")
    case Nil
    have "takeWhile ?P p = p" using takeWhile_dropWhile_id [of ?P p] unfolding Nil by (simp only: append_Nil2)
    then show ?thesis using l Nil lines_rest [of p] by (subst scan.simps) (simp only: Let_def Nil take_Nil list.distinct if_False fst_conv snd_conv hits_def; simp)
  next
    case (Cons c q)
    have p: "p = takeWhile ?P p @ c # q" using takeWhile_dropWhile_id [of ?P p] unfolding Cons by (rule sym)
    have "c \<in> set p" by (subst p) simp
    moreover have "\<not> ?P c" using Cons hd_dropWhile [of ?P p] by simp
    ultimately have c: "c = newline" using less.prems by auto
    have "set q \<subseteq> set p" using arg_cong [OF p, of set] by auto
    moreover have "length q < length p" using arg_cong [OF p, of length] by simp
    ultimately have ih: "scan re q = (hits re (fst (lines q)), snd (lines q))" using less by blast
    have "lines p = (takeWhile ?P p # fst (lines q), snd (lines q))" using lines_line [OF l, of q] p c by simp
    then show ?thesis using Cons c ih by (subst scan.simps) (simp add: hits_def)
  qed
qed

lemma grep_from:
  assumes rd: "reads rd left"
  shows "newline \<notin> set buf \<Longrightarrow> 0 \<notin> set (buf @ left s) \<Longrightarrow> \<forall>l \<in> set (fst (lines (buf @ left s))). length l < 1023 \<Longrightarrow>
      length (snd (lines (buf @ left s))) < 1023 \<Longrightarrow>
    \<exists>s'. grep rd re buf s = Some (hits re (fst (lines (buf @ left s))), s')"
proof (induction "length (left s)" arbitrary: buf s rule: less_induct)
  case less
  obtain bs s' where r: "rd s (1024 - length buf - 1) = (bs, s')" by (cases "rd s (1024 - length buf - 1)")
  then have l: "left s = bs @ left s'" "length bs \<le> 1024 - length buf - 1" "bs = [] \<Longrightarrow> 1024 - length buf - 1 = 0 \<or> left s = []"
    using rd unfolding reads_def by blast+
  show ?case
  proof (cases "bs = []")
    case True
    have "length buf < 1023" using lines_prefix [OF less.prems(1), of "left s"] less.prems(3,4) by (auto split: list.splits)
    then have "left s = []" using l(3) True by auto
    then show ?thesis using True r less.prems(1) lines_rest [of buf] by (subst grep.simps) (simp add: hits_def)
  next
    case False
    let ?b = "snd (lines (buf @ bs))"
    have z: "0 \<notin> set (buf @ bs)" using less.prems(2) l(1) by simp
    have app: "lines (buf @ left s) = (fst (lines (buf @ bs)) @ fst (lines (?b @ left s')), snd (lines (?b @ left s')))"
      using lines_append [of "buf @ bs" "left s'"] l(1) by simp
    have "\<exists>s''. grep rd re ?b s' = Some (hits re (fst (lines (?b @ left s'))), s'')"
    proof (rule less.hyps)
      show "length (left s') < length (left s)" using False l(1) by simp
      show "newline \<notin> set ?b" by (rule lines_snd)
      show "0 \<notin> set (?b @ left s')" using less.prems(2) l(1) lines_subset [of "buf @ bs"] by auto
      show "\<forall>l \<in> set (fst (lines (?b @ left s'))). length l < 1023" "length (snd (lines (?b @ left s'))) < 1023"
        using less.prems(3,4) app by auto
    qed
    then show ?thesis using r False scan_lines [OF z, of re] app by (subst grep.simps) auto
  qed
qed

text \<open>
  C22: \<^verbatim>\<open>grep\<close> prints the lines that match. However \<^verbatim>\<open>read\<close> cuts the file into pieces, \<^verbatim>\<open>grep\<close> ends and has written exactly the
  lines with a match, in order and each with its newline, provided that no line is longer than 1022
  bytes and there is no NUL byte. What follows the last newline is not looked at.
\<close>

theorem grep_prints_matching_lines:
  assumes "reads rd left" "0 \<notin> set (left s)" "\<forall>l \<in> set (fst (lines (left s))). length l < 1023" "length (snd (lines (left s))) < 1023"
  shows "\<exists>s'. grep rd re [] s = Some (concat (map (\<lambda>l. l @ [newline]) (filter (occurs re) (fst (lines (left s))))), s')"
proof -
  have "match re = occurs re" by (rule ext) (rule match_meaning)
  then show ?thesis using grep_from [OF assms(1), of "[]" s re] assms(2-4) by (simp add: hits_def)
qed

text \<open>A file read 3 bytes at a time: of the lines \<^verbatim>\<open>ab\<close> and \<^verbatim>\<open>b\<close>, the expression \<^verbatim>\<open>^b\<close> matches the second.\<close>

theorem grep_prints_matching_lines_witness:
  "\<exists>s'. grep (\<lambda>s k. (take (min 3 k) s, drop (min 3 k) s)) [94, 98] [] [97, 98, 10, 98, 10] = Some ([98, 10], s')"
proof -
  let ?rd = "\<lambda>(s :: u8 list) k. (take (min 3 k) s, drop (min 3 k) s)"
  have "reads ?rd id" by (auto simp: reads_def)
  moreover have "\<not> occurs [94, 98] [97, 98]" "occurs [94, 98] [98]"
    unfolding match_meaning [symmetric] by (simp_all add: match_def matchhere.simps)
  ultimately show ?thesis
    using grep_prints_matching_lines [of ?rd id "[97, 98, 10, 98, 10]" "[94, 98]"] by simp
qed

text \<open>When 1023 bytes without a newline are in \<^verbatim>\<open>buf\<close>, there is no room to read more, and \<^verbatim>\<open>grep\<close> stops as at the end of the file.\<close>

lemma grep_stops_at_long_line:
  assumes "reads rd left" "length buf = 1023"
  shows "\<exists>s'. grep rd re buf s = Some ([], s') \<and> left s' = left s"
proof -
  obtain bs s' where r: "rd s 0 = (bs, s')" by (cases "rd s 0")
  then have "left s = bs @ left s' \<and> length bs \<le> 0" using assms(1) unfolding reads_def by blast
  then show ?thesis using r assms(2) by (subst grep.simps) simp
qed

end
