(* ===== verification/Shell.thy ===== *)
theory Shell
  imports Prelude
begin

text \<open>
  The parser of \<^verbatim>\<open>user/sh.c\<close>. The line is the list of its bytes before the NUL and a pointer into it is a position;
  \<^verbatim>\<open>es\<close> is its length. A command holds its words as pairs \<^verbatim>\<open>(q, eq)\<close> of positions, as \<^verbatim>\<open>argv\<close> and \<^verbatim>\<open>eargv\<close>
  do, until \<^verbatim>\<open>nulterminate\<close> makes strings of them. \<^verbatim>\<open>panic\<close>, which ends the shell's child, is an error value.
  \<^verbatim>\<open>malloc\<close> is taken to succeed.
\<close>

section \<open>Tokens\<close>

definition whitespace :: "u8 list" where "whitespace = [32, 9, 13, 10, 11]"
definition symbols :: "u8 list" where "symbols = [60, 124, 62, 38, 59, 40, 41]"

definition at :: "u8 list \<Rightarrow> nat \<Rightarrow> u8" where
  "at b i = (if i < length b then b ! i else 0)"

function skip :: "u8 list \<Rightarrow> nat \<Rightarrow> nat" where
  "skip b s = (if s < length b \<and> b ! s \<in> set whitespace then skip b (Suc s) else s)"
  by pat_completeness auto
termination by (relation "measure (\<lambda>(b, s). length b - s)") auto

function word_end :: "u8 list \<Rightarrow> nat \<Rightarrow> nat" where
  "word_end b s = (if s < length b \<and> b ! s \<notin> set whitespace \<and> b ! s \<notin> set symbols then word_end b (Suc s) else s)"
  by pat_completeness auto
termination by (relation "measure (\<lambda>(b, s). length b - s)") auto

declare skip.simps [simp del] word_end.simps [simp del]

text \<open>The results are the kind of the token, \<^verbatim>\<open>q\<close>, \<^verbatim>\<open>eq\<close> and the new \<^verbatim>\<open>*ps\<close>.\<close>

definition gettoken :: "u8 list \<Rightarrow> nat \<Rightarrow> u8 \<times> nat \<times> nat \<times> nat" where
  "gettoken b s =
     (let q = skip b s; c = at b q;
          (ret, eq) =
            (if c = 0 then (c, q)
             else if c \<in> {124, 40, 41, 59, 38, 60} then (c, Suc q)
             else if c = 62 then (if at b (Suc q) = 62 then (43, Suc (Suc q)) else (c, Suc q))
             else (97, word_end b q))
      in (ret, q, eq, skip b eq))"

definition peek :: "u8 list \<Rightarrow> nat \<Rightarrow> u8 list \<Rightarrow> bool \<times> nat" where
  "peek b s toks = (let s = skip b s in (at b s \<noteq> 0 \<and> at b s \<in> set toks, s))"

text \<open>The calls \<^verbatim>\<open>gettoken(ps, es, 0, 0)\<close>.\<close>

definition next_token :: "u8 list \<Rightarrow> nat \<Rightarrow> nat" where
  "next_token b s = (case gettoken b s of (_, _, _, s) \<Rightarrow> s)"

section \<open>Commands\<close>

datatype 'w cmd = EXEC "'w list" | REDIR "'w cmd" 'w int int | PIPE "'w cmd" "'w cmd" | LIST "'w cmd" "'w cmd" | BACK "'w cmd"

type_synonym range = "nat \<times> nat"

datatype 'a parsed = Parsed 'a nat | Syntax string | Nofuel

primrec pbind :: "'a parsed \<Rightarrow> ('a \<Rightarrow> nat \<Rightarrow> 'b parsed) \<Rightarrow> 'b parsed" where
  "pbind (Parsed a s) f = f a s"
| "pbind (Syntax e) f = Syntax e"
| "pbind Nofuel f = Nofuel"

lemma pbind_cong [fundef_cong]: "m = m' \<Longrightarrow> (\<And>a s. m' = Parsed a s \<Longrightarrow> f a s = f' a s) \<Longrightarrow> pbind m f = pbind m' f'"
  by (cases m') auto

abbreviation (input) O_RD :: int where "O_RD \<equiv> 0"
abbreviation (input) O_TRUNC_WR :: int where "O_TRUNC_WR \<equiv> 0x601"
abbreviation (input) O_APPEND_WR :: int where "O_APPEND_WR \<equiv> 0x201"

lemma skip_ge: "s \<le> skip b s"
  by (induction b s rule: skip.induct) (subst skip.simps, auto)

lemma skip_le: "s \<le> length b \<Longrightarrow> skip b s \<le> length b"
  by (induction b s rule: skip.induct) (subst skip.simps, auto)

lemma word_end_ge: "s \<le> word_end b s"
  by (induction b s rule: word_end.induct) (subst word_end.simps, auto)

lemma word_end_le: "s \<le> length b \<Longrightarrow> word_end b s \<le> length b"
  by (induction b s rule: word_end.induct) (subst word_end.simps, auto)

lemma skip_stops: "skip b s < length b \<Longrightarrow> b ! skip b s \<notin> set whitespace"
proof (induction b s rule: skip.induct)
  case (1 b s)
  then show ?case by (subst skip.simps) (cases "s < length b \<and> b ! s \<in> set whitespace"; simp add: skip.simps [of b s])
qed

text \<open>A word, as a range of positions: it is not empty, has only word characters, and is not followed by one.\<close>

definition word_char :: "u8 \<Rightarrow> bool" where
  "word_char c \<longleftrightarrow> c \<noteq> 0 \<and> c \<notin> set whitespace \<and> c \<notin> set symbols"

definition is_word :: "u8 list \<Rightarrow> range \<Rightarrow> bool" where
  "is_word b r \<longleftrightarrow> fst r < snd r \<and> snd r \<le> length b \<and> (\<forall>i. fst r \<le> i \<and> i < snd r \<longrightarrow> word_char (b ! i)) \<and>
     \<not> (snd r < length b \<and> word_char (b ! snd r))"

lemma word_end_stops:
  "s \<le> length b \<Longrightarrow> 0 \<notin> set b \<Longrightarrow> (\<forall>i. s \<le> i \<and> i < word_end b s \<longrightarrow> word_char (b ! i)) \<and> \<not> (word_end b s < length b \<and> word_char (b ! word_end b s))"
proof (induction b s rule: word_end.induct)
  case (1 b s)
  show ?case
  proof (cases "s < length b \<and> b ! s \<notin> set whitespace \<and> b ! s \<notin> set symbols")
    case True
    then have "word_char (b ! s)" using 1(3) nth_mem [of s b] by (auto simp: word_char_def simp del: nth_mem)
    moreover have "word_end b s = word_end b (Suc s)" using True by (subst word_end.simps) simp
    ultimately show ?thesis using 1 True by (auto simp: Suc_le_eq; metis le_neq_implies_less)
  next
    case False
    then have "word_end b s = s" by (subst word_end.simps) auto
    then show ?thesis using False 1(2) by (auto simp: word_char_def)
  qed
qed

lemma gettoken_bounds:
  assumes g: "gettoken b s = (ret, q, eq, s')" and s: "s \<le> length b"
  shows "q = skip b s" "s \<le> q" "q \<le> eq" "eq \<le> s'" "s' \<le> length b" "ret \<noteq> 0 \<Longrightarrow> q < eq"
    "ret = 97 \<Longrightarrow> 0 \<notin> set b \<Longrightarrow> is_word b (q, eq)"
proof -
  let ?q = "skip b s"
  have q: "s \<le> ?q" "?q \<le> length b" using skip_ge [of s b] skip_le [OF s] by simp_all
  have lt: "?q < length b" if "at b ?q \<noteq> 0" using that by (auto simp: at_def split: if_splits)
  have lt2: "Suc ?q < length b" if "at b (Suc ?q) = 62" using that by (auto simp: at_def split: if_splits)
  have w: "?q < word_end b ?q" if "at b ?q \<noteq> 0" "at b ?q \<notin> {124, 40, 41, 59, 38, 60}" "at b ?q \<noteq> 62"
  proof -
    have "b ! ?q \<notin> set whitespace" "b ! ?q \<notin> set symbols"
      using skip_stops [OF lt [OF that(1)]] that lt [OF that(1)] by (auto simp: at_def symbols_def)
    then have "word_end b ?q = word_end b (Suc ?q)" using lt [OF that(1)] by (subst word_end.simps) simp
    then show ?thesis using word_end_ge [of "Suc ?q" b] by simp
  qed
  have all: "q = ?q \<and> ?q \<le> eq \<and> eq \<le> length b \<and> s' = skip b eq \<and> (ret \<noteq> 0 \<longrightarrow> ?q < eq) \<and>
     (ret = 97 \<longrightarrow> eq = word_end b ?q \<and> ?q < word_end b ?q)"
    using g lt lt2 w q word_end_le [of ?q b] word_end_ge [of ?q b]
    by (auto simp: gettoken_def Let_def Suc_le_eq split: if_splits)
  then show "q = ?q" "s \<le> q" "q \<le> eq" "ret \<noteq> 0 \<Longrightarrow> q < eq" using q by simp_all
  show "eq \<le> s'" "s' \<le> length b" using all skip_ge [of eq b] skip_le [of eq b] by simp_all
  show "is_word b (q, eq)" if "ret = 97" "0 \<notin> set b"
    using all that word_end_stops [OF q(2) that(2)] by (simp add: is_word_def)
qed

lemma peek_true:
  assumes "peek b s toks = (True, s')"
  shows "s \<le> s'" "s' < length b" "s' < next_token b s'" "next_token b s' \<le> length b"
proof -
  have p: "s' = skip b s" "at b s' \<noteq> 0" using assms by (auto simp: peek_def Let_def)
  show "s \<le> s'" using p skip_ge by simp
  show l: "s' < length b" using p(2) by (auto simp: at_def split: if_splits)
  have "b ! s' \<notin> set whitespace" using skip_stops [of b s] l p(1) by simp
  then have k: "skip b s' = s'" by (subst skip.simps) simp
  obtain ret q eq s2 where g: "gettoken b s' = (ret, q, eq, s2)" by (cases "gettoken b s'")
  have "ret \<noteq> 0" using g p(2) k by (auto simp: gettoken_def Let_def split: if_splits)
  then show "s' < next_token b s'" "next_token b s' \<le> length b"
    using gettoken_bounds [OF g] l k g by (auto simp: next_token_def)
qed

lemma peek_bounds: "peek b s toks = (r, s') \<Longrightarrow> s \<le> length b \<Longrightarrow> s \<le> s' \<and> s' \<le> length b"
  using skip_ge [of s b] skip_le [of s b] by (auto simp: peek_def Let_def)

section \<open>Parsing\<close>

function parseredirs :: "u8 list \<Rightarrow> range cmd \<Rightarrow> nat \<Rightarrow> range cmd parsed" where
  "parseredirs b cmd s =
     (case peek b s [60, 62] of (more, s) \<Rightarrow>
      if \<not> more then Parsed cmd s
      else
        case gettoken b s of (tok, _, _, s) \<Rightarrow>
        case gettoken b s of (tok', q, eq, s) \<Rightarrow>
        if tok' \<noteq> 97 then Syntax ''missing file for redirection''
        else parseredirs b
          (if tok = 60 then REDIR cmd (q, eq) O_RD 0
           else if tok = 62 then REDIR cmd (q, eq) O_TRUNC_WR 1
           else REDIR cmd (q, eq) O_APPEND_WR 1) s)"
  by pat_completeness auto
termination
proof (relation "measure (\<lambda>(b, cmd, s). length b - s)", goal_cases)
  case (2 b cmd s more s1 tok y1 q1 y2 e1 s2 tok' y3 q y4 eq s3)
  then have g: "peek b s [60, 62] = (True, s1)" "gettoken b s1 = (tok, q1, e1, s2)" "gettoken b s2 = (tok', q, eq, s3)" by simp_all
  have "s \<le> s1" "s1 < length b" "s1 < s2" "s2 \<le> length b" using peek_true [OF g(1)] g(2) by (auto simp: next_token_def)
  then show ?case using gettoken_bounds [OF g(3)] by auto
qed simp

declare parseredirs.simps [simp del]

lemma parseredirs_bounds: "parseredirs b cmd s = Parsed c s' \<Longrightarrow> s \<le> length b \<Longrightarrow> s \<le> s' \<and> s' \<le> length b"
proof (induction b cmd s arbitrary: c s' rule: parseredirs.induct)
  case (1 b cmd s)
  obtain more s1 where p: "peek b s [60, 62] = (more, s1)" by (cases "peek b s [60, 62]")
  have s1: "s \<le> s1" "s1 \<le> length b" using peek_bounds [OF p 1(3)] by auto
  obtain tok q1 e1 s2 where g: "gettoken b s1 = (tok, q1, e1, s2)" by (cases "gettoken b s1")
  obtain tok' q eq s3 where g': "gettoken b s2 = (tok', q, eq, s3)" by (cases "gettoken b s2")
  have s2: "s1 \<le> s2" "s2 \<le> length b" using gettoken_bounds [OF g s1(2)] by auto
  have s3: "s2 \<le> s3" "s3 \<le> length b" using gettoken_bounds [OF g' s2(2)] by auto
  show ?case
    using 1(2) s1 s2 s3 1(1) [OF p [symmetric] _ g [symmetric] refl refl g' [symmetric] refl refl, of c s']
    by (subst (asm) parseredirs.simps) (auto simp: p g g' split: if_splits)
qed

text \<open>The loop of \<^verbatim>\<open>parseexec\<close>, with \<^verbatim>\<open>ret\<close> and the words found so far.\<close>

function parse_args :: "u8 list \<Rightarrow> range cmd \<Rightarrow> range list \<Rightarrow> nat \<Rightarrow> (range cmd \<times> range list) parsed" where
  "parse_args b ret argv s =
     (case peek b s [124, 41, 38, 59] of (stop, s) \<Rightarrow>
      if stop then Parsed (ret, argv) s
      else
        case gettoken b s of (tok, q, eq, s) \<Rightarrow>
        if tok = 0 then Parsed (ret, argv) s
        else if tok \<noteq> 97 then Syntax ''syntax''
        else if length argv + 1 \<ge> 10 then Syntax ''too many args''
        else pbind (parseredirs b ret s) (\<lambda>ret s. parse_args b ret (argv @ [(q, eq)]) s))"
  by pat_completeness auto
termination
proof (relation "measure (\<lambda>(b, ret, argv, s). length b - s)", goal_cases)
  case (2 b ret argv s stop s1 tok y1 q y2 eq s2 ret' s3)
  then have g: "peek b s [124, 41, 38, 59] = (stop, s1)" "gettoken b s1 = (tok, q, eq, s2)" "tok \<noteq> 0" by simp_all
  show ?case
  proof (cases "s1 \<le> length b")
    case True
    have "s \<le> s1" using g(1) skip_ge [of s b] by (auto simp: peek_def Let_def)
    moreover have "s1 < s2" "s2 \<le> length b" using gettoken_bounds [OF g(2) True] g(3) by auto
    ultimately show ?thesis using parseredirs_bounds [OF 2(9)] by auto
  next
    case False
    then have "gettoken b s1 = (0, s1, s1, s1)" by (simp add: gettoken_def at_def skip.simps)
    then show ?thesis using g by simp
  qed
qed simp

declare parse_args.simps [simp del]

text \<open>The words go into the command that \<^verbatim>\<open>parseexec\<close> has allocated first, which the redirections have been wrapped around.\<close>

primrec set_argv :: "range list \<Rightarrow> range cmd \<Rightarrow> range cmd" where
  "set_argv argv (EXEC a) = EXEC argv"
| "set_argv argv (REDIR c f mode fd) = REDIR (set_argv argv c) f mode fd"
| "set_argv argv (PIPE l r) = PIPE l r"
| "set_argv argv (LIST l r) = LIST l r"
| "set_argv argv (BACK c) = BACK c"

text \<open>The loop of \<^verbatim>\<open>parseline\<close> over \<^verbatim>\<open>&\<close>.\<close>

function parse_back :: "u8 list \<Rightarrow> range cmd \<Rightarrow> nat \<Rightarrow> range cmd \<times> nat" where
  "parse_back b cmd s =
     (case peek b s [38] of (more, s) \<Rightarrow> if more then parse_back b (BACK cmd) (next_token b s) else (cmd, s))"
  by pat_completeness auto
termination
proof (relation "measure (\<lambda>(b, cmd, s). length b - s)", goal_cases)
  case (2 b cmd s more s1)
  then show ?case using peek_true [of b s "[38]" s1] by auto
qed simp

declare parse_back.simps [simp del]

text \<open>The mutual recursion is bounded by the depth of nesting; \<open>n\<close> is the number of nested calls allowed.\<close>

function (sequential) parseline :: "nat \<Rightarrow> u8 list \<Rightarrow> nat \<Rightarrow> range cmd parsed"
  and parsepipe :: "nat \<Rightarrow> u8 list \<Rightarrow> nat \<Rightarrow> range cmd parsed"
  and parseexec :: "nat \<Rightarrow> u8 list \<Rightarrow> nat \<Rightarrow> range cmd parsed"
  and parseblock :: "nat \<Rightarrow> u8 list \<Rightarrow> nat \<Rightarrow> range cmd parsed" where
  "parseline 0 b s = Nofuel"
| "parseline (Suc n) b s =
     pbind (parsepipe n b s) (\<lambda>cmd s.
     case parse_back b cmd s of (cmd, s) \<Rightarrow>
     case peek b s [59] of (more, s) \<Rightarrow>
     if more then pbind (parseline n b (next_token b s)) (\<lambda>right s. Parsed (LIST cmd right) s)
     else Parsed cmd s)"
| "parsepipe 0 b s = Nofuel"
| "parsepipe (Suc n) b s =
     pbind (parseexec n b s) (\<lambda>cmd s.
     case peek b s [124] of (more, s) \<Rightarrow>
     if more then pbind (parsepipe n b (next_token b s)) (\<lambda>right s. Parsed (PIPE cmd right) s)
     else Parsed cmd s)"
| "parseexec 0 b s = Nofuel"
| "parseexec (Suc n) b s =
     (case peek b s [40] of (block, s) \<Rightarrow>
      if block then parseblock n b s
      else
        pbind (parseredirs b (EXEC []) s) (\<lambda>ret s.
        pbind (parse_args b ret [] s) (\<lambda>(ret, argv) s. Parsed (set_argv argv ret) s)))"
| "parseblock 0 b s = Nofuel"
| "parseblock (Suc n) b s =
     (case peek b s [40] of (block, s) \<Rightarrow>
      if \<not> block then Syntax ''parseblock''
      else
        pbind (parseline n b (next_token b s)) (\<lambda>cmd s.
        case peek b s [41] of (close, s) \<Rightarrow>
        if \<not> close then Syntax ''syntax - missing )''
        else parseredirs b cmd (next_token b s)))"
  by pat_completeness auto
termination
  by (relation "measure (case_sum (case_sum fst fst) (case_sum fst fst))") auto

text \<open>\<^verbatim>\<open>nulterminate\<close> on the line with its NUL.\<close>

primrec nulterminate :: "range cmd \<Rightarrow> u8 list \<Rightarrow> u8 list" where
  "nulterminate (EXEC argv) m = fold (\<lambda>r m. m[snd r := 0]) argv m"
| "nulterminate (REDIR c f mode fd) m = (nulterminate c m)[snd f := 0]"
| "nulterminate (PIPE l r) m = nulterminate r (nulterminate l m)"
| "nulterminate (LIST l r) m = nulterminate r (nulterminate l m)"
| "nulterminate (BACK c) m = nulterminate c m"

text \<open>
  \<^verbatim>\<open>parsecmd\<close>, with the line after \<^verbatim>\<open>nulterminate\<close> in place of the position. Four calls for every character of the line
  are enough.
\<close>

definition parsecmd :: "u8 list \<Rightarrow> (range cmd \<times> u8 list) parsed" where
  "parsecmd b =
     pbind (parseline (4 * length b + 4) b 0) (\<lambda>cmd s.
     case peek b s [] of (_, s) \<Rightarrow>
     if s \<noteq> length b then Syntax ''syntax'' else Parsed (cmd, nulterminate cmd (b @ [0])) s)"

section \<open>What the parser returns\<close>

primrec shape_ok :: "'w cmd \<Rightarrow> bool" where
  "shape_ok (EXEC ws) \<longleftrightarrow> length ws < 10"
| "shape_ok (REDIR c f mode fd) \<longleftrightarrow> shape_ok c \<and> (mode, fd) \<in> {(O_RD, 0), (O_TRUNC_WR, 1), (O_APPEND_WR, 1)}"
| "shape_ok (PIPE l r) \<longleftrightarrow> shape_ok l \<and> shape_ok r"
| "shape_ok (LIST l r) \<longleftrightarrow> shape_ok l \<and> shape_ok r"
| "shape_ok (BACK c) \<longleftrightarrow> shape_ok c"

definition cmd_ok :: "u8 list \<Rightarrow> range cmd \<Rightarrow> bool" where
  "cmd_ok b c \<longleftrightarrow> shape_ok c \<and> (0 \<notin> set b \<longrightarrow> (\<forall>r \<in> set_cmd c. is_word b r))"

lemma cmd_ok_simps [simp]:
  "cmd_ok b (EXEC []) \<longleftrightarrow> True" "cmd_ok b (PIPE l r) \<longleftrightarrow> cmd_ok b l \<and> cmd_ok b r" "cmd_ok b (LIST l r) \<longleftrightarrow> cmd_ok b l \<and> cmd_ok b r"
  "cmd_ok b (BACK c) \<longleftrightarrow> cmd_ok b c"
  by (auto simp: cmd_ok_def)

text \<open>\<open>good b s k m\<close>: if \<open>m\<close> has parsed a command from position \<open>s\<close> on, it is well-formed and the position did not move back.\<close>

primrec good :: "u8 list \<Rightarrow> nat \<Rightarrow> range cmd parsed \<Rightarrow> bool" where
  "good b s (Parsed c s') \<longleftrightarrow> s \<le> s' \<and> s' \<le> length b \<and> cmd_ok b c"
| "good b s (Syntax e) \<longleftrightarrow> True"
| "good b s Nofuel \<longleftrightarrow> True"

lemma good_mono: "good b s1 m \<Longrightarrow> s \<le> s1 \<Longrightarrow> good b s m"
  by (cases m) auto

lemma good_pbind: "good b s m \<Longrightarrow> (\<And>c s'. m = Parsed c s' \<Longrightarrow> s \<le> s' \<Longrightarrow> s' \<le> length b \<Longrightarrow> cmd_ok b c \<Longrightarrow> good b s (f c s')) \<Longrightarrow> good b s (pbind m f)"
  by (cases m) auto

lemma parseredirs_good: "s \<le> length b \<Longrightarrow> cmd_ok b cmd \<Longrightarrow> good b s (parseredirs b cmd s) \<and> parseredirs b cmd s \<noteq> Nofuel"
proof (induction b cmd s rule: parseredirs.induct)
  case (1 b cmd s)
  obtain more s1 where p: "peek b s [60, 62] = (more, s1)" by (cases "peek b s [60, 62]")
  have s1: "s \<le> s1" "s1 \<le> length b" using peek_bounds [OF p 1(2)] by auto
  obtain tok q1 e1 s2 where g: "gettoken b s1 = (tok, q1, e1, s2)" by (cases "gettoken b s1")
  obtain tok' q eq s3 where g': "gettoken b s2 = (tok', q, eq, s3)" by (cases "gettoken b s2")
  have s2: "s1 \<le> s2" "s2 \<le> length b" using gettoken_bounds [OF g s1(2)] by auto
  have s3: "s2 \<le> s3" "s3 \<le> length b" using gettoken_bounds [OF g' s2(2)] by auto
  have w: "tok' = 97 \<Longrightarrow> 0 \<notin> set b \<Longrightarrow> is_word b (q, eq)" using gettoken_bounds(7) [OF g' s2(2)] .
  show ?case
  proof (cases "more \<and> tok' = 97")
    case True
    define c where "c = (if tok = 60 then REDIR cmd (q, eq) O_RD 0 else if tok = 62 then REDIR cmd (q, eq) O_TRUNC_WR 1 else REDIR cmd (q, eq) O_APPEND_WR 1)"
    have "cmd_ok b c" using 1(3) w True by (auto simp: cmd_ok_def c_def)
    moreover have "s3 \<le> length b \<Longrightarrow> cmd_ok b c \<Longrightarrow> good b s3 (parseredirs b c s3) \<and> parseredirs b c s3 \<noteq> Nofuel"
      using 1(1) [OF p [symmetric] _ g [symmetric] refl refl g' [symmetric] refl refl, folded c_def] True by blast
    moreover have "parseredirs b cmd s = parseredirs b c s3" using True unfolding c_def by (subst parseredirs.simps) (simp add: p g g')
    ultimately show ?thesis using good_mono [of b s3 "parseredirs b c s3" s] s1 s2 s3 by simp
  next
    case False
    then have "parseredirs b cmd s = (if more then Syntax ''missing file for redirection'' else Parsed cmd s1)"
      by (subst parseredirs.simps) (simp add: p g g')
    then show ?thesis using s1 1(3) by simp
  qed
qed

lemma set_argv_shape: "length argv < 10 \<Longrightarrow> shape_ok c \<Longrightarrow> shape_ok (set_argv argv c)"
  by (induction c) simp_all

lemma set_argv_words: "set_cmd (set_argv argv c) \<subseteq> set argv \<union> set_cmd c"
  by (induction c) auto

lemma set_argv_ok: "cmd_ok b c \<Longrightarrow> length argv < 10 \<Longrightarrow> (0 \<notin> set b \<Longrightarrow> \<forall>r \<in> set argv. is_word b r) \<Longrightarrow> cmd_ok b (set_argv argv c)"
  using set_argv_shape [of argv c] set_argv_words [of argv c] unfolding cmd_ok_def by blast

lemma parse_args_good:
  "s \<le> length b \<Longrightarrow> cmd_ok b ret \<Longrightarrow> length argv < 10 \<Longrightarrow> (0 \<notin> set b \<Longrightarrow> \<forall>r \<in> set argv. is_word b r) \<Longrightarrow>
    good b s (pbind (parse_args b ret argv s) (\<lambda>(ret, argv) s. Parsed (set_argv argv ret) s)) \<and> parse_args b ret argv s \<noteq> Nofuel"
proof (induction b ret argv s rule: parse_args.induct)
  case (1 b ret argv s)
  obtain stop s1 where p: "peek b s [124, 41, 38, 59] = (stop, s1)" by (cases "peek b s [124, 41, 38, 59]")
  have s1: "s \<le> s1" "s1 \<le> length b" using peek_bounds [OF p 1(2)] by auto
  obtain tok q eq s2 where g: "gettoken b s1 = (tok, q, eq, s2)" by (cases "gettoken b s1")
  have s2: "s1 \<le> s2" "s2 \<le> length b" using gettoken_bounds [OF g s1(2)] by auto
  have w: "tok = 97 \<Longrightarrow> 0 \<notin> set b \<Longrightarrow> is_word b (q, eq)" using gettoken_bounds(7) [OF g s1(2)] .
  have e: "parse_args b ret argv s = (if stop then Parsed (ret, argv) s1 else if tok = 0 then Parsed (ret, argv) s2
      else if tok \<noteq> 97 then Syntax ''syntax'' else if length argv + 1 \<ge> 10 then Syntax ''too many args''
      else pbind (parseredirs b ret s2) (\<lambda>ret s. parse_args b ret (argv @ [(q, eq)]) s))"
    by (subst parse_args.simps) (simp only: p g prod.case)
  have ok: "cmd_ok b (set_argv argv ret)" using set_argv_ok 1(3-5) by blast
  note r = parseredirs_good [OF s2(2) 1(3)]
  show ?case
  proof (cases "\<not> stop \<and> tok = 97 \<and> \<not> length argv + 1 \<ge> 10")
    case True
    then have e': "parse_args b ret argv s = pbind (parseredirs b ret s2) (\<lambda>ret s. parse_args b ret (argv @ [(q, eq)]) s)" using e by simp
    show ?thesis
    proof (cases "parseredirs b ret s2")
      case (Parsed c s3)
      then have "good b s3 (pbind (parse_args b c (argv @ [(q, eq)]) s3) (\<lambda>(ret, argv) s. Parsed (set_argv argv ret) s)) \<and>
          parse_args b c (argv @ [(q, eq)]) s3 \<noteq> Nofuel"
        using 1(1) [OF p [symmetric] _ g [symmetric] refl refl _ _ _ Parsed] True r w 1(5) by auto
      then show ?thesis using e' Parsed r s1 s2 good_mono [of b s3 _ s] by auto
    qed (use e' r in auto)
  next
    case False
    then show ?thesis using e ok s1 s2 by auto
  qed
qed

lemma parse_back_good: "parse_back b cmd s = (c, s') \<Longrightarrow> s \<le> length b \<Longrightarrow> cmd_ok b cmd \<Longrightarrow> s \<le> s' \<and> s' \<le> length b \<and> cmd_ok b c"
proof (induction b cmd s arbitrary: c s' rule: parse_back.induct)
  case (1 b cmd s)
  obtain more s1 where p: "peek b s [38] = (more, s1)" by (cases "peek b s [38]")
  have s1: "s \<le> s1" "s1 \<le> length b" using peek_bounds [OF p 1(3)] by auto
  show ?case
  proof (cases more)
    case True
    then have "parse_back b (BACK cmd) (next_token b s1) = (c, s')" using 1(2) by (subst (asm) parse_back.simps) (simp add: p)
    moreover have "s1 < next_token b s1" "next_token b s1 \<le> length b" using peek_true [of b s "[38]" s1] p True by auto
    ultimately show ?thesis using 1(1) [OF p [symmetric] True, of c s'] s1 1(4) by auto
  next
    case False
    then show ?thesis using 1(2,4) s1 by (subst (asm) parse_back.simps) (auto simp: p)
  qed
qed

text \<open>After a character the parser has looked for, \<open>next_token\<close> moves on.\<close>

lemma peek_next: "peek b s toks = (r, s') \<Longrightarrow> s \<le> length b \<Longrightarrow> s \<le> s' \<and> s' \<le> length b \<and> (r \<longrightarrow> s' < next_token b s' \<and> next_token b s' \<le> length b)"
  using peek_bounds [of b s toks r s'] peek_true [of b s toks s'] by (cases r) auto

text \<open>\<open>parses b s k n m\<close>: the result \<open>m\<close> of a parser called at position \<open>s\<close> with \<open>n\<close> calls left is good, and is one when \<open>n\<close> is
  large enough.\<close>

definition parses :: "u8 list \<Rightarrow> nat \<Rightarrow> nat \<Rightarrow> nat \<Rightarrow> range cmd parsed \<Rightarrow> bool" where
  [simp]:
  "parses b s k n m \<longleftrightarrow> good b s m \<and> (4 * (length b - s) + k \<le> n \<longrightarrow> m \<noteq> Nofuel)"

lemma parseline_step:
  assumes s: "s \<le> length b" and parsepipe: "parses b s 3 n (parsepipe n b s)" and parseline: "\<And>s. s \<le> length b \<Longrightarrow> parses b s 4 n (parseline n b s)"
  shows "parses b s 4 (Suc n) (parseline (Suc n) b s)"
proof -
  note pp = parsepipe [unfolded parses_def]
  show ?thesis
  proof (cases "parsepipe n b s")
    case (Parsed c s1)
    then have s1: "s \<le> s1" "s1 \<le> length b" "cmd_ok b c" using pp by auto
    obtain c2 s2 where pb: "parse_back b c s1 = (c2, s2)" by (cases "parse_back b c s1")
    obtain more s3 where pk: "peek b s2 [59] = (more, s3)" by (cases "peek b s2 [59]")
    note s2 = parse_back_good [OF pb s1(2,3)]
    note s3 = peek_next [OF pk]
    show ?thesis
    proof (cases more)
      case True
      let ?s = "next_token b s3"
      have s': "?s \<le> length b" "s3 < ?s" "s \<le> s3" using s1 s2 s3 True by auto
      have pl: "good b ?s (parseline n b ?s) \<and> (4 * (length b - ?s) + 4 \<le> n \<longrightarrow> parseline n b ?s \<noteq> Nofuel)" by (rule parseline [OF s'(1), unfolded parses_def])
      have e: "parseline (Suc n) b s = pbind (parseline n b ?s) (\<lambda>right s. Parsed (LIST c2 right) s)" using Parsed pb pk True by simp
      have "4 * (length b - ?s) + 4 \<le> n" if "4 * (length b - s) + 4 \<le> Suc n" using that s' by linarith
      then show ?thesis using pl s' s2 unfolding e by (cases "parseline n b ?s") auto
    qed (use Parsed pb pk s1 s2 s3 in auto)
  qed (use pp in auto)
qed

lemma parsepipe_step:
  assumes s: "s \<le> length b" and parseexec: "parses b s 2 n (parseexec n b s)" and parsepipe: "\<And>s. s \<le> length b \<Longrightarrow> parses b s 3 n (parsepipe n b s)"
  shows "parses b s 3 (Suc n) (parsepipe (Suc n) b s)"
proof -
  note pe = parseexec [unfolded parses_def]
  show ?thesis
  proof (cases "parseexec n b s")
    case (Parsed c s1)
    then have s1: "s \<le> s1" "s1 \<le> length b" "cmd_ok b c" using pe by auto
    obtain more s3 where pk: "peek b s1 [124] = (more, s3)" by (cases "peek b s1 [124]")
    note s3 = peek_next [OF pk s1(2)]
    show ?thesis
    proof (cases more)
      case True
      let ?s = "next_token b s3"
      have s': "?s \<le> length b" "s3 < ?s" "s \<le> s3" using s1 s3 True by auto
      have pl: "good b ?s (parsepipe n b ?s) \<and> (4 * (length b - ?s) + 3 \<le> n \<longrightarrow> parsepipe n b ?s \<noteq> Nofuel)" by (rule parsepipe [OF s'(1), unfolded parses_def])
      have e: "parsepipe (Suc n) b s = pbind (parsepipe n b ?s) (\<lambda>right s. Parsed (PIPE c right) s)" using Parsed pk True by simp
      have "4 * (length b - ?s) + 3 \<le> n" if "4 * (length b - s) + 3 \<le> Suc n" using that s' by linarith
      then show ?thesis using pl s' s1 unfolding e by (cases "parsepipe n b ?s") auto
    qed (use Parsed pk s1 s3 in auto)
  qed (use pe in auto)
qed

lemma parseexec_step:
  assumes s: "s \<le> length b" and parseblock: "\<And>s. s \<le> length b \<Longrightarrow> parses b s 1 n (parseblock n b s)"
  shows "parses b s 2 (Suc n) (parseexec (Suc n) b s)"
proof -
  obtain block s1 where pk: "peek b s [40] = (block, s1)" by (cases "peek b s [40]")
  note s1 = peek_next [OF pk s]
  show ?thesis
  proof (cases block)
    case True
    have "good b s1 (parseblock n b s1) \<and> (4 * (length b - s1) + 1 \<le> n \<longrightarrow> parseblock n b s1 \<noteq> Nofuel)" using parseblock [of s1, unfolded parses_def] s1 by blast
    then show ?thesis using True pk s1 good_mono [of b s1 "parseblock n b s1" s] by auto
  next
    case False
    have r: "good b s1 (parseredirs b (EXEC []) s1) \<and> parseredirs b (EXEC []) s1 \<noteq> Nofuel" by (rule parseredirs_good) (use s1 in auto)
    show ?thesis
    proof (cases "parseredirs b (EXEC []) s1")
      case (Parsed c s2)
      then have s2: "s1 \<le> s2" "s2 \<le> length b" "cmd_ok b c" using r by auto
      have a: "good b s2 (pbind (parse_args b c [] s2) (\<lambda>(ret, argv) s. Parsed (set_argv argv ret) s)) \<and> parse_args b c [] s2 \<noteq> Nofuel"
        by (rule parse_args_good) (use s2 in auto)
      then have "good b s (parseexec (Suc n) b s)" using False pk Parsed s1 s2 good_mono [of b s2 _ s] by auto
      moreover have "parseexec (Suc n) b s \<noteq> Nofuel" using a False pk Parsed by (cases "parse_args b c [] s2") auto
      ultimately show ?thesis unfolding parses_def by blast
    qed (use False pk r in auto)
  qed
qed

lemma parseblock_step:
  assumes s: "s \<le> length b" and parseline: "\<And>s. s \<le> length b \<Longrightarrow> parses b s 4 n (parseline n b s)"
  shows "parses b s 1 (Suc n) (parseblock (Suc n) b s)"
proof -
  obtain block s1 where pk: "peek b s [40] = (block, s1)" by (cases "peek b s [40]")
  note s1 = peek_next [OF pk s]
  show ?thesis
  proof (cases block)
    case True
    let ?s = "next_token b s1"
    have s': "?s \<le> length b" "s1 < ?s" "s \<le> s1" using s1 True by auto
    have pl: "good b ?s (parseline n b ?s) \<and> (4 * (length b - ?s) + 4 \<le> n \<longrightarrow> parseline n b ?s \<noteq> Nofuel)" by (rule parseline [OF s'(1), unfolded parses_def])
    show ?thesis
    proof (cases "parseline n b ?s")
      case (Parsed c s2)
      then have s2: "?s \<le> s2" "s2 \<le> length b" "cmd_ok b c" using pl by auto
      obtain close s3 where pk': "peek b s2 [41] = (close, s3)" by (cases "peek b s2 [41]")
      note s3 = peek_next [OF pk' s2(2)]
      show ?thesis
      proof (cases close)
        case True
        have "good b (next_token b s3) (parseredirs b c (next_token b s3)) \<and> parseredirs b c (next_token b s3) \<noteq> Nofuel"
          by (rule parseredirs_good) (use s3 s2 True in auto)
        then show ?thesis using \<open>block\<close> True pk pk' Parsed s' s2 s3 good_mono [of b "next_token b s3" _ s] by auto
      qed (use True pk pk' Parsed in auto)
    qed (use True pk pl s' in auto)
  qed (use pk in auto)
qed

lemma parse_good:
  "s \<le> length b \<Longrightarrow> parses b s 4 n (parseline n b s)"
  "s \<le> length b \<Longrightarrow> parses b s 3 n (parsepipe n b s)"
  "s \<le> length b \<Longrightarrow> parses b s 2 n (parseexec n b s)"
  "s \<le> length b \<Longrightarrow> parses b s 1 n (parseblock n b s)"
proof (induction n arbitrary: s)
  case (Suc n)
  { case 1 show ?case by (rule parseline_step) (use 1 Suc in auto) }
  { case 2 show ?case by (rule parsepipe_step) (use 2 Suc in auto) }
  { case 3 show ?case by (rule parseexec_step) (use 3 Suc in auto) }
  { case 4 show ?case by (rule parseblock_step) (use 4 Suc in auto) }
qed simp_all

section \<open>Strings\<close>

definition sub :: "u8 list \<Rightarrow> range \<Rightarrow> u8 list" where
  "sub b r = take (snd r - fst r) (drop (fst r) b)"

definition cstr :: "u8 list \<Rightarrow> nat \<Rightarrow> u8 list" where
  "cstr m q = takeWhile (\<lambda>c. c \<noteq> 0) (drop q m)"

lemma nulterminate_length [simp]: "length (nulterminate c m) = length m"
proof (induction c arbitrary: m)
  case (EXEC ws)
  show ?case unfolding nulterminate.simps by (induction ws arbitrary: m) auto
qed simp_all

lemma nulterminate_nth: "i < length m \<Longrightarrow> nulterminate c m ! i = (if \<exists>r \<in> set_cmd c. snd r = i then 0 else m ! i)"
proof (induction c arbitrary: m)
  case (EXEC ws)
  then show ?case unfolding nulterminate.simps by (induction ws arbitrary: m) (auto simp: nth_list_update)
next
  case (REDIR c f mode fd)
  then show ?case by (cases "snd f = i") auto
qed auto

text \<open>The NUL bytes do not hit another word: a position where a word ends has no word character.\<close>

lemma nulterminate_words:
  assumes w: "\<forall>r \<in> set_cmd c. is_word b r" and r: "r \<in> set_cmd c"
  shows "cstr (nulterminate c (b @ [0])) (fst r) = sub b r"
proof -
  let ?m = "nulterminate c (b @ [0])"
  have rw: "fst r < snd r" "snd r \<le> length b" "\<And>i. fst r \<le> i \<Longrightarrow> i < snd r \<Longrightarrow> word_char (b ! i)" using w r by (auto simp: is_word_def)
  have keep: "?m ! i = b ! i" if i: "fst r \<le> i" "i < snd r" for i
  proof -
    have "\<not> (\<exists>r' \<in> set_cmd c. snd r' = i)" using w rw(2,3) i unfolding is_word_def by (metis less_le_trans)
    then show ?thesis using i rw(2) by (simp add: nulterminate_nth nth_append)
  qed
  have stop: "?m ! snd r = 0" using r rw(2) by (subst nulterminate_nth) auto
  have "takeWhile (\<lambda>c. c \<noteq> 0) (drop (fst r) ?m) = take (snd r - fst r) (drop (fst r) ?m)"
  proof (rule takeWhile_eq_take_P_nth)
    show "drop (fst r) ?m ! i \<noteq> 0" if "i < snd r - fst r" "i < length (drop (fst r) ?m)" for i
      using that keep [of "fst r + i"] rw(3) [of "fst r + i"] by (auto simp: word_char_def)
    show "\<not> drop (fst r) ?m ! (snd r - fst r) \<noteq> 0" using stop rw(1,2) by simp
  qed
  also have "\<dots> = sub b r"
    unfolding sub_def by (rule nth_equalityI) (use rw(1,2) keep in auto)
  finally show ?thesis by (simp add: cstr_def)
qed

lemma sub_word: "is_word b r \<Longrightarrow> sub b r \<noteq> [] \<and> (\<forall>x \<in> set (sub b r). word_char x)"
  by (auto simp: is_word_def sub_def in_set_conv_nth)

text \<open>A command of strings that the shell can hold: the words are words, and the shapes are as above.\<close>

definition wf_cmd :: "u8 list cmd \<Rightarrow> bool" where
  "wf_cmd c \<longleftrightarrow> shape_ok c \<and> (\<forall>w \<in> set_cmd c. w \<noteq> [] \<and> list_all word_char w)"

lemma shape_ok_map: "shape_ok (map_cmd f c) = shape_ok c"
  by (induction c) simp_all

lemma parsecmd_result:
  assumes "0 \<notin> set b" "parsecmd b = Parsed (c, m) s"
  shows "cmd_ok b c" "m = nulterminate c (b @ [0])" "map_cmd (\<lambda>r. cstr m (fst r)) c = map_cmd (sub b) c" "wf_cmd (map_cmd (sub b) c)"
proof -
  have g: "good b 0 (parseline (4 * length b + 4) b 0)" using parse_good(1) [of 0 b "4 * length b + 4"] by simp
  obtain s1 where "parseline (4 * length b + 4) b 0 = Parsed c s1" and m: "m = nulterminate c (b @ [0])"
    using assms(2) by (cases "parseline (4 * length b + 4) b 0") (auto simp: parsecmd_def split: prod.splits if_splits)
  then show ok: "cmd_ok b c" using g by simp
  then have w: "\<forall>r \<in> set_cmd c. is_word b r" using assms(1) by (simp add: cmd_ok_def)
  show "m = nulterminate c (b @ [0])" by (rule m)
  show "map_cmd (\<lambda>r. cstr m (fst r)) c = map_cmd (sub b) c" unfolding m by (rule cmd.map_cong [OF refl nulterminate_words [OF w]])
  show "wf_cmd (map_cmd (sub b) c)" using ok w sub_word by (auto simp: wf_cmd_def cmd_ok_def shape_ok_map cmd.set_map list_all_iff)
qed

text \<open>
  C40: the parser of the shell ends on every line, with a command or a syntax error. The strings of the command, once
  \<^verbatim>\<open>nulterminate\<close> has stored its NUL bytes into the line, are the words that the parser found there: not empty,
  without white space and symbols, at most nine in an argument vector, and the redirections are the three that
  the grammar has.
\<close>

theorem parsecmd_total_and_well_formed:
  assumes "0 \<notin> set b"
  shows "parsecmd b \<noteq> Nofuel \<and>
    (parsecmd b = Parsed (c, m) s \<longrightarrow> wf_cmd (map_cmd (\<lambda>r. cstr m (fst r)) c) \<and> map_cmd (\<lambda>r. cstr m (fst r)) c = map_cmd (sub b) c)"
proof -
  have "parseline (4 * length b + 4) b 0 \<noteq> Nofuel" using parse_good(1) [of 0 b "4 * length b + 4"] by simp
  then have "parsecmd b \<noteq> Nofuel"
    by (cases "parseline (4 * length b + 4) b 0") (auto simp: parsecmd_def split: prod.split)
  then show ?thesis using parsecmd_result [OF assms, of c m s] by simp
qed

text \<open>The line \<^verbatim>\<open>a>b\<close>.\<close>

lemma parse_example: "parsecmd [97, 62, 98] = Parsed (REDIR (EXEC [(0, 1)]) (2, 3) O_TRUNC_WR 1, [97, 0, 98, 0]) 3"
  by code_simp

theorem parsecmd_total_and_well_formed_witness:
  "parsecmd [97, 62, 98] \<noteq> Nofuel \<and> wf_cmd (map_cmd (\<lambda>r. cstr [97, 0, 98, 0] (fst r)) (REDIR (EXEC [(0, 1)]) (2, 3) O_TRUNC_WR 1))"
  using parsecmd_total_and_well_formed [of "[97, 62, 98]"] parse_example by fastforce

end
