(* ===== verification/ShellPrint.thy ===== *)
theory ShellPrint
  imports Shell
begin

text \<open>
  The parser of the shell inverts a printer: every command that the shell can hold has a line from which \<^verbatim>\<open>parsecmd\<close>
  builds it. The printer puts a space behind every token and parentheses where the grammar needs them. The
  proofs see a line as the list of its tokens.
\<close>

section \<open>Lines as lists of tokens\<close>

definition word :: "u8 list \<Rightarrow> bool" where
  "word w \<longleftrightarrow> w \<noteq> [] \<and> list_all word_char w"

definition token :: "u8 list \<Rightarrow> bool" where
  "token t \<longleftrightarrow> word t \<or> t \<in> {[124], [40], [41], [59], [38], [60], [62], [62, 62]}"

definition kind :: "u8 list \<Rightarrow> u8" where
  "kind t = (if word t then 97 else if t = [62, 62] then 43 else hd t)"

definition render :: "u8 list list \<Rightarrow> u8 list" where
  "render ts = concat (map (\<lambda>t. t @ [32]) ts)"

abbreviation (input) space :: "u8 \<Rightarrow> bool" where "space c \<equiv> c \<in> set whitespace"

text \<open>\<open>stream b s ts\<close>: from position \<open>s\<close> on, behind white space, the line has the tokens \<open>ts\<close>.\<close>

definition stream :: "u8 list \<Rightarrow> nat \<Rightarrow> u8 list list \<Rightarrow> bool" where
  "stream b s ts \<longleftrightarrow> s \<le> length b \<and> dropWhile (\<lambda>c. space c) (drop s b) = render ts \<and> list_all token ts"

lemma render_simps [simp]: "render [] = []" "render (t # ts) = t @ 32 # render ts" "render (ts @ us) = render ts @ render us"
  by (simp_all add: render_def)

lemma word_hd: "word t \<Longrightarrow> \<exists>c cs. t = c # cs \<and> word_char c"
  by (cases t) (auto simp: word_def)

lemma token_hd: "token t \<Longrightarrow> \<exists>c cs. t = c # cs \<and> c \<noteq> 0 \<and> \<not> space c"
  using word_hd [of t] by (auto simp: token_def word_char_def whitespace_def)

lemma render_no_space: "list_all token ts \<Longrightarrow> dropWhile (\<lambda>c. space c) (render ts) = render ts"
  using token_hd by (cases ts) fastforce+

lemma skip_drop: "drop (skip b s) b = dropWhile (\<lambda>c. space c) (drop s b)"
proof (induction b s rule: skip.induct)
  case (1 b s)
  show ?case
  proof (cases "s < length b")
    case True
    then have "drop s b = b ! s # drop (Suc s) b" by (rule Cons_nth_drop_Suc [symmetric])
    then show ?thesis using 1 True by (subst skip.simps) auto
  next
    case False
    then show ?thesis by (subst skip.simps) simp
  qed
qed

lemma word_end_word:
  "drop s b = w @ 32 # r \<Longrightarrow> list_all word_char w \<Longrightarrow> word_end b s = s + length w"
proof (induction w arbitrary: s)
  case Nil
  then have "s < length b" "b ! s = 32" by (metis append_Nil drop_eq_Nil linorder_not_le list.distinct(1), metis append_Nil nth_via_drop)
  then show ?case by (subst word_end.simps) (simp add: whitespace_def)
next
  case (Cons c w)
  then have "s < length b" "b ! s = c" by (metis append_Cons drop_eq_Nil linorder_not_le list.distinct(1), metis append_Cons nth_via_drop Cons.prems(1))
  moreover have "drop (Suc s) b = w @ 32 # r" using Cons.prems(1) by (metis append_Cons drop_Suc list.sel(3) tl_drop)
  ultimately show ?case using Cons by (subst word_end.simps) (auto simp: word_char_def)
qed

lemma stream_skip: "stream b s ts \<Longrightarrow> stream b (skip b s) ts \<and> drop (skip b s) b = render ts \<and> skip b s \<le> length b"
  using skip_le [of s b] render_no_space [of ts] by (auto simp: stream_def skip_drop)

lemma at_drop: "drop i b = c # cs \<Longrightarrow> at b i = c"
  by (metis at_def drop_all linorder_not_le list.distinct(1) nth_via_drop)

lemma at_end: "drop i b = [] \<Longrightarrow> at b i = 0"
  by (simp add: at_def)

lemma peek_stream:
  assumes "stream b s ts"
  shows "peek b s ks = (ts \<noteq> [] \<and> hd (hd ts) \<in> set ks, skip b s)"
proof (cases ts)
  case Nil
  then show ?thesis using stream_skip [OF assms] by (simp add: peek_def Let_def at_end)
next
  case (Cons t us)
  then have "token t" using assms by (simp add: stream_def)
  then obtain c cs where t: "t = c # cs" "c \<noteq> 0" using token_hd by blast
  then have "at b (skip b s) = c" using stream_skip [OF assms] Cons by (intro at_drop [of _ _ _ "cs @ 32 # render us"]) simp
  then show ?thesis using Cons t by (simp add: peek_def Let_def)
qed

lemma stream_after:
  assumes "drop q b = t @ 32 # render ts" "list_all token ts"
  shows "stream b (skip b (q + length t)) ts" "sub b (q, q + length t) = t"
proof -
  have "drop (q + length t) b = drop (length t) (drop q b)" by (simp add: add.commute)
  then have d: "drop (q + length t) b = 32 # render ts" using assms(1) by simp
  then have "q + length t \<le> length b" by (metis drop_eq_Nil list.distinct(1) nat_le_linear)
  moreover have "dropWhile (\<lambda>c. space c) (drop (q + length t) b) = render ts"
    using d render_no_space [OF assms(2)] by (simp add: whitespace_def)
  ultimately have "stream b (q + length t) ts" using assms(2) by (simp add: stream_def)
  then show "stream b (skip b (q + length t)) ts" using stream_skip by blast
  show "sub b (q, q + length t) = t" using assms(1) by (simp add: sub_def)
qed

lemma gettoken_stream:
  assumes "stream b s (t # ts)"
  shows "\<exists>q eq s'. gettoken b s = (kind t, q, eq, s') \<and> sub b (q, eq) = t \<and> stream b s' ts"
proof -
  let ?q = "skip b s"
  have q: "drop ?q b = t @ 32 # render ts" and tk: "token t" "list_all token ts"
    using stream_skip [OF assms] assms by (auto simp: stream_def)
  obtain c cs where t: "t = c # cs" "c \<noteq> 0" using token_hd [OF tk(1)] by blast
  have c: "at b ?q = c" using q t by (intro at_drop) simp
  have d: "drop (Suc ?q) b = cs @ 32 # render ts" using q t by (metis append_Cons drop_Suc list.sel(3) tl_drop)
  have c2: "at b (Suc ?q) = (case cs of [] \<Rightarrow> 32 | x # xs \<Rightarrow> x)" using d by (cases cs) (auto intro: at_drop)
  have "gettoken b s = (kind t, ?q, ?q + length t, skip b (?q + length t))"
  proof (cases "word t")
    case True
    then have w: "word_end b ?q = ?q + length t" using word_end_word [OF q] by (simp add: word_def)
    have "word_char c" using True t by (simp add: word_def)
    then show ?thesis using True c w t by (auto simp: gettoken_def Let_def kind_def word_char_def symbols_def)
  next
    case False
    then show ?thesis using tk(1) c c2 t by (auto simp: token_def gettoken_def Let_def kind_def)
  qed
  then show ?thesis using stream_after [OF q tk(2)] by blast
qed

lemma gettoken_end: "stream b s [] \<Longrightarrow> \<exists>q eq s'. gettoken b s = (0, q, eq, s') \<and> stream b s' []"
  using stream_skip [of b s "[]"] by (auto simp: gettoken_def Let_def at_end skip.simps [of b "skip b s"])

lemma next_stream: "stream b s (t # ts) \<Longrightarrow> stream b (next_token b s) ts"
  using gettoken_stream [of b s t ts] by (auto simp: next_token_def)

section \<open>The printer\<close>

definition redir_op :: "int \<Rightarrow> u8 list" where
  "redir_op mode = (if mode = O_RD then [60] else if mode = O_TRUNC_WR then [62] else [62, 62])"

definition paren :: "bool \<Rightarrow> u8 list list \<Rightarrow> u8 list list" where
  "paren p ts = (if p then [40] # ts @ [[41]] else ts)"

text \<open>The levels are those of the grammar: 0 for \<^verbatim>\<open>parseline\<close>, 1 for what its loop over \<^verbatim>\<open>&\<close> sees, 2 for \<^verbatim>\<open>parsepipe\<close>, 3 for \<^verbatim>\<open>parseexec\<close>.\<close>

primrec tokens :: "u8 list cmd \<Rightarrow> nat \<Rightarrow> u8 list list" where
  "tokens (EXEC ws) l = ws"
| "tokens (REDIR c f mode fd) l = tokens c 3 @ [redir_op mode, f]"
| "tokens (PIPE a c) l = paren (l > 2) (tokens a 3 @ [124] # tokens c 2)"
| "tokens (LIST a c) l = paren (l > 0) (tokens a 1 @ [59] # tokens c 0)"
| "tokens (BACK c) l = paren (l > 1) (tokens c 1 @ [[38]])"

definition print_cmd :: "u8 list cmd \<Rightarrow> u8 list" where
  "print_cmd c = render (tokens c 0)"

section \<open>Redirections and words\<close>

text \<open>\<open>wrap R c\<close>: the redirections \<open>R\<close> around \<open>c\<close>, the first innermost.\<close>

fun wrap :: "('w \<times> int \<times> int) list \<Rightarrow> 'w cmd \<Rightarrow> 'w cmd" where
  "wrap [] c = c"
| "wrap ((f, mode, fd) # R) c = wrap R (REDIR c f mode fd)"

definition redir_tokens :: "(u8 list \<times> int \<times> int) list \<Rightarrow> u8 list list" where
  "redir_tokens R = concat (map (\<lambda>(f, mode, fd). [redir_op mode, f]) R)"

definition redirs_ok :: "(u8 list \<times> int \<times> int) list \<Rightarrow> bool" where
  "redirs_ok R \<longleftrightarrow> list_all (\<lambda>(f, mode, fd). word f \<and> (mode, fd) \<in> {(O_RD, 0), (O_TRUNC_WR, 1), (O_APPEND_WR, 1)}) R"

lemma tokens_wrap: "tokens (wrap R c) l = (if R = [] then tokens c l else tokens c 3 @ redir_tokens R)"
  by (induction R c arbitrary: l rule: wrap.induct) (auto simp: redir_tokens_def)

lemma map_cmd_wrap: "map_cmd g (wrap R c) = wrap (map (\<lambda>(f, m). (g f, m)) R) (map_cmd g c)"
  by (induction R c rule: wrap.induct) auto

lemma set_argv_wrap: "set_argv argv (wrap R c) = wrap R (set_argv argv c)"
  by (induction R c rule: wrap.induct) auto

lemma wrap_append: "wrap (R @ R') c = wrap R' (wrap R c)"
  by (induction R c rule: wrap.induct) auto

abbreviation subs :: "u8 list \<Rightarrow> (range \<times> int \<times> int) list \<Rightarrow> (u8 list \<times> int \<times> int) list" where
  "subs b R \<equiv> map (\<lambda>(f, m). (sub b f, m)) R"

lemma kind_symbols [simp]: "kind [60] = 60" "kind [62] = 62" "kind [62, 62] = 43"
  by (simp_all add: kind_def word_def word_char_def symbols_def)

lemma kind_word [simp]: "word w \<Longrightarrow> kind w = 97"
  by (simp add: kind_def)

lemma word_not_symbol: "word w \<Longrightarrow> hd w \<notin> set symbols"
  by (cases w) (auto simp: word_def word_char_def)

lemma parseredirs_stream:
  "stream b s (redir_tokens R @ ts) \<Longrightarrow> redirs_ok R \<Longrightarrow> \<not> (ts \<noteq> [] \<and> hd (hd ts) \<in> set [60, 62]) \<Longrightarrow>
    \<exists>R' s'. parseredirs b c s = Parsed (wrap R' c) s' \<and> subs b R' = R \<and> stream b s' ts"
proof (induction R arbitrary: c s)
  case Nil
  then have "parseredirs b c s = Parsed c (skip b s)" using peek_stream [of b s ts "[60, 62]"]
    by (subst parseredirs.simps) (auto simp: redir_tokens_def)
  then show ?case using Nil stream_skip [of b s ts] by (intro exI [of _ "[]"] exI [of _ "skip b s"]) (auto simp: redir_tokens_def)
next
  case (Cons r R)
  obtain f mode fd where r: "r = (f, mode, fd)" by (cases r)
  have f: "word f" and mf: "(mode, fd) \<in> {(O_RD, 0), (O_TRUNC_WR, 1), (O_APPEND_WR, 1)}" and R: "redirs_ok R"
    using Cons.prems(2) r by (auto simp: redirs_ok_def)
  let ?ts = "redir_tokens R @ ts"
  have st: "stream b s (redir_op mode # f # ?ts)" using Cons.prems(1) r by (simp add: redir_tokens_def)
  have pk: "peek b s [60, 62] = (True, skip b s)" using peek_stream [OF st, of "[60, 62]"] by (simp add: redir_op_def)
  have st1: "stream b (skip b s) (redir_op mode # f # ?ts)" using stream_skip [OF st] by blast
  obtain q1 e1 s1 where g1: "gettoken b (skip b s) = (kind (redir_op mode), q1, e1, s1)" "stream b s1 (f # ?ts)"
    using gettoken_stream [OF st1] by blast
  obtain q eq s2 where g2: "gettoken b s1 = (kind f, q, eq, s2)" "sub b (q, eq) = f" "stream b s2 ?ts"
    using gettoken_stream [OF g1(2)] by blast
  have e: "parseredirs b c s = parseredirs b (REDIR c (q, eq) mode fd) s2"
    using mf f by (subst parseredirs.simps) (auto simp: pk g1 g2 redir_op_def)
  obtain R' s' where "parseredirs b (REDIR c (q, eq) mode fd) s2 = Parsed (wrap R' (REDIR c (q, eq) mode fd)) s'" "subs b R' = R" "stream b s' ts"
    using Cons.IH [OF g2(3) R Cons.prems(3)] by blast
  then show ?case using e g2(2) r by (intro exI [of _ "((q, eq), mode, fd) # R'"] exI [of _ s']) auto
qed

text \<open>\<open>stops ks ts\<close>: what follows is the end of the line or a token that starts with one of \<open>ks\<close>.\<close>

definition stops :: "u8 list \<Rightarrow> u8 list list \<Rightarrow> bool" where
  "stops ks ts \<longleftrightarrow> ts = [] \<or> hd (hd ts) \<in> set ks"

lemma stops_nil: "stops ks []"
  by (simp add: stops_def)

lemma stops_mono: "stops ks ts \<Longrightarrow> set ks \<subseteq> set ks' \<Longrightarrow> stops ks' ts"
  by (auto simp: stops_def)

lemma stops_no_redir: "stops [124, 41, 38, 59] ts \<Longrightarrow> \<not> (ts \<noteq> [] \<and> hd (hd ts) \<in> set [60, 62])"
  by (auto simp: stops_def)

lemma parse_args_end:
  assumes "stream b s ts" "stops [124, 41, 38, 59] ts"
  shows "\<exists>s'. parse_args b c argv s = Parsed (c, argv) s' \<and> stream b s' ts"
proof (cases ts)
  case Nil
  then have st: "stream b (skip b s) []" using stream_skip [of b s ts] assms(1) by simp
  obtain q eq s' where "gettoken b (skip b s) = (0, q, eq, s')" "stream b s' []" using gettoken_end [OF st] by blast
  then show ?thesis using peek_stream [OF assms(1), of "[124, 41, 38, 59]"] Nil by (subst parse_args.simps) auto
next
  case (Cons t us)
  then show ?thesis using peek_stream [OF assms(1), of "[124, 41, 38, 59]"] stream_skip [OF assms(1)] assms(2)
    by (subst parse_args.simps) (auto simp: stops_def)
qed

lemma parse_args_stream:
  "stream b s (ws @ redir_tokens R @ ts) \<Longrightarrow> ws \<noteq> [] \<Longrightarrow> list_all word ws \<Longrightarrow> length argv + length ws < 10 \<Longrightarrow> redirs_ok R \<Longrightarrow>
    stops [124, 41, 38, 59] ts \<Longrightarrow>
    \<exists>rs R' s'. parse_args b c argv s = Parsed (wrap R' c, argv @ rs) s' \<and> map (sub b) rs = ws \<and> subs b R' = R \<and> stream b s' ts"
proof (induction ws arbitrary: argv c s)
  case (Cons w ws)
  let ?ts = "ws @ redir_tokens R @ ts"
  have w: "word w" using Cons.prems(3) by simp
  have st: "stream b s (w # ?ts)" using Cons.prems(1) by simp
  have "hd w \<notin> set [124, 41, 38, 59]" using word_not_symbol [OF w] by (auto simp: symbols_def)
  then have pk: "peek b s [124, 41, 38, 59] = (False, skip b s)" using peek_stream [OF st, of "[124, 41, 38, 59]"] by simp
  have st1: "stream b (skip b s) (w # ?ts)" using stream_skip [OF st] by blast
  obtain q eq s1 where g: "gettoken b (skip b s) = (97, q, eq, s1)" "sub b (q, eq) = w" "stream b s1 ?ts"
    using gettoken_stream [OF st1] w by auto
  have e: "parse_args b c argv s = pbind (parseredirs b c s1) (\<lambda>c s. parse_args b c (argv @ [(q, eq)]) s)"
    using Cons.prems(4) by (subst parse_args.simps) (simp add: pk g)
  show ?case
  proof (cases "ws = []")
    case True
    obtain R' s2 where r: "parseredirs b c s1 = Parsed (wrap R' c) s2" "subs b R' = R" "stream b s2 ts"
      using parseredirs_stream [of b s1 R ts c] g(3) True Cons.prems(5) stops_no_redir [OF Cons.prems(6)] by auto
    obtain s3 where "parse_args b (wrap R' c) (argv @ [(q, eq)]) s2 = Parsed (wrap R' c, argv @ [(q, eq)]) s3" "stream b s3 ts"
      using parse_args_end [OF r(3) Cons.prems(6)] by blast
    then show ?thesis using e r g(2) True by (intro exI [of _ "[(q, eq)]"] exI [of _ R'] exI [of _ s3]) simp
  next
    case False
    then have "word (hd ws)" using Cons.prems(3) by (cases ws) auto
    then have "hd (hd ?ts) \<notin> set [60, 62]" using word_not_symbol [of "hd ws"] False by (auto simp: symbols_def)
    then obtain R0 s2 where "parseredirs b c s1 = Parsed (wrap R0 c) s2" "subs b R0 = []" "stream b s2 ?ts"
      using parseredirs_stream [of b s1 "[]" ?ts c] g(3) by (auto simp: redir_tokens_def redirs_ok_def)
    then have r: "parseredirs b c s1 = Parsed c s2" "stream b s2 ?ts" by simp_all
    obtain rs R' s' where "parse_args b c (argv @ [(q, eq)]) s2 = Parsed (wrap R' c, (argv @ [(q, eq)]) @ rs) s'"
      "map (sub b) rs = ws" "subs b R' = R" "stream b s' ts"
      using Cons.IH [OF r(2) False _ _ Cons.prems(5,6), of "argv @ [(q, eq)]" c] Cons.prems(3,4) by auto
    then show ?thesis using e r(1) g(2) by (intro exI [of _ "(q, eq) # rs"] exI [of _ R'] exI [of _ s']) simp
  qed
qed simp

section \<open>The levels of the grammar\<close>

definition parses_as :: "u8 list \<Rightarrow> range cmd parsed \<Rightarrow> u8 list cmd \<Rightarrow> u8 list list \<Rightarrow> bool" where
  "parses_as b m c ts \<longleftrightarrow> m = Nofuel \<or> (\<exists>c' s'. m = Parsed c' s' \<and> map_cmd (sub b) c' = c \<and> stream b s' ts)"

definition exec_level :: "u8 list \<Rightarrow> u8 list cmd \<Rightarrow> bool" where
  "exec_level b c \<longleftrightarrow> (\<forall>n s ts. stream b s (tokens c 3 @ ts) \<longrightarrow> stops [124, 41, 38, 59] ts \<longrightarrow> parses_as b (parseexec n b s) c ts)"

definition pipe_level :: "u8 list \<Rightarrow> u8 list cmd \<Rightarrow> bool" where
  "pipe_level b c \<longleftrightarrow> (\<forall>n s ts. stream b s (tokens c 2 @ ts) \<longrightarrow> stops [41, 38, 59] ts \<longrightarrow> parses_as b (parsepipe n b s) c ts)"

definition back_level :: "u8 list \<Rightarrow> u8 list cmd \<Rightarrow> bool" where
  "back_level b c \<longleftrightarrow> (\<forall>n s ts. stream b s (tokens c 1 @ ts) \<longrightarrow> stops [41, 38, 59] ts \<longrightarrow>
     parsepipe n b s = Nofuel \<or> (\<exists>c0 s0 c' s'. parsepipe n b s = Parsed c0 s0 \<and> parse_back b c0 s0 = parse_back b c' s' \<and> map_cmd (sub b) c' = c \<and> stream b s' ts))"

definition line_level :: "u8 list \<Rightarrow> u8 list cmd \<Rightarrow> bool" where
  "line_level b c \<longleftrightarrow> (\<forall>n s ts. stream b s (tokens c 0 @ ts) \<longrightarrow> stops [41] ts \<longrightarrow> parses_as b (parseline n b s) c ts)"

lemma redir_tokens_hd: "R \<noteq> [] \<Longrightarrow> hd (hd (redir_tokens R @ ts)) \<in> {60, 62}"
  by (cases R) (auto simp: redir_tokens_def redir_op_def split: if_splits)

lemma no_block:
  assumes "list_all word ws" "stops [124, 41, 38, 59] ts"
  shows "\<not> (ws @ redir_tokens R @ ts \<noteq> [] \<and> hd (hd (ws @ redir_tokens R @ ts)) \<in> set [40])"
proof (cases ws)
  case Nil
  then show ?thesis using assms(2) redir_tokens_hd [of R ts] by (cases "R = []") (auto simp: stops_def redir_tokens_def)
next
  case (Cons w us)
  then show ?thesis using assms(1) word_not_symbol [of w] by (auto simp: symbols_def)
qed

lemma exec_level_exec:
  assumes ws: "list_all word ws" "length ws < 10" and R: "redirs_ok R"
  shows "exec_level b (wrap R (EXEC ws))"
  unfolding exec_level_def
proof (intro allI impI)
  fix n s ts
  assume "stream b s (tokens (wrap R (EXEC ws)) 3 @ ts)" and stop: "stops [124, 41, 38, 59] ts"
  then have st: "stream b s (ws @ redir_tokens R @ ts)" by (simp add: tokens_wrap redir_tokens_def split: if_splits)
  have pk: "peek b s [40] = (False, skip b s)" using peek_stream [OF st, of "[40]"] no_block [OF ws(1) stop, of R] by auto
  have st1: "stream b (skip b s) (ws @ redir_tokens R @ ts)" using stream_skip [OF st] by blast
  have "\<exists>R1 s1 R2 rs s2. parseredirs b (EXEC []) (skip b s) = Parsed (wrap R1 (EXEC [])) s1 \<and>
      parse_args b (wrap R1 (EXEC [])) [] s1 = Parsed (wrap R2 (wrap R1 (EXEC [])), rs) s2 \<and> subs b (R1 @ R2) = R \<and> map (sub b) rs = ws \<and> stream b s2 ts"
  proof (cases "ws = []")
    case True
    then obtain R1 s1 where 1: "parseredirs b (EXEC []) (skip b s) = Parsed (wrap R1 (EXEC [])) s1" "subs b R1 = R" "stream b s1 ts"
      using parseredirs_stream [of b "skip b s" R ts "EXEC []"] st1 R stops_no_redir [OF stop] by auto
    obtain s2 where "parse_args b (wrap R1 (EXEC [])) [] s1 = Parsed (wrap R1 (EXEC []), []) s2" "stream b s2 ts"
      using parse_args_end [OF 1(3) stop] by blast
    then show ?thesis using 1 True by (intro exI [of _ R1] exI [of _ s1] exI [of _ "[]"] exI [of _ s2]) simp
  next
    case False
    then have "word (hd ws)" using ws(1) by (cases ws) auto
    then have "hd (hd (ws @ redir_tokens R @ ts)) \<notin> set [60, 62]" using word_not_symbol [of "hd ws"] False by (auto simp: symbols_def)
    then obtain R0 s1 where "parseredirs b (EXEC []) (skip b s) = Parsed (wrap R0 (EXEC [])) s1" "subs b R0 = []" "stream b s1 (ws @ redir_tokens R @ ts)"
      using parseredirs_stream [of b "skip b s" "[]" "ws @ redir_tokens R @ ts" "EXEC []"] st1 by (auto simp: redir_tokens_def redirs_ok_def)
    then have 1: "parseredirs b (EXEC []) (skip b s) = Parsed (EXEC []) s1" "stream b s1 (ws @ redir_tokens R @ ts)" by simp_all
    obtain rs R2 s2 where "parse_args b (EXEC []) [] s1 = Parsed (wrap R2 (EXEC []), rs) s2" "map (sub b) rs = ws" "subs b R2 = R" "stream b s2 ts"
      using parse_args_stream [OF 1(2) False ws(1) _ R stop, of "[]" "EXEC []"] ws(2) by auto
    then show ?thesis using 1 by (intro exI [of _ "[]"] exI [of _ s1] exI [of _ R2] exI [of _ rs] exI [of _ s2]) simp
  qed
  then obtain R1 s1 R2 rs s2 where *: "parseredirs b (EXEC []) (skip b s) = Parsed (wrap R1 (EXEC [])) s1"
      "parse_args b (wrap R1 (EXEC [])) [] s1 = Parsed (wrap R2 (wrap R1 (EXEC [])), rs) s2" "subs b (R1 @ R2) = R" "map (sub b) rs = ws" "stream b s2 ts"
    by blast
  have "map_cmd (sub b) (wrap (R1 @ R2) (EXEC rs)) = wrap R (EXEC ws)" using * (3,4) by (simp only: map_cmd_wrap cmd.map)
  then show "parses_as b (parseexec n b s) (wrap R (EXEC ws)) ts"
    using *(1,2,5) pk by (cases n) (auto simp: parses_as_def set_argv_wrap wrap_append)
qed

lemma exec_level_block:
  assumes line: "line_level b c" and t: "tokens c 3 = [40] # tokens c 0 @ [[41]]" and R: "redirs_ok R"
  shows "exec_level b (wrap R c)"
  unfolding exec_level_def
proof (intro allI impI)
  fix n s ts
  assume "stream b s (tokens (wrap R c) 3 @ ts)" and stop: "stops [124, 41, 38, 59] ts"
  then have st: "stream b s ([40] # tokens c 0 @ [41] # redir_tokens R @ ts)"
    by (cases "R = []") (simp_all add: tokens_wrap t redir_tokens_def)
  have pk: "peek b s [40] = (True, skip b s)" using peek_stream [OF st, of "[40]"] by simp
  have st1: "stream b (skip b s) ([40] # tokens c 0 @ [41] # redir_tokens R @ ts)" using stream_skip [OF st] by blast
  have pk1: "peek b (skip b s) [40] = (True, skip b (skip b s))" using peek_stream [OF st1, of "[40]"] by simp
  let ?s = "next_token b (skip b (skip b s))"
  have st2: "stream b ?s (tokens c 0 @ [41] # redir_tokens R @ ts)" using next_stream stream_skip [OF st1] by blast
  have p: "parses_as b (parseline k b ?s) c ([41] # redir_tokens R @ ts)" for k
    using line st2 unfolding line_level_def by (simp add: stops_def)
  show "parses_as b (parseexec n b s) (wrap R c) ts"
  proof (cases "\<exists>k. n = Suc (Suc k) \<and> parseline k b ?s \<noteq> Nofuel")
    case True
    then obtain k where k: "n = Suc (Suc k)" "parseline k b ?s \<noteq> Nofuel" by blast
    then obtain c' s2 where c': "parseline k b ?s = Parsed c' s2" "map_cmd (sub b) c' = c" "stream b s2 ([41] # redir_tokens R @ ts)"
      using p [of k] by (auto simp: parses_as_def)
    have pk2: "peek b s2 [41] = (True, skip b s2)" using peek_stream [OF c'(3), of "[41]"] by simp
    have "stream b (next_token b (skip b s2)) (redir_tokens R @ ts)" using next_stream stream_skip [OF c'(3)] by blast
    then obtain R' s3 where "parseredirs b c' (next_token b (skip b s2)) = Parsed (wrap R' c') s3" "subs b R' = R" "stream b s3 ts"
      using parseredirs_stream [OF _ R stops_no_redir [OF stop]] by blast
    then show ?thesis using k(1) pk pk1 pk2 c' by (simp add: parses_as_def map_cmd_wrap)
  next
    case False
    then show ?thesis using pk pk1 by (cases n rule: nat.exhaust; cases "n - 1") (auto simp: parses_as_def)
  qed
qed

lemma pipe_level_exec:
  assumes "exec_level b c" "tokens c 2 = tokens c 3"
  shows "pipe_level b c"
  unfolding pipe_level_def
proof (intro allI impI)
  fix n s ts
  assume st: "stream b s (tokens c 2 @ ts)" and stop: "stops [41, 38, 59] ts"
  have p: "parses_as b (parseexec k b s) c ts" for k
    using assms(1) [unfolded exec_level_def, rule_format, of s ts k] assms(2) st stops_mono [OF stop, of "[124, 41, 38, 59]"] by simp
  show "parses_as b (parsepipe n b s) c ts"
  proof (cases n)
    case (Suc k)
    show ?thesis
    proof (cases "parseexec k b s = Nofuel")
      case False
      then obtain c' s1 where c': "parseexec k b s = Parsed c' s1" "map_cmd (sub b) c' = c" "stream b s1 ts" using p [of k] by (auto simp: parses_as_def)
      have "peek b s1 [124] = (False, skip b s1)" using peek_stream [OF c'(3), of "[124]"] stop by (auto simp: stops_def)
      then show ?thesis using Suc c' stream_skip [OF c'(3)] by (simp add: parses_as_def)
    qed (simp add: Suc parses_as_def)
  qed (simp add: parses_as_def)
qed

lemma pipe_level_pipe:
  assumes "exec_level b a" "pipe_level b c"
  shows "pipe_level b (PIPE a c)"
  unfolding pipe_level_def
proof (intro allI impI)
  fix n s ts
  assume "stream b s (tokens (PIPE a c) 2 @ ts)" and stop: "stops [41, 38, 59] ts"
  then have "stream b s (tokens a 3 @ [124] # tokens c 2 @ ts)" by (simp add: paren_def)
  then have p: "parses_as b (parseexec k b s) a ([124] # tokens c 2 @ ts)" for k
    using assms(1) unfolding exec_level_def by (simp add: stops_def)
  show "parses_as b (parsepipe n b s) (PIPE a c) ts"
  proof (cases n)
    case (Suc k)
    show ?thesis
    proof (cases "parseexec k b s = Nofuel")
      case False
      then obtain a' s1 where a': "parseexec k b s = Parsed a' s1" "map_cmd (sub b) a' = a" "stream b s1 ([124] # tokens c 2 @ ts)"
        using p [of k] by (auto simp: parses_as_def)
      have pk: "peek b s1 [124] = (True, skip b s1)" using peek_stream [OF a'(3), of "[124]"] by simp
      have "stream b (next_token b (skip b s1)) (tokens c 2 @ ts)" using next_stream stream_skip [OF a'(3)] by blast
      then have "parses_as b (parsepipe k b (next_token b (skip b s1))) c ts" using assms(2) stop unfolding pipe_level_def by blast
      then show ?thesis using Suc a' pk by (auto simp: parses_as_def)
    qed (simp add: Suc parses_as_def)
  qed (simp add: parses_as_def)
qed

lemma back_level_pipe: "pipe_level b c \<Longrightarrow> tokens c 1 = tokens c 2 \<Longrightarrow> back_level b c"
  unfolding back_level_def pipe_level_def parses_as_def by metis

lemma back_level_back:
  assumes "back_level b c"
  shows "back_level b (BACK c)"
  unfolding back_level_def
proof (intro allI impI)
  fix n s ts
  assume "stream b s (tokens (BACK c) 1 @ ts)" and stop: "stops [41, 38, 59] ts"
  then have "stream b s (tokens c 1 @ [38] # ts)" by (simp add: paren_def)
  then have "parsepipe n b s = Nofuel \<or> (\<exists>c0 s0 c' s'. parsepipe n b s = Parsed c0 s0 \<and> parse_back b c0 s0 = parse_back b c' s' \<and>
      map_cmd (sub b) c' = c \<and> stream b s' ([38] # ts))"
    using assms unfolding back_level_def by (simp add: stops_def)
  then show "parsepipe n b s = Nofuel \<or> (\<exists>c0 s0 c' s'. parsepipe n b s = Parsed c0 s0 \<and> parse_back b c0 s0 = parse_back b c' s' \<and>
      map_cmd (sub b) c' = BACK c \<and> stream b s' ts)"
  proof (elim disjE exE conjE)
    fix c0 s0 c' s'
    assume a: "parsepipe n b s = Parsed c0 s0" "parse_back b c0 s0 = parse_back b c' s'" "map_cmd (sub b) c' = c" "stream b s' ([38] # ts)"
    have "peek b s' [38] = (True, skip b s')" using peek_stream [OF a(4), of "[38]"] by simp
    then have "parse_back b c' s' = parse_back b (BACK c') (next_token b (skip b s'))" by (subst parse_back.simps) simp
    moreover have "stream b (next_token b (skip b s')) ts" using next_stream stream_skip [OF a(4)] by blast
    ultimately show ?thesis using a by (intro disjI2 exI [of _ c0] exI [of _ s0] exI [of _ "BACK c'"] exI [of _ "next_token b (skip b s')"]) simp
  qed simp
qed

lemma parse_back_end: "stream b s ts \<Longrightarrow> stops [41, 59] ts \<Longrightarrow> parse_back b c s = (c, skip b s)"
  using peek_stream [of b s ts "[38]"] by (subst parse_back.simps) (auto simp: stops_def)

lemma line_level_back:
  assumes "back_level b c" "tokens c 0 = tokens c 1"
  shows "line_level b c"
  unfolding line_level_def
proof (intro allI impI)
  fix n s ts
  assume st: "stream b s (tokens c 0 @ ts)" and stop: "stops [41] ts"
  have p: "parsepipe k b s = Nofuel \<or> (\<exists>c0 s0 c' s'. parsepipe k b s = Parsed c0 s0 \<and> parse_back b c0 s0 = parse_back b c' s' \<and>
      map_cmd (sub b) c' = c \<and> stream b s' ts)" for k
    using assms(1) [unfolded back_level_def, rule_format, of s ts k] assms(2) st stops_mono [OF stop, of "[41, 38, 59]"] by simp
  show "parses_as b (parseline n b s) c ts"
  proof (cases n)
    case (Suc k)
    show ?thesis
    proof (cases "parsepipe k b s = Nofuel")
      case False
      then obtain c0 s0 c' s' where c': "parsepipe k b s = Parsed c0 s0" "parse_back b c0 s0 = parse_back b c' s'" "map_cmd (sub b) c' = c" "stream b s' ts"
        using p [of k] by blast
      have st': "stream b (skip b s') ts" using stream_skip [OF c'(4)] by blast
      have "parse_back b c0 s0 = (c', skip b s')" using c'(2) parse_back_end [OF c'(4) stops_mono [OF stop], of c'] by simp
      moreover have "peek b (skip b s') [59] = (False, skip b (skip b s'))" using peek_stream [OF st', of "[59]"] stop by (auto simp: stops_def)
      ultimately show ?thesis using Suc c' stream_skip [OF st'] by (simp add: parses_as_def)
    qed (simp add: Suc parses_as_def)
  qed (simp add: parses_as_def)
qed

lemma line_level_list:
  assumes "back_level b a" "line_level b c"
  shows "line_level b (LIST a c)"
  unfolding line_level_def
proof (intro allI impI)
  fix n s ts
  assume "stream b s (tokens (LIST a c) 0 @ ts)" and stop: "stops [41] ts"
  then have "stream b s (tokens a 1 @ [59] # tokens c 0 @ ts)" by (simp add: paren_def)
  then have p: "parsepipe k b s = Nofuel \<or> (\<exists>c0 s0 c' s'. parsepipe k b s = Parsed c0 s0 \<and> parse_back b c0 s0 = parse_back b c' s' \<and>
      map_cmd (sub b) c' = a \<and> stream b s' ([59] # tokens c 0 @ ts))" for k
    using assms(1) unfolding back_level_def by (simp add: stops_def)
  show "parses_as b (parseline n b s) (LIST a c) ts"
  proof (cases n)
    case (Suc k)
    show ?thesis
    proof (cases "parsepipe k b s = Nofuel")
      case False
      then obtain c0 s0 c' s' where c': "parsepipe k b s = Parsed c0 s0" "parse_back b c0 s0 = parse_back b c' s'" "map_cmd (sub b) c' = a"
          "stream b s' ([59] # tokens c 0 @ ts)"
        using p [of k] by blast
      have st': "stream b (skip b s') ([59] # tokens c 0 @ ts)" using stream_skip [OF c'(4)] by blast
      have pb: "parse_back b c0 s0 = (c', skip b s')" using c'(2) parse_back_end [OF c'(4)] by (simp add: stops_def)
      have pk: "peek b (skip b s') [59] = (True, skip b (skip b s'))" using peek_stream [OF st', of "[59]"] by simp
      have "stream b (next_token b (skip b (skip b s'))) (tokens c 0 @ ts)" using next_stream stream_skip [OF st'] by blast
      then have "parses_as b (parseline k b (next_token b (skip b (skip b s')))) c ts" using assms(2) stop unfolding line_level_def by blast
      then show ?thesis using Suc c'(1,3) pb pk by (auto simp: parses_as_def)
    qed (simp add: Suc parses_as_def)
  qed (simp add: parses_as_def)
qed

lemma token_simps: "word w \<Longrightarrow> token w" "token [124]" "token [40]" "token [41]" "token [59]" "token [38]" "token (redir_op mode)"
  by (simp_all add: token_def redir_op_def)

lemma tokens_valid: "(\<And>w. w \<in> set_cmd c \<Longrightarrow> word w) \<Longrightarrow> list_all token (tokens c l)"
proof (induction c arbitrary: l)
  case (EXEC ws)
  then show ?case by (auto simp: list_all_iff intro: token_simps)
qed (simp_all add: token_simps paren_def)

lemma token_no_nul: "token t \<Longrightarrow> 0 \<notin> set t"
  unfolding token_def word_def by (elim disjE) (auto simp: word_char_def list_all_iff)

lemma render_no_nul: "list_all token ts \<Longrightarrow> 0 \<notin> set (render ts)"
  by (induction ts) (simp_all add: token_no_nul)

text \<open>All levels at once. The redirections around a command belong to its level.\<close>

lemma all_levels:
  "wf_cmd c \<Longrightarrow> (\<forall>R. redirs_ok R \<longrightarrow> exec_level b (wrap R c)) \<and> pipe_level b c \<and> back_level b c \<and> line_level b c"
proof (induction c)
  case (EXEC ws)
  then have "exec_level b (wrap R (EXEC ws))" if "redirs_ok R" for R
    by (intro exec_level_exec that) (auto simp: wf_cmd_def list_all_iff word_def)
  moreover from this [of "[]"] have "pipe_level b (EXEC ws)" by (intro pipe_level_exec) (simp_all add: redirs_ok_def)
  ultimately show ?case by (simp add: back_level_pipe line_level_back)
next
  case (REDIR c f mode fd)
  have ok: "redirs_ok ((f, mode, fd) # R)" if "redirs_ok R" for R
    using REDIR.prems that by (auto simp: redirs_ok_def wf_cmd_def word_def)
  have "wf_cmd c" using REDIR.prems by (auto simp: wf_cmd_def)
  then have e: "exec_level b (wrap R (REDIR c f mode fd))" if "redirs_ok R" for R using REDIR.IH ok [OF that] by (metis wrap.simps(2))
  from e [of "[]"] have "pipe_level b (REDIR c f mode fd)" by (intro pipe_level_exec) (simp_all add: redirs_ok_def)
  then show ?case using e by (simp add: back_level_pipe line_level_back)
next
  case (PIPE a c)
  have wf: "wf_cmd a" "wf_cmd c" using PIPE.prems by (auto simp: wf_cmd_def)
  have "exec_level b a" using PIPE.IH(1) [OF wf(1)] by (auto dest: spec [of _ "[]"] simp: redirs_ok_def)
  then have p: "pipe_level b (PIPE a c)" using PIPE.IH(2) [OF wf(2)] by (intro pipe_level_pipe) auto
  then have "line_level b (PIPE a c)" by (simp add: back_level_pipe line_level_back paren_def)
  then show ?case using p by (simp add: back_level_pipe exec_level_block paren_def)
next
  case (LIST a c)
  have wf: "wf_cmd a" "wf_cmd c" using LIST.prems by (auto simp: wf_cmd_def)
  have l: "line_level b (LIST a c)" using LIST.IH(1) [OF wf(1)] LIST.IH(2) [OF wf(2)] by (intro line_level_list) auto
  have e: "exec_level b (wrap R (LIST a c))" if "redirs_ok R" for R using l that by (intro exec_level_block) (simp_all add: paren_def)
  from e [of "[]"] have "pipe_level b (LIST a c)" by (intro pipe_level_exec) (simp_all add: redirs_ok_def paren_def)
  then show ?case using e l by (simp add: back_level_pipe paren_def)
next
  case (BACK c)
  have wf: "wf_cmd c" using BACK.prems by (auto simp: wf_cmd_def)
  have bl: "back_level b (BACK c)" using BACK.IH [OF wf] by (intro back_level_back) auto
  then have l: "line_level b (BACK c)" by (intro line_level_back) (simp_all add: paren_def)
  have e: "exec_level b (wrap R (BACK c))" if "redirs_ok R" for R using l that by (intro exec_level_block) (simp_all add: paren_def)
  from e [of "[]"] have "pipe_level b (BACK c)" by (intro pipe_level_exec) (simp_all add: redirs_ok_def paren_def)
  then show ?case using e l bl by simp
qed

text \<open>
  C14: the parser of the shell inverts the printer. For every command tree that the shell can hold, \<^verbatim>\<open>parsecmd\<close> on its printed
  line succeeds, uses up the line and returns that tree; its strings are read from the line after
  \<^verbatim>\<open>nulterminate\<close>. So the grammar of \<^verbatim>\<open>sh\<close> can express every combination of lists, background commands, pipes and
  redirections, and the parser assigns precedence as the printer's parentheses say.
\<close>

theorem parse_print:
  assumes "wf_cmd c"
  shows "\<exists>c' m. parsecmd (print_cmd c) = Parsed (c', m) (length (print_cmd c)) \<and> map_cmd (\<lambda>r. cstr m (fst r)) c' = c"
proof -
  let ?b = "print_cmd c"
  have tk: "list_all token (tokens c l)" for l using assms by (intro tokens_valid) (simp add: wf_cmd_def word_def)
  have nul: "0 \<notin> set ?b" using render_no_nul [OF tk] by (simp add: print_cmd_def)
  have st: "stream ?b 0 (tokens c 0 @ [])" using tk render_no_space [OF tk] by (simp add: stream_def print_cmd_def)
  have "parses_as ?b (parseline n ?b 0) c []" for n
    using all_levels [OF assms, of ?b] st stops_nil unfolding line_level_def by blast
  moreover have "parseline (4 * length ?b + 4) ?b 0 \<noteq> Nofuel" using parse_good(1) [of 0 ?b "4 * length ?b + 4"] by simp
  ultimately obtain c' s' where c': "parseline (4 * length ?b + 4) ?b 0 = Parsed c' s'" "map_cmd (sub ?b) c' = c" "stream ?b s' []"
    unfolding parses_as_def by blast
  have "skip ?b s' = length ?b" using stream_skip [OF c'(3)] by simp
  then have p: "parsecmd ?b = Parsed (c', nulterminate c' (?b @ [0])) (length ?b)"
    using c'(1) peek_stream [OF c'(3), of "[]"] by (simp add: parsecmd_def)
  then show ?thesis using parsecmd_result(3) [OF nul p] c'(2) by simp
qed

text \<open>\<^verbatim>\<open>( a & ) > f\<close>: a background command with its output redirected.\<close>

theorem parse_print_witness:
  "\<exists>c' m. parsecmd [40, 32, 97, 32, 38, 32, 41, 32, 62, 32, 102, 32] = Parsed (c', m) 12 \<and>
     map_cmd (\<lambda>r. cstr m (fst r)) c' = REDIR (BACK (EXEC [[97]])) [102] O_TRUNC_WR 1"
proof -
  let ?c = "REDIR (BACK (EXEC [[97]])) [102] O_TRUNC_WR 1 :: u8 list cmd"
  have wf: "wf_cmd ?c" by (simp add: wf_cmd_def word_char_def whitespace_def symbols_def)
  have "print_cmd ?c = [40, 32, 97, 32, 38, 32, 41, 32, 62, 32, 102, 32]" by (simp add: print_cmd_def paren_def redir_op_def)
  then show ?thesis using parse_print [OF wf] by (simp add: eval_nat_numeral)
qed

end
