(* ===== verification/Umalloc.thy ===== *)
theory Umalloc
  imports Prelude
begin

text \<open>
  \<^verbatim>\<open>user/umalloc.c\<close>: the allocator of Kernighan and Ritchie. Addresses count headers of 16 bytes, as the pointer arithmetic of
  the code does; a header is the pair of its pointer and its size. The kernel decides in \<open>grant\<close> whether \<^verbatim>\<open>sbrk\<close>
  succeeds. A loop that does not end, and the use of a null pointer, is \<^const>\<open>None\<close>. Sizes do not wrap: \<open>2\<^sup>3\<^sup>2\<close> headers do not
  fit into memory.
\<close>

section \<open>The code\<close>

record uheap =
  hbase :: nat
  hptr :: "nat \<Rightarrow> nat"
  hsize :: "nat \<Rightarrow> nat"
  freep :: "nat option"
  brk :: nat

partial_function (option) free_find :: "nat \<Rightarrow> uheap \<Rightarrow> nat \<Rightarrow> nat option" where
  "free_find bp s p =
     (if bp > p \<and> bp < hptr s p then Some p
      else if p \<ge> hptr s p \<and> (bp > p \<or> bp < hptr s p) then Some p
      else free_find bp s (hptr s p))"

text \<open>\<^verbatim>\<open>free\<close> behind its loop, which has stopped at \<open>p\<close>.\<close>

definition free_insert :: "nat \<Rightarrow> nat \<Rightarrow> uheap \<Rightarrow> uheap" where
  "free_insert bp p s =
     (let s = (if bp + hsize s bp = hptr s p
               then s\<lparr>hsize := (hsize s)(bp := hsize s bp + hsize s (hptr s p)), hptr := (hptr s)(bp := hptr s (hptr s p))\<rparr>
               else s\<lparr>hptr := (hptr s)(bp := hptr s p)\<rparr>);
          s = (if p + hsize s p = bp
               then s\<lparr>hsize := (hsize s)(p := hsize s p + hsize s bp), hptr := (hptr s)(p := hptr s bp)\<rparr>
               else s\<lparr>hptr := (hptr s)(p := bp)\<rparr>)
      in s\<lparr>freep := Some p\<rparr>)"

definition free :: "nat \<Rightarrow> uheap \<Rightarrow> uheap option" where
  "free ap s =
     Option.bind (freep s) (\<lambda>p. Option.bind (free_find (ap - 1) s p) (\<lambda>p. Some (free_insert (ap - 1) p s)))"

text \<open>
  \<^verbatim>\<open>sbrk\<close> of \<^verbatim>\<open>user/ulib.c\<close>, whose argument is an \<^verbatim>\<open>int\<close>, with the effect of the system call: the old end of memory, which moves by
  \<open>n\<close> bytes, or an error.
\<close>

definition sbrk :: "(nat \<Rightarrow> int \<Rightarrow> bool) \<Rightarrow> int \<Rightarrow> uheap \<Rightarrow> nat option \<times> uheap" where
  "sbrk grant n s = (if grant (brk s) n then (Some (brk s), s\<lparr>brk := nat (int (brk s) + n div 16)\<rparr>) else (None, s))"

definition morecore :: "(nat \<Rightarrow> int \<Rightarrow> bool) \<Rightarrow> nat \<Rightarrow> uheap \<Rightarrow> (nat option \<times> uheap) option" where
  "morecore grant nu s =
     (let nu = (if nu < 4096 then 4096 else nu) in
      case sbrk grant (wrap32 (int (nu * 16))) s of
        (None, s) \<Rightarrow> Some (None, s)
      | (Some hp, s) \<Rightarrow>
          Option.bind (free (hp + 1) (s\<lparr>hsize := (hsize s)(hp := nu)\<rparr>)) (\<lambda>s. Some (freep s, s)))"

text \<open>The block at \<open>p\<close> is large enough: the part of the loop of \<^verbatim>\<open>malloc\<close> that returns.\<close>

definition take_block :: "nat \<Rightarrow> nat \<Rightarrow> nat \<Rightarrow> uheap \<Rightarrow> nat \<times> uheap" where
  "take_block nunits prevp p s =
     (if hsize s p = nunits then (p + 1, s\<lparr>hptr := (hptr s)(prevp := hptr s p), freep := Some prevp\<rparr>)
      else
        let s = s\<lparr>hsize := (hsize s)(p := hsize s p - nunits)\<rparr>; p = p + hsize s p;
            s = s\<lparr>hsize := (hsize s)(p := nunits)\<rparr>
        in (p + 1, s\<lparr>freep := Some prevp\<rparr>))"

partial_function (option) malloc_loop :: "(nat \<Rightarrow> int \<Rightarrow> bool) \<Rightarrow> nat \<Rightarrow> nat \<Rightarrow> nat \<Rightarrow> uheap \<Rightarrow> (nat option \<times> uheap) option" where
  "malloc_loop grant nunits prevp p s =
     (if hsize s p \<ge> nunits then Some (apfst Some (take_block nunits prevp p s))
      else if Some p = freep s then
        Option.bind (morecore grant nunits s) (\<lambda>(r, s).
          case r of None \<Rightarrow> Some (None, s) | Some p \<Rightarrow> malloc_loop grant nunits p (hptr s p) s)
      else malloc_loop grant nunits p (hptr s p) s)"

definition malloc :: "(nat \<Rightarrow> int \<Rightarrow> bool) \<Rightarrow> nat \<Rightarrow> uheap \<Rightarrow> (nat option \<times> uheap) option" where
  "malloc grant nbytes s =
     (let nunits = (nbytes + 16 - 1) div 16 + 1;
          s = (if freep s = None
               then s\<lparr>hptr := (hptr s)(hbase s := hbase s), freep := Some (hbase s), hsize := (hsize s)(hbase s := 0)\<rparr> else s)
      in Option.bind (freep s) (\<lambda>prevp. malloc_loop grant nunits prevp (hptr s prevp) s))"

section \<open>The ring of free blocks\<close>

text \<open>\<open>links ptr a bs z\<close>: the pointers lead from \<open>a\<close> over \<open>bs\<close> to \<open>z\<close>.\<close>

fun links :: "(nat \<Rightarrow> nat) \<Rightarrow> nat \<Rightarrow> nat list \<Rightarrow> nat \<Rightarrow> bool" where
  "links ptr a [] z \<longleftrightarrow> ptr a = z"
| "links ptr a (b # bs) z \<longleftrightarrow> ptr a = b \<and> links ptr b bs z"

text \<open>\<open>gaps sz e bs lim\<close>: the blocks \<open>bs\<close> lie between \<open>e\<close> and \<open>lim\<close>, in order, with a gap before each of them.\<close>

fun gaps :: "(nat \<Rightarrow> nat) \<Rightarrow> nat \<Rightarrow> nat list \<Rightarrow> nat \<Rightarrow> bool" where
  "gaps sz e [] lim \<longleftrightarrow> e \<le> lim"
| "gaps sz e (b # bs) lim \<longleftrightarrow> e < b \<and> 0 < sz b \<and> gaps sz (b + sz b) bs lim"

definition apart :: "(nat \<Rightarrow> nat) \<Rightarrow> nat \<Rightarrow> nat \<Rightarrow> bool" where
  "apart sz a b \<longleftrightarrow> a + sz a \<le> b \<or> b + sz b \<le> a"

text \<open>
  The invariant, for the set \<open>A\<close> of blocks that the program holds. The free blocks form a ring through the base in the order of
  their addresses, no two of them touch, and all blocks are inside the heap and apart from each other.
\<close>

definition ring :: "uheap \<Rightarrow> nat list \<Rightarrow> nat set \<Rightarrow> bool" where
  "ring s bs A \<longleftrightarrow> links (hptr s) (hbase s) bs (hbase s) \<and> hsize s (hbase s) = 0 \<and> gaps (hsize s) (hbase s) bs (brk s) \<and>
     (\<exists>p \<in> set (hbase s # bs). freep s = Some p) \<and>
     (\<forall>a \<in> A. hbase s < a \<and> 0 < hsize s a \<and> a + hsize s a \<le> brk s \<and> (\<forall>f \<in> set bs. apart (hsize s) a f) \<and>
       (\<forall>a' \<in> A. a \<noteq> a' \<longrightarrow> apart (hsize s) a a'))"

definition heap_inv :: "uheap \<Rightarrow> nat set \<Rightarrow> bool" where
  "heap_inv s A \<longleftrightarrow> hbase s < brk s \<and> (freep s = None \<and> A = {} \<or> (\<exists>bs. ring s bs A))"

lemma ring_intro:
  assumes "links (hptr s) (hbase s) bs (hbase s)" "hsize s (hbase s) = 0" "gaps (hsize s) (hbase s) bs (brk s)" "p \<in> set (hbase s # bs)" "freep s = Some p"
    and "\<And>a. a \<in> A \<Longrightarrow> hbase s < a \<and> 0 < hsize s a \<and> a + hsize s a \<le> brk s \<and> (\<forall>f \<in> set bs. apart (hsize s) a f) \<and> (\<forall>a' \<in> A. a \<noteq> a' \<longrightarrow> apart (hsize s) a a')"
  shows "ring s bs A"
  unfolding ring_def using assms by blast

lemma links_append: "links ptr a (xs @ ys) z \<longleftrightarrow> links ptr a xs (hd (ys @ [z])) \<and> (ys = [] \<or> links ptr (hd ys) (tl ys) z)"
  by (induction ptr a xs z rule: links.induct) (cases ys; auto)+

lemma links_step: "links ptr a (xs @ q # v # vs) z \<Longrightarrow> ptr q = v"
  by (induction xs arbitrary: a) auto

lemma links_last: "links ptr a xs z \<Longrightarrow> ptr (last (a # xs)) = z"
  by (induction ptr a xs z rule: links.induct) auto

lemma links_upd: "x \<notin> set (a # xs) \<Longrightarrow> links (ptr(x := v)) a xs z \<longleftrightarrow> links ptr a xs z"
  by (induction ptr a xs z rule: links.induct) auto

lemma links_relink: "distinct (a # xs) \<Longrightarrow> links ptr a xs z \<Longrightarrow> links (ptr(last (a # xs) := z')) a xs z'"
  by (induction ptr a xs z rule: links.induct) auto

definition gend :: "(nat \<Rightarrow> nat) \<Rightarrow> nat \<Rightarrow> nat list \<Rightarrow> nat" where
  "gend sz e xs = (if xs = [] then e else last xs + sz (last xs))"

lemma gaps_append: "gaps sz e (xs @ ys) lim \<longleftrightarrow> gaps sz e xs (gend sz e xs) \<and> gaps sz (gend sz e xs) ys lim"
  by (induction sz e xs lim rule: gaps.induct) (auto simp: gend_def)

lemma gaps_upd: "x \<notin> set xs \<Longrightarrow> gaps (sz(x := v)) e xs lim \<longleftrightarrow> gaps sz e xs lim"
  by (induction sz e xs lim rule: gaps.induct) auto

lemma gaps_le: "gaps sz e xs lim \<Longrightarrow> e \<le> lim"
  by (induction sz e xs lim rule: gaps.induct) auto

lemma gaps_mem: "gaps sz e xs lim \<Longrightarrow> x \<in> set xs \<Longrightarrow> e < x \<and> 0 < sz x \<and> x + sz x \<le> lim"
  by (induction sz e xs lim rule: gaps.induct) (auto dest: gaps_le)

lemma gaps_distinct: "gaps sz e xs lim \<Longrightarrow> distinct xs \<and> sorted_wrt (<) xs"
  by (induction sz e xs lim rule: gaps.induct) (auto dest: gaps_mem)

lemma gaps_weaken: "gaps sz e xs lim \<Longrightarrow> e' \<le> e \<Longrightarrow> lim \<le> lim' \<Longrightarrow> gaps sz e' xs lim'"
  by (induction sz e xs lim arbitrary: e' rule: gaps.induct) auto

section \<open>free\<close>

text \<open>From every block of the ring, the loop of \<^verbatim>\<open>free\<close> comes to the one before the new block.\<close>

lemma free_find_low:
  assumes "links (hptr s) (hbase s) (lo @ hi) (hbase s)" "gaps sz (hbase s) (lo @ hi) lim" "hbase s < bp" "\<forall>x \<in> set lo. x < bp" "\<forall>x \<in> set hi. bp < x"
  shows "hbase s # lo = us @ q # vs \<Longrightarrow> free_find bp s q = Some (last (hbase s # lo))"
proof (induction vs arbitrary: us q)
  case Nil
  then have q: "q = last (hbase s # lo)" by simp
  have "hptr s q = hd (hi @ [hbase s])" using links_last [of "hptr s" "hbase s" lo "hd (hi @ [hbase s])"] assms(1) q by (simp add: links_append)
  moreover have "q < bp" "hbase s \<le> q" using q assms(3,4) gaps_mem [OF assms(2), of q] by (auto split: if_splits)
  ultimately show ?case using q assms(3,5) by (subst free_find.simps) (cases hi; auto)
next
  case (Cons v vs)
  have "links (hptr s) (hbase s) lo (hd (hi @ [hbase s]))" using assms(1) by (simp add: links_append)
  then have n: "hptr s q = v"
  proof (cases us)
    case Nil
    then show ?thesis using Cons.prems \<open>links (hptr s) (hbase s) lo _\<close> by (cases lo) auto
  next
    case (Cons u us')
    then have "lo = us' @ q # v # vs" using \<open>hbase s # lo = us @ q # v # vs\<close> by simp
    then show ?thesis using \<open>links (hptr s) (hbase s) lo _\<close> by (simp add: links_append)
  qed
  have v: "v \<in> set lo" using Cons.prems by (cases us) auto
  have "q < v"
  proof (cases us)
    case Nil
    then show ?thesis using Cons.prems v gaps_mem [OF assms(2), of v] by auto
  next
    case (Cons u us')
    then have "lo = us' @ q # v # vs" using \<open>hbase s # lo = us @ q # v # vs\<close> by simp
    then show ?thesis using gaps_distinct [OF assms(2)] by (simp add: sorted_wrt_append)
  qed
  moreover have "v < bp" using v assms(4) by blast
  ultimately have "free_find bp s q = free_find bp s v" using n by (subst free_find.simps) auto
  then show ?case using Cons.IH [of "us @ [q]" v] Cons.prems by simp
qed

lemma free_find_high:
  assumes "links (hptr s) (hbase s) (lo @ hi) (hbase s)" "gaps sz (hbase s) (lo @ hi) lim" "hbase s < bp" "\<forall>x \<in> set lo. x < bp" "\<forall>x \<in> set hi. bp < x"
  shows "hi = us @ q # vs \<Longrightarrow> free_find bp s q = Some (last (hbase s # lo))"
proof (induction vs arbitrary: us q)
  case Nil
  then have "hptr s q = hbase s" using links_last [OF assms(1)] by simp
  moreover have "bp < q" using Nil assms(5) by auto
  ultimately have "free_find bp s q = free_find bp s (hbase s)" using assms(3) by (subst free_find.simps) auto
  then show ?case using free_find_low [OF assms, of "[]" "hbase s" lo] by simp
next
  case (Cons v vs)
  then have l: "lo @ hi = (lo @ us) @ q # v # vs" by simp
  have n: "hptr s q = v" using assms(1) unfolding l by (rule links_step)
  have "q < v" using gaps_distinct [OF assms(2)] unfolding l by (simp add: sorted_wrt_append)
  moreover have "bp < q" using Cons.prems assms(5) by auto
  ultimately have "free_find bp s q = free_find bp s v" using n by (subst free_find.simps) auto
  then show ?case using Cons.IH [of "us @ [q]" v] Cons.prems by simp
qed

lemma free_find_pred:
  assumes "links (hptr s) (hbase s) (lo @ hi) (hbase s)" "gaps sz (hbase s) (lo @ hi) lim" "hbase s < bp" "\<forall>x \<in> set lo. x < bp" "\<forall>x \<in> set hi. bp < x"
    and q: "q \<in> set (hbase s # lo @ hi)"
  shows "free_find bp s q = Some (last (hbase s # lo))"
proof -
  consider us vs where "hbase s # lo = us @ q # vs" | us vs where "hi = us @ q # vs"
    using q split_list [of q "hbase s # lo"] split_list [of q hi] by auto
  then show ?thesis by cases (use free_find_low [OF assms(1-5)] free_find_high [OF assms(1-5)] in blast)+
qed

text \<open>
  Between its two parts, \<^verbatim>\<open>free\<close> has linked the block \<open>bp\<close> to the blocks \<open>hi\<close> behind it, but not yet the blocks \<open>lo\<close> to it.
\<close>

definition split_ring :: "uheap \<Rightarrow> nat list \<Rightarrow> nat \<Rightarrow> nat list \<Rightarrow> nat set \<Rightarrow> bool" where
  "split_ring s lo bp hi A \<longleftrightarrow> (\<exists>z. links (hptr s) (hbase s) lo z) \<and> links (hptr s) bp hi (hbase s) \<and> hsize s (hbase s) = 0 \<and> hbase s < bp \<and>
     gaps (hsize s) (hbase s) lo bp \<and> 0 < hsize s bp \<and> gaps (hsize s) (bp + hsize s bp) hi (brk s) \<and>
     (\<forall>a \<in> A. hbase s < a \<and> 0 < hsize s a \<and> a + hsize s a \<le> brk s \<and> (\<forall>f \<in> set (lo @ bp # hi). apart (hsize s) a f) \<and>
       (\<forall>a' \<in> A. a \<noteq> a' \<longrightarrow> apart (hsize s) a a'))"

lemma apart_less: "apart sz a b \<Longrightarrow> 0 < sz a \<Longrightarrow> 0 < sz b \<Longrightarrow> (a < b \<longleftrightarrow> a + sz a \<le> b) \<and> (b < a \<longleftrightarrow> b + sz b \<le> a) \<and> a \<noteq> b"
  by (auto simp: apart_def)

lemma apart_upd [simp]: "a \<noteq> x \<Longrightarrow> b \<noteq> x \<Longrightarrow> apart (sz(x := v)) a b \<longleftrightarrow> apart sz a b"
  by (simp add: apart_def)

lemma apart_sym: "apart sz a b \<longleftrightarrow> apart sz b a"
  by (auto simp: apart_def)

lemma apart_merge: "apart sz a x \<Longrightarrow> apart sz a y \<Longrightarrow> x + sz x = y \<Longrightarrow> 0 < sz a \<Longrightarrow> a \<noteq> x \<Longrightarrow> apart (sz(x := sz x + sz y)) a x"
  by (auto simp: apart_def)

text \<open>The units that a block, or a set of blocks, covers.\<close>

definition extent :: "(nat \<Rightarrow> nat) \<Rightarrow> nat \<Rightarrow> nat set" where
  "extent sz b = {b..<b + sz b}"

definition extents :: "(nat \<Rightarrow> nat) \<Rightarrow> nat set \<Rightarrow> nat set" where
  "extents sz B = (\<Union>b \<in> B. extent sz b)"

lemma extents_simps [simp]: "extents sz {} = {}" "extents sz (insert b B) = extent sz b \<union> extents sz B"
  "extents sz (B \<union> C) = extents sz B \<union> extents sz C"
  by (auto simp: extents_def)

lemma extents_upd: "x \<notin> B \<Longrightarrow> extents (sz(x := v)) B = extents sz B"
  unfolding extents_def by (rule SUP_cong) (auto simp: extent_def)

lemma extent_merge: "x + sz x = y \<Longrightarrow> extent (sz(x := sz x + sz y)) x = extent sz x \<union> extent sz y"
  by (auto simp: extent_def)

lemma extent_le: "extent sz b \<subseteq> extent sz' f \<Longrightarrow> 0 < sz b \<Longrightarrow> sz b \<le> sz' f"
  by (auto simp: extent_def)

lemma gaps_below: "gaps sz e lo lim \<Longrightarrow> e \<le> bp \<Longrightarrow> \<forall>x \<in> set lo. x + sz x \<le> bp \<Longrightarrow> gaps sz e lo bp"
  by (induction sz e lo lim rule: gaps.induct) auto

lemma gaps_above: "gaps sz e hi lim \<Longrightarrow> hi \<noteq> [] \<Longrightarrow> e' < hd hi \<Longrightarrow> gaps sz e' hi lim"
  by (cases hi) auto

lemma insert_upper:
  assumes r: "ring s (lo @ hi) A" and bp: "bp \<in> A" "\<forall>x \<in> set lo. x < bp" "\<forall>x \<in> set hi. bp < x"
    and p: "p = last (hbase s # lo)"
    and s1: "s1 = (if bp + hsize s bp = hptr s p
               then s\<lparr>hsize := (hsize s)(bp := hsize s bp + hsize s (hptr s p)), hptr := (hptr s)(bp := hptr s (hptr s p))\<rparr>
               else s\<lparr>hptr := (hptr s)(bp := hptr s p)\<rparr>)"
  shows "\<exists>hi'. split_ring s1 lo bp hi' (A - {bp}) \<and> extent (hsize s) bp \<subseteq> extent (hsize s1) bp \<and>
    extents (hsize s1) (set (lo @ bp # hi')) = extents (hsize s) (set (lo @ hi)) \<union> extent (hsize s) bp"
proof -
  have c: "links (hptr s) (hbase s) lo (hd (hi @ [hbase s]))" "hi = [] \<or> links (hptr s) (hd hi) (tl hi) (hbase s)"
    using r by (auto simp: ring_def links_append)
  have g: "gaps (hsize s) (hbase s) lo (gend (hsize s) (hbase s) lo)" "gaps (hsize s) (gend (hsize s) (hbase s) lo) hi (brk s)"
    using r by (auto simp: ring_def gaps_append)
  have b: "hbase s < bp" "0 < hsize s bp" "bp + hsize s bp \<le> brk s" "\<forall>f \<in> set (lo @ hi). apart (hsize s) bp f" using r bp(1) by (auto simp: ring_def)
  have pos: "\<forall>f \<in> set (lo @ hi). hbase s < f \<and> 0 < hsize s f" using r gaps_mem by (fastforce simp: ring_def)
  have lo: "x + hsize s x \<le> bp" if "x \<in> set lo" for x using that b bp(2) pos apart_less [of "hsize s" bp x] by auto
  have hi: "bp + hsize s bp \<le> x" if "x \<in> set hi" for x using that b bp(3) pos apart_less [of "hsize s" bp x] by auto
  have glo: "gaps (hsize s) (hbase s) lo bp" using gaps_below [OF g(1)] b(1) lo by simp
  have nin: "bp \<notin> set lo" "bp \<notin> set hi" "bp \<noteq> hbase s" using bp b(1) by auto
  have nx: "hptr s p = hd (hi @ [hbase s])" using links_last [OF c(1)] p by simp
  have A: "\<forall>a \<in> A - {bp}. hbase s < a \<and> 0 < hsize s a \<and> a + hsize s a \<le> brk s \<and> (\<forall>f \<in> set (lo @ hi). apart (hsize s) a f) \<and> apart (hsize s) a bp \<and>
       (\<forall>a' \<in> A. a \<noteq> a' \<longrightarrow> apart (hsize s) a a')" using r bp(1) by (auto simp: ring_def)
  show ?thesis
  proof (cases "bp + hsize s bp = hptr s p")
    case True
    then have ne: "hi \<noteq> []" using nx b(1) by (cases hi) auto
    then obtain h hs where h: "hi = h # hs" by (cases hi) auto
    have e: "hptr s p = h" "bp + hsize s bp = h" using nx h True by simp_all
    have ch: "hptr s h = hd (hs @ [hbase s])" "hs = [] \<or> links (hptr s) (hd hs) (tl hs) (hbase s)" using c(2) h by (cases hs; auto)+
    have gh: "0 < hsize s h" "gaps (hsize s) (h + hsize s h) hs (brk s)" using g(2) h by auto
    let ?sz = "(hsize s)(bp := hsize s bp + hsize s h)"
    have A': "\<forall>a \<in> A - {bp}. hbase s < a \<and> 0 < ?sz a \<and> a + ?sz a \<le> brk s \<and> (\<forall>f \<in> set (lo @ bp # hs). apart ?sz a f) \<and>
        (\<forall>a' \<in> A - {bp}. a \<noteq> a' \<longrightarrow> apart ?sz a a')"
    proof (intro ballI)
      fix a assume a: "a \<in> A - {bp}"
      have "apart ?sz a bp" using A a h e(2) by (intro apart_merge) auto
      moreover have "apart ?sz a f" if "f \<in> set (lo @ hs)" for f using A a that nin h by (subst apart_upd) auto
      moreover have "apart ?sz a a'" if "a' \<in> A - {bp}" "a \<noteq> a'" for a' using A a that by (subst apart_upd) auto
      ultimately show "hbase s < a \<and> 0 < ?sz a \<and> a + ?sz a \<le> brk s \<and> (\<forall>f \<in> set (lo @ bp # hs). apart ?sz a f) \<and>
        (\<forall>a' \<in> A - {bp}. a \<noteq> a' \<longrightarrow> apart ?sz a a')" using A a by auto
    qed
    have C: "links ((hptr s)(bp := hptr s h)) bp hs (hbase s)" using ch nin h by (cases hs) (auto simp: links_upd)
    have G: "gaps ?sz (bp + ?sz bp) hs (brk s)" "gaps ?sz (hbase s) lo bp" using gh glo nin h e(2) by (simp_all add: gaps_upd add.assoc [symmetric])
    have s1': "s1 = s\<lparr>hsize := ?sz, hptr := (hptr s)(bp := hptr s h)\<rparr>" using s1 True e by simp
    then have "split_ring s1 lo bp hs (A - {bp})"
      unfolding split_ring_def using A' C G nin b c(1) r by (auto simp: links_upd ring_def)
    moreover have "extents ?sz (set (lo @ bp # hs)) = extents (hsize s) (set (lo @ hi)) \<union> extent (hsize s) bp"
      using nin h extent_merge [of bp "hsize s" h] e(2) by (auto simp: extents_upd)
    moreover have "extent (hsize s) bp \<subseteq> extent ?sz bp" by (auto simp: extent_def)
    ultimately show ?thesis using s1' by auto
  next
    case False
    have "gaps (hsize s) (bp + hsize s bp) hi (brk s)"
    proof (cases hi)
      case (Cons h hs)
      then have "bp + hsize s bp < h" using hi [of h] False nx by simp
      then show ?thesis using Cons g(2) by auto
    qed (use b in simp)
    moreover have "links ((hptr s)(bp := hptr s p)) bp hi (hbase s)" using c(2) nx nin by (cases hi) (auto simp: links_upd)
    moreover have "s1 = s\<lparr>hptr := (hptr s)(bp := hptr s p)\<rparr>" using s1 False by simp
    ultimately have "split_ring s1 lo bp hi (A - {bp})"
      unfolding split_ring_def using nin b A glo c(1) r by (auto simp: links_upd ring_def)
    moreover have "hsize s1 = hsize s" using s1 False by simp
    ultimately show ?thesis by (intro exI [of _ hi]) auto
  qed
qed

lemma split_ring_nin:
  assumes "split_ring s lo bp hi A"
  shows "last (hbase s # lo) \<notin> set (bp # hi)" "bp \<notin> set (hbase s # lo)" "distinct (hbase s # lo)" "bp \<notin> set hi" "hbase s \<notin> set hi" "set lo \<inter> set hi = {}"
proof -
  have g: "gaps (hsize s) (hbase s) lo bp" "gaps (hsize s) (bp + hsize s bp) hi (brk s)" "hbase s < bp" using assms by (auto simp: split_ring_def)
  have lo: "hbase s < x \<and> 0 < hsize s x \<and> x + hsize s x \<le> bp" if "x \<in> set lo" for x using gaps_mem [OF g(1) that] .
  have hi: "bp + hsize s bp < x" if "x \<in> set hi" for x using gaps_mem [OF g(2) that] by simp
  have l: "last (hbase s # lo) \<in> set (hbase s # lo)" by (rule last_in_set) simp
  show "bp \<notin> set (hbase s # lo)" "bp \<notin> set hi" "hbase s \<notin> set hi" "set lo \<inter> set hi = {}" using lo hi g(3) by fastforce+
  show "distinct (hbase s # lo)" using gaps_distinct [OF g(1)] lo by auto
  show "last (hbase s # lo) \<notin> set (bp # hi)" using l lo hi g(3) by fastforce
qed

lemma insert_lower:
  assumes r: "split_ring s lo bp hi A" and p: "p = last (hbase s # lo)"
    and s2: "s2 = (if p + hsize s p = bp
               then s\<lparr>hsize := (hsize s)(p := hsize s p + hsize s bp), hptr := (hptr s)(p := hptr s bp)\<rparr>
               else s\<lparr>hptr := (hptr s)(p := bp)\<rparr>)\<lparr>freep := Some p\<rparr>"
  shows "\<exists>bs f. ring s2 bs A \<and> f \<in> set bs \<and> extent (hsize s) bp \<subseteq> extent (hsize s2) f \<and>
    extents (hsize s2) (set bs) = extents (hsize s) (set (lo @ bp # hi))"
proof -
  note nin = split_ring_nin [OF r, folded p]
  obtain z where c: "links (hptr s) (hbase s) lo z" "links (hptr s) bp hi (hbase s)" using r by (auto simp: split_ring_def)
  have b: "hsize s (hbase s) = 0" "hbase s < bp" "0 < hsize s bp" and g: "gaps (hsize s) (hbase s) lo bp" "gaps (hsize s) (bp + hsize s bp) hi (brk s)"
    and A: "\<forall>a \<in> A. hbase s < a \<and> 0 < hsize s a \<and> a + hsize s a \<le> brk s \<and> (\<forall>f \<in> set (lo @ bp # hi). apart (hsize s) a f) \<and>
       (\<forall>a' \<in> A. a \<noteq> a' \<longrightarrow> apart (hsize s) a a')" using r by (auto simp: split_ring_def)
  have hb: "hptr s bp = hd (hi @ [hbase s])" "hi = [] \<or> links (hptr s) (hd hi) (tl hi) (hbase s)" using c(2) by (cases hi; auto)+
  have relink: "links ((hptr s)(p := v)) (hbase s) lo v" for v using links_relink [OF nin(3) c(1)] p by simp
  show ?thesis
  proof (cases "p + hsize s p = bp")
    case True
    then obtain l0 where l0: "lo = l0 @ [p]" using p b by (cases lo rule: rev_cases) auto
    let ?sz = "(hsize s)(p := hsize s p + hsize s bp)"
    have pl: "p \<notin> set l0" "p \<notin> set hi" "p \<noteq> hbase s" using nin l0 by auto
    have "gaps (hsize s) (hbase s) l0 (gend (hsize s) (hbase s) l0)" "gend (hsize s) (hbase s) l0 < p" using g(1) l0 by (auto simp: gaps_append)
    moreover have "gend ?sz (hbase s) l0 = gend (hsize s) (hbase s) l0" using pl by (auto simp: gend_def)
    ultimately have G: "gaps ?sz (hbase s) (lo @ hi) (brk s)"
      using g(2) pl True b l0 by (simp add: gaps_append gaps_upd add.assoc [symmetric])
    have C: "links ((hptr s)(p := hptr s bp)) (hbase s) (lo @ hi) (hbase s)"
      using relink [of "hptr s bp"] hb pl by (cases hi) (auto simp: links_append links_upd)
    have A': "\<forall>a \<in> A. hbase s < a \<and> 0 < ?sz a \<and> a + ?sz a \<le> brk s \<and> (\<forall>f \<in> set (lo @ hi). apart ?sz a f) \<and> (\<forall>a' \<in> A. a \<noteq> a' \<longrightarrow> apart ?sz a a')"
    proof (intro ballI)
      fix a assume a: "a \<in> A"
      have ne: "a \<noteq> p" if "a \<in> A" for a using A that l0 gaps_mem [OF g(1), of p] by (fastforce simp: apart_def)
      have "apart ?sz a p" using A a l0 True ne by (intro apart_merge) auto
      moreover have "apart ?sz a f" if "f \<in> set (l0 @ hi)" for f using A a that ne pl l0 by (subst apart_upd) auto
      moreover have "apart ?sz a a'" if "a' \<in> A" "a \<noteq> a'" for a' using A a that ne by (subst apart_upd) auto
      ultimately show "hbase s < a \<and> 0 < ?sz a \<and> a + ?sz a \<le> brk s \<and> (\<forall>f \<in> set (lo @ hi). apart ?sz a f) \<and> (\<forall>a' \<in> A. a \<noteq> a' \<longrightarrow> apart ?sz a a')"
        using A a ne l0 by auto
    qed
    have s2': "s2 = s\<lparr>hsize := ?sz, hptr := (hptr s)(p := hptr s bp), freep := Some p\<rparr>" using s2 True by simp
    then have "ring s2 (lo @ hi) A" "p \<in> set (lo @ hi)" using G C A' b l0 pl by (auto simp: ring_def)
    moreover have "extent ?sz p = extent (hsize s) p \<union> extent (hsize s) bp" using True by (rule extent_merge)
    moreover from this have "extents ?sz (set (lo @ hi)) = extents (hsize s) (set (lo @ bp # hi))" using pl l0 by (auto simp: extents_upd)
    ultimately show ?thesis using s2' by (intro exI [of _ "lo @ hi"] exI [of _ p]) simp
  next
    case False
    have lt: "gend (hsize s) (hbase s) lo < bp"
    proof (cases lo rule: rev_cases)
      case (snoc l0 y)
      then have "y + hsize s y \<le> bp" using gaps_mem [OF g(1), of y] by simp
      then show ?thesis using False p snoc by (simp add: gend_def)
    qed (use b in \<open>simp add: gend_def\<close>)
    moreover have "gaps (hsize s) (hbase s) lo (gend (hsize s) (hbase s) lo)" using g(1) gaps_append [of "hsize s" "hbase s" lo "[]" bp] by simp
    ultimately have G: "gaps (hsize s) (hbase s) (lo @ bp # hi) (brk s)" using g(2) b by (simp add: gaps_append)
    have C: "links ((hptr s)(p := bp)) (hbase s) (lo @ bp # hi) (hbase s)"
      using relink [of bp] c(2) nin(1) by (simp add: links_append links_upd)
    have "p \<in> set (hbase s # lo)" using p last_in_set [of "hbase s # lo"] by simp
    then have "ring s2 (lo @ bp # hi) A" unfolding ring_def using s2 False G C A b by auto
    moreover have "bp \<in> set (lo @ bp # hi)" "hsize s2 = hsize s" using s2 False by simp_all
    ultimately show ?thesis by (intro exI [of _ "lo @ bp # hi"] exI [of _ bp]) simp
  qed
qed

text \<open>\<^verbatim>\<open>free\<close> returns, keeps the invariant, and the free units are those of before and the freed ones, which are in one free block.\<close>

lemma free_ring:
  assumes r: "ring s bs A" and bp: "bp \<in> A"
  shows "\<exists>s' bs' f. free (bp + 1) s = Some s' \<and> ring s' bs' (A - {bp}) \<and> f \<in> set bs' \<and> extent (hsize s) bp \<subseteq> extent (hsize s') f \<and>
    extents (hsize s') (set bs') = extents (hsize s) (set bs) \<union> extent (hsize s) bp \<and> hbase s' = hbase s \<and> brk s' = brk s \<and> (\<forall>a \<in> A - {bp}. hsize s' a = hsize s a)"
proof -
  have g: "gaps (hsize s) (hbase s) bs (brk s)" and c: "links (hptr s) (hbase s) bs (hbase s)" using r by (auto simp: ring_def)
  have b: "hbase s < bp" "0 < hsize s bp" "\<forall>f \<in> set bs. apart (hsize s) bp f" using r bp by (auto simp: ring_def)
  have nin: "bp \<notin> set bs" using b gaps_mem [OF g] by (fastforce simp: apart_def)
  define lo where "lo = takeWhile (\<lambda>x. x < bp) bs"
  define hi where "hi = dropWhile (\<lambda>x. x < bp) bs"
  have bs: "bs = lo @ hi" by (simp add: lo_def hi_def)
  have lo: "\<forall>x \<in> set lo. x < bp" by (auto simp: lo_def dest: set_takeWhileD)
  have hi: "\<forall>x \<in> set hi. bp < x"
  proof (cases hi)
    case (Cons h hs)
    then have "\<not> h < bp" unfolding hi_def by (metis hd_dropWhile list.distinct(1) list.sel(1))
    moreover have "h \<noteq> bp" using nin bs Cons by auto
    moreover have "sorted_wrt (<) hi" using gaps_distinct [OF g] bs by (simp add: sorted_wrt_append)
    ultimately show ?thesis using Cons by auto
  qed simp
  define p where "p = last (hbase s # lo)"
  obtain q where q: "freep s = Some q" "q \<in> set (hbase s # lo @ hi)" using r bs by (auto simp: ring_def)
  have ff: "free_find bp s q = Some p" unfolding p_def using free_find_pred [of s lo hi "hsize s" "brk s" bp q] c g b(1) lo hi q(2) bs by simp
  define s1 where "s1 = (if bp + hsize s bp = hptr s p
               then s\<lparr>hsize := (hsize s)(bp := hsize s bp + hsize s (hptr s p)), hptr := (hptr s)(bp := hptr s (hptr s p))\<rparr>
               else s\<lparr>hptr := (hptr s)(bp := hptr s p)\<rparr>)"
  define s2 where "s2 = (if p + hsize s1 p = bp
               then s1\<lparr>hsize := (hsize s1)(p := hsize s1 p + hsize s1 bp), hptr := (hptr s1)(p := hptr s1 bp)\<rparr>
               else s1\<lparr>hptr := (hptr s1)(p := bp)\<rparr>)\<lparr>freep := Some p\<rparr>"
  have same: "hbase s1 = hbase s" "brk s1 = brk s" "hbase s2 = hbase s" "brk s2 = brk s" by (simp_all add: s1_def s2_def)
  obtain hi' where u: "split_ring s1 lo bp hi' (A - {bp})" "extent (hsize s) bp \<subseteq> extent (hsize s1) bp"
      "extents (hsize s1) (set (lo @ bp # hi')) = extents (hsize s) (set bs) \<union> extent (hsize s) bp"
    using insert_upper [of s lo hi A bp p s1] r bs bp lo hi p_def s1_def by blast
  have p': "p = last (hbase s1 # lo)" by (simp add: p_def same)
  obtain bs' f where l: "ring s2 bs' (A - {bp})" "f \<in> set bs'" "extent (hsize s1) bp \<subseteq> extent (hsize s2) f"
      "extents (hsize s2) (set bs') = extents (hsize s1) (set (lo @ bp # hi'))"
    using insert_lower [OF u(1) p' s2_def] by blast
  have "free (bp + 1) s = Some s2" using q ff by (simp add: free_def free_insert_def Let_def s1_def s2_def)
  moreover have "hsize s2 a = hsize s a" if "a \<in> A - {bp}" for a
  proof -
    have "p \<in> set (hbase s # lo)" using p_def last_in_set [of "hbase s # lo"] by simp
    then consider "p = hbase s" | "p \<in> set bs" using bs by auto
    then have "a \<noteq> p"
    proof cases
      case 2
      then show ?thesis using r that gaps_mem [OF g 2] apart_less [of "hsize s" a p] by (auto simp: ring_def)
    qed (use r that in \<open>auto simp: ring_def\<close>)
    then show ?thesis using that by (auto simp: s1_def s2_def)
  qed
  ultimately show ?thesis using l u(2,3) same by (intro exI [of _ s2] exI [of _ bs'] exI [of _ f]) blast
qed

section \<open>malloc\<close>

lemma gaps_apart: "gaps sz e (xs @ q # ys) lim \<Longrightarrow> f \<in> set (xs @ ys) \<Longrightarrow> apart sz q f"
proof -
  assume g: "gaps sz e (xs @ q # ys) lim" and f: "f \<in> set (xs @ ys)"
  have 1: "gaps sz e xs (gend sz e xs)" "gend sz e xs < q" "gaps sz (q + sz q) ys lim" using g by (simp_all add: gaps_append)
  show ?thesis using f gaps_mem [OF 1(1), of f] gaps_mem [OF 1(3), of f] 1(2) by (auto simp: apart_def)
qed

lemma take_whole:
  assumes r: "ring s (xs @ q # ys) A" and p: "prev = last (hbase s # xs)"
  shows "ring (s\<lparr>hptr := (hptr s)(prev := hptr s q), freep := Some prev\<rparr>) (xs @ ys) (insert q A) \<and> q \<notin> A"
proof -
  have c: "links (hptr s) (hbase s) xs q" "links (hptr s) q ys (hbase s)" and g: "gaps (hsize s) (hbase s) (xs @ q # ys) (brk s)"
    using r by (auto simp: ring_def links_append)
  have g': "gaps (hsize s) (hbase s) xs (gend (hsize s) (hbase s) xs)" "gend (hsize s) (hbase s) xs < q" "gaps (hsize s) (q + hsize s q) ys (brk s)"
    using g by (simp_all add: gaps_append)
  have q: "hbase s < q" "0 < hsize s q" "q + hsize s q \<le> brk s" using gaps_mem [OF g, of q] by simp_all
  have A: "\<forall>a \<in> A. apart (hsize s) a q" "\<forall>a \<in> A. 0 < hsize s a" using r by (auto simp: ring_def)
  have qA: "q \<notin> A" using A q by (fastforce simp: apart_def)
  have d: "distinct (hbase s # xs)" "prev \<notin> set ys"
  proof -
    have m: "hbase s \<notin> set (xs @ q # ys)" using gaps_mem [OF g] by blast
    have dd: "distinct (xs @ q # ys)" using gaps_distinct [OF g] by blast
    show "distinct (hbase s # xs)" using m dd by auto
    show "prev \<notin> set ys" using m dd p by (cases xs rule: rev_cases) auto
  qed
  have "links ((hptr s)(prev := hptr s q)) (hbase s) xs (hptr s q)" using links_relink [OF d(1) c(1), of "hptr s q"] p by simp
  then have C: "links ((hptr s)(prev := hptr s q)) (hbase s) (xs @ ys) (hbase s)" using c(2) d(2) by (cases ys) (auto simp: links_append links_upd)
  have "gaps (hsize s) (gend (hsize s) (hbase s) xs) ys (brk s)" using gaps_weaken [OF g'(3)] g'(2) by simp
  then have G: "gaps (hsize s) (hbase s) (xs @ ys) (brk s)" using g'(1) by (simp add: gaps_append)
  have "prev \<in> set (hbase s # xs)" using p last_in_set [of "hbase s # xs"] by simp
  moreover have "\<forall>f \<in> set (xs @ ys). apart (hsize s) q f" using gaps_apart [OF g] by blast
  moreover have "\<forall>a \<in> A. apart (hsize s) q a" using A apart_sym by blast
  moreover have "\<forall>a \<in> A. hbase s < a \<and> 0 < hsize s a \<and> a + hsize s a \<le> brk s \<and> (\<forall>f \<in> set (xs @ ys). apart (hsize s) a f) \<and>
      (\<forall>a' \<in> A. a \<noteq> a' \<longrightarrow> apart (hsize s) a a')" "hsize s (hbase s) = 0" using r by (auto simp: ring_def)
  ultimately have "ring (s\<lparr>hptr := (hptr s)(prev := hptr s q), freep := Some prev\<rparr>) (xs @ ys) (insert q A)"
    unfolding ring_def using C G q A by simp blast
  then show ?thesis using qA by blast
qed

lemma take_part:
  assumes r: "ring s (xs @ q # ys) A" and p: "prev = last (hbase s # xs)" and n: "0 < n" "n < hsize s q"
    and sz: "sz = (hsize s)(q := hsize s q - n, q + (hsize s q - n) := n)"
  shows "ring (s\<lparr>hsize := sz, freep := Some prev\<rparr>) (xs @ q # ys) (insert (q + (hsize s q - n)) A) \<and> q + (hsize s q - n) \<notin> A \<and> (\<forall>a \<in> A. sz a = hsize s a)"
proof -
  let ?t = "q + (hsize s q - n)"
  have c: "links (hptr s) (hbase s) (xs @ q # ys) (hbase s)" and g: "gaps (hsize s) (hbase s) (xs @ q # ys) (brk s)" using r by (auto simp: ring_def)
  have g': "gaps (hsize s) (hbase s) xs (gend (hsize s) (hbase s) xs)" "gend (hsize s) (hbase s) xs < q" "gaps (hsize s) (q + hsize s q) ys (brk s)"
    using g by (simp_all add: gaps_append)
  have q: "hbase s < q" "q + hsize s q \<le> brk s" using gaps_mem [OF g, of q] by simp_all
  have A: "hbase s < a \<and> 0 < hsize s a \<and> a + hsize s a \<le> brk s" and Aq: "apart (hsize s) a q" and Af: "f \<in> set (xs @ ys) \<Longrightarrow> apart (hsize s) a f"
    and Aa: "a' \<in> A \<Longrightarrow> a \<noteq> a' \<Longrightarrow> apart (hsize s) a a'" if "a \<in> A" for a f a' using r that by (auto simp: ring_def)
  have out: "a \<noteq> q" "a \<noteq> ?t" if "apart (hsize s) a q" "0 < hsize s a" for a using that n by (auto simp: apart_def)
  have szA: "sz a = hsize s a" if "a \<in> A" for a using out [OF Aq [OF that]] A [OF that] sz by simp
  have f: "f \<noteq> q" "f \<noteq> ?t" "sz f = hsize s f" "apart (hsize s) q f" if "f \<in> set (xs @ ys)" for f
  proof -
    have a: "apart (hsize s) q f" using gaps_apart [OF g that] .
    have "0 < hsize s f" using gaps_mem [OF g, of f] that by auto
    then show "f \<noteq> q" "f \<noteq> ?t" using out [of f] a apart_sym by blast+
    then show "sz f = hsize s f" using sz by simp
    show "apart (hsize s) q f" by (rule a)
  qed
  have t: "sz ?t = n" "sz q = hsize s q - n" "?t \<noteq> q" using sz n by auto
  have eq: "gaps sz e zs lim = gaps (hsize s) e zs lim" if "set zs \<subseteq> set (xs @ ys)" for e zs lim
  proof -
    have "q \<notin> set zs" "?t \<notin> set zs" using that f by blast+
    then show ?thesis unfolding sz by (simp add: gaps_upd)
  qed
  have ge: "gend sz (hbase s) xs = gend (hsize s) (hbase s) xs" using f by (auto simp: gend_def)
  have "gaps (hsize s) (q + (hsize s q - n)) ys (brk s)" using gaps_weaken [OF g'(3)] by simp
  then have G: "gaps sz (hbase s) (xs @ q # ys) (brk s)" using g' t n eq [of xs] eq [of ys] ge by (simp add: gaps_append)
  have tA: "?t \<notin> A" using A Aq out by blast
  have new: "apart sz ?t f" if "f \<in> set (xs @ q # ys)" for f
  proof (cases "f = q")
    case False
    then have "f \<in> set (xs @ ys)" using that by auto
    then show ?thesis using f [of f] t n by (auto simp: apart_def)
  qed (use t in \<open>simp add: apart_def\<close>)
  have old: "apart sz a f" if "a \<in> A" "f \<in> set (xs @ q # ys)" for a f
  proof (cases "f = q")
    case False
    then have "f \<in> set (xs @ ys)" using that by auto
    then show ?thesis using f [of f] Af [OF that(1)] szA [OF that(1)] by (simp add: apart_def)
  qed (use Aq [OF that(1)] szA [OF that(1)] t in \<open>auto simp: apart_def\<close>)
  have at: "apart sz a ?t" if "a \<in> A" for a using Aq [OF that] szA [OF that] t n by (auto simp: apart_def)
  have aa: "apart sz a a'" if "a \<in> A" "a' \<in> A" "a \<noteq> a'" for a a' using Aa [OF that] szA [OF that(1)] szA [OF that(2)] by (simp add: apart_def)
  have ta: "apart sz ?t a" if "a \<in> A" for a using at [OF that] apart_sym by blast
  have I: "hbase s < a \<and> 0 < sz a \<and> a + sz a \<le> brk s \<and> (\<forall>f \<in> set (xs @ q # ys). apart sz a f) \<and> (\<forall>a' \<in> insert ?t A. a \<noteq> a' \<longrightarrow> apart sz a a')"
    if "a \<in> insert ?t A" for a
  proof (cases "a = ?t")
    case True
    then show ?thesis using t(1) n q new ta by auto
  next
    case False
    then show ?thesis using that A [of a] szA [of a] old [of a] at [of a] aa [of a] by (metis insertE)
  qed
  have "prev \<in> set (hbase s # xs)" using p last_in_set [of "hbase s # xs"] by simp
  then have pm: "prev \<in> set (hbase s # xs @ q # ys)" by auto
  have z: "sz (hbase s) = 0" using r q(1) sz by (simp add: ring_def)
  have s: "hptr (s\<lparr>hsize := sz, freep := Some prev\<rparr>) = hptr s" "hbase (s\<lparr>hsize := sz, freep := Some prev\<rparr>) = hbase s"
    "hsize (s\<lparr>hsize := sz, freep := Some prev\<rparr>) = sz" "brk (s\<lparr>hsize := sz, freep := Some prev\<rparr>) = brk s"
    "freep (s\<lparr>hsize := sz, freep := Some prev\<rparr>) = Some prev" by simp_all
  have "ring (s\<lparr>hsize := sz, freep := Some prev\<rparr>) (xs @ q # ys) (insert ?t A)"
    by (rule ring_intro [of _ _ prev]; unfold s) (rule c, rule z, rule G, rule pm, rule refl, rule I)
  then show ?thesis using tA szA by blast
qed

lemma take_block_ring:
  assumes r: "ring s bs A" and q: "q \<in> set bs" "n \<le> hsize s q" "0 < n" and prev: "prev \<in> set (hbase s # bs)" "hptr s prev = q"
  shows "\<exists>p s' bs'. take_block n prev q s = (p + 1, s') \<and> ring s' bs' (insert p A) \<and> p \<notin> A \<and> hsize s' p = n \<and>
    hbase s' = hbase s \<and> brk s' = brk s \<and> (\<forall>a \<in> A. hsize s' a = hsize s a)"
proof -
  have c: "links (hptr s) (hbase s) bs (hbase s)" and g: "gaps (hsize s) (hbase s) bs (brk s)" using r by (auto simp: ring_def)
  have base: "hbase s \<notin> set bs" using gaps_mem [OF g] by blast
  obtain us vs where uv: "hbase s # bs = us @ prev # vs" using split_list [OF prev(1)] by blast
  have "\<exists>xs ys. bs = xs @ q # ys \<and> prev = last (hbase s # xs)"
  proof (cases vs)
    case Nil
    then have "prev = last (hbase s # bs)" using uv by simp
    then have "q = hbase s" using links_last [OF c] prev(2) by simp
    then show ?thesis using q(1) base by simp
  next
    case (Cons v vs')
    show ?thesis
    proof (cases us)
      case Nil
      then have b: "prev = hbase s" "bs = v # vs'" using uv Cons by simp_all
      then show ?thesis using c prev(2) by (intro exI [of _ "[]"] exI [of _ vs']) auto
    next
      case (Cons u us')
      then have b: "bs = us' @ prev # v # vs'" using uv \<open>vs = v # vs'\<close> by simp
      then have "v = q" using links_step c prev(2) by blast
      then show ?thesis using b by (intro exI [of _ "us' @ [prev]"] exI [of _ vs']) simp
    qed
  qed
  then obtain xs ys where bs: "bs = xs @ q # ys" and p: "prev = last (hbase s # xs)" by blast
  show ?thesis
  proof (cases "hsize s q = n")
    case True
    then have "take_block n prev q s = (q + 1, s\<lparr>hptr := (hptr s)(prev := hptr s q), freep := Some prev\<rparr>)" by (simp add: take_block_def)
    moreover note take_whole [OF r [unfolded bs] p]
    ultimately show ?thesis using True by (intro exI [of _ q]) auto
  next
    case False
    then have n: "n < hsize s q" using q(2) by simp
    let ?t = "q + (hsize s q - n)" and ?sz = "(hsize s)(q := hsize s q - n, q + (hsize s q - n) := n)"
    have "take_block n prev q s = (?t + 1, s\<lparr>hsize := ?sz, freep := Some prev\<rparr>)" using False by (simp add: take_block_def Let_def)
    moreover note take_part [OF r [unfolded bs] p q(3) n refl]
    ultimately show ?thesis by (intro exI [of _ ?t] exI [of _ "s\<lparr>hsize := ?sz, freep := Some prev\<rparr>"]) auto
  qed
qed

text \<open>The ring as seen from any of its blocks.\<close>

lemma ring_from:
  assumes "links ptr base bs base" "fp \<in> set (base # bs)" "distinct (base # bs)"
  shows "\<exists>rest. links ptr fp rest fp \<and> set (fp # rest) = set (base # bs) \<and> fp \<notin> set rest"
proof (cases "fp = base")
  case False
  then obtain xs ys where bs: "bs = xs @ fp # ys" using assms(2) split_list [of fp bs] by auto
  then have "links ptr base xs fp" "links ptr fp ys base" using assms(1) by (auto simp: links_append)
  then have "links ptr fp (ys @ base # xs) fp" by (simp add: links_append)
  then show ?thesis using bs assms(3) by (intro exI [of _ "ys @ base # xs"]) auto
qed (use assms in auto)

text \<open>One round of \<^verbatim>\<open>malloc\<close>: it finds a block that is large enough, or there is none and it asks for more memory at \<^verbatim>\<open>freep\<close>.\<close>

lemma malloc_round:
  assumes fp: "freep s = Some fp"
  shows "links (hptr s) prev xs fp \<Longrightarrow> fp \<notin> set xs \<Longrightarrow>
    (\<exists>prev' q. prev' \<in> set (prev # xs) \<and> q \<in> set (fp # xs) \<and> hptr s prev' = q \<and> n \<le> hsize s q \<and>
      malloc_loop grant n prev (hptr s prev) s = Some (apfst Some (take_block n prev' q s))) \<or>
    ((\<forall>q \<in> set (fp # xs). hsize s q < n) \<and>
      malloc_loop grant n prev (hptr s prev) s = Option.bind (morecore grant n s) (\<lambda>(r, s).
          case r of None \<Rightarrow> Some (None, s) | Some p \<Rightarrow> malloc_loop grant n p (hptr s p) s))"
proof (induction xs arbitrary: prev)
  case Nil
  then show ?case using fp by (cases "n \<le> hsize s fp") (subst malloc_loop.simps, auto simp: malloc_loop.simps [of grant n prev fp s])
next
  case (Cons x xs)
  have x: "hptr s prev = x" "links (hptr s) x xs fp" "x \<noteq> fp" using Cons.prems by auto
  show ?case
  proof (cases "n \<le> hsize s x")
    case True
    then have "malloc_loop grant n prev x s = Some (apfst Some (take_block n prev x s))" by (subst malloc_loop.simps) simp
    then show ?thesis using x True by (intro disjI1 exI [of _ prev] exI [of _ x]) simp
  next
    case False
    then have e: "malloc_loop grant n prev x s = malloc_loop grant n x (hptr s x) s" using x(3) fp by (subst malloc_loop.simps) simp
    show ?thesis using Cons.IH [OF x(2)] Cons.prems(2) False unfolding x(1) e by auto
  qed
qed

text \<open>The memory that \<^verbatim>\<open>sbrk\<close> gives is a block of the program's until \<^verbatim>\<open>free\<close> has put it into the ring.\<close>

lemma ring_grow:
  assumes r: "ring s bs A" and n: "0 < n" and base: "hbase s < brk s"
  shows "ring (s\<lparr>brk := brk s + n, hsize := (hsize s)(brk s := n)\<rparr>) bs (insert (brk s) A) \<and> brk s \<notin> A"
proof -
  let ?hp = "brk s" and ?sz = "(hsize s)(brk s := n)"
  have g: "gaps (hsize s) (hbase s) bs (brk s)" using r by (simp add: ring_def)
  have bs: "x \<noteq> ?hp \<and> x + hsize s x \<le> ?hp" if "x \<in> set bs" for x using gaps_mem [OF g that] by auto
  have A: "hbase s < a \<and> 0 < hsize s a \<and> a + hsize s a \<le> brk s" "a \<noteq> ?hp" "\<forall>f \<in> set bs. apart (hsize s) a f"
    "\<forall>a' \<in> A. a \<noteq> a' \<longrightarrow> apart (hsize s) a a'" if "a \<in> A" for a using r that by (fastforce simp: ring_def)+
  obtain p where p: "p \<in> set (hbase s # bs)" "freep s = Some p" using r by (auto simp: ring_def)
  have "?hp \<notin> set bs" "?hp \<notin> A" using bs A by blast+
  then have nhp: "\<forall>x \<in> A. x \<noteq> ?hp" by blast
  have g': "gaps ?sz (hbase s) bs (brk s + n)" using gaps_weaken [OF g, of "hbase s" "brk s + n"] \<open>?hp \<notin> set bs\<close> by (simp add: gaps_upd)
  have new: "apart ?sz ?hp x" "apart ?sz x ?hp" if "x \<noteq> ?hp" "x + hsize s x \<le> ?hp" for x using that by (simp_all add: apart_def)
  have "ring (s\<lparr>brk := brk s + n, hsize := ?sz\<rparr>) bs (insert ?hp A)"
  proof (rule ring_intro [where p = p], goal_cases)
    case (6 a)
    then consider "a = ?hp" | "a \<in> A" by auto
    then show ?case
    proof cases
      case 1
      then show ?thesis using base n bs A new by simp
    next
      case 2
      have old: "apart ?sz a x" if "x \<noteq> ?hp" "apart (hsize s) a x" for x using A(2) [OF 2] that by simp
      show ?thesis using A [OF 2] 2 bs new(2) [of a] old nhp by auto
    qed
  qed (use r p g' base in \<open>auto simp: ring_def\<close>)
  then show ?thesis using \<open>?hp \<notin> A\<close> by simp
qed

text \<open>\<^verbatim>\<open>morecore\<close> returns; if the kernel gives the memory, the ring has a block of the requested size.\<close>

definition core_units :: "nat \<Rightarrow> nat" where
  "core_units n = (if n < 4096 then 4096 else n)"

lemma morecore_ring:
  assumes r: "ring s bs A" and base: "hbase s < brk s" and n: "n < 2 ^ 27"
  shows "if grant (brk s) (int (core_units n * 16)) then
      \<exists>p s' bs' f. morecore grant n s = Some (Some p, s') \<and> freep s' = Some p \<and> ring s' bs' A \<and> f \<in> set bs' \<and> n \<le> hsize s' f \<and>
        hbase s' = hbase s \<and> brk s' = brk s + core_units n \<and> (\<forall>a \<in> A. hsize s' a = hsize s a)
    else morecore grant n s = Some (None, s)"
proof -
  let ?k = "core_units n"
  have k: "0 < ?k" "n \<le> ?k" "wrap32 (int (?k * 16)) = int (?k * 16)" using n by (auto simp: core_units_def intro!: wrap32_id)
  show ?thesis
  proof (cases "grant (brk s) (int (?k * 16))")
    case True
    let ?s = "s\<lparr>brk := brk s + ?k, hsize := (hsize s)(brk s := ?k)\<rparr>"
    note grown = ring_grow [OF r k(1) base]
    have sb: "sbrk grant (int (?k * 16)) s = (Some (brk s), s\<lparr>brk := brk s + ?k\<rparr>)" using True by (simp add: sbrk_def nat_add_distrib flip: of_nat_add)
    obtain s' bs' f where f: "free (brk s + 1) ?s = Some s'" "ring s' bs' (insert (brk s) A - {brk s})" "f \<in> set bs'"
      "extent (hsize ?s) (brk s) \<subseteq> extent (hsize s') f" "hbase s' = hbase ?s" "brk s' = brk ?s" "\<forall>a \<in> insert (brk s) A - {brk s}. hsize s' a = hsize ?s a"
      using free_ring [OF conjunct1 [OF grown] insertI1] by blast
    have nf: "n \<le> hsize s' f" using extent_le [OF f(4)] k(1,2) by simp
    have A: "insert (brk s) A - {brk s} = A" using grown by auto
    have sz: "\<forall>a \<in> A. hsize s' a = hsize s a" "ring s' bs' A" using f(2,7) grown unfolding A by auto
    obtain p where p: "freep s' = Some p" using f(2) by (auto simp: ring_def)
    have "morecore grant n s = Some (freep s', s')"
      using sb f(1) k(3) by (simp add: morecore_def Let_def core_units_def [symmetric])
    then have "\<exists>p s' bs' f. morecore grant n s = Some (Some p, s') \<and> freep s' = Some p \<and> ring s' bs' A \<and> f \<in> set bs' \<and> n \<le> hsize s' f \<and>
        hbase s' = hbase s \<and> brk s' = brk s + core_units n \<and> (\<forall>a \<in> A. hsize s' a = hsize s a)"
      using p f(3,5,6) nf sz by (intro exI [of _ p] exI [of _ s'] exI [of _ bs'] exI [of _ f]) simp
    then show ?thesis using True by (simp only: if_True)
  next
    case False
    then show ?thesis using k(3) by (simp add: morecore_def Let_def core_units_def [symmetric] sbrk_def)
  qed
qed

lemma malloc_search:
  assumes r: "ring s bs A" and fp: "freep s = Some fp" and n: "0 < n"
  shows "(\<exists>p s' bs'. malloc_loop grant n fp (hptr s fp) s = Some (Some (p + 1), s') \<and> ring s' bs' (insert p A) \<and> p \<notin> A \<and> hsize s' p = n \<and>
      hbase s' = hbase s \<and> brk s' = brk s \<and> (\<forall>a \<in> A. hsize s' a = hsize s a)) \<or>
    ((\<forall>q \<in> set bs. hsize s q < n) \<and>
      malloc_loop grant n fp (hptr s fp) s = Option.bind (morecore grant n s) (\<lambda>(r, s).
          case r of None \<Rightarrow> Some (None, s) | Some p \<Rightarrow> malloc_loop grant n p (hptr s p) s))"
proof -
  have c: "links (hptr s) (hbase s) bs (hbase s)" and g: "gaps (hsize s) (hbase s) bs (brk s)" and base: "hsize s (hbase s) = 0"
    and fp': "fp \<in> set (hbase s # bs)" using r fp by (auto simp: ring_def)
  have "distinct (hbase s # bs)" using gaps_distinct [OF g] gaps_mem [OF g] by auto
  then obtain rest where rest: "links (hptr s) fp rest fp" "set (fp # rest) = set (hbase s # bs)" "fp \<notin> set rest"
    using ring_from [OF c fp'] by blast
  consider prev q where "prev \<in> set (hbase s # bs)" "q \<in> set (hbase s # bs)" "hptr s prev = q" "n \<le> hsize s q"
      "malloc_loop grant n fp (hptr s fp) s = Some (apfst Some (take_block n prev q s))"
    | "\<forall>q \<in> set (hbase s # bs). hsize s q < n"
      "malloc_loop grant n fp (hptr s fp) s = Option.bind (morecore grant n s) (\<lambda>(r, s).
          case r of None \<Rightarrow> Some (None, s) | Some p \<Rightarrow> malloc_loop grant n p (hptr s p) s)"
    using malloc_round [OF fp rest(1,3), of n grant] unfolding rest(2) by blast
  then show ?thesis
  proof cases
    case 1
    then have "q \<in> set bs" using base n by auto
    from take_block_ring [OF r this 1(4) n 1(1,3)] show ?thesis unfolding 1(5) by auto
  qed simp
qed

lemma malloc_loop_ring:
  assumes r: "ring s bs A" and base: "hbase s < brk s" and fp: "freep s = Some fp" and n: "0 < n" "n < 2 ^ 27"
  shows "(\<exists>p s' bs'. malloc_loop grant n fp (hptr s fp) s = Some (Some (p + 1), s') \<and> ring s' bs' (insert p A) \<and> p \<notin> A \<and> hsize s' p = n \<and>
      hbase s' = hbase s \<and> brk s \<le> brk s' \<and> (\<forall>a \<in> A. hsize s' a = hsize s a)) \<or>
    (\<forall>q \<in> set bs. hsize s q < n) \<and> \<not> grant (brk s) (int (core_units n * 16)) \<and> malloc_loop grant n fp (hptr s fp) s = Some (None, s)"
proof -
  consider "\<exists>p s' bs'. malloc_loop grant n fp (hptr s fp) s = Some (Some (p + 1), s') \<and> ring s' bs' (insert p A) \<and> p \<notin> A \<and> hsize s' p = n \<and>
      hbase s' = hbase s \<and> brk s' = brk s \<and> (\<forall>a \<in> A. hsize s' a = hsize s a)"
    | "\<forall>q \<in> set bs. hsize s q < n" "malloc_loop grant n fp (hptr s fp) s = Option.bind (morecore grant n s) (\<lambda>(r, s).
          case r of None \<Rightarrow> Some (None, s) | Some p \<Rightarrow> malloc_loop grant n p (hptr s p) s)"
    using malloc_search [OF r fp n(1)] by blast
  then show ?thesis
  proof cases
    case 1
    then show ?thesis by (metis order_refl)
  next
    case 2
    note mc = morecore_ring [OF r base n(2), of grant]
    show ?thesis
    proof (cases "grant (brk s) (int (core_units n * 16))")
      case True
      then obtain p s1 bs1 f where m: "morecore grant n s = Some (Some p, s1)" "freep s1 = Some p" "ring s1 bs1 A" "f \<in> set bs1" "n \<le> hsize s1 f"
        "hbase s1 = hbase s" "brk s1 = brk s + core_units n" "\<forall>a \<in> A. hsize s1 a = hsize s a" using mc by auto
      have "\<not> (\<forall>q \<in> set bs1. hsize s1 q < n)" using m(4,5) by (meson not_le)
      then obtain p' s' bs' where "malloc_loop grant n p (hptr s1 p) s1 = Some (Some (p' + 1), s')" "ring s' bs' (insert p' A)" "p' \<notin> A" "hsize s' p' = n"
        "hbase s' = hbase s1" "brk s' = brk s1" "\<forall>a \<in> A. hsize s' a = hsize s1 a" using malloc_search [OF m(3,2) n(1), of grant] by blast
      then show ?thesis using 2(2) m by (intro disjI1 exI [of _ p'] exI [of _ s'] exI [of _ bs']) simp
    next
      case False
      then show ?thesis using 2 mc by simp
    qed
  qed
qed

lemma links_unique: "links ptr a xs z \<Longrightarrow> links ptr a ys z \<Longrightarrow> z \<notin> set xs \<Longrightarrow> z \<notin> set ys \<Longrightarrow> xs = ys"
proof (induction xs arbitrary: a ys)
  case Nil
  then show ?case by (cases ys) auto
next
  case (Cons x xs)
  then show ?case by (cases ys) auto
qed

lemma ring_unique: "ring s bs A \<Longrightarrow> ring s bs' A' \<Longrightarrow> bs = bs'"
  unfolding ring_def using links_unique gaps_mem by (metis less_irrefl)

lemma ring_first:
  assumes "hbase s < brk s"
  shows "ring (s\<lparr>hptr := (hptr s)(hbase s := hbase s), freep := Some (hbase s), hsize := (hsize s)(hbase s := 0)\<rparr>) [] {}"
  using assms by (simp add: ring_def)

text \<open>The units, with the header, that \<^verbatim>\<open>malloc\<close> needs for a number of bytes.\<close>

definition units :: "nat \<Rightarrow> nat" where
  "units nbytes = (nbytes + 16 - 1) div 16 + 1"

text \<open>
  C13: \<^verbatim>\<open>malloc\<close> of less than two gigabytes returns. It gives the program a block with room for the bytes that is inside the heap,
  apart from every block the program holds and from the free blocks, whose ring stays in order; no block of the program
  changes its size. It returns 0 only when no free block is large enough and the kernel refuses more memory.
\<close>

theorem malloc_correct:
  assumes inv: "heap_inv s A" and n: "nbytes \<le> 2 ^ 31 - 32"
  shows "(\<exists>p s'. malloc grant nbytes s = Some (Some (p + 1), s') \<and> heap_inv s' (insert p A) \<and> p \<notin> A \<and> nbytes \<le> 16 * (hsize s' p - 1) \<and>
      (\<forall>a \<in> A. hsize s' a = hsize s a)) \<or>
    (\<exists>s'. malloc grant nbytes s = Some (None, s') \<and> heap_inv s' A \<and> \<not> grant (brk s) (int (core_units (units nbytes) * 16)) \<and>
      (\<forall>bs. ring s' bs A \<longrightarrow> (\<forall>q \<in> set bs. hsize s' q < units nbytes)) \<and> (\<forall>a \<in> A. hsize s' a = hsize s a))"
proof -
  define t where "t = (if freep s = None then s\<lparr>hptr := (hptr s)(hbase s := hbase s), freep := Some (hbase s), hsize := (hsize s)(hbase s := 0)\<rparr> else s)"
  have base: "hbase s < brk s" using inv by (simp add: heap_inv_def)
  have u: "0 < units nbytes" "units nbytes < 2 ^ 27" "nbytes \<le> 16 * (units nbytes - 1)" using n by (auto simp: units_def)
  have "\<exists>bs. ring t bs A"
  proof (cases "freep s")
    case None
    then have "A = {}" using inv by (auto simp: heap_inv_def ring_def)
    then show ?thesis using ring_first [OF base] None by (auto simp: t_def)
  next
    case (Some fp)
    then show ?thesis using inv by (auto simp: heap_inv_def t_def)
  qed
  then obtain bs where r: "ring t bs A" by blast
  then obtain fp where fp: "freep t = Some fp" by (auto simp: ring_def)
  have t: "hbase t = hbase s" "brk t = brk s" by (simp_all add: t_def)
  have sz: "\<forall>a \<in> A. hsize t a = hsize s a" using inv by (auto simp: t_def heap_inv_def ring_def)
  have m: "malloc grant nbytes s = malloc_loop grant (units nbytes) fp (hptr t fp) t"
    using fp by (simp add: malloc_def Let_def units_def t_def)
  have un: "\<forall>bs'. ring t bs' A \<longrightarrow> bs' = bs" using r ring_unique by blast
  consider p s' bs' where "malloc grant nbytes s = Some (Some (p + 1), s')" "ring s' bs' (insert p A)" "p \<notin> A" "hsize s' p = units nbytes"
      "hbase s' = hbase s" "brk s \<le> brk s'" "\<forall>a \<in> A. hsize s' a = hsize t a"
    | "\<forall>q \<in> set bs. hsize t q < units nbytes" "\<not> grant (brk s) (int (core_units (units nbytes) * 16))" "malloc grant nbytes s = Some (None, t)"
    using malloc_loop_ring [OF r _ fp u(1,2), of grant] base unfolding m t by blast
  then show ?thesis
  proof cases
    case 1
    then have "heap_inv s' (insert p A)" "\<forall>a \<in> A. hsize s' a = hsize s a" "nbytes \<le> 16 * (hsize s' p - 1)"
      using sz base u(3) by (auto simp: heap_inv_def)
    with 1(1,3) show ?thesis by blast
  next
    case 2
    have "heap_inv t A" using base t r by (auto simp: heap_inv_def)
    with 2 un sz show ?thesis by blast
  qed
qed

text \<open>A program that has called neither, with a kernel that gives everything.\<close>

definition fresh_heap :: uheap where
  "fresh_heap = \<lparr>hbase = 100, hptr = (\<lambda>_. 0), hsize = (\<lambda>_. 0), freep = None, brk = 256\<rparr>"

lemma fresh_heap_inv: "heap_inv fresh_heap {}"
  by (simp add: heap_inv_def fresh_heap_def)

theorem malloc_correct_witness:
  "\<exists>p s'. malloc (\<lambda>_ _. True) 1000 fresh_heap = Some (Some (p + 1), s') \<and> heap_inv s' {p} \<and> 1000 \<le> 16 * (hsize s' p - 1)"
  using malloc_correct [OF fresh_heap_inv, of 1000 "\<lambda>_ _. True"] by auto

text \<open>
  C19: \<^verbatim>\<open>free\<close> of a block the program holds returns and keeps the invariant without that block. Afterwards the units in free blocks are
  those that were free and those of the block: nothing is lost. The whole freed block lies inside one free block, merged with its
  free neighbours, and no other block of the program changes its size.
\<close>

theorem free_correct:
  assumes "heap_inv s A" "p \<in> A"
  shows "\<exists>s' bs bs' f. free (p + 1) s = Some s' \<and> heap_inv s' (A - {p}) \<and> ring s bs A \<and> ring s' bs' (A - {p}) \<and>
    f \<in> set bs' \<and> extent (hsize s) p \<subseteq> extent (hsize s') f \<and>
    extents (hsize s') (set bs') = extents (hsize s) (set bs) \<union> extent (hsize s) p \<and> (\<forall>a \<in> A - {p}. hsize s' a = hsize s a)"
proof -
  obtain bs where r: "ring s bs A" using assms by (auto simp: heap_inv_def)
  from free_ring [OF r assms(2)] obtain s' bs' f where f: "free (p + 1) s = Some s'" "ring s' bs' (A - {p})" "f \<in> set bs'"
    "extent (hsize s) p \<subseteq> extent (hsize s') f" "extents (hsize s') (set bs') = extents (hsize s) (set bs) \<union> extent (hsize s) p"
    "hbase s' = hbase s" "brk s' = brk s" "\<forall>a \<in> A - {p}. hsize s' a = hsize s a" by blast
  then have "heap_inv s' (A - {p})" using assms(1) by (auto simp: heap_inv_def)
  with f r show ?thesis by blast
qed

text \<open>A block of 8 units at the start of the heap is held and the 24 units behind it are free.\<close>

definition used_heap :: uheap where
  "used_heap = \<lparr>hbase = 100, hptr = (\<lambda>a. if a = 100 then 264 else 100), hsize = (\<lambda>a. if a = 256 then 8 else if a = 264 then 24 else 0),
     freep = Some 100, brk = 288\<rparr>"

lemma used_heap_inv: "heap_inv used_heap {256}"
proof -
  have "ring used_heap [264] {256}" by (simp add: ring_def used_heap_def apart_def)
  then show ?thesis by (auto simp: heap_inv_def used_heap_def)
qed

theorem free_correct_witness:
  "\<exists>s' bs' f. free 257 used_heap = Some s' \<and> heap_inv s' {} \<and> ring s' bs' {} \<and> f \<in> set bs' \<and> {256..<264} \<subseteq> extent (hsize s') f \<and>
    extents (hsize s') (set bs') = {256..<288}"
proof -
  have r: "ring used_heap [264] {256}" by (simp add: ring_def used_heap_def apart_def)
  have e: "(257 :: nat) = 256 + 1" "{256} - {256 :: nat} = {}" by simp_all
  obtain s' bs bs' f where f: "free 257 used_heap = Some s'" "heap_inv s' {}" "ring used_heap bs {256}" "ring s' bs' {}" "f \<in> set bs'"
    "extent (hsize used_heap) 256 \<subseteq> extent (hsize s') f" "extents (hsize s') (set bs') = extents (hsize used_heap) (set bs) \<union> extent (hsize used_heap) 256"
    using free_correct [OF used_heap_inv singletonI] unfolding e by blast
  have "bs = [264]" using ring_unique [OF f(3) r] .
  then have "extents (hsize s') (set bs') = {264..<264 + 24} \<union> {256..<256 + 8}" using f(7) by (simp only: list.set extents_simps Un_empty_right) (simp add: extent_def used_heap_def)
  moreover have "{264..<264 + 24} \<union> {256..<256 + 8} = {256..<288 :: nat}" using ivl_disj_un_two(3) [of 256 264 "288 :: nat"] by (simp add: Un_commute)
  ultimately have "extents (hsize s') (set bs') = {256..<288}" by (rule trans)
  moreover have "{256..<264} \<subseteq> extent (hsize s') f" using f(6) by (simp add: extent_def used_heap_def)
  ultimately show ?thesis using f by blast
qed

text \<open>
  The bound on \<^verbatim>\<open>malloc\<close> is needed: the byte count of \<^verbatim>\<open>morecore\<close> is cut to the \<^verbatim>\<open>int\<close> that \<^verbatim>\<open>sbrk\<close> takes. A request of
  \<open>0xFFFFFFF1\<close> bytes extends the heap by one unit, and the block that \<^verbatim>\<open>malloc\<close> returns has its bytes behind the end of the heap.
\<close>

lemma malloc_huge_beyond_heap:
  assumes s: "freep s = None" "hbase s < brk s" and grant: "grant (brk s) 16"
  shows "\<exists>s'. malloc grant 0xFFFFFFF1 s = Some (Some (brk s'), s') \<and> brk s' = brk s + 1 \<and> hsize s' (brk s) = 2 ^ 28 + 1"
proof -
  let ?n = "0x10000001 :: nat"
  let ?t = "s\<lparr>hptr := (hptr s)(hbase s := hbase s), freep := Some (hbase s), hsize := (hsize s)(hbase s := 0)\<rparr>"
  let ?u = "?t\<lparr>brk := brk s + 1, hsize := (hsize ?t)(brk s := ?n), hptr := (hptr ?t)(brk s := hbase s, hbase s := brk s)\<rparr>"
  have w: "wrap32 (int (?n * 16)) = 16" by (simp add: wrap32_def)
  have ff: "free_find (brk s) v (hbase s) = Some (hbase s)" if "hptr v (hbase s) = hbase s" for v
    using that s(2) by (subst free_find.simps) simp
  have "morecore grant ?n ?t = Some (Some (hbase s), ?u)"
    using s grant w ff by (simp add: morecore_def Let_def sbrk_def nat_add_distrib free_def free_insert_def)
  moreover have "malloc_loop grant ?n (hbase s) (brk s) ?u = Some (Some (brk s + 1), ?u\<lparr>hptr := (hptr ?u)(hbase s := hbase s), freep := Some (hbase s)\<rparr>)"
    using s by (subst malloc_loop.simps) (simp add: take_block_def)
  moreover have "malloc grant 0xFFFFFFF1 s = malloc_loop grant ?n (hbase s) (hbase s) ?t" by (simp add: malloc_def Let_def s)
  ultimately show ?thesis using s by (simp add: malloc_loop.simps [of grant ?n "hbase s" "hbase s" ?t])
qed

end
