(* ===== verification/Spec2Isabelle.thy ===== *)
theory Spec2Isabelle
  imports Lottery Spinlock Fileio Path Boot Descriptors Faults Disk Grep ShellPrint Umalloc
begin

text \<open>
  Verification of an xv6 kernel for RISC-V in which processes are scheduled by lottery, the first page of every address space is
  kept unmapped so that null pointers fault, and system calls are counted. The sources are \<^verbatim>\<open>kernel/\<close> and three programs
  of \<^verbatim>\<open>user/\<close>. All names of C functions below are those of the sources, and the definitions carry the same names.

  \<^bold>\<open>The program.\<close> A trap (\<^verbatim>\<open>kernel/trap.c\<close>) enters the kernel from user space; a system call goes through the table of
  \<^verbatim>\<open>kernel/syscall.c\<close> to a handler in \<^verbatim>\<open>kernel/sysproc.c\<close> or \<^verbatim>\<open>kernel/sysfile.c\<close>. Handlers work on processes
  (\<^verbatim>\<open>kernel/proc.c\<close>), on address spaces (\<^verbatim>\<open>kernel/vm.c\<close>) whose pages come from the allocator (\<^verbatim>\<open>kernel/kalloc.c\<close>), and on open
  files (\<^verbatim>\<open>kernel/file.c\<close>), which are pipes (\<^verbatim>\<open>kernel/pipe.c\<close>), the console (\<^verbatim>\<open>kernel/console.c\<close>, \<^verbatim>\<open>kernel/uart.c\<close>) or inodes
  (\<^verbatim>\<open>kernel/fs.c\<close>). Inodes live on disk blocks, which are read through the buffer cache (\<^verbatim>\<open>kernel/bio.c\<close>), written through
  the log (\<^verbatim>\<open>kernel/log.c\<close>) and moved by the driver (\<^verbatim>\<open>kernel/virtio_disk.c\<close>).

  \<^bold>\<open>State and operations.\<close> The state of the kernel is one record, extended from component to component: \<open>kmem_state\<close> (memory and
  free list, \<open>Kalloc\<close>), \<open>proc_state\<close> (process table, scheduler, clock, \<open>Proc\<close>), then pipes, console, buffers and disk, log, file system,
  open files, driver, system call counters, control registers, and the registers of machine mode (\<open>Boot\<close>). A definition
  is polymorphic in the part of the record that it does not know, so that a later component calls it on its own states.
  Operations return an \<open>outcome\<close> (\<open>Prelude\<close>): \<^const>\<open>Done\<close> with a result and the new state, \<^const>\<open>Panic\<close> with the message of
  \<open>panic\<close>, or \<^const>\<open>Asleep\<close> with the channel and the state in which the process gave up the CPU. What a process does after it is woken is
  not part of the outcome of the call, except where a theorem says so: \<open>pipewrite\<close>, \<open>consoleread\<close>, \<open>uartwrite\<close>, the buffer
  lock and the disk driver are cut at the point where they sleep and can be run on. Pointers to table entries are indices. Machine integers are
  words of their width, or \<^typ>\<open>int\<close> with \<^verbatim>\<open>wrap32\<close> written out for the C type \<^verbatim>\<open>int\<close>; memory is bytes.

  \<^bold>\<open>Theories.\<close>

  \<^item> \<open>Prelude\<close>, \<open>Bytes\<close>, \<open>Ring\<close>: integers, outcomes, little-endian fields; the contract \<open>byte_queue\<close> of a bounded queue.
  \<^item> \<open>Klib\<close> (\<^verbatim>\<open>kernel/string.c\<close>), \<open>Printf\<close> (\<^verbatim>\<open>kernel/printf.c\<close>): the loops of the C library functions over memory against what
    they compute; numerals printed by \<open>printint\<close>.
  \<^item> \<open>Kalloc\<close> (\<^verbatim>\<open>kernel/kalloc.c\<close>): the free list threaded through the free pages; the contract \<open>page_allocator\<close> and that pages in use
    and free pages partition the managed memory along every sequence of requests; what \<open>kinit\<close> frees.
  \<^item> \<open>Vm\<close> (\<^verbatim>\<open>kernel/vm.c\<close>); \<open>Pagetable\<close>, \<open>Walk\<close>, \<open>Uvm\<close>, \<open>Ualloc\<close>, \<open>Ucopy\<close>: page tables as trees in memory, the
    invariant of an address space, and what \<open>mappages\<close>, \<open>uvmalloc\<close>, \<open>uvmdealloc\<close>, \<open>uvmcopy\<close> do to it and to every other address space.
  \<^item> \<open>Copy\<close>, \<open>UserMem\<close> (\<^verbatim>\<open>kernel/vm.c\<close>, \<^verbatim>\<open>kernel/proc.c\<close>): \<open>copyin\<close>, \<open>copyout\<close> and \<open>vmfault\<close> against the bytes that a process sees;
    page 0 is never accessible.
  \<^item> \<open>Rand\<close>, \<open>Proc\<close>, \<open>Lottery\<close>, \<open>Sched\<close> (\<^verbatim>\<open>kernel/proc.c\<close>): the generator has its full period; the scheduler takes the holder of the
    drawn ticket, shares are proportional to tickets and fair over a period; \<open>sleep\<close> and \<open>wakeup\<close>. These theorems are for a table that
    does not change between the two passes of a round; \<open>scheduler_round\<close> has what other harts do in between as a parameter, and then only
    a process that is runnable in the second pass runs. The sum of the tickets can wrap to 0, and then nothing is scheduled.
  \<^item> \<open>Spinlock\<close> (\<^verbatim>\<open>kernel/spinlock.c\<close>): a step relation over all harts, split where another hart can interfere, with the calls of \<open>push_off\<close> and \<open>pop_off\<close>
    that \<open>myproc\<close> and \<open>uartputc_sync\<close> make without a lock; mutual exclusion and interrupts in every reachable state. This is why the other theories run a critical section as one step.
  \<^item> \<open>Pipe\<close>, \<open>Console\<close>, \<open>Sleeplock\<close>: ring buffers as queues and as a line editor, across wrap-around of the counters; hand-over of a lock.
  \<^item> \<open>Bio\<close> (\<^verbatim>\<open>kernel/bio.c\<close>), \<open>Virtio\<close>, \<open>Disk\<close> (\<^verbatim>\<open>kernel/virtio_disk.c\<close>): \<open>bread\<close> returns the latest contents. The cache uses the disk as a
    one-step transfer; \<open>Disk\<close> proves that this is what the driver does with a device that serves the available ring as the standard says.
  \<^item> \<open>Log\<close> (\<^verbatim>\<open>kernel/log.c\<close>): a commit is atomic for a crash after any number of disk writes. A full log leaves no buffer for
    the commit, which panics.
  \<^item> \<open>Fs\<close> (\<^verbatim>\<open>kernel/fs.c\<close>); \<open>Txn\<close>, \<open>Balloc\<close>, \<open>Inode\<close>, \<open>Dinode\<close>, \<open>Fileio\<close>, \<open>Path\<close>: the contents of a file as a byte sequence, refined by \<open>readi\<close>
    and \<open>writei\<close> down to bitmap, indirect block and inode on disk; path names.
  \<^item> \<open>File\<close>, \<open>Sysarg\<close>, \<open>Sysfile\<close>, \<open>Exec\<close>, \<open>Process\<close>, \<open>Syscall\<close>, \<open>Trap\<close>, \<open>Boot\<close>: open files, system calls, \<open>kexec\<close>, \<open>kfork\<close>, \<open>kexit\<close>, \<open>kwait\<close>,
    traps and the start of the kernel, each handler as a whole.
  \<^item> \<open>Frames\<close>, \<open>Samples\<close>, \<open>Descriptors\<close>, \<open>Counters\<close>, \<open>Faults\<close>: properties of all system calls. The locales \<open>mem_view\<close>, \<open>state_view\<close> and
    \<open>global_view\<close> show once that operations keep every view of the state that they do not touch. Interpreted on the tables they give
    that reference counts of files are exact (\<open>Descriptors\<close>), that only the dispatcher changes the call counters (\<open>Counters\<close>) and that a null
    pointer ends the process (\<open>Faults\<close>). \<open>Counters\<close> also interleaves the harts in the increment \<^verbatim>\<open>syscall_counts[num]++\<close>, which no lock protects: a counter
    is at most the number of calls, and exact if increments do not overlap.
  \<^item> \<open>Shell\<close>, \<open>ShellPrint\<close> (\<^verbatim>\<open>user/sh.c\<close>), \<open>Grep\<close> (\<^verbatim>\<open>user/grep.c\<close>), \<open>Umalloc\<close> (\<^verbatim>\<open>user/umalloc.c\<close>): the parser of the shell ends on every line
    and inverts a printer; \<open>grep\<close> prints the lines that contain a match; \<open>malloc\<close> and \<open>free\<close> keep an ordered ring of free
    blocks apart from the blocks in use.

  \<^bold>\<open>Loops, bounds and fuel.\<close> Loops are structural or have a termination proof by the measure of what is left to do. \<open>strlen\<close>, \<open>grep\<close> and the
  two loops of \<open>Umalloc\<close> can run forever on a bad memory and are partial functions; the theorems say when they return. Only the parser
  of the shell has fuel: one unit per call of a parse function, and \<open>parsecmd\<close> starts with four units per byte of the line and four
  more, which is shown to be enough for every line. The theorem on \<open>malloc\<close> is for requests below two gigabytes;
  \<open>malloc_huge_beyond_heap\<close> shows why. Tables have the sizes of \<^verbatim>\<open>kernel/param.h\<close>.

  \<^bold>\<open>Hypotheses on code outside the sources.\<close> A disk that serves the requests of the ring (\<open>virtio_device\<close>), a \<open>read\<close> that delivers the file in
  pieces (\<open>reads\<close>), and the decision to give memory to \<open>sbrk\<close> (\<open>grant\<close>) are parameters. The answers of the interrupt controller and
  of the device registers are fields of the state, and the theorems hold for all of them.

  \<^bold>\<open>Not modelled.\<close> Assembly (\<^verbatim>\<open>kernel/entry.S\<close>, \<^verbatim>\<open>kernel/swtch.S\<close>, \<^verbatim>\<open>kernel/trampoline.S\<close>, \<^verbatim>\<open>kernel/kernelvec.S\<close> and the generated stubs): it needs a
  model of the instruction set; its effect is that registers are saved and restored, and the theories take it so. Memory ordering
  of the hardware: the fences of the lock code order its steps. The guards of \<open>sched\<close> on held locks and interrupts. The race of two schedulers in \<open>rand_next\<close>,
  which takes no lock. The wait of the other harts for \<^verbatim>\<open>started\<close>. Lock names. The other user
  programs, which are short sequences of system calls, the test programs, and \<^verbatim>\<open>mkfs/mkfs.c\<close>, which runs on the build host.
\<close>

end
